(* ===== verification/Sq_Prelude.thy ===== *)
theory Sq_Prelude
  imports Main "HOL-Library.Word" "HOL-Library.Signed_Division"
begin

text \<open>
  Shared vocabulary of the development: the C integer types as words of their width, memory
  seen from a pointer, NUL-terminated strings, and the bitwise lemmas on words that the
  components use.

  \<^item> \<open>u8\<close>, \<open>u16\<close>, \<open>u32\<close>, \<open>u64\<close> are the unsigned types of sqliteInt.h; a C
    \<open>int\<close> is an \<open>int\<close> (its arithmetic stays in range wherever it is used) and an
    \<open>i64\<close> is a 64-bit word read with \<open>sint\<close>.
  \<^item> \<open>mem\<close> is the memory a \<open>const unsigned char *p\<close> points at: \<open>p i\<close> is the
    byte \<open>p[i]\<close>.  That a routine reads only the bytes it may read is then a theorem
    (its result depends on those bytes alone), not an assumption of the model.
  \<^item> \<open>cstr\<close> is a NUL-terminated string without its terminator; \<open>zat z i\<close> is
    \<open>z[i]\<close>, the terminator for \<open>i = strlen z\<close>.
\<close>

unbundle bit_operations_syntax

type_synonym u8 = "8 word"
type_synonym u16 = "16 word"
type_synonym u32 = "32 word"
type_synonym u64 = "64 word"
type_synonym i64 = "64 word"
type_synonym mem = "nat \<Rightarrow> u8"
type_synonym cstr = "u8 list"

named_theorems bitblast \<open>rules that reduce a word equation to its bits\<close>

definition zat :: "cstr \<Rightarrow> nat \<Rightarrow> u8" where
  "zat z i = (if i < length z then z ! i else 0)"

definition cstring :: "cstr \<Rightarrow> bool" where
  "cstring z \<longleftrightarrow> 0 \<notin> set z"

definition mem_of :: "u8 list \<Rightarrow> mem" where
  "mem_of bs i = (if i < length bs then bs ! i else 0)"

definition agree :: "nat \<Rightarrow> mem \<Rightarrow> mem \<Rightarrow> bool" where
  "agree n p q \<longleftrightarrow> (\<forall>i<n. p i = q i)"

text \<open>The text encodings of sqlite.h.\<close>

definition SQLITE_UTF8 :: nat where "SQLITE_UTF8 = 1"
definition SQLITE_UTF16LE :: nat where "SQLITE_UTF16LE = 2"
definition SQLITE_UTF16BE :: nat where "SQLITE_UTF16BE = 3"

section \<open>Bits of words\<close>

lemma upt_64 [bitblast]:
  "[0..<64] =
      [0, 1, 2, 3, 4, 5, 6, 7, 8, 9, 10, 11, 12, 13, 14, 15, 16, 17, 18, 19, 20, 21, 22,
      23, 24, 25, 26, 27, 28, 29, 30, 31, 32, 33, 34, 35, 36, 37, 38, 39, 40, 41, 42, 43,
      44, 45, 46, 47, 48, 49, 50, 51, 52, 53, 54, 55, 56, 57, 58, 59, 60, 61, 62, 63]"
  by code_simp

lemma upt_32 [bitblast]:
  "[0..<32] =
      [0, 1, 2, 3, 4, 5, 6, 7, 8, 9, 10, 11, 12, 13, 14, 15, 16, 17, 18, 19, 20, 21, 22,
      23, 24, 25, 26, 27, 28, 29, 30, 31]"
  by code_simp

lemma upt_8 [bitblast]: "[0..<8] = [0, 1, 2, 3, 4, 5, 6, 7]"
  by code_simp

lemma suc_small [bitblast]: "Suc (Suc 0) = 2" "Suc 2 = 3"
  by simp_all

lemma u64_eq_bits: "(x :: u64) = y \<longleftrightarrow> list_all (\<lambda>n. bit x n = bit y n) [0..<64]"
  by (auto simp: list_all_iff intro: bit_word_eqI)

lemma u32_eq_bits: "(x :: u32) = y \<longleftrightarrow> list_all (\<lambda>n. bit x n = bit y n) [0..<32]"
  by (auto simp: list_all_iff intro: bit_word_eqI)

lemma u8_eq_bits: "(x :: u8) = y \<longleftrightarrow> list_all (\<lambda>n. bit x n = bit y n) [0..<8]"
  by (auto simp: list_all_iff intro: bit_word_eqI)

lemma bit_u8_beyond [bitblast]: "8 \<le> n \<Longrightarrow> bit (x :: u8) n = False"
  using bit_imp_le_length [of x n] by auto

lemma bit_u32_beyond [bitblast]: "32 \<le> n \<Longrightarrow> bit (x :: u32) n = False"
  using bit_imp_le_length [of x n] by auto

lemma bit_u64_beyond [bitblast]: "64 \<le> n \<Longrightarrow> bit (x :: u64) n = False"
  using bit_imp_le_length [of x n] by auto

lemma and_single_bit_u8: "(x :: u8) AND 128 = 0 \<longleftrightarrow> \<not> bit x 7"
  unfolding u8_eq_bits by (simp add: bitblast bit_simps)

lemma and_single_bit_u32: "(x :: u32) AND 128 = 0 \<longleftrightarrow> \<not> bit x 7"
  unfolding u32_eq_bits by (simp add: bitblast bit_simps)

lemma signed_u8_nonneg: "0 \<le>s (x :: u8) \<longleftrightarrow> \<not> bit x 7"
  using bit_last_iff [of x] by (simp add: word_sle_eq not_less)

lemma drop_bit_zero_iff: "drop_bit n v = 0 \<longleftrightarrow> unat v < 2 ^ n"
  for v :: "'a::len word"
  using unat_eq_zero [of "drop_bit n v"]
  by (auto simp: unat_drop_bit_eq drop_bit_nat_def div_eq_0_iff)

lemma unat_u64_less: "unat (v :: u64) < 2 ^ 64"
  using unsigned_less [of v, where 'a = nat] by simp

lemma unat_of_sint:
  fixes v :: i64
  assumes "0 \<le> sint v"
  shows "unat v = nat (sint v)"
proof -
  have "uint v = uint (word_of_int (sint v) :: i64)" by simp
  also have "\<dots> = sint v"
    using assms sint_lt [of v] by (simp only: unsigned_of_int) (simp add: take_bit_int_eq_self)
  finally show ?thesis by (metis nat_uint_eq)
qed

lemma sint_nonneg:
  assumes "unat p < 2 ^ 63"
  shows "sint (p :: i64) = int (unat p)"
proof -
  have "int (unat p) < int (2 ^ 63)" using assms by (simp only: of_nat_less_iff)
  moreover have "- (2 ^ 63) \<le> uint p" using uint_ge_0 [of p] by (rule order_trans [rotated]) simp
  ultimately show ?thesis by (simp add: sint_uint signed_take_bit_int_eq_self)
qed

lemma sless_eq_unat:
  "unat p < 2 ^ 63 \<Longrightarrow> unat q < 2 ^ 63 \<Longrightarrow> p \<le>s q \<longleftrightarrow> unat p \<le> unat (q :: i64)"
  by (simp add: word_sle_eq sint_nonneg del: of_nat_unat)

lemma u8_lt_80: "(b :: u8) < 0x80 \<longleftrightarrow> \<not> bit b 7"
  using drop_bit_eq_zero_iff_not_bit_last [of b] drop_bit_zero_iff [of 7 b]
  by (simp add: word_less_nat_alt)

lemma drop_bit_zero_mono: "drop_bit m (v :: u64) = 0 \<Longrightarrow> m \<le> n \<Longrightarrow> drop_bit n v = 0"
  using drop_bit_drop_bit [of "n - m" m v] by (simp add: add.commute)

section \<open>Memory\<close>

lemma agree_refl [simp]: "agree n p p"
  by (simp add: agree_def)

lemma agree_sym: "agree n p q \<Longrightarrow> agree n q p"
  by (simp add: agree_def)

lemma agree_mono: "agree n p q \<Longrightarrow> m \<le> n \<Longrightarrow> agree m p q"
  by (simp add: agree_def)

lemma agree_trans: "agree n p q \<Longrightarrow> agree n q r \<Longrightarrow> agree n p r"
  by (simp add: agree_def)

lemma agree_mem_of_append: "agree (length xs) (mem_of (xs @ ys)) (mem_of xs)"
  by (simp add: agree_def mem_of_def nth_append)

lemma agree_split:
  "agree (length xs + n) p (mem_of (xs @ ys)) \<Longrightarrow>
   agree (length xs) p (mem_of xs) \<and> agree n (\<lambda>i. p (length xs + i)) (mem_of ys)"
  by (auto simp: agree_def mem_of_def nth_append)

lemma zat_append_left [simp]: "i < length xs \<Longrightarrow> zat (xs @ ys) i = zat xs i"
  by (simp add: zat_def nth_append)

lemma zat_append_right [simp]: "zat (xs @ ys) (length xs + i) = zat ys i"
  by (simp add: zat_def nth_append)

lemma zat_Cons [simp]: "zat (x # xs) 0 = x" "zat (x # xs) (Suc i) = zat xs i"
  by (simp_all add: zat_def)

lemma zat_Nil [simp]: "zat [] i = 0"
  by (simp add: zat_def)

lemma zat_in_set: "zat z i \<noteq> 0 \<Longrightarrow> zat z i \<in> set z"
  by (simp add: zat_def split: if_splits)

lemma cstring_zat_zero: "cstring z \<Longrightarrow> zat z i = 0 \<longleftrightarrow> length z \<le> i"
  by (auto simp: cstring_def zat_def in_set_conv_nth)

section \<open>Codecs\<close>

text \<open>
  The contract every serialised form of the file format has: what the writer stored, the
  reader returns, with the number of bytes it took, whatever follows in memory.  A client
  that stores a sequence of values reads the sequence back.
\<close>

primrec decode_seq :: "(mem \<Rightarrow> nat \<times> 'a) \<Rightarrow> nat \<Rightarrow> mem \<Rightarrow> nat \<times> 'a list" where
  "decode_seq dec 0 p = (0, [])"
| "decode_seq dec (Suc n) p =
     (let (k, v) = dec p; (m, vs) = decode_seq dec n (\<lambda>i. p (k + i)) in (k + m, v # vs))"

locale byte_codec =
  fixes enc :: "'a \<Rightarrow> u8 list"
    and dec :: "mem \<Rightarrow> nat \<times> 'a"
    and valid :: "'a \<Rightarrow> bool"
  assumes dec_enc: "valid v \<Longrightarrow> agree (length (enc v)) p (mem_of (enc v)) \<Longrightarrow>
    dec p = (length (enc v), v)"
begin

lemma enc_prefix_free:
  assumes "valid v" and "valid w" and "enc w = enc v @ ys"
  shows "v = w"
proof -
  have "dec (mem_of (enc w)) = (length (enc v), v)"
    using assms dec_enc agree_mem_of_append by simp
  moreover have "dec (mem_of (enc w)) = (length (enc w), w)"
    using assms dec_enc by simp
  ultimately show ?thesis by simp
qed

lemma enc_inj: "valid v \<Longrightarrow> valid w \<Longrightarrow> enc v = enc w \<Longrightarrow> v = w"
  using enc_prefix_free [of v w "[]"] by simp

lemma decode_seq_enc:
  assumes "\<forall>v \<in> set vs. valid v"
    and "agree (length (concat (map enc vs))) p (mem_of (concat (map enc vs)))"
  shows "decode_seq dec (length vs) p = (length (concat (map enc vs)), vs)"
  using assms
proof (induction vs arbitrary: p)
  case (Cons v vs)
  let ?r = "concat (map enc vs)"
  from Cons.prems(2) have "agree (length (enc v)) p (mem_of (enc v))"
    and rest: "agree (length ?r) (\<lambda>i. p (length (enc v) + i)) (mem_of ?r)"
    using agree_split by auto
  with Cons.prems(1) have "dec p = (length (enc v), v)"
    by (simp add: dec_enc)
  with Cons.IH [OF _ rest] Cons.prems(1) show ?case by simp
qed simp

end

lemma zat_Cons_0 [simp]: "zat (c # z) 0 = c"
  by (simp add: zat_def)

section \<open>Chopping a text into tokens\<close>

text \<open>
  A tokenizer returns the length and the type of the token at the start of a text.  One that always
  makes progress, and never runs past the end, chops a text into pieces that make up the text.
\<close>

function chop :: "(cstr \<Rightarrow> nat \<times> nat) \<Rightarrow> cstr \<Rightarrow> (nat \<times> cstr) list" where
  "chop tok z =
     (if z = [] then []
      else
        let (n, t) = tok z
        in if n = 0 then [] else (t, take n z) # chop tok (drop n z))"
  by pat_completeness auto
termination
  by (relation "measure (\<lambda>(tok, z). length z)") auto

declare chop.simps [simp del]

locale tokenizer =
  fixes tok :: "cstr \<Rightarrow> nat \<times> nat"
  assumes tok_progress: "z \<noteq> [] \<Longrightarrow> cstring z \<Longrightarrow> 0 < fst (tok z)"
    and tok_in_text: "z \<noteq> [] \<Longrightarrow> cstring z \<Longrightarrow> fst (tok z) \<le> length z"
begin

lemma chop_Nil [simp]: "chop tok [] = []"
  by (simp add: chop.simps)

lemma chop_step:
  "z \<noteq> [] \<Longrightarrow> cstring z \<Longrightarrow> tok z = (n, t) \<Longrightarrow> chop tok z = (t, take n z) # chop tok (drop n z)"
  using tok_progress [of z] by (subst chop.simps) auto

lemma cstring_drop: "cstring z \<Longrightarrow> cstring (drop n z)"
  using set_drop_subset [of n z] by (auto simp: cstring_def)

text \<open>The pieces are the text, none is empty, and each is what the tokenizer sees at its place.\<close>

lemma chop_text: "cstring z \<Longrightarrow> concat (map snd (chop tok z)) = z \<and> [] \<notin> set (map snd (chop tok z))"
proof (induction z rule: measure_induct_rule [where f = length])
  case (less z)
  show ?case
  proof (cases "z = []")
    case False
    obtain n t where nt: "tok z = (n, t)" by (metis surj_pair)
    have n: "0 < n" "n \<le> length z" using tok_progress tok_in_text False less.prems nt by fastforce+
    have "length (drop n z) < length z" using n False by simp
    from less.IH [OF this cstring_drop [OF less.prems]] n False show ?thesis
      by (simp add: chop_step [OF False less.prems nt])
  qed simp
qed

lemma chop_pieces:
  assumes "cstring z" "(t, w) \<in> set (chop tok z)"
  shows "\<exists>i \<le> length z. \<exists>n. tok (drop i z) = (n, t) \<and> w = take n (drop i z)"
  using assms
proof (induction z rule: measure_induct_rule [where f = length])
  case (less z)
  have ne: "z \<noteq> []" using less.prems(2) by auto
  obtain n u where nu: "tok z = (n, u)" by (metis surj_pair)
  have n: "0 < n" "n \<le> length z" using tok_progress tok_in_text ne less.prems(1) nu by fastforce+
  consider "t = u" "w = take n z" | "(t, w) \<in> set (chop tok (drop n z))"
    using less.prems(2) by (auto simp: chop_step [OF ne less.prems(1) nu])
  then show ?case
  proof cases
    case 1
    then show ?thesis using nu by (intro exI [of _ 0]) auto
  next
    case 2
    have "length (drop n z) < length z" using n ne by simp
    from less.IH [OF this cstring_drop [OF less.prems(1)] 2] obtain i m where
      "i \<le> length z - n" "tok (drop (n + i) z) = (m, t)" "w = take m (drop (n + i) z)"
      by (auto simp: add.commute)
    with n(2) show ?thesis by (intro exI [of _ "n + i"]) auto
  qed
qed

end

end
