(* ===== verification/Sq_Varint.thy ===== *)
theory Sq_Varint
  imports Sq_Prelude
begin

text \<open>
  Variable-length integers and big-endian words: \<open>putVarint64\<close>, \<open>sqlite3PutVarint\<close>,
  \<open>sqlite3GetVarint\<close>, \<open>sqlite3GetVarint32\<close>, \<open>sqlite3VarintLen\<close>,
  \<open>sqlite3Get4byte\<close> and \<open>sqlite3Put4byte\<close> of util.c.  A write returns the bytes
  stored at \<open>p[0..n-1]\<close>; the \<open>n\<close> the C function returns is their number.  A read
  takes the memory at \<open>p\<close> and returns the byte count and the value.
\<close>

section \<open>Writing\<close>

text \<open>The loop \<open>for(i=7; i>=0; i--)\<close> of the nine-byte form, filling from the right.\<close>

fun put_hi :: "nat \<Rightarrow> u64 \<Rightarrow> u8 list \<Rightarrow> u8 list" where
  "put_hi 0 v acc = acc"
| "put_hi (Suc i) v acc =
     put_hi i (drop_bit 7 v) (ucast ((v AND 0x7f) OR 0x80) # acc)"

text \<open>The \<open>do \<dots> while( v!=0 )\<close> loop that fills \<open>buf\<close>, least significant group first.\<close>

function put_buf :: "u64 \<Rightarrow> u8 list" where
  "put_buf v = ucast ((v AND 0x7f) OR 0x80) #
     (if drop_bit 7 v = 0 then [] else put_buf (drop_bit 7 v))"
  by pat_completeness auto

lemma drop_bit7_decreases: "drop_bit 7 v \<noteq> 0 \<Longrightarrow> unat (drop_bit 7 v) < unat (v :: u64)"
  by (cases "v = 0") (simp_all add: drop_bit_eq_div unat_div unat_gt_0)

termination put_buf
  by (relation "measure unat") (auto intro: drop_bit7_decreases)

declare put_buf.simps [simp del]

definition putVarint64 :: "u64 \<Rightarrow> u8 list" where
  "putVarint64 v =
     (if v AND push_bit 32 0xff000000 \<noteq> 0
      then put_hi 8 (drop_bit 8 v) [ucast v]
      else let buf = put_buf v in rev (buf[0 := (buf ! 0) AND 0x7f]))"

definition sqlite3PutVarint :: "u64 \<Rightarrow> u8 list" where
  "sqlite3PutVarint v =
     (if v \<le> 0x7f then [ucast (v AND 0x7f)]
      else if v \<le> 0x3fff
      then [ucast ((drop_bit 7 v AND 0x7f) OR 0x80), ucast (v AND 0x7f)]
      else putVarint64 v)"

section \<open>Reading\<close>

definition SLOT_2_0 :: u32 where "SLOT_2_0 = 0x001fc07f"
definition SLOT_4_2_0 :: u32 where "SLOT_4_2_0 = 0xf01fc07f"

text \<open>
  The unrolled decoder.  \<open>a\<close>, \<open>b\<close> and \<open>s\<close> are the three 32-bit accumulators of the
  source, numbered where they are assigned again; the moving pointer \<open>p\<close> is written as
  the index it has reached.
\<close>

definition sqlite3GetVarint :: "mem \<Rightarrow> nat \<times> u64" where
  "sqlite3GetVarint p =
     (if 0 \<le>s p 0 then (1, ucast (p 0))
      else if 0 \<le>s p 1 then
        (2, ucast (push_bit 7 (ucast (p 0 AND 0x7f) :: u32) OR ucast (p 1)))
      else let
        a = push_bit 14 (ucast (p 0) :: u32);
        b = (ucast (p 1) :: u32);
        a = a OR ucast (p 2)
      in if a AND 0x80 = 0 then
        (3, ucast ((a AND SLOT_2_0) OR push_bit 7 (b AND 0x7f)))
      else let
        a = a AND SLOT_2_0;
        b = push_bit 14 b;
        b = b OR ucast (p 3)
      in if b AND 0x80 = 0 then
        (4, ucast (push_bit 7 a OR (b AND SLOT_2_0)))
      else let
        b = b AND SLOT_2_0;
        s = a;
        a = push_bit 14 a;
        a = a OR ucast (p 4)
      in if a AND 0x80 = 0 then
        (5, push_bit 32 (ucast (drop_bit 18 s)) OR ucast (a OR push_bit 7 b))
      else let
        s = push_bit 7 s;
        s = s OR b;
        b = push_bit 14 b;
        b = b OR ucast (p 5)
      in if b AND 0x80 = 0 then
        (6, push_bit 32 (ucast (drop_bit 18 s)) OR ucast (push_bit 7 (a AND SLOT_2_0) OR b))
      else let
        a = push_bit 14 a;
        a = a OR ucast (p 6)
      in if a AND 0x80 = 0 then
        (7, push_bit 32 (ucast (drop_bit 11 s)) OR
            ucast ((a AND SLOT_4_2_0) OR push_bit 7 (b AND SLOT_2_0)))
      else let
        a = a AND SLOT_2_0;
        b = push_bit 14 b;
        b = b OR ucast (p 7)
      in if b AND 0x80 = 0 then
        (8, push_bit 32 (ucast (drop_bit 4 s)) OR
            ucast (push_bit 7 a OR (b AND SLOT_4_2_0)))
      else let
        a = push_bit 15 a;
        a = a OR ucast (p 8);
        b = b AND SLOT_2_0;
        b = push_bit 8 b;
        a = a OR b;
        s = push_bit 4 s;
        b = ucast (p 4);
        b = b AND 0x7f;
        b = drop_bit 3 b;
        s = s OR b
      in (9, push_bit 32 (ucast s) OR ucast a))"

definition SQLITE_MAX_U32 :: u64 where "SQLITE_MAX_U32 = push_bit 32 1 - 1"

definition sqlite3GetVarint32 :: "mem \<Rightarrow> nat \<times> u32" where
  "sqlite3GetVarint32 p =
     (if p 1 AND 0x80 = 0 then
        (2, push_bit 7 (ucast (p 0 AND 0x7f)) OR ucast (p 1))
      else if p 2 AND 0x80 = 0 then
        (3, push_bit 14 (ucast (p 0 AND 0x7f)) OR push_bit 7 (ucast (p 1 AND 0x7f)) OR ucast (p 2))
      else let (n, v64) = sqlite3GetVarint p in
        if v64 AND SQLITE_MAX_U32 \<noteq> v64 then (n, 0xffffffff) else (n, ucast v64))"

text \<open>The macro \<open>getVarint32\<close>, which inlines the one-byte case.\<close>

definition getVarint32 :: "mem \<Rightarrow> nat \<times> u32" where
  "getVarint32 p = (if p 0 < 0x80 then (1, ucast (p 0)) else sqlite3GetVarint32 p)"

text \<open>\<open>for(i=1; (v >>= 7)!=0; i++)\<close>\<close>

function varint_len_loop :: "nat \<Rightarrow> u64 \<Rightarrow> nat" where
  "varint_len_loop i v =
     (if drop_bit 7 v \<noteq> 0 then varint_len_loop (i + 1) (drop_bit 7 v) else i)"
  by pat_completeness auto
termination
  by (relation "measure (\<lambda>(i, v). unat v)") (auto intro: drop_bit7_decreases)

declare varint_len_loop.simps [simp del]

definition sqlite3VarintLen :: "u64 \<Rightarrow> nat" where
  "sqlite3VarintLen v = varint_len_loop 1 v"

definition sqlite3Get4byte :: "mem \<Rightarrow> u32" where
  "sqlite3Get4byte p = push_bit 24 (ucast (p 0)) OR push_bit 16 (ucast (p 1)) OR
     push_bit 8 (ucast (p 2)) OR ucast (p 3)"

definition sqlite3Put4byte :: "u32 \<Rightarrow> u8 list" where
  "sqlite3Put4byte v =
     [ucast (drop_bit 24 v), ucast (drop_bit 16 v), ucast (drop_bit 8 v), ucast v]"

section \<open>The reference decoder\<close>

text \<open>
  The format as the comment above \<open>putVarint64\<close> states it: up to eight bytes carry seven
  bits each, most significant first, with the eighth bit saying that another byte follows;
  a ninth byte carries eight bits.
\<close>

function varint_ref :: "nat \<Rightarrow> u64 \<Rightarrow> mem \<Rightarrow> nat \<times> u64" where
  "varint_ref i acc p =
     (if 8 \<le> i then (9, push_bit 8 acc OR ucast (p i))
      else if bit (p i) 7
      then varint_ref (i + 1) (push_bit 7 acc OR (ucast (p i) AND 0x7f)) p
      else (i + 1, push_bit 7 acc OR ucast (p i)))"
  by pat_completeness auto
termination
  by (relation "measure (\<lambda>(i, acc, p). 8 - i)") auto

declare varint_ref.simps [simp del]

section \<open>The decoder meets the reference\<close>

lemma varint_ref_1:
  "varint_ref (Suc 0) acc p = (if bit (p 1) 7
     then varint_ref 2 (push_bit 7 acc OR (ucast (p 1) AND 0x7f)) p
     else (2, push_bit 7 acc OR ucast (p 1)))"
  by (subst varint_ref.simps) (simp add: numeral_2_eq_2)

lemmas varint_ref_steps =
  varint_ref.simps [of 0, simplified] varint_ref_1 varint_ref.simps [of 2, simplified]
  varint_ref.simps [of 3, simplified] varint_ref.simps [of 4, simplified]
  varint_ref.simps [of 5, simplified] varint_ref.simps [of 6, simplified]
  varint_ref.simps [of 7, simplified] varint_ref.simps [of 8, simplified]

lemmas getVarint_unfold = sqlite3GetVarint_def Let_def signed_u8_nonneg and_single_bit_u32
  varint_ref_steps SLOT_2_0_def SLOT_4_2_0_def

text \<open>One lemma per branch: the first byte without the flag bit decides.\<close>

lemma getVarint_1:
  "\<not> bit (p 0) 7 \<Longrightarrow>
   sqlite3GetVarint p = varint_ref 0 0 p"
  by (simp add: getVarint_unfold)

lemma getVarint_2:
  "bit (p 0) 7 \<Longrightarrow> \<not> bit (p 1) 7 \<Longrightarrow>
   sqlite3GetVarint p = varint_ref 0 0 p"
  by (simp add: getVarint_unfold bit_simps) (simp add: u64_eq_bits bitblast bit_simps)

lemma getVarint_3:
  "bit (p 0) 7 \<Longrightarrow>
   bit (p 1) 7 \<Longrightarrow> \<not> bit (p 2) 7 \<Longrightarrow>
   sqlite3GetVarint p = varint_ref 0 0 p"
  by (simp add: getVarint_unfold bit_simps) (simp add: u64_eq_bits bitblast bit_simps)

lemma getVarint_4:
  "bit (p 0) 7 \<Longrightarrow> bit (p 1) 7 \<Longrightarrow>
   bit (p 2) 7 \<Longrightarrow> \<not> bit (p 3) 7 \<Longrightarrow>
   sqlite3GetVarint p = varint_ref 0 0 p"
  by (simp add: getVarint_unfold bit_simps) (simp add: u64_eq_bits bitblast bit_simps)

lemma getVarint_5:
  "bit (p 0) 7 \<Longrightarrow> bit (p 1) 7 \<Longrightarrow>
   bit (p 2) 7 \<Longrightarrow> bit (p 3) 7 \<Longrightarrow> \<not> bit (p 4) 7 \<Longrightarrow>
   sqlite3GetVarint p = varint_ref 0 0 p"
  by (simp add: getVarint_unfold bit_simps) (simp add: u64_eq_bits bitblast bit_simps)

lemma getVarint_6:
  "bit (p 0) 7 \<Longrightarrow> bit (p 1) 7 \<Longrightarrow> bit (p 2) 7 \<Longrightarrow>
   bit (p 3) 7 \<Longrightarrow> bit (p 4) 7 \<Longrightarrow> \<not> bit (p 5) 7 \<Longrightarrow>
   sqlite3GetVarint p = varint_ref 0 0 p"
  by (simp add: getVarint_unfold bit_simps) (simp add: u64_eq_bits bitblast bit_simps)

lemma getVarint_7:
  "bit (p 0) 7 \<Longrightarrow> bit (p 1) 7 \<Longrightarrow> bit (p 2) 7 \<Longrightarrow>
   bit (p 3) 7 \<Longrightarrow> bit (p 4) 7 \<Longrightarrow> bit (p 5) 7 \<Longrightarrow> \<not> bit (p 6) 7 \<Longrightarrow>
   sqlite3GetVarint p = varint_ref 0 0 p"
  by (simp add: getVarint_unfold bit_simps) (simp add: u64_eq_bits bitblast bit_simps)

lemma getVarint_8:
  "bit (p 0) 7 \<Longrightarrow> bit (p 1) 7 \<Longrightarrow> bit (p 2) 7 \<Longrightarrow> bit (p 3) 7 \<Longrightarrow>
   bit (p 4) 7 \<Longrightarrow> bit (p 5) 7 \<Longrightarrow> bit (p 6) 7 \<Longrightarrow> \<not> bit (p 7) 7 \<Longrightarrow>
   sqlite3GetVarint p = varint_ref 0 0 p"
  by (simp add: getVarint_unfold bit_simps) (simp add: u64_eq_bits bitblast bit_simps)

lemma getVarint_9:
  "bit (p 0) 7 \<Longrightarrow> bit (p 1) 7 \<Longrightarrow> bit (p 2) 7 \<Longrightarrow> bit (p 3) 7 \<Longrightarrow>
   bit (p 4) 7 \<Longrightarrow> bit (p 5) 7 \<Longrightarrow> bit (p 6) 7 \<Longrightarrow> bit (p 7) 7 \<Longrightarrow>
   sqlite3GetVarint p = varint_ref 0 0 p"
  by (simp add: getVarint_unfold bit_simps) (simp add: u64_eq_bits bitblast bit_simps)

lemma getVarint_eq_ref: "sqlite3GetVarint p = varint_ref 0 0 p"
  by (cases "bit (p 0) 7", cases "bit (p 1) 7", cases "bit (p 2) 7", cases "bit (p 3) 7",
      cases "bit (p 4) 7", cases "bit (p 5) 7", cases "bit (p 6) 7", cases "bit (p 7) 7")
    (simp_all add: getVarint_1 getVarint_2 getVarint_3 getVarint_4 getVarint_5 getVarint_6
      getVarint_7 getVarint_8 getVarint_9)

section \<open>Writer and reader\<close>

abbreviation varint_join :: "u64 \<Rightarrow> u8 \<Rightarrow> u64" where
  "varint_join acc b \<equiv> push_bit 7 acc OR (ucast b AND 0x7f)"

lemma varint_ref_more:
  assumes "\<And>j. j < length gs \<Longrightarrow> p (i + j) = gs ! j \<and> bit (gs ! j) 7"
    and "i + length gs \<le> 8"
  shows "varint_ref i acc p = varint_ref (i + length gs) (foldl varint_join acc gs) p"
  using assms
proof (induction gs arbitrary: i acc)
  case (Cons g gs)
  from Cons.prems(1) [of 0] have g: "p i = g" "bit g 7" by auto
  have "p (Suc i + j) = gs ! j \<and> bit (gs ! j) 7" if "j < length gs" for j
    using Cons.prems(1) [of "Suc j"] that by simp
  with Cons.IH [of "Suc i"] Cons.prems(2) g show ?case
    by (subst varint_ref.simps) simp
qed simp

lemma foldl_put_buf:
  "foldl varint_join acc (rev (put_buf v)) = push_bit (7 * length (put_buf v)) acc OR v"
proof (induction v rule: put_buf.induct)
  case (1 v)
  let ?b = "ucast ((v AND 0x7f) OR 0x80) :: u8"
  have low: "ucast ?b AND 0x7f = v AND 0x7f"
    by (simp add: u64_eq_bits bitblast bit_simps)
  have split: "push_bit 7 (drop_bit 7 v) OR (v AND 0x7f) = v"
    by (simp add: u64_eq_bits bitblast bit_simps)
  show ?case
  proof (cases "drop_bit 7 v = 0")
    case True
    with split low show ?thesis by (simp add: put_buf.simps [of v])
  next
    case False
    have "foldl varint_join acc (rev (put_buf v)) =
        push_bit 7 (push_bit (7 * length (put_buf (drop_bit 7 v))) acc OR drop_bit 7 v) OR (v AND 0x7f)"
      using "1.IH" [OF False] False low by (simp add: put_buf.simps [of v])
    also have "\<dots> = push_bit (7 * length (put_buf v)) acc OR
        (push_bit 7 (drop_bit 7 v) OR (v AND 0x7f))"
      using False by (simp add: put_buf.simps [of v] push_bit_or or.assoc)
    finally show ?thesis using split by simp
  qed
qed

lemma put_buf_nonempty [simp]: "put_buf v \<noteq> []"
  by (simp add: put_buf.simps [of v])

lemma length_put_buf: "0 < k \<Longrightarrow> drop_bit (7 * k) v = 0 \<longleftrightarrow> length (put_buf v) \<le> k"
proof (induction v arbitrary: k rule: put_buf.induct)
  case (1 v)
  show ?case
  proof (cases "k = 1")
    case True then show ?thesis by (auto simp add: put_buf.simps [of v])
  next
    case False
    then obtain k' where k: "k = Suc k'" "0 < k'" using "1.prems" by (cases k) auto
    have "drop_bit (7 * k) v = drop_bit (7 * k') (drop_bit 7 v)"
      by (simp add: k drop_bit_drop_bit add.commute)
    with "1.IH" [OF _ k(2)] show ?thesis
      by (cases "drop_bit 7 v = 0") (simp_all add: put_buf.simps [of v] k)
  qed
qed

lemma put_buf_bit7: "b \<in> set (put_buf v) \<Longrightarrow> bit b 7"
proof (induction v rule: put_buf.induct)
  case (1 v)
  then show ?case
    by (subst (asm) (2) put_buf.simps) (auto simp: bit_simps split: if_splits)
qed

lemma varint_len_loop_put_buf: "varint_len_loop i v + 1 = i + length (put_buf v)"
proof (induction i v rule: varint_len_loop.induct)
  case (1 i v)
  then show ?case by (simp add: put_buf.simps [of v] varint_len_loop.simps [of i v])
qed

lemma mask_top_byte: "v AND push_bit 32 0xff000000 = 0 \<longleftrightarrow> drop_bit 56 (v :: u64) = 0"
  by (simp add: u64_eq_bits bitblast bit_simps)

lemma varint_ref_put64_short:
  assumes top: "drop_bit 56 v = 0" and p: "agree (length (putVarint64 v)) p (mem_of (putVarint64 v))"
  shows "varint_ref 0 0 p = (length (putVarint64 v), v)"
proof -
  define gs where "gs = rev (tl (put_buf v))"
  define l :: u8 where "l = hd (put_buf v) AND 0x7f"
  have put: "putVarint64 v = gs @ [l]"
    using top by (cases "put_buf v") (simp_all add: putVarint64_def mask_top_byte [simplified] gs_def l_def Let_def)
  have len: "length gs < 8"
    using length_put_buf [of 8 v] top by (simp add: gs_def)
  have gs: "p (0 + j) = gs ! j \<and> bit (gs ! j) 7" if "j < length gs" for j
  proof -
    have "gs ! j \<in> set (put_buf v)"
      using that nth_mem [OF that] list.set_sel(2) [OF put_buf_nonempty] by (auto simp: gs_def)
    then show ?thesis
      using p that by (auto simp: put agree_def mem_of_def nth_append intro: put_buf_bit7)
  qed
  have l: "p (length gs) = l" "\<not> bit l 7"
    using p by (simp_all add: put agree_def mem_of_def l_def bit_simps)
  have rev_eq: "rev (put_buf v) = gs @ [hd (put_buf v)]"
    by (metis gs_def list.collapse put_buf_nonempty rev.simps(2))
  have l': "ucast l = (ucast (hd (put_buf v)) AND 0x7f :: u64)"
    by (simp add: l_def u64_eq_bits bitblast bit_simps)
  have "varint_ref 0 0 p = varint_ref (length gs) (foldl varint_join 0 gs) p"
    using varint_ref_more [of gs p 0 0] gs len by simp
  also have "\<dots> = (length gs + 1, foldl varint_join 0 (rev (put_buf v)))"
    using len l l' by (subst varint_ref.simps) (simp add: rev_eq)
  finally show ?thesis
    by (simp add: foldl_put_buf put)
qed

lemma put_hi_8: "put_hi 8 v acc = map (\<lambda>k. ucast ((drop_bit k v AND 0x7f) OR 0x80)) [49, 42, 35, 28, 21, 14, 7, 0] @ acc"
  by (simp add: numeral_eq_Suc drop_bit_drop_bit)

lemma varint_ref_put64_long:
  assumes top: "drop_bit 56 v \<noteq> 0" and p: "agree (length (putVarint64 v)) p (mem_of (putVarint64 v))"
  shows "varint_ref 0 0 p = (length (putVarint64 v), v)"
proof -
  define gs :: "u8 list" where "gs = map (\<lambda>k. ucast ((drop_bit k (drop_bit 8 v) AND 0x7f) OR 0x80))
    [49, 42, 35, 28, 21, 14, 7, 0]"
  have put: "putVarint64 v = gs @ [ucast v]"
    using top by (simp add: putVarint64_def mask_top_byte [simplified] put_hi_8 gs_def)
  have len: "length gs = 8" by (simp add: gs_def)
  have "bit b 7" if "b \<in> set gs" for b
    using that by (auto simp: gs_def bit_simps)
  then have gs: "p (0 + j) = gs ! j \<and> bit (gs ! j) 7" if "j < length gs" for j
    using p that by (simp add: put agree_def mem_of_def nth_append)
  have l: "p 8 = ucast v"
    using p by (simp add: put agree_def mem_of_def nth_append len)
  have "varint_ref 0 0 p = varint_ref 8 (foldl varint_join 0 gs) p"
    using varint_ref_more [of gs p 0 0] gs len by simp
  also have "\<dots> = (9, v)"
    by (subst varint_ref.simps) (simp add: l gs_def u64_eq_bits bitblast bit_simps)
  finally show ?thesis by (simp add: put len)
qed

lemma varint_ref_put64:
  "agree (length (putVarint64 v)) p (mem_of (putVarint64 v)) \<Longrightarrow>
   varint_ref 0 0 p = (length (putVarint64 v), v)"
  using varint_ref_put64_short varint_ref_put64_long by blast

lemma le_7f: "v \<le> 0x7f \<longleftrightarrow> drop_bit 7 (v :: u64) = 0"
  unfolding drop_bit_zero_iff word_le_nat_alt by simp linarith

lemma le_3fff: "v \<le> 0x3fff \<longleftrightarrow> drop_bit 14 (v :: u64) = 0"
  unfolding drop_bit_zero_iff word_le_nat_alt by simp linarith

lemma put_varint_eq_put64: "sqlite3PutVarint v = putVarint64 v"
proof -
  consider "drop_bit 7 v = 0" | "drop_bit 7 v \<noteq> 0" "drop_bit 14 v = 0"
    | "drop_bit 7 v \<noteq> 0" "drop_bit 14 v \<noteq> 0"
    by blast
  then show ?thesis
  proof cases
    case 1
    then have "drop_bit 56 v = 0" by (rule drop_bit_zero_mono) simp
    with 1 show ?thesis
      by (simp add: sqlite3PutVarint_def le_7f putVarint64_def mask_top_byte [simplified]
        put_buf.simps [of v]) (simp add: u8_eq_bits bitblast bit_simps)
  next
    case 2
    then have "drop_bit 56 v = 0" using drop_bit_zero_mono [of 14 v 56] by simp
    with 2 show ?thesis
      by (simp add: sqlite3PutVarint_def le_7f le_3fff putVarint64_def mask_top_byte [simplified]
        put_buf.simps [of v] put_buf.simps [of "drop_bit 7 v"])
        (simp add: u8_eq_bits bitblast bit_simps)
  qed (simp add: sqlite3PutVarint_def le_7f le_3fff)
qed

interpretation varint: byte_codec sqlite3PutVarint sqlite3GetVarint "\<lambda>_. True"
  by unfold_locales (simp add: getVarint_eq_ref put_varint_eq_put64 varint_ref_put64)

lemma get4byte_put4byte:
  assumes "agree 4 p (mem_of (sqlite3Put4byte v))"
  shows "sqlite3Get4byte p = v"
proof -
  have "p 0 = ucast (drop_bit 24 v)" "p 1 = ucast (drop_bit 16 v)"
    "p 2 = ucast (drop_bit 8 v)" "p 3 = ucast v"
    using assms by (simp_all add: agree_def mem_of_def sqlite3Put4byte_def)
  then show ?thesis
    by (simp add: sqlite3Get4byte_def u32_eq_bits bitblast bit_simps)
qed

interpretation be32: byte_codec sqlite3Put4byte "\<lambda>p. (4, sqlite3Get4byte p)" "\<lambda>_. True"
proof
  fix v p
  have len: "length (sqlite3Put4byte v) = 4" by (simp add: sqlite3Put4byte_def)
  assume "agree (length (sqlite3Put4byte v)) p (mem_of (sqlite3Put4byte v))"
  with len show "(4, sqlite3Get4byte p) = (length (sqlite3Put4byte v), v)"
    by (simp add: get4byte_put4byte)
qed

lemma varint_ref_count: "i \<le> 8 \<Longrightarrow> i < fst (varint_ref i acc p) \<and> fst (varint_ref i acc p) \<le> 9"
proof (induction i acc p rule: varint_ref.induct)
  case (1 i acc p)
  then show ?case by (subst (1 2) varint_ref.simps) force
qed

lemma varint_ref_local:
  "i \<le> 8 \<Longrightarrow> agree (fst (varint_ref i acc p)) p q \<Longrightarrow> varint_ref i acc q = varint_ref i acc p"
proof (induction i acc p rule: varint_ref.induct)
  case (1 i acc p)
  have "p i = q i"
    using "1.prems" varint_ref_count [of i acc p] by (simp add: agree_def)
  moreover have "varint_ref (i + 1) (varint_join acc (p i)) q = varint_ref (i + 1) (varint_join acc (p i)) p"
    if "i < 8" "bit (p i) 7"
    using 1 that by (simp add: varint_ref.simps [of i acc p])
  ultimately show ?case
    using "1.prems"(1) by (auto simp: varint_ref.simps [of i acc] not_le)
qed

lemma length_putVarint64:
  "length (putVarint64 v) = (if drop_bit 56 v = 0 then length (put_buf v) else 9)"
  by (simp add: putVarint64_def mask_top_byte [simplified] put_hi_8 Let_def)

lemma varintLen_put_buf: "sqlite3VarintLen v = length (put_buf v)"
  using varint_len_loop_put_buf [of 1 v] by (simp add: sqlite3VarintLen_def)

lemma le_ffffffff: "v \<le> 0xffffffff \<longleftrightarrow> drop_bit 32 (v :: u64) = 0"
  unfolding drop_bit_zero_iff word_le_nat_alt by simp linarith

lemma and_max_u32: "v AND SQLITE_MAX_U32 \<noteq> v \<longleftrightarrow> drop_bit 32 v \<noteq> 0"
  by (simp add: SQLITE_MAX_U32_def u64_eq_bits bitblast bit_simps)

lemma varintLen_cases:
  "sqlite3VarintLen v = (if unat v < 2 ^ 63 then length (sqlite3PutVarint v) else 10) \<and>
   (2 ^ 63 \<le> unat v \<longrightarrow> length (sqlite3PutVarint v) = 9)"
proof -
  have "length (put_buf v) \<le> k \<longleftrightarrow> unat v < 2 ^ (7 * k)" if "0 < k" for k
    using length_put_buf [of k v] that by (simp add: drop_bit_zero_iff)
  from this [of 8] this [of 9] this [of 10] show ?thesis
    using unat_u64_less [of v]
    by (auto simp: put_varint_eq_put64 length_putVarint64 varintLen_put_buf drop_bit_zero_iff)
qed

lemma getVarint32_eq:
  "getVarint32 p =
     (fst (sqlite3GetVarint p),
      if snd (sqlite3GetVarint p) \<le> 0xffffffff then ucast (snd (sqlite3GetVarint p))
      else 0xffffffff)"
proof -
  let ?sat = "\<lambda>v :: u64. if v \<le> 0xffffffff then ucast v else 0xffffffff :: u32"
  have one: "(1, ucast (p 0)) = (1 :: nat, ?sat (ucast (p 0)))"
    by (simp add: le_ffffffff u64_eq_bits u32_eq_bits bitblast bit_simps)
  have two: "push_bit 7 (ucast (p 0 AND 0x7f)) OR ucast (p 1) =
      ?sat (push_bit 7 (ucast (p 0) AND 0x7f) OR ucast (p 1))"
    by (simp add: le_ffffffff u64_eq_bits u32_eq_bits bitblast bit_simps)
  have three: "push_bit 14 (ucast (p 0 AND 0x7f)) OR push_bit 7 (ucast (p 1 AND 0x7f)) OR
        ucast (p 2) =
      ?sat (push_bit 7 (push_bit 7 (ucast (p 0) AND 0x7f) OR (ucast (p 1) AND 0x7f)) OR
        ucast (p 2))"
    by (simp add: le_ffffffff u64_eq_bits u32_eq_bits bitblast bit_simps)
  consider "\<not> bit (p 0) 7" | "bit (p 0) 7" "\<not> bit (p 1) 7"
    | "bit (p 0) 7" "bit (p 1) 7" "\<not> bit (p 2) 7" | "bit (p 0) 7" "bit (p 1) 7" "bit (p 2) 7"
    by blast
  then show ?thesis
  proof cases
    case 1
    with one show ?thesis by (simp add: getVarint32_def u8_lt_80 getVarint_eq_ref varint_ref_steps)
  next
    case 2
    with two show ?thesis
      by (simp add: getVarint32_def sqlite3GetVarint32_def u8_lt_80 and_single_bit_u8
          getVarint_eq_ref varint_ref_steps)
  next
    case 3
    with three show ?thesis
      by (simp add: getVarint32_def sqlite3GetVarint32_def u8_lt_80 and_single_bit_u8
          getVarint_eq_ref varint_ref_steps)
  next
    case 4
    then show ?thesis
      by (simp add: getVarint32_def sqlite3GetVarint32_def u8_lt_80 and_single_bit_u8
          and_max_u32 le_ffffffff split: prod.splits)
  qed
qed

lemma getVarint32_put:
  assumes "agree (length (sqlite3PutVarint (ucast t))) p (mem_of (sqlite3PutVarint (ucast t)))"
  shows "getVarint32 p = (length (sqlite3PutVarint (ucast t)), t :: u32)"
proof -
  have "ucast t \<le> (0xffffffff :: u64)" "ucast (ucast t :: u64) = t"
    by (simp_all add: le_ffffffff u64_eq_bits u32_eq_bits bitblast bit_simps)
  with varint.dec_enc [OF _ assms] show ?thesis by (simp add: getVarint32_eq)
qed

lemma put_nonempty: "sqlite3PutVarint v \<noteq> []"
  using length_putVarint64 [of v] put_buf_nonempty [of v]
  by (auto simp: put_varint_eq_put64 split: if_splits)

lemma length_put_le:
  "0 < k \<Longrightarrow> k \<le> 8 \<Longrightarrow> length (sqlite3PutVarint v) \<le> k \<longleftrightarrow> unat v < 2 ^ (7 * k)"
  using length_put_buf [of k v] drop_bit_zero_iff [of "7 * k" v] drop_bit_zero_mono [of "7 * k" v 56]
  by (auto simp: put_varint_eq_put64 length_putVarint64)

lemma varintLen_put: "unat v < 2 ^ 63 \<Longrightarrow> sqlite3VarintLen v = length (sqlite3PutVarint v)"
  using varintLen_cases [of v] by simp

lemma put_varint_small: "v \<le> 0x7f \<Longrightarrow> sqlite3PutVarint v = [ucast v]"
proof -
  assume v: "v \<le> 0x7f"
  then have "drop_bit 7 v = 0" by (simp only: le_7f)
  then have "ucast (v AND 0x7f) = (ucast v :: u8)" by (simp add: u64_eq_bits u8_eq_bits bitblast bit_simps)
  with v show ?thesis by (simp add: sqlite3PutVarint_def)
qed

section \<open>Properties\<close>

text \<open>
  C11: Every 64-bit value written by \<open>sqlite3PutVarint\<close> is read back by
  \<open>sqlite3GetVarint\<close>, which returns the number of bytes the writer returned, whatever
  memory follows the encoding.
\<close>

theorem varint_roundtrip:
  assumes "agree (length (sqlite3PutVarint v)) p (mem_of (sqlite3PutVarint v))"
  shows "sqlite3GetVarint p = (length (sqlite3PutVarint v), v)"
  using varint.dec_enc assms by simp

theorem varint_roundtrip_witness:
  "sqlite3GetVarint (mem_of (sqlite3PutVarint 300 @ [17])) = (2, 300)"
proof -
  have put: "sqlite3PutVarint 300 = [130, 44]" by code_simp
  show ?thesis
    using varint_roundtrip [OF agree_mem_of_append, of 300 "[17]"] by (simp add: put)
qed

text \<open>
  C22: The unrolled decoder \<open>sqlite3GetVarint\<close>, which works on three 32-bit accumulators
  with precomputed masks, returns on every memory what the byte-by-byte definition of the
  format returns.
\<close>

theorem getVarint_reference: "sqlite3GetVarint p = varint_ref 0 0 p"
  by (rule getVarint_eq_ref)

text \<open>
  \<open>sqlite3GetVarint\<close> reads between one and nine bytes and no byte past the count it
  returns: its result is the same on every memory that agrees on those bytes.
\<close>

theorem getVarint_reads_only_its_bytes:
  "1 \<le> fst (sqlite3GetVarint p) \<and> fst (sqlite3GetVarint p) \<le> 9 \<and>
   (agree (fst (sqlite3GetVarint p)) p q \<longrightarrow> sqlite3GetVarint q = sqlite3GetVarint p)"
  using varint_ref_count [of 0 0 p] varint_ref_local [of 0 0 p q]
  by (simp add: getVarint_eq_ref)

theorem getVarint_reads_only_its_bytes_witness:
  "sqlite3GetVarint (mem_of [129, 5, 99]) = sqlite3GetVarint (mem_of [129, 5, 7])"
proof -
  have "fst (sqlite3GetVarint (mem_of [129, 5, 7])) = 2"
    by (simp add: sqlite3GetVarint_def mem_of_def word_sle_eq)
  moreover have "agree 2 (mem_of [129, 5, 7]) (mem_of [129, 5, 99])"
    by (simp add: agree_def mem_of_def less_2_cases_iff)
  ultimately show ?thesis
    using getVarint_reads_only_its_bytes [of "mem_of [129, 5, 7]" "mem_of [129, 5, 99]"] by simp
qed

text \<open>
  C36: \<open>sqlite3VarintLen\<close> returns the number of bytes \<open>sqlite3PutVarint\<close> writes for
  every value below \<open>2^63\<close>, and 10 from \<open>2^63\<close> on, where the encoding has nine
  bytes.
\<close>

theorem varintLen_exact_below_2_63:
  "sqlite3VarintLen v = (if unat v < 2 ^ 63 then length (sqlite3PutVarint v) else 10) \<and>
   (2 ^ 63 \<le> unat v \<longrightarrow> length (sqlite3PutVarint v) = 9)"
  by (rule varintLen_cases)

theorem varintLen_exact_below_2_63_witness:
  "sqlite3VarintLen 300 = length (sqlite3PutVarint 300) \<and>
   sqlite3VarintLen 0x8000000000000000 = 10 \<and>
   length (sqlite3PutVarint 0x8000000000000000) = 9"
  using varintLen_exact_below_2_63 [of 300] varintLen_exact_below_2_63 [of "0x8000000000000000"]
  by simp

text \<open>
  \<open>getVarint32\<close> consumes the bytes \<open>sqlite3GetVarint\<close> consumes and returns its
  value saturated at \<open>0xffffffff\<close>.
\<close>

theorem getVarint32_saturates:
  "getVarint32 p =
     (fst (sqlite3GetVarint p),
      if snd (sqlite3GetVarint p) \<le> 0xffffffff then ucast (snd (sqlite3GetVarint p))
      else 0xffffffff)"
  by (rule getVarint32_eq)

end
