(* ===== verification/Sq_Int.thy ===== *)
theory Sq_Int
  imports Sq_Prelude
begin

text \<open>
  Checked 64-bit arithmetic and logarithmic estimates of util.c: \<open>sqlite3AddInt64\<close>,
  \<open>sqlite3SubInt64\<close>, \<open>sqlite3MulInt64\<close>, \<open>sqlite3AbsInt32\<close>,
  \<open>sqlite3Multiply128\<close>, \<open>countLeadingZeros\<close>, \<open>sqlite3LogEstAdd\<close>,
  \<open>sqlite3LogEst\<close> and \<open>sqlite3LogEstToInt\<close>.  The branches modelled are the portable
  ones: clang reports itself as GCC 4.2.1, so \<open>GCC_VERSION\<close> is below the versions that
  select the overflow and count-leading-zeros builtins in the arithmetic routines.
  \<open>sqlite3AddInt64(&a,b)\<close> returns a code and updates \<open>*pA\<close>; the model returns both.
\<close>

section \<open>Overflow-checked arithmetic\<close>

definition LARGEST_INT64 :: i64 where
  "LARGEST_INT64 = 0xffffffff OR push_bit 32 0x7fffffff"

definition SMALLEST_INT64 :: i64 where
  "SMALLEST_INT64 = -1 - LARGEST_INT64"

text \<open>C division of two \<open>i64\<close> values truncates towards zero.\<close>

definition i64_div :: "i64 \<Rightarrow> i64 \<Rightarrow> i64" where
  "i64_div a b = word_of_int (sint a sdiv sint b)"

definition sqlite3AddInt64 :: "i64 \<Rightarrow> i64 \<Rightarrow> int \<times> i64" where
  "sqlite3AddInt64 iA iB =
     (if 0 \<le>s iB then
        (if 0 <s iA \<and> LARGEST_INT64 - iA <s iB then (1, iA) else (0, iA + iB))
      else
        (if iA <s 0 \<and> iB + 1 <s - (iA + LARGEST_INT64) then (1, iA) else (0, iA + iB)))"

definition sqlite3SubInt64 :: "i64 \<Rightarrow> i64 \<Rightarrow> int \<times> i64" where
  "sqlite3SubInt64 iA iB =
     (if iB = SMALLEST_INT64 then
        (if 0 \<le>s iA then (1, iA) else (0, iA - iB))
      else sqlite3AddInt64 iA (- iB))"

definition sqlite3MulInt64 :: "i64 \<Rightarrow> i64 \<Rightarrow> int \<times> i64" where
  "sqlite3MulInt64 iA iB =
     (if 0 <s iB then
        (if i64_div LARGEST_INT64 iB <s iA then (1, iA)
         else if iA <s i64_div SMALLEST_INT64 iB then (1, iA)
         else (0, iA * iB))
      else if iB <s 0 then
        (if 0 <s iA then
           (if iB <s i64_div SMALLEST_INT64 iA then (1, iA) else (0, iA * iB))
         else if iA <s 0 then
           (if iB = SMALLEST_INT64 then (1, iA)
            else if iA = SMALLEST_INT64 then (1, iA)
            else if i64_div LARGEST_INT64 (- iB) <s - iA then (1, iA)
            else (0, iA * iB))
         else (0, iA * iB))
      else (0, iA * iB))"

definition sqlite3AbsInt32 :: "32 word \<Rightarrow> 32 word" where
  "sqlite3AbsInt32 x =
     (if 0 \<le>s x then x else if x = 0x80000000 then 0x7fffffff else - x)"

lemma sint_LARGEST [simp]: "sint LARGEST_INT64 = 2 ^ 63 - 1"
  by (simp add: LARGEST_INT64_def)

lemma sint_SMALLEST [simp]: "sint SMALLEST_INT64 = - (2 ^ 63)"
  by (simp add: SMALLEST_INT64_def LARGEST_INT64_def)

abbreviation in_i64 :: "int \<Rightarrow> bool" where
  "in_i64 k \<equiv> - (2 ^ 63) \<le> k \<and> k < 2 ^ 63"

lemma sint_i64_range: "in_i64 (sint (a :: i64))"
  using sint_ge [of a] sint_lt [of a] by simp

lemma sint_of_int_i64: "in_i64 k \<Longrightarrow> sint (word_of_int k :: i64) = k"
  by (simp add: signed_take_bit_int_eq_self sint_sbintrunc')

lemma sint_i64_arith:
  fixes a b :: i64
  shows "in_i64 (sint a + sint b) \<Longrightarrow> sint (a + b) = sint a + sint b"
    and "in_i64 (sint a - sint b) \<Longrightarrow> sint (a - b) = sint a - sint b"
    and "in_i64 (sint a * sint b) \<Longrightarrow> sint (a * b) = sint a * sint b"
    and "in_i64 (- sint a) \<Longrightarrow> sint (- a) = - sint a"
  by (simp_all add: sint_word_ariths signed_take_bit_int_eq_self)

lemma word_of_int_sint_arith:
  fixes a b :: i64
  shows "word_of_int (sint a + sint b) = a + b" "word_of_int (sint a - sint b) = a - b"
    "word_of_int (sint a * sint b) = a * b"
  by simp_all

lemma addInt64_exact:
  "sqlite3AddInt64 a b =
     (if in_i64 (sint a + sint b) then (0, a + b) else (1, a))"
proof (cases "0 \<le>s b")
  case True
  then have b: "0 \<le> sint b" by (simp add: word_sle_eq)
  have "0 <s a \<and> LARGEST_INT64 - a <s b \<longleftrightarrow> 0 < sint a \<and> 2 ^ 63 - 1 - sint a < sint b"
    using sint_i64_range [of a] sint_i64_arith(2) [of LARGEST_INT64 a] by (auto simp: word_sless_alt)
  with True b sint_i64_range [of a] sint_i64_range [of b] show ?thesis
    by (auto simp: sqlite3AddInt64_def)
next
  case False
  then have b: "sint b < 0" by (simp add: word_sle_eq)
  have "sint (b + 1) = sint b + 1"
    using sint_i64_range [of b] b sint_i64_arith(1) [of b 1] by simp
  moreover have "sint (- (a + LARGEST_INT64)) = - (sint a + (2 ^ 63 - 1))" if "sint a < 0"
    using sint_i64_range [of a] that sint_i64_arith(1) [of a LARGEST_INT64]
      sint_i64_arith(4) [of "a + LARGEST_INT64"] by simp
  ultimately have "a <s 0 \<and> b + 1 <s - (a + LARGEST_INT64) \<longleftrightarrow>
      sint a < 0 \<and> sint b + 1 < - (sint a + (2 ^ 63 - 1))"
    by (auto simp: word_sless_alt)
  with False b sint_i64_range [of a] sint_i64_range [of b] show ?thesis
    by (auto simp: sqlite3AddInt64_def)
qed

lemma subInt64_exact:
  "sqlite3SubInt64 a b =
     (if in_i64 (sint a - sint b) then (0, a - b) else (1, a))"
proof (cases "b = SMALLEST_INT64")
  case True
  with sint_i64_range [of a] show ?thesis
    by (auto simp: sqlite3SubInt64_def word_sle_eq)
next
  case False
  then have "sint b \<noteq> - (2 ^ 63)"
    by (metis sint_SMALLEST signed_word_eqI)
  with sint_i64_range [of b] have "sint (- b) = - sint b"
    by (intro sint_i64_arith(4)) auto
  with False show ?thesis
    by (simp add: sqlite3SubInt64_def addInt64_exact)
qed

lemma int_div_less_iff:
  fixes a b c :: int
  assumes "0 < c"
  shows "b div c < a \<longleftrightarrow> b < a * c"
proof
  assume "b div c < a"
  then have "(b div c + 1) * c \<le> a * c" using assms by (intro mult_right_mono) auto
  then show "b < a * c"
    using div_mult_mod_eq [of b c] pos_mod_bound [OF assms, of b]
    unfolding distrib_right by linarith
next
  assume less: "b < a * c"
  show "b div c < a"
  proof (rule ccontr)
    assume "\<not> b div c < a"
    then have "a * c \<le> (b div c) * c" using assms by (intro mult_right_mono) auto
    also have "\<dots> \<le> b"
      using div_mult_mod_eq [of b c] pos_mod_sign [OF assms, of b] by linarith
    finally show False using less by simp
  qed
qed

lemma int_div_range: "0 < c \<Longrightarrow> 0 \<le> b \<Longrightarrow> 0 \<le> b div c \<and> b div c \<le> b"
  for b c :: int
  by (metis int_div_less_iff not_less pos_imp_zdiv_nonneg_iff mult_right_mono mult.right_neutral
      div_by_1 zdiv_mono2 int_one_le_iff_zero_less zero_less_one)

lemma sint_i64_div_LARGEST:
  assumes "0 < sint b"
  shows "sint (i64_div LARGEST_INT64 b) = (2 ^ 63 - 1) div sint b"
proof -
  have "0 \<le> (2 ^ 63 - 1 :: int) div sint b" and "(2 ^ 63 - 1 :: int) div sint b \<le> 2 ^ 63 - 1"
    using assms by (simp_all add: int_div_range)
  then show ?thesis
    using assms by (simp add: i64_div_def signed_divide_int_def sint_of_int_i64)
qed

lemma sint_i64_div_SMALLEST:
  assumes "0 < sint b"
  shows "sint (i64_div SMALLEST_INT64 b) = - (2 ^ 63 div sint b)"
proof -
  have "0 \<le> (2 ^ 63 :: int) div sint b" and "(2 ^ 63 :: int) div sint b \<le> 2 ^ 63"
    using assms by (simp_all add: int_div_range)
  then have "sint (word_of_int (- (2 ^ 63 div sint b)) :: i64) = - (2 ^ 63 div sint b)"
    by (intro sint_of_int_i64) auto
  then show ?thesis
    using assms by (simp add: i64_div_def signed_divide_int_def)
qed

lemma mulInt64_pos:
  assumes "0 < sint b"
  shows "sqlite3MulInt64 a b = (if in_i64 (sint a * sint b) then (0, a * b) else (1, a))"
proof -
  define m where "m = sint a * sint b"
  have "i64_div LARGEST_INT64 b <s a \<longleftrightarrow> 2 ^ 63 - 1 < m"
    using assms by (simp add: word_sless_alt sint_i64_div_LARGEST int_div_less_iff m_def)
  moreover have "a <s i64_div SMALLEST_INT64 b \<longleftrightarrow> m < - (2 ^ 63)"
  proof -
    have "a <s i64_div SMALLEST_INT64 b \<longleftrightarrow> 2 ^ 63 div sint b < - sint a"
      using assms by (simp only: word_sless_alt sint_i64_div_SMALLEST) linarith
    also have "\<dots> \<longleftrightarrow> 2 ^ 63 < - m"
      using assms by (simp only: int_div_less_iff m_def mult_minus_left)
    finally show ?thesis by linarith
  qed
  moreover have "0 <s b" using assms by (simp add: word_sless_alt)
  ultimately show ?thesis
    unfolding m_def [symmetric] sqlite3MulInt64_def by simp
qed

lemma mulInt64_mixed:
  assumes "sint b < 0" and "0 < sint a"
  shows "sqlite3MulInt64 a b = (if in_i64 (sint a * sint b) then (0, a * b) else (1, a))"
proof -
  define m where "m = sint a * sint b"
  have "b <s i64_div SMALLEST_INT64 a \<longleftrightarrow> m < - (2 ^ 63)"
  proof -
    have "b <s i64_div SMALLEST_INT64 a \<longleftrightarrow> 2 ^ 63 div sint a < - sint b"
      using assms by (simp only: word_sless_alt sint_i64_div_SMALLEST) linarith
    also have "\<dots> \<longleftrightarrow> 2 ^ 63 < - m"
      using assms by (simp only: int_div_less_iff m_def mult_minus_left mult.commute [of "sint b"])
    finally show ?thesis by linarith
  qed
  moreover have "m < 0" using assms by (simp add: m_def mult_pos_neg)
  moreover have "b <s 0" "\<not> 0 <s b" "0 <s a"
    using assms by (simp_all add: word_sless_alt)
  ultimately show ?thesis
    unfolding m_def [symmetric] sqlite3MulInt64_def by simp
qed

lemma eq_SMALLEST: "x = SMALLEST_INT64 \<longleftrightarrow> sint x = - (2 ^ 63)"
  by (metis sint_SMALLEST signed_word_eqI)

lemma mulInt64_neg:
  assumes "sint b < 0" and "sint a < 0"
  shows "sqlite3MulInt64 a b = (if in_i64 (sint a * sint b) then (0, a * b) else (1, a))"
proof -
  define m where "m = sint a * sint b"
  have signs: "b <s 0" "\<not> 0 <s b" "a <s 0" "\<not> 0 <s a"
    using assms by (simp_all add: word_sless_alt)
  have low: "- sint a \<le> m" "- sint b \<le> m"
    using assms mult_left_mono_neg [of "sint b" "-1" "sint a"]
      mult_right_mono_neg [of "sint a" "-1" "sint b"] by (simp_all add: m_def)
  show ?thesis
  proof (cases "a = SMALLEST_INT64 \<or> b = SMALLEST_INT64")
    case True
    with low have "2 ^ 63 \<le> m" by (auto simp: eq_SMALLEST)
    with True signs show ?thesis
      unfolding m_def [symmetric] sqlite3MulInt64_def by auto
  next
    case False
    then have neg: "sint (- a) = - sint a" "sint (- b) = - sint b"
      using sint_i64_range [of a] sint_i64_range [of b]
      by (auto simp: eq_SMALLEST intro!: sint_i64_arith(4))
    have "i64_div LARGEST_INT64 (- b) <s - a \<longleftrightarrow> 2 ^ 63 - 1 < m"
      using assms by (simp add: word_sless_alt sint_i64_div_LARGEST neg int_div_less_iff m_def)
    with False signs low assms show ?thesis
      unfolding m_def [symmetric] sqlite3MulInt64_def by simp
  qed
qed

lemma mulInt64_exact:
  "sqlite3MulInt64 a b = (if in_i64 (sint a * sint b) then (0, a * b) else (1, a))"
proof -
  consider "0 < sint b" | "sint b < 0" "0 < sint a" | "sint b < 0" "sint a < 0"
    | "sint a = 0" "sint b < 0" | "sint b = 0" by linarith
  then show ?thesis
  proof cases
    case 1 then show ?thesis by (rule mulInt64_pos)
  next
    case 2 then show ?thesis by (rule mulInt64_mixed)
  next
    case 3 then show ?thesis by (rule mulInt64_neg)
  qed (simp_all add: sqlite3MulInt64_def word_sless_alt)
qed

section \<open>High half of a 64-bit product\<close>

definition sqlite3Multiply128 :: "u64 \<Rightarrow> u64 \<Rightarrow> u64" where
  "sqlite3Multiply128 a b =
     (let a1 = ucast (ucast a :: u32) :: u64;
          a2 = drop_bit 32 a;
          b1 = ucast (ucast b :: u32) :: u64;
          b2 = drop_bit 32 b;
          p0 = a1 * b1;
          p1 = a1 * b2;
          p2 = a2 * b1;
          p3 = a2 * b2;
          carry = drop_bit 32 (drop_bit 32 p0 + ucast (ucast p1 :: u32) + ucast (ucast p2 :: u32))
      in p3 + drop_bit 32 p1 + drop_bit 32 p2 + carry)"

lemma mult_high_nat:
  fixes a1 a2 b1 b2 B :: nat
  assumes "0 < B"
  shows "((a1 + a2 * B) * (b1 + b2 * B)) div (B * B) =
    a2 * b2 + a1 * b2 div B + a2 * b1 div B +
    (a1 * b1 div B + a1 * b2 mod B + a2 * b1 mod B) div B"
proof -
  define x y z w where "x = a1 * b1" and "y = a1 * b2" and "z = a2 * b1" and "w = a2 * b2"
  have regroup: "(q * B + r) + (y + z) * B + w * (B * B) = r + (q + y + z + w * B) * B" for q r
    by (simp add: algebra_simps)
  have carry: "q + (s * B + t) + (u * B + v) + w * B = (q + t + v) + (w + s + u) * B" for q s t u v
    by (simp add: algebra_simps)
  have "(a1 + a2 * B) * (b1 + b2 * B) = x + (y + z) * B + w * (B * B)"
    by (simp add: x_def y_def z_def w_def algebra_simps)
  also have "\<dots> = x mod B + (x div B + y + z + w * B) * B"
    using regroup [of "x div B" "x mod B"] by simp
  finally have "(a1 + a2 * B) * (b1 + b2 * B) div (B * B) = (x div B + y + z + w * B) div B"
    using assms by (simp add: div_mult2_eq)
  also have "x div B + y + z + w * B =
      (x div B + y mod B + z mod B) + (w + y div B + z div B) * B"
    using carry [of "x div B" "y div B" "y mod B" "z div B" "z mod B"] by simp
  also have "\<dots> div B = (x div B + y mod B + z mod B) div B + (w + y div B + z div B)"
    using assms by simp
  finally show ?thesis by (simp add: x_def y_def z_def w_def)
qed

lemma unat_low_half: "unat (ucast (ucast a :: u32) :: u64) = unat a mod 2 ^ 32" for a :: u64
  by (simp add: unsigned_ucast_eq take_bit_eq_mod unat_mod)

lemma unat_high_half: "unat (drop_bit 32 a) = unat a div 2 ^ 32" for a :: u64
  by (simp add: unat_drop_bit_eq drop_bit_nat_def)

lemma half_product:
  fixes x y :: u64
  assumes "unat x < 2 ^ 32" "unat y < 2 ^ 32"
  shows "unat (x * y) = unat x * unat y"
proof -
  have "unat x * unat y < 2 ^ 32 * 2 ^ 32"
    using assms by (intro mult_strict_mono) auto
  then show ?thesis using unat_mult_lem [of x y] by simp
qed

lemma half_less: "unat (a :: u64) div 2 ^ 32 < 2 ^ 32"
  using unat_u64_less [of a] by (simp add: less_mult_imp_div_less)

lemma u64_of_nat_sum: "unat x + unat y < 2 ^ 64 \<Longrightarrow> unat (x + y) = unat x + unat y" for x y :: u64
  using unat_add_lem [of x y] by simp

lemma multiply128_high: "unat (sqlite3Multiply128 a b) = unat a * unat b div 2 ^ 64"
proof -
  define a1 a2 b1 b2 where "a1 = unat a mod 2 ^ 32" and "a2 = unat a div 2 ^ 32"
    and "b1 = unat b mod 2 ^ 32" and "b2 = unat b div 2 ^ 32"
  have halves: "unat (ucast (ucast a :: u32) :: u64) = a1" "unat (drop_bit 32 a) = a2"
    "unat (ucast (ucast b :: u32) :: u64) = b1" "unat (drop_bit 32 b) = b2"
    by (simp_all only: unat_low_half unat_high_half a1_def a2_def b1_def b2_def)
  have less: "a1 < 2 ^ 32" "a2 < 2 ^ 32" "b1 < 2 ^ 32" "b2 < 2 ^ 32"
    by (simp_all add: a1_def a2_def b1_def b2_def half_less [simplified])
  have prod: "unat (ucast (ucast a :: u32) * ucast (ucast b :: u32) :: u64) = a1 * b1"
    "unat (ucast (ucast a :: u32) * drop_bit 32 b :: u64) = a1 * b2"
    "unat (drop_bit 32 a * ucast (ucast b :: u32) :: u64) = a2 * b1"
    "unat (drop_bit 32 a * drop_bit 32 b :: u64) = a2 * b2"
    using less by (simp_all only: half_product halves)
  let ?c = "a1 * b1 div 2 ^ 32 + a1 * b2 mod 2 ^ 32 + a2 * b1 mod 2 ^ 32"
  have total: "unat a * unat b div 2 ^ 64 =
      a2 * b2 + a1 * b2 div 2 ^ 32 + a2 * b1 div 2 ^ 32 + ?c div 2 ^ 32"
  proof -
    have "unat a = a1 + a2 * 2 ^ 32" "unat b = b1 + b2 * 2 ^ 32"
      by (simp_all add: a1_def a2_def b1_def b2_def)
    then show ?thesis using mult_high_nat [of "2 ^ 32" a1 a2 b1 b2] by simp
  qed
  have "unat a * unat b div 2 ^ 64 < 2 ^ 64"
  proof -
    have "unat a * unat b < 2 ^ 64 * 2 ^ 64"
      using unat_u64_less [of a] unat_u64_less [of b] by (intro mult_strict_mono) auto
    then show ?thesis by (simp add: less_mult_imp_div_less)
  qed
  with total have bound: "a2 * b2 + a1 * b2 div 2 ^ 32 + a2 * b1 div 2 ^ 32 + ?c div 2 ^ 32 < 2 ^ 64"
    by simp
  have "a1 * b1 < 2 ^ 32 * 2 ^ 32"
    using less by (intro mult_strict_mono) auto
  then have c: "a1 * b1 div 2 ^ 32 < 2 ^ 32" by (simp add: less_mult_imp_div_less)
  define p0 p1 p2 p3 :: u64 where
    "p0 = ucast (ucast a :: u32) * ucast (ucast b :: u32)" and
    "p1 = ucast (ucast a :: u32) * drop_bit 32 b" and
    "p2 = drop_bit 32 a * ucast (ucast b :: u32)" and "p3 = drop_bit 32 a * drop_bit 32 b"
  note prods = prod [folded p0_def p1_def p2_def p3_def]
  have modless: "a1 * b2 mod 2 ^ 32 < 2 ^ 32" "a2 * b1 mod 2 ^ 32 < 2 ^ 32"
    by simp_all
  have s1: "unat (drop_bit 32 p0 + ucast (ucast p1 :: u32)) = a1 * b1 div 2 ^ 32 + a1 * b2 mod 2 ^ 32"
    using c modless
    by (subst u64_of_nat_sum; simp only: unat_low_half unat_high_half prods) simp
  have s2: "unat (drop_bit 32 p0 + ucast (ucast p1 :: u32) + ucast (ucast p2 :: u32)) = ?c"
    using c modless by (subst u64_of_nat_sum; simp only: s1 unat_low_half prods) simp
  have s3: "unat (p3 + drop_bit 32 p1) = a2 * b2 + a1 * b2 div 2 ^ 32"
    using bound by (subst u64_of_nat_sum; simp only: unat_high_half prods)
  have s4: "unat (p3 + drop_bit 32 p1 + drop_bit 32 p2) =
      a2 * b2 + a1 * b2 div 2 ^ 32 + a2 * b1 div 2 ^ 32"
    using bound by (subst u64_of_nat_sum; simp only: s3 unat_high_half prods)
  have "unat (p3 + drop_bit 32 p1 + drop_bit 32 p2 +
      drop_bit 32 (drop_bit 32 p0 + ucast (ucast p1 :: u32) + ucast (ucast p2 :: u32))) =
      a2 * b2 + a1 * b2 div 2 ^ 32 + a2 * b1 div 2 ^ 32 + ?c div 2 ^ 32"
    using bound by (subst u64_of_nat_sum; simp only: s4 s2 unat_high_half)
  then show ?thesis
    unfolding total sqlite3Multiply128_def Let_def p0_def p1_def p2_def p3_def .
qed

section \<open>Leading zeros\<close>

text \<open>One line of the cascade: \<open>if( m <= lim ){ n += s; m <<= s; }\<close>.\<close>

definition clz_step :: "u64 \<Rightarrow> nat \<Rightarrow> nat \<times> u64 \<Rightarrow> nat \<times> u64" where
  "clz_step lim s = (\<lambda>(n, m). if m \<le> lim then (n + s, push_bit s m) else (n, m))"

definition countLeadingZeros :: "u64 \<Rightarrow> nat" where
  "countLeadingZeros m =
     (let x = (0, m);
          x = clz_step 0x00000000ffffffff 32 x;
          x = clz_step 0x0000ffffffffffff 16 x;
          x = clz_step 0x00ffffffffffffff 8 x;
          x = clz_step 0x0fffffffffffffff 4 x;
          x = clz_step 0x3fffffffffffffff 2 x;
          (n, m) = x
      in if m \<le> 0x7fffffffffffffff then n + 1 else n)"

lemma unat_push_bit_small:
  assumes "unat m * 2 ^ s < 2 ^ 64"
  shows "unat (push_bit s (m :: u64)) = unat m * 2 ^ s"
  using assms by (simp add: unsigned_push_bit_eq take_bit_eq_mod push_bit_nat_def)

text \<open>
  Before the step with shift \<open>s\<close> the top set bit of the shifted value is among its
  \<open>2 s\<close> highest; the step leaves it among the \<open>s\<close> highest and loses no bit.
\<close>

definition clz_inv :: "u64 \<Rightarrow> nat \<Rightarrow> nat \<times> u64 \<Rightarrow> bool" where
  "clz_inv m0 s = (\<lambda>(n, m). unat m = unat m0 * 2 ^ n \<and> 2 ^ (64 - 2 * s) \<le> unat m)"

lemma clz_step_inv:
  assumes inv: "clz_inv m0 s x" and lim: "unat lim + 1 = 2 ^ (64 - s)" and s: "s \<le> 32" "2 * t = s"
  shows "clz_inv m0 t (clz_step lim s x)"
proof -
  obtain n m where x: "x = (n, m)" by (cases x)
  show ?thesis
  proof (cases "m \<le> lim")
    case True
    with lim have "unat m < 2 ^ (64 - s)" by (simp add: word_le_nat_alt)
    then have "unat m * 2 ^ s < 2 ^ (64 - s) * 2 ^ s" by simp
    also have "(2::nat) ^ (64 - s) * 2 ^ s = 2 ^ 64" using s by (simp flip: power_add)
    finally have u: "unat (push_bit s m) = unat m * 2 ^ s" by (rule unat_push_bit_small)
    have "(2::nat) ^ (64 - s) = 2 ^ (64 - 2 * s) * 2 ^ s"
      using s by (simp flip: power_add)
    also have "\<dots> \<le> unat m * 2 ^ s" using inv x by (simp add: clz_inv_def)
    finally show ?thesis
      using True u inv x s by (simp add: clz_step_def clz_inv_def power_add)
  next
    case False
    with inv lim x s show ?thesis
      by (simp add: clz_step_def clz_inv_def word_le_nat_alt)
  qed
qed

lemma clz_normalises:
  assumes "m \<noteq> 0"
  shows "2 ^ 63 \<le> unat m * 2 ^ countLeadingZeros m \<and> unat m * 2 ^ countLeadingZeros m < 2 ^ 64"
proof -
  have "clz_inv m 32 (0, m)" using assms unat_gt_0 [of m] by (simp add: clz_inv_def)
  then have "clz_inv m 16 (clz_step 0xffffffff 32 (0, m))" by (rule clz_step_inv) auto
  then have "clz_inv m 8 (clz_step 0xffffffffffff 16 (clz_step 0xffffffff 32 (0, m)))"
    (is "clz_inv m 8 ?x2") by (rule clz_step_inv) auto
  then have "clz_inv m 4 (clz_step 0xffffffffffffff 8 ?x2)" (is "clz_inv m 4 ?x3")
    by (rule clz_step_inv) auto
  then have "clz_inv m 2 (clz_step 0xfffffffffffffff 4 ?x3)" (is "clz_inv m 2 ?x4")
    by (rule clz_step_inv) auto
  then have "clz_inv m 1 (clz_step 0x3fffffffffffffff 2 ?x4)" (is "clz_inv m 1 ?x5")
    by (rule clz_step_inv) auto
  then obtain n m' where x: "?x5 = (n, m')" and inv: "unat m' = unat m * 2 ^ n" "2 ^ 62 \<le> unat m'"
    by (cases ?x5) (auto simp: clz_inv_def)
  have "countLeadingZeros m = (if m' \<le> 0x7fffffffffffffff then n + 1 else n)"
    using x by (simp add: countLeadingZeros_def Let_def)
  with inv unat_u64_less [of m'] show ?thesis
    by (auto simp: word_le_nat_alt)
qed

section \<open>Logarithmic estimates\<close>

text \<open>\<open>LogEst\<close> is a 16-bit signed type; every value here stays far inside its range.\<close>

definition logEstAdd_x :: "int list" where
  "logEstAdd_x =
     [10, 10, 9, 9, 8, 8, 7, 7, 7, 6, 6, 6, 5, 5, 5, 4, 4, 4, 4,
      3, 3, 3, 3, 3, 3, 2, 2, 2, 2, 2, 2, 2]"

definition sqlite3LogEstAdd :: "int \<Rightarrow> int \<Rightarrow> int" where
  "sqlite3LogEstAdd a b =
     (if a \<ge> b then
        (if a > b + 49 then a else if a > b + 31 then a + 1
         else a + logEstAdd_x ! nat (a - b))
      else
        (if b > a + 49 then b else if b > a + 31 then b + 1
         else b + logEstAdd_x ! nat (b - a)))"

definition logEst_a :: "int list" where
  "logEst_a = [0, 2, 3, 5, 6, 7, 8, 9]"

text \<open>\<open>while( x<8 ){ y -= 10; x <<= 1; }\<close> for \<open>2 \<le> x\<close>.\<close>

function logEst_up :: "u64 \<Rightarrow> int \<Rightarrow> u64 \<times> int" where
  "logEst_up x y = (if x < 8 \<and> x \<noteq> 0 then logEst_up (push_bit 1 x) (y - 10) else (x, y))"
  by pat_completeness auto
termination
proof (relation "measure (\<lambda>(x, y). 8 - unat x)", simp_all, goal_cases)
  case (1 x)
  then have "unat x < 8" "0 < unat x" by (simp_all add: word_less_nat_alt unat_gt_0)
  moreover from this have "unat (push_bit 1 x) = unat x * 2"
    by (simp add: push_bit_eq_mult unat_word_ariths)
  ultimately show ?case by simp
qed

text \<open>\<open>while( x>255 ){ y += 40; x >>= 4; }\<close>\<close>

function logEst_down4 :: "u64 \<Rightarrow> int \<Rightarrow> u64 \<times> int" where
  "logEst_down4 x y = (if x > 255 then logEst_down4 (drop_bit 4 x) (y + 40) else (x, y))"
  by pat_completeness auto
termination
  by (relation "measure (\<lambda>(x, y). unat x)") (auto simp: unat_drop_bit_eq drop_bit_nat_def word_less_nat_alt)

text \<open>\<open>while( x>15 ){ y += 10; x >>= 1; }\<close>\<close>

function logEst_down1 :: "u64 \<Rightarrow> int \<Rightarrow> u64 \<times> int" where
  "logEst_down1 x y = (if x > 15 then logEst_down1 (drop_bit 1 x) (y + 10) else (x, y))"
  by pat_completeness auto
termination
  by (relation "measure (\<lambda>(x, y). unat x)") (auto simp: unat_drop_bit_eq drop_bit_nat_def word_less_nat_alt)

declare logEst_up.simps [simp del] logEst_down4.simps [simp del] logEst_down1.simps [simp del]

definition sqlite3LogEst :: "u64 \<Rightarrow> int" where
  "sqlite3LogEst x =
     (if x < 8 then
        (if x < 2 then 0
         else let (x, y) = logEst_up x 40 in logEst_a ! unat (x AND 7) + y - 10)
      else
        let (x, y) = logEst_down4 x 40;
            (x, y) = logEst_down1 x y
        in logEst_a ! unat (x AND 7) + y - 10)"

text \<open>C's \<open>%\<close> and \<open>/\<close> truncate towards zero; \<open>n\<close> is unsigned.\<close>

definition sqlite3LogEstToInt :: "int \<Rightarrow> u64" where
  "sqlite3LogEstToInt x =
     (let n = word_of_int (x smod 10) :: u64;
          x = x sdiv 10;
          n = (if n \<ge> 5 then n - 2 else if n \<ge> 1 then n - 1 else n)
      in if x > 60 then 0x7fffffffffffffff
         else if x \<ge> 3 then push_bit (nat (x - 3)) (n + 8) else drop_bit (nat (3 - x)) (n + 8))"

text \<open>A number rounded down to its four leading bits.\<close>

fun lead4 :: "nat \<Rightarrow> nat" where
  "lead4 x = (if x < 16 then x else 2 * lead4 (x div 2))"

declare lead4.simps [simp del]

text \<open>\<open>L\<close> is the integer nearest to \<open>10 log2 y\<close>.\<close>

definition nearest_log :: "nat \<Rightarrow> int \<Rightarrow> bool" where
  "nearest_log y L \<longleftrightarrow> 0 \<le> L \<and> 2 ^ (2 * nat L) \<le> 2 * y ^ 20 \<and> y ^ 20 < 2 * 2 ^ (2 * nat L)"

lemma logEst_down4_shift:
  "8 \<le> unat x \<Longrightarrow> \<exists>k x'. logEst_down4 x y = (x', y + 10 * int k) \<and>
     unat x' = unat x div 2 ^ k \<and> 8 \<le> unat x'"
proof (induction x y rule: logEst_down4.induct)
  case (1 x y)
  show ?case
  proof (cases "255 < x")
    case True
    then have "8 \<le> unat (drop_bit 4 x)"
      by (simp add: unat_drop_bit_eq drop_bit_nat_def word_less_nat_alt)
    from "1.IH" [OF True this] obtain k x' where
      "logEst_down4 (drop_bit 4 x) (y + 40) = (x', y + 40 + 10 * int k)"
      "unat x' = unat (drop_bit 4 x) div 2 ^ k" "8 \<le> unat x'" by auto
    then show ?thesis using True
      by (intro exI [of _ "k + 4"] exI [of _ x'])
        (simp add: logEst_down4.simps [of x] unat_drop_bit_eq drop_bit_nat_def power_add
          mult.commute flip: div_mult2_eq)
  next
    case False
    with "1.prems" show ?thesis
      by (intro exI [of _ 0] exI [of _ x]) (simp add: logEst_down4.simps [of x])
  qed
qed

lemma logEst_down1_shift:
  "8 \<le> unat x \<Longrightarrow> \<exists>k x'. logEst_down1 x y = (x', y + 10 * int k) \<and>
     unat x' = unat x div 2 ^ k \<and> 8 \<le> unat x' \<and> unat x' < 16"
proof (induction x y rule: logEst_down1.induct)
  case (1 x y)
  show ?case
  proof (cases "15 < x")
    case True
    then have "8 \<le> unat (drop_bit 1 x)"
      by (simp add: unat_drop_bit_eq drop_bit_nat_def word_less_nat_alt)
    from "1.IH" [OF True this] obtain k x' where
      "logEst_down1 (drop_bit 1 x) (y + 10) = (x', y + 10 + 10 * int k)"
      "unat x' = unat (drop_bit 1 x) div 2 ^ k" "8 \<le> unat x'" "unat x' < 16" by auto
    then show ?thesis using True
      by (intro exI [of _ "k + 1"] exI [of _ x'])
        (simp add: logEst_down1.simps [of x] unat_drop_bit_eq drop_bit_nat_def div_mult2_eq)
  next
    case False
    with "1.prems" show ?thesis
      by (intro exI [of _ 0] exI [of _ x])
        (simp add: logEst_down1.simps [of x] word_less_nat_alt)
  qed
qed

lemma and_7_eq_mod_8: "(x :: u64) AND 7 = x mod 8"
  using take_bit_eq_mask [of 3 x] by (simp add: take_bit_eq_mod mask_eq_exp_minus_1)

lemma logEst_large:
  assumes "8 \<le> unat x"
  obtains k m where "8 \<le> m" "m < 16" "m * 2 ^ k \<le> unat x" "unat x < (m + 1) * 2 ^ k"
    "sqlite3LogEst x = logEst_a ! (m - 8) + 30 + 10 * int k"
proof -
  obtain k1 x1 where 1: "logEst_down4 x 40 = (x1, 40 + 10 * int k1)"
    "unat x1 = unat x div 2 ^ k1" "8 \<le> unat x1"
    using logEst_down4_shift [OF assms, of 40] by auto
  obtain k2 x2 where 2: "logEst_down1 x1 (40 + 10 * int k1) = (x2, 40 + 10 * int k1 + 10 * int k2)"
    "unat x2 = unat x1 div 2 ^ k2" "8 \<le> unat x2" "unat x2 < 16"
    using logEst_down1_shift [OF 1(3), of "40 + 10 * int k1"] by auto
  let ?m = "unat x2" and ?k = "k1 + k2"
  have m: "?m = unat x div 2 ^ ?k"
    using 1(2) 2(2) by (simp add: power_add div_mult2_eq)
  have "unat (x2 AND 7) = ?m mod 8"
    by (simp add: and_7_eq_mod_8 unat_mod)
  with 2(3,4) have "unat (x2 AND 7) = ?m - 8" by (simp add: mod_if)
  then have "sqlite3LogEst x = logEst_a ! (?m - 8) + 30 + 10 * int ?k"
    using assms 1(1) 2(1) by (simp add: sqlite3LogEst_def word_less_nat_alt)
  moreover have "?m * 2 ^ ?k \<le> unat x" "unat x < (?m + 1) * 2 ^ ?k"
    unfolding m using div_times_less_eq_dividend [of "unat x" "2 ^ ?k"]
     dividend_less_div_times [of "2 ^ ?k" "unat x"] by (simp_all add: algebra_simps)
  ultimately show ?thesis using 2(3,4) that by blast
qed

lemma logEst_small_values:
  "sqlite3LogEst 1 = 0" "sqlite3LogEst 2 = 10" "sqlite3LogEst 3 = 16" "sqlite3LogEst 4 = 20"
  "sqlite3LogEst 5 = 23" "sqlite3LogEst 6 = 26" "sqlite3LogEst 7 = 28"
  by (simp_all add: sqlite3LogEst_def logEst_a_def logEst_up.simps word_less_nat_alt)

lemma unat_eqD: "unat (x :: u64) = n \<Longrightarrow> x = of_nat n"
  by (drule sym) simp

lemma lead4_eq:
  assumes "8 \<le> m" "m < 16" "m * 2 ^ k \<le> x" "x < (m + 1) * 2 ^ k"
  shows "lead4 x = m * 2 ^ k"
  using assms(3,4)
proof (induction k arbitrary: x)
  case 0
  then show ?case using assms(1,2) by (subst lead4.simps) auto
next
  case (Suc k)
  have "16 \<le> x" using Suc.prems(1) assms(1) order_trans [of 16 "m * (2 * 2 ^ k)" x] mult_le_mono [of 8 m 2 "2 * 2 ^ k"] by auto
  moreover have "m * 2 ^ k \<le> x div 2" "x div 2 < (m + 1) * 2 ^ k" using Suc.prems by (auto simp: less_mult_imp_div_less)
  ultimately show ?case using Suc.IH [of "x div 2"] by (subst lead4.simps) simp
qed

lemma logEst_table_nearest:
  assumes "8 \<le> m" and "m < (16::nat)"
  shows "2 ^ (2 * (nat (logEst_a ! (m - 8)) + 30)) \<le> 2 * m ^ 20 \<and>
    m ^ 20 < 2 * 2 ^ (2 * (nat (logEst_a ! (m - 8)) + 30)) \<and> 0 \<le> logEst_a ! (m - 8)"
proof -
  have "m \<in> {8, 9, 10, 11, 12, 13, 14, 15}" using assms by auto
  then show ?thesis by (auto simp: logEst_a_def)
qed

lemma logEstToInt_inverse:
  assumes "n < 8" "k \<le> 57"
  shows "sqlite3LogEstToInt (logEst_a ! n + 30 + 10 * int k) = of_nat ((n + 8) * 2 ^ k)"
proof -
  let ?a = "logEst_a ! n"
  have "n \<in> {0, 1, 2, 3, 4, 5, 6, 7}" using assms(1) by auto
  then have a: "0 \<le> ?a" "?a < 10" "(if word_of_int ?a \<ge> (5 :: u64) then word_of_int ?a - 2
      else if word_of_int ?a \<ge> (1 :: u64) then word_of_int ?a - 1 else word_of_int ?a) = (of_nat n :: u64)"
    by (auto simp: logEst_a_def word_le_nat_alt)
  have "(a + 30 + 10 * int k) mod 10 = a" "(a + 30 + 10 * int k) div 10 = 3 + int k"
    if "0 \<le> a" "a < 10" for a :: int
    using that by presburger+
  then have "(?a + 30 + 10 * int k) smod 10 = ?a" "(?a + 30 + 10 * int k) sdiv 10 = 3 + int k"
    using a(1,2) by (simp_all add: signed_modulo_int_eq_modulo_int signed_divide_int_eq_divide_int)
  then show ?thesis
    using a(3) assms(2) by (simp add: sqlite3LogEstToInt_def Let_def push_bit_eq_mult)
qed

lemma logEst_nearest_large:
  assumes "8 \<le> unat x"
  shows "nearest_log (lead4 (unat x)) (sqlite3LogEst x) \<and>
    (unat x < 2 ^ 61 \<longrightarrow> unat (sqlite3LogEstToInt (sqlite3LogEst x)) = lead4 (unat x))"
proof -
  obtain k m where m: "8 \<le> m" "m < 16" "m * 2 ^ k \<le> unat x" "unat x < (m + 1) * 2 ^ k"
    and L: "sqlite3LogEst x = logEst_a ! (m - 8) + 30 + 10 * int k"
    using logEst_large [OF assms] by metis
  let ?a = "nat (logEst_a ! (m - 8))"
  note tab = logEst_table_nearest [OF m(1,2)] and y = lead4_eq [OF m]
  have nL: "nat (sqlite3LogEst x) = ?a + 30 + 10 * k"
    using L tab by (simp add: nat_add_distrib nat_mult_distrib)
  have split: "(2::nat) ^ (2 * (?a + 30 + 10 * k)) = 2 ^ (2 * (?a + 30)) * (2 ^ k) ^ 20"
    by (simp add: distrib_left power_add flip: power_mult)
  have "nearest_log (lead4 (unat x)) (sqlite3LogEst x)"
    unfolding nearest_log_def y nL split power_mult_distrib using tab L by (simp add: mult.assoc [symmetric])
  moreover have "unat (sqlite3LogEstToInt (sqlite3LogEst x)) = m * 2 ^ k" if "unat x < 2 ^ 61"
  proof -
    have "8 * 2 ^ k \<le> unat x" using mult_le_mono1 [OF m(1), of "2 ^ k"] m(3) by (rule order_trans)
    with that have "2 ^ k < (2 :: nat) ^ 58" by simp
    then have "k < 58" by (rule power_less_imp_less_exp [rotated]) simp
    then have k: "k \<le> 57" by simp
    have "m * 2 ^ k < 2 ^ 64" using m(3) that by simp
    then show ?thesis
      using logEstToInt_inverse [of "m - 8" k] m(1,2) k by (simp add: L unat_of_nat del: of_nat_mult)
  qed
  ultimately show ?thesis using y by simp
qed

lemma lead4_small: "x < 16 \<Longrightarrow> lead4 x = x"
  by (subst lead4.simps) simp

lemma logEstToInt_small_values:
  "sqlite3LogEstToInt 0 = 1" "sqlite3LogEstToInt 10 = 2" "sqlite3LogEstToInt 16 = 3" "sqlite3LogEstToInt 20 = 4"
  "sqlite3LogEstToInt 23 = 5" "sqlite3LogEstToInt 26 = 6" "sqlite3LogEstToInt 28 = 7"
  by (simp_all add: sqlite3LogEstToInt_def Let_def signed_modulo_int_eq_modulo_int
    signed_divide_int_eq_divide_int drop_bit_eq_div word_le_nat_alt)

lemma logEst_nearest:
  assumes "x \<noteq> 0"
  shows "nearest_log (lead4 (unat x)) (sqlite3LogEst x) \<and>
    (unat x < 2 ^ 61 \<longrightarrow> unat (sqlite3LogEstToInt (sqlite3LogEst x)) = lead4 (unat x))"
proof (cases "8 \<le> unat x")
  case False
  with assms have "unat x \<in> {1, 2, 3, 4, 5, 6, 7}" using unat_gt_0 [of x] by auto
  then have "x \<in> {1, 2, 3, 4, 5, 6, 7}" by (auto dest!: unat_eqD)
  then show ?thesis
    by (elim insertE emptyE)
      (simp_all add: logEst_small_values logEstToInt_small_values nearest_log_def lead4_small)
qed (rule logEst_nearest_large)

lemma logEstAdd_commute: "sqlite3LogEstAdd a b = sqlite3LogEstAdd b a"
  by (simp add: sqlite3LogEstAdd_def)

lemma logEstAdd_table: "x \<in> set logEstAdd_x \<Longrightarrow> 1 < x \<and> x \<le> 10"
  by (auto simp: logEstAdd_x_def)

lemma logEstAdd_range: "max a b \<le> sqlite3LogEstAdd a b \<and> sqlite3LogEstAdd a b \<le> max a b + 10"
proof -
  have "1 < logEstAdd_x ! nat d \<and> logEstAdd_x ! nat d \<le> 10" if "0 \<le> d" "d \<le> 31" for d
    using that by (intro logEstAdd_table nth_mem) (simp add: logEstAdd_x_def)
  from this [of "a - b"] this [of "b - a"] show ?thesis
    by (cases "b \<le> a") (auto simp: sqlite3LogEstAdd_def max_def)
qed

section \<open>Properties\<close>

text \<open>
  C28: \<open>sqlite3AddInt64\<close>, \<open>sqlite3SubInt64\<close> and \<open>sqlite3MulInt64\<close> return 0 and store
  the exact mathematical result whenever it fits a signed 64-bit integer, and otherwise
  return 1 and leave the operand unchanged.
\<close>

theorem int64_arith_exact:
  "sqlite3AddInt64 a b = (if in_i64 (sint a + sint b) then (0, word_of_int (sint a + sint b)) else (1, a)) \<and>
   sqlite3SubInt64 a b = (if in_i64 (sint a - sint b) then (0, word_of_int (sint a - sint b)) else (1, a)) \<and>
   sqlite3MulInt64 a b = (if in_i64 (sint a * sint b) then (0, word_of_int (sint a * sint b)) else (1, a))"
  by (simp add: addInt64_exact subInt64_exact mulInt64_exact)

text \<open>
  \<open>sqlite3Multiply128\<close>, computed with four 32-bit products and an explicit carry,
  is the high 64 bits of the 128-bit product.
\<close>

theorem multiply128_is_high_half: "unat (sqlite3Multiply128 a b) = unat a * unat b div 2 ^ 64"
  by (rule multiply128_high)

text \<open>
  C37: For every positive \<open>x\<close>, \<open>sqlite3LogEst x\<close> is the integer nearest to \<open>10 log2 y\<close>, where
  \<open>y\<close> is \<open>x\<close> rounded down to its four leading bits (the bits that index the table);
  nearest is written without reals, as \<open>2^(2L-1) \<le> y^20 < 2^(2L+1)\<close>.  For \<open>x < 2^61\<close>
  \<open>sqlite3LogEstToInt\<close> of the estimate is that rounded number \<open>y\<close> itself.
\<close>

theorem logEst_nearest_integer:
  assumes "x \<noteq> 0"
  shows "2 ^ (2 * nat (sqlite3LogEst x)) \<le> 2 * lead4 (unat x) ^ 20 \<and>
    lead4 (unat x) ^ 20 < 2 * 2 ^ (2 * nat (sqlite3LogEst x)) \<and> 0 \<le> sqlite3LogEst x \<and>
    (unat x < 2 ^ 61 \<longrightarrow> unat (sqlite3LogEstToInt (sqlite3LogEst x)) = lead4 (unat x))"
  using logEst_nearest [OF assms] by (simp add: nearest_log_def)

theorem logEst_nearest_integer_witness:
  "unat (sqlite3LogEstToInt (sqlite3LogEst 1000)) = 960"
proof -
  have "lead4 1000 = 960" using lead4_eq [of 15 6 1000] by simp
  then show ?thesis using logEst_nearest_integer [of 1000] by simp
qed

end
