(* ===== verification/Sq_Ctype.thy ===== *)
theory Sq_Ctype
  imports Sq_Prelude
begin

text \<open>
  Character classes and case folding of global.c and sqliteInt.h: the tables
  \<open>sqlite3UpperToLower\<close> and \<open>sqlite3CtypeMap\<close> (the ASCII build), the macros that
  read them, and the comparison and hashing of names built on them in util.c
  (\<open>sqlite3StrICmp\<close>, \<open>sqlite3_stricmp\<close>, \<open>sqlite3_strnicmp\<close>,
  \<open>sqlite3StrIHash\<close>, \<open>sqlite3Strlen30\<close>).
\<close>

section \<open>Tables\<close>

definition sqlite3UpperToLower :: "u8 list" where
  "sqlite3UpperToLower = [
     0, 1, 2, 3, 4, 5, 6, 7, 8, 9, 10, 11, 12, 13, 14, 15, 16, 17,
     18, 19, 20, 21, 22, 23, 24, 25, 26, 27, 28, 29, 30, 31, 32, 33, 34, 35,
     36, 37, 38, 39, 40, 41, 42, 43, 44, 45, 46, 47, 48, 49, 50, 51, 52, 53,
     54, 55, 56, 57, 58, 59, 60, 61, 62, 63, 64, 97, 98, 99, 100, 101, 102, 103,
     104, 105, 106, 107, 108, 109, 110, 111, 112, 113, 114, 115, 116, 117, 118, 119, 120, 121,
     122, 91, 92, 93, 94, 95, 96, 97, 98, 99, 100, 101, 102, 103, 104, 105, 106, 107,
     108, 109, 110, 111, 112, 113, 114, 115, 116, 117, 118, 119, 120, 121, 122, 123, 124, 125,
     126, 127, 128, 129, 130, 131, 132, 133, 134, 135, 136, 137, 138, 139, 140, 141, 142, 143,
     144, 145, 146, 147, 148, 149, 150, 151, 152, 153, 154, 155, 156, 157, 158, 159, 160, 161,
     162, 163, 164, 165, 166, 167, 168, 169, 170, 171, 172, 173, 174, 175, 176, 177, 178, 179,
     180, 181, 182, 183, 184, 185, 186, 187, 188, 189, 190, 191, 192, 193, 194, 195, 196, 197,
     198, 199, 200, 201, 202, 203, 204, 205, 206, 207, 208, 209, 210, 211, 212, 213, 214, 215,
     216, 217, 218, 219, 220, 221, 222, 223, 224, 225, 226, 227, 228, 229, 230, 231, 232, 233,
     234, 235, 236, 237, 238, 239, 240, 241, 242, 243, 244, 245, 246, 247, 248, 249, 250, 251,
     252, 253, 254, 255]"

definition sqlite3CtypeMap :: "u8 list" where
  "sqlite3CtypeMap = [
     0x00, 0x00, 0x00, 0x00, 0x00, 0x00, 0x00, 0x00, 0x00, 0x01, 0x01, 0x01, 0x01, 0x01, 0x00, 0x00,
     0x00, 0x00, 0x00, 0x00, 0x00, 0x00, 0x00, 0x00, 0x00, 0x00, 0x00, 0x00, 0x00, 0x00, 0x00, 0x00,
     0x01, 0x00, 0x80, 0x00, 0x40, 0x00, 0x00, 0x80, 0x00, 0x00, 0x00, 0x00, 0x00, 0x00, 0x00, 0x00,
     0x0c, 0x0c, 0x0c, 0x0c, 0x0c, 0x0c, 0x0c, 0x0c, 0x0c, 0x0c, 0x00, 0x00, 0x00, 0x00, 0x00, 0x00,
     0x00, 0x0a, 0x0a, 0x0a, 0x0a, 0x0a, 0x0a, 0x02, 0x02, 0x02, 0x02, 0x02, 0x02, 0x02, 0x02, 0x02,
     0x02, 0x02, 0x02, 0x02, 0x02, 0x02, 0x02, 0x02, 0x02, 0x02, 0x02, 0x80, 0x00, 0x00, 0x00, 0x40,
     0x80, 0x2a, 0x2a, 0x2a, 0x2a, 0x2a, 0x2a, 0x22, 0x22, 0x22, 0x22, 0x22, 0x22, 0x22, 0x22, 0x22,
     0x22, 0x22, 0x22, 0x22, 0x22, 0x22, 0x22, 0x22, 0x22, 0x22, 0x22, 0x00, 0x00, 0x00, 0x00, 0x00,
     0x40, 0x40, 0x40, 0x40, 0x40, 0x40, 0x40, 0x40, 0x40, 0x40, 0x40, 0x40, 0x40, 0x40, 0x40, 0x40,
     0x40, 0x40, 0x40, 0x40, 0x40, 0x40, 0x40, 0x40, 0x40, 0x40, 0x40, 0x40, 0x40, 0x40, 0x40, 0x40,
     0x40, 0x40, 0x40, 0x40, 0x40, 0x40, 0x40, 0x40, 0x40, 0x40, 0x40, 0x40, 0x40, 0x40, 0x40, 0x40,
     0x40, 0x40, 0x40, 0x40, 0x40, 0x40, 0x40, 0x40, 0x40, 0x40, 0x40, 0x40, 0x40, 0x40, 0x40, 0x40,
     0x40, 0x40, 0x40, 0x40, 0x40, 0x40, 0x40, 0x40, 0x40, 0x40, 0x40, 0x40, 0x40, 0x40, 0x40, 0x40,
     0x40, 0x40, 0x40, 0x40, 0x40, 0x40, 0x40, 0x40, 0x40, 0x40, 0x40, 0x40, 0x40, 0x40, 0x40, 0x40,
     0x40, 0x40, 0x40, 0x40, 0x40, 0x40, 0x40, 0x40, 0x40, 0x40, 0x40, 0x40, 0x40, 0x40, 0x40, 0x40,
     0x40, 0x40, 0x40, 0x40, 0x40, 0x40, 0x40, 0x40, 0x40, 0x40, 0x40, 0x40, 0x40, 0x40, 0x40, 0x40]"

definition UpperToLower :: "u8 \<Rightarrow> u8" where
  "UpperToLower c = sqlite3UpperToLower ! unat c"

definition CtypeMap :: "u8 \<Rightarrow> u8" where
  "CtypeMap c = sqlite3CtypeMap ! unat c"

definition sqlite3Toupper :: "u8 \<Rightarrow> u8" where
  "sqlite3Toupper x = x AND NOT (CtypeMap x AND 0x20)"

definition sqlite3Isspace :: "u8 \<Rightarrow> bool" where
  "sqlite3Isspace x \<longleftrightarrow> CtypeMap x AND 0x01 \<noteq> 0"

definition sqlite3Isalnum :: "u8 \<Rightarrow> bool" where
  "sqlite3Isalnum x \<longleftrightarrow> CtypeMap x AND 0x06 \<noteq> 0"

definition sqlite3Isalpha :: "u8 \<Rightarrow> bool" where
  "sqlite3Isalpha x \<longleftrightarrow> CtypeMap x AND 0x02 \<noteq> 0"

definition sqlite3Isdigit :: "u8 \<Rightarrow> bool" where
  "sqlite3Isdigit x \<longleftrightarrow> CtypeMap x AND 0x04 \<noteq> 0"

definition sqlite3Isxdigit :: "u8 \<Rightarrow> bool" where
  "sqlite3Isxdigit x \<longleftrightarrow> CtypeMap x AND 0x08 \<noteq> 0"

definition sqlite3Isquote :: "u8 \<Rightarrow> bool" where
  "sqlite3Isquote x \<longleftrightarrow> CtypeMap x AND 0x80 \<noteq> 0"

definition IdChar :: "u8 \<Rightarrow> bool" where
  "IdChar x \<longleftrightarrow> CtypeMap x AND 0x46 \<noteq> 0"

section \<open>What the tables say\<close>

lemma u8_table:
  assumes "map f tab = map g [0..<256]"
  shows "f (tab ! unat (c :: u8)) = g (unat c)"
proof -
  have len: "length tab = 256" using arg_cong [OF assms, of length] by simp
  have c: "unat c < 256" using unsigned_less [of c, where 'a = nat] by simp
  have "f (tab ! unat c) = map f tab ! unat c" using len c by simp
  also have "\<dots> = g (unat c)" using c by (simp add: assms del: upt_rec_numeral)
  finally show ?thesis .
qed

lemma upperToLower_table:
  "map unat sqlite3UpperToLower = map (\<lambda>n. if 65 \<le> n \<and> n \<le> 90 then n + 32 else n) [0..<256]"
  by code_simp

lemma isdigit_table:
  "map (\<lambda>x. x AND 0x04 \<noteq> 0) sqlite3CtypeMap = map (\<lambda>n. 48 \<le> n \<and> n \<le> 57) [0..<256]"
  by code_simp

lemma isspace_table:
  "map (\<lambda>x. x AND 0x01 \<noteq> 0) sqlite3CtypeMap = map (\<lambda>n. n = 32 \<or> 9 \<le> n \<and> n \<le> 13) [0..<256]"
  by code_simp

lemma isxdigit_table:
  "map (\<lambda>x. x AND 0x08 \<noteq> 0) sqlite3CtypeMap =
   map (\<lambda>n. 48 \<le> n \<and> n \<le> 57 \<or> 65 \<le> n \<and> n \<le> 70 \<or> 97 \<le> n \<and> n \<le> 102) [0..<256]"
  by code_simp

lemma isquote_table:
  "map (\<lambda>x. x AND 0x80 \<noteq> 0) sqlite3CtypeMap =
   map (\<lambda>n. n = 34 \<or> n = 39 \<or> n = 91 \<or> n = 96) [0..<256]"
  by code_simp

lemma unat_UpperToLower:
  "unat (UpperToLower c) = (if 65 \<le> unat c \<and> unat c \<le> 90 then unat c + 32 else unat c)"
  unfolding UpperToLower_def by (rule u8_table [OF upperToLower_table])

lemma isdigit_iff: "sqlite3Isdigit c \<longleftrightarrow> 48 \<le> unat c \<and> unat c \<le> 57"
  unfolding sqlite3Isdigit_def CtypeMap_def by (rule u8_table [OF isdigit_table])

lemma isspace_iff: "sqlite3Isspace c \<longleftrightarrow> unat c = 32 \<or> 9 \<le> unat c \<and> unat c \<le> 13"
  unfolding sqlite3Isspace_def CtypeMap_def by (rule u8_table [OF isspace_table])

lemma isxdigit_iff:
  "sqlite3Isxdigit c \<longleftrightarrow> 48 \<le> unat c \<and> unat c \<le> 57 \<or> 65 \<le> unat c \<and> unat c \<le> 70 \<or>
     97 \<le> unat c \<and> unat c \<le> 102"
  unfolding sqlite3Isxdigit_def CtypeMap_def by (rule u8_table [OF isxdigit_table])

lemma isquote_iff:
  "sqlite3Isquote c \<longleftrightarrow> unat c = 34 \<or> unat c = 39 \<or> unat c = 91 \<or> unat c = 96"
  unfolding sqlite3Isquote_def CtypeMap_def by (rule u8_table [OF isquote_table])

lemma UpperToLower_idem [simp]: "UpperToLower (UpperToLower c) = UpperToLower c"
  by (rule unsigned_word_eqI [where 'a = nat]) (simp add: unat_UpperToLower)

lemma UpperToLower_zero: "UpperToLower c = 0 \<longleftrightarrow> c = 0"
  using unat_UpperToLower [of c] unat_eq_zero [of c] unat_eq_zero [of "UpperToLower c"]
  by (auto split: if_splits)

section \<open>Comparison without case\<close>

definition sqlite3Strlen30 :: "cstr option \<Rightarrow> nat" where
  "sqlite3Strlen30 z = (case z of None \<Rightarrow> 0 | Some z \<Rightarrow> and 0x3fffffff (length z))"

lemma zat_nonzero_less: "zat z i \<noteq> 0 \<Longrightarrow> i < length z"
  by (simp add: zat_def split: if_splits)

lemma UpperToLower_0 [simp]: "UpperToLower 0 = 0"
  by (simp add: UpperToLower_zero)

lemma uint_UpperToLower_zero [simp]: "uint (UpperToLower c) = 0 \<longleftrightarrow> c = 0"
  using UpperToLower_zero [of c] by (simp add: uint_0_iff)

lemma uint_UpperToLower_eq [simp]:
  "uint (UpperToLower c) = uint (UpperToLower x) \<longleftrightarrow> UpperToLower c = UpperToLower x"
  by (rule word_uint_eq_iff [symmetric])

lemma UpperToLower_same_zero: "UpperToLower c = UpperToLower x \<Longrightarrow> c = 0 \<longleftrightarrow> x = 0"
  by (metis UpperToLower_zero)

lemma stricmp_continues:
  "UpperToLower (zat a i) = UpperToLower (zat b i) \<Longrightarrow> zat a i \<noteq> 0 \<or> zat a i \<noteq> zat b i \<Longrightarrow>
   i < length a"
  using UpperToLower_same_zero [of "zat a i" "zat b i"] zat_nonzero_less [of a i] by auto

text \<open>
  The loop of \<open>sqlite3StrICmp\<close> over the two strings; past its end a string reads as its
  terminator.  It stops at the latest at the terminator of the shorter string.
\<close>

function stricmp_from :: "cstr \<Rightarrow> cstr \<Rightarrow> nat \<Rightarrow> int" where
  "stricmp_from a b i =
     (let c = zat a i; x = zat b i in
      if c = x then
        (if c = 0 then 0 else stricmp_from a b (i + 1))
      else
        let d = uint (UpperToLower c) - uint (UpperToLower x) in
        if d \<noteq> 0 then d else stricmp_from a b (i + 1))"
  by pat_completeness auto
termination
proof (relation "measure (\<lambda>(a, b, i). length a - i)", goal_cases)
  case (2 a b i c x)
  then show ?case using stricmp_continues [of a i b] by simp
next
  case (3 a b i c x)
  then show ?case using stricmp_continues [of a i b] by simp
qed simp

declare stricmp_from.simps [simp del]

definition sqlite3StrICmp :: "cstr \<Rightarrow> cstr \<Rightarrow> int" where
  "sqlite3StrICmp zLeft zRight = stricmp_from zLeft zRight 0"

definition sqlite3_stricmp :: "cstr option \<Rightarrow> cstr option \<Rightarrow> int" where
  "sqlite3_stricmp zLeft zRight =
     (case zLeft of
        None \<Rightarrow> (case zRight of Some _ \<Rightarrow> -1 | None \<Rightarrow> 0)
      | Some l \<Rightarrow> (case zRight of None \<Rightarrow> 1 | Some r \<Rightarrow> sqlite3StrICmp l r))"

text \<open>\<open>while( N-- > 0 && *a!=0 && UpperToLower[*a]==UpperToLower[*b]){ a++; b++; }\<close>
  followed by \<open>return N<0 ? 0 : UpperToLower[*a] - UpperToLower[*b];\<close>: the counter is
  decremented by the test, also by the test that ends the loop.\<close>

fun strnicmp_from :: "cstr \<Rightarrow> cstr \<Rightarrow> nat \<Rightarrow> nat \<Rightarrow> int" where
  "strnicmp_from a b i 0 = 0"
| "strnicmp_from a b i (Suc n) =
     (if zat a i \<noteq> 0 \<and> UpperToLower (zat a i) = UpperToLower (zat b i)
      then strnicmp_from a b (i + 1) n
      else uint (UpperToLower (zat a i)) - uint (UpperToLower (zat b i)))"

definition sqlite3_strnicmp :: "cstr option \<Rightarrow> cstr option \<Rightarrow> int \<Rightarrow> int" where
  "sqlite3_strnicmp zLeft zRight n =
     (case zLeft of
        None \<Rightarrow> (case zRight of Some _ \<Rightarrow> -1 | None \<Rightarrow> 0)
      | Some l \<Rightarrow> (case zRight of None \<Rightarrow> 1 | Some r \<Rightarrow> strnicmp_from l r 0 (nat n)))"

definition sqlite3StrIHash :: "cstr option \<Rightarrow> u8" where
  "sqlite3StrIHash z =
     (case z of None \<Rightarrow> 0 | Some z \<Rightarrow> foldl (\<lambda>h c. h + UpperToLower c) 0 z)"


section \<open>Names equal up to case\<close>

definition same_name :: "cstr \<Rightarrow> cstr \<Rightarrow> bool" where
  "same_name a b \<longleftrightarrow> map UpperToLower a = map UpperToLower b"

lemma stricmp_from_shift: "stricmp_from (y # a) (z # b) (Suc i) = stricmp_from a b i"
proof (induction a b i rule: stricmp_from.induct)
  case (1 a b i)
  then show ?case
    by (subst (1 2) stricmp_from.simps) (simp add: Let_def)
qed

lemma stricmp_from_Cons:
  "stricmp_from (x # a) (y # b) 0 =
     (if x = y \<and> x = 0 then 0
      else if UpperToLower x = UpperToLower y then stricmp_from a b 0
      else uint (UpperToLower x) - uint (UpperToLower y))"
  by (subst stricmp_from.simps) (auto simp: Let_def stricmp_from_shift)

lemma stricmp_from_Nil:
  "stricmp_from [] b 0 = - uint (UpperToLower (zat b 0))"
  "stricmp_from a [] 0 = uint (UpperToLower (zat a 0))"
  by (subst stricmp_from.simps; auto simp: Let_def UpperToLower_zero)+

lemma stricmp_zero_iff:
  "cstring a \<Longrightarrow> cstring b \<Longrightarrow> sqlite3StrICmp a b = 0 \<longleftrightarrow> same_name a b"
  unfolding sqlite3StrICmp_def same_name_def
proof (induction a b rule: list_induct2')
  case (4 x a y b)
  then show ?case
    by (auto simp: stricmp_from_Cons cstring_def)
qed (auto simp: stricmp_from_Nil UpperToLower_zero cstring_def)

lemma foldl_hash_same:
  "map UpperToLower a = map UpperToLower b \<Longrightarrow>
   foldl (\<lambda>h c. h + UpperToLower c) h a = foldl (\<lambda>h c. h + UpperToLower c) h b"
  by (induction a b arbitrary: h rule: list_induct2') auto

text \<open>The order of names by their lower-case letters, and the order with null pointers first.\<close>

definition name_less :: "cstr \<Rightarrow> cstr \<Rightarrow> bool" where
  "name_less a b \<longleftrightarrow> (map UpperToLower a, map UpperToLower b) \<in> lexord {(c, d). c < d}"

definition name_order :: "cstr option \<Rightarrow> cstr option \<Rightarrow> int" where
  "name_order x y =
     (case (x, y) of
        (None, None) \<Rightarrow> 0
      | (None, Some b) \<Rightarrow> -1
      | (Some a, None) \<Rightarrow> 1
      | (Some a, Some b) \<Rightarrow> if same_name a b then 0 else if name_less a b then -1 else 1)"

lemma name_less_simps:
  "\<not> name_less a []" "name_less [] (y # b)"
  "name_less (x # a) (y # b) \<longleftrightarrow>
     UpperToLower x < UpperToLower y \<or> UpperToLower x = UpperToLower y \<and> name_less a b"
  by (auto simp: name_less_def)

lemma uint_UpperToLower_pos: "0 < uint (UpperToLower c) \<longleftrightarrow> c \<noteq> 0"
  using uint_UpperToLower_zero [of c] uint_ge_0 [of "UpperToLower c"] by linarith

lemma stricmp_sgn:
  "cstring a \<Longrightarrow> cstring b \<Longrightarrow> sgn (sqlite3StrICmp a b) = name_order (Some a) (Some b)"
  unfolding sqlite3StrICmp_def name_order_def same_name_def
proof (induction a b rule: list_induct2')
  case (4 x a y b)
  have "x \<noteq> 0" "cstring a" "cstring b" using 4(2,3) by (auto simp: cstring_def)
  with 4(1) uint_UpperToLower_eq [of x y] show ?case
    by (auto simp: stricmp_from_Cons name_less_simps word_less_def sgn_if simp del: uint_UpperToLower_eq split: if_splits)
qed (auto simp: stricmp_from_Nil name_less_simps UpperToLower_zero cstring_def sgn_if uint_UpperToLower_pos)

text \<open>Comparing at most \<open>n\<close> bytes is comparing the strings cut off after \<open>n\<close> bytes.\<close>

lemma strnicmp_shift: "strnicmp_from (y # a) (z # b) (Suc i) n = strnicmp_from a b i n"
  by (induction n arbitrary: i) auto

lemma strnicmp_take:
  "cstring a \<Longrightarrow> cstring b \<Longrightarrow> strnicmp_from a b 0 n = sqlite3StrICmp (take n a) (take n b)"
  unfolding sqlite3StrICmp_def
proof (induction n arbitrary: a b)
  case 0
  then show ?case by (simp add: stricmp_from_Nil)
next
  case (Suc n)
  show ?case
  proof (cases "a = [] \<or> b = []")
    case True
    then show ?thesis by (cases a; cases b) (auto simp: stricmp_from_Nil UpperToLower_zero)
  next
    case False
    then obtain x a' y b' where ab: "a = x # a'" "b = y # b'" by (cases a; cases b) auto
    then have "x \<noteq> 0" "cstring a'" "cstring b'" using Suc.prems by (auto simp: cstring_def)
    with Suc.IH [of a' b'] ab show ?thesis by (auto simp: stricmp_from_Cons strnicmp_shift)
  qed
qed

lemma cstring_take: "cstring a \<Longrightarrow> cstring (take n a)"
  by (auto simp: cstring_def dest: in_set_takeD)

section \<open>Properties\<close>

text \<open>
  C38: \<open>sqlite3_stricmp\<close> and \<open>sqlite3_strnicmp\<close> compare without regard to ASCII case.  The sign of
  \<open>sqlite3_stricmp\<close>, which is that of \<open>sqlite3StrICmp\<close> on strings, is the lexicographic order of the
  bytes in lower case, 0 exactly for names that are the same up to case, and a null pointer comes
  before every string; \<open>sqlite3_strnicmp\<close> is the same comparison of the strings cut off after \<open>n\<close> bytes,
  of no bytes for a negative \<open>n\<close>; and names that compare equal have the same \<open>sqlite3StrIHash\<close>.
\<close>

theorem stricmp_is_name_order:
  assumes "\<forall>z. x = Some z \<or> y = Some z \<longrightarrow> cstring z"
  shows "sgn (sqlite3_stricmp x y) = name_order x y \<and>
    sgn (sqlite3_strnicmp x y n) = name_order (map_option (take (nat n)) x) (map_option (take (nat n)) y) \<and>
    (name_order x y = 0 \<longrightarrow> sqlite3StrIHash x = sqlite3StrIHash y)"
proof (cases "x = None \<or> y = None")
  case True
  then show ?thesis
    by (cases x; cases y) (auto simp: sqlite3_stricmp_def sqlite3_strnicmp_def name_order_def)
next
  case False
  then obtain a b where ab: "x = Some a" "y = Some b" by auto
  then have "cstring a" "cstring b" using assms by auto
  moreover have "name_order (Some a) (Some b) = 0 \<Longrightarrow> same_name a b" by (simp add: name_order_def split: if_splits)
  ultimately show ?thesis
    using stricmp_sgn [of a b] strnicmp_take [of a b] stricmp_sgn [of "take (nat n) a" "take (nat n) b"] foldl_hash_same [of a b 0]
    by (auto simp: ab sqlite3_stricmp_def sqlite3_strnicmp_def sqlite3StrIHash_def same_name_def cstring_take)
qed

theorem stricmp_is_name_order_witness:
  "sqlite3_stricmp (Some [87, 105, 78, 101]) (Some [119, 73, 110, 69]) = 0 \<and>
   sqlite3_strnicmp (Some [87, 105, 120]) (Some [119, 73, 110, 69]) 2 = 0 \<and>
   sqlite3_strnicmp (Some [87, 105, 120]) (Some [119, 73, 110, 69]) 3 > 0 \<and>
   sqlite3_stricmp None (Some [119]) < 0"
proof -
  let ?a = "[87, 105, 78, 101] :: cstr" and ?b = "[119, 73, 110, 69] :: cstr" and ?c = "[87, 105, 120] :: cstr"
  have c: "cstring ?a" "cstring ?b" "cstring ?c" "cstring [119]" by (simp_all add: cstring_def)
  have l: "map UpperToLower ?a = [119, 105, 110, 101]" "map UpperToLower ?b = [119, 105, 110, 101]"
    "map UpperToLower ?c = [119, 105, 120]" "map UpperToLower [119] = [119]" by code_simp+
  have "name_order (Some ?a) (Some ?b) = 0" "name_order None (Some [119]) = -1"
    "name_order (map_option (take (nat 2)) (Some ?c)) (map_option (take (nat 2)) (Some ?b)) = 0"
    "name_order (map_option (take (nat 3)) (Some ?c)) (map_option (take (nat 3)) (Some ?b)) = 1"
    using l by (simp_all add: name_order_def same_name_def name_less_def)
  with c stricmp_is_name_order [of "Some ?a" "Some ?b" 2] stricmp_is_name_order [of "Some ?c" "Some ?b" 2]
    stricmp_is_name_order [of "Some ?c" "Some ?b" 3] stricmp_is_name_order [of None "Some [119]" 0]
  show ?thesis by (auto simp: sgn_0_0 sgn_1_pos sgn_1_neg)
qed

end
