(* ===== verification/Sq_Text.thy ===== *)
theory Sq_Text
  imports Sq_Ctype Sq_Int
begin

text \<open>
  Integers as text, hexadecimal and quoting, of util.c: \<open>sqlite3Int64ToText\<close>,
  \<open>compare2pow63\<close>, \<open>sqlite3Atoi64\<close>, \<open>sqlite3DecOrHexToI64\<close>,
  \<open>sqlite3GetInt32\<close>, \<open>sqlite3Atoi\<close>, \<open>sqlite3GetUInt32\<close>, \<open>sqlite3HexToInt\<close>,
  \<open>sqlite3HexToBlob\<close>, \<open>sqlite3Dequote\<close> and \<open>sqlite3DequoteToken\<close>.
  A parse returns the C return value and the number it stored.
\<close>

section \<open>Integer to text\<close>

definition sqlite3DigitPairs :: "u8 list" where
  "sqlite3DigitPairs = [
     48, 48, 48, 49, 48, 50, 48, 51, 48, 52, 48, 53, 48, 54, 48, 55, 48, 56, 48, 57,
     49, 48, 49, 49, 49, 50, 49, 51, 49, 52, 49, 53, 49, 54, 49, 55, 49, 56, 49, 57,
     50, 48, 50, 49, 50, 50, 50, 51, 50, 52, 50, 53, 50, 54, 50, 55, 50, 56, 50, 57,
     51, 48, 51, 49, 51, 50, 51, 51, 51, 52, 51, 53, 51, 54, 51, 55, 51, 56, 51, 57,
     52, 48, 52, 49, 52, 50, 52, 51, 52, 52, 52, 53, 52, 54, 52, 55, 52, 56, 52, 57,
     53, 48, 53, 49, 53, 50, 53, 51, 53, 52, 53, 53, 53, 54, 53, 55, 53, 56, 53, 57,
     54, 48, 54, 49, 54, 50, 54, 51, 54, 52, 54, 53, 54, 54, 54, 55, 54, 56, 54, 57,
     55, 48, 55, 49, 55, 50, 55, 51, 55, 52, 55, 53, 55, 54, 55, 55, 55, 56, 55, 57,
     56, 48, 56, 49, 56, 50, 56, 51, 56, 52, 56, 53, 56, 54, 56, 55, 56, 56, 56, 57,
     57, 48, 57, 49, 57, 50, 57, 51, 57, 52, 57, 53, 57, 54, 57, 55, 57, 56, 57, 57]"

text \<open>
  The loop \<open>while( x>=10 )\<close>, which copies two digits at a time to the left of what is
  already in \<open>u.a\<close>; the text built so far is the accumulator.
\<close>

function int64_pairs :: "u64 \<Rightarrow> u8 list \<Rightarrow> u64 \<times> u8 list" where
  "int64_pairs x acc =
     (if x \<ge> 10 then
        let kk = unat (x mod 100) * 2 in
        int64_pairs (x div 100) (sqlite3DigitPairs ! kk # sqlite3DigitPairs ! (kk + 1) # acc)
      else (x, acc))"
  by pat_completeness auto
termination
  by (relation "measure (\<lambda>(x, acc). unat x)") (auto simp: unat_div word_le_nat_alt)

declare int64_pairs.simps [simp del]

definition sqlite3Int64ToText :: "i64 \<Rightarrow> u8 list" where
  "sqlite3Int64ToText v =
     (if v = 0 then [48]
      else
        let x = (if 0 <s v then v else if v = SMALLEST_INT64 then push_bit 63 1 else - v);
            (x, a) = int64_pairs x [];
            a = (if x \<noteq> 0 then (ucast x + 48) # a else a)
        in if v <s 0 then 45 # a else a)"

section \<open>Text to integer\<close>

definition pow63 :: "u8 list" where
  "pow63 = [57, 50, 50, 51, 51, 55, 50, 48, 51, 54, 56, 53, 52, 55, 55, 53, 56, 48]"

text \<open>\<open>for(i=0; c==0 && i<18; i++) c = (zNum[i*incr]-pow63[i])*10;\<close>\<close>

fun compare_digits :: "u8 list \<Rightarrow> u8 list \<Rightarrow> int" where
  "compare_digits (x # xs) (y # ys) =
     (let c = (uint x - uint y) * 10 in if c = 0 then compare_digits xs ys else c)"
| "compare_digits _ _ = 0"

definition compare2pow63 :: "u8 list \<Rightarrow> int" where
  "compare2pow63 zNum =
     (let c = compare_digits (take 18 zNum) pow63
      in if c = 0 then uint (zNum ! 18) - 56 else c)"

text \<open>\<open>for(i=3-enc; i<length && zNum[i]==0; i+=2){}\<close>: the first non-zero high byte.\<close>

function utf16_high :: "mem \<Rightarrow> nat \<Rightarrow> nat \<Rightarrow> nat" where
  "utf16_high z len i = (if i < len \<and> z i = 0 then utf16_high z len (i + 2) else i)"
  by pat_completeness auto
termination
  by (relation "measure (\<lambda>(z, len, i). len - i)") auto

declare utf16_high.simps [simp del]

text \<open>
  The bytes the parser looks at, \<open>zNum\<close> stepping by \<open>incr\<close> up to \<open>zEnd\<close>: every byte
  of UTF-8 text, the low byte of every character of UTF-16 text before the first character
  whose high byte is not zero.  The flag is \<open>nonNum\<close>.
\<close>

definition atoi64_units :: "mem \<Rightarrow> nat \<Rightarrow> nat \<Rightarrow> u8 list \<times> bool" where
  "atoi64_units z len enc =
     (if enc = SQLITE_UTF8 then (map z [0..<len], False)
      else
        let len = len - len mod 2;
            i = utf16_high z len (3 - enc);
            zEnd = (if even i then i + 1 else i - 1);
            start = enc mod 2
        in (map (\<lambda>k. z (start + 2 * k)) [0..<(zEnd - start + 1) div 2], i < len))"

definition atoi64_value :: "u8 list \<Rightarrow> u64" where
  "atoi64_value ds = foldl (\<lambda>u c. u * 10 + ucast c - 48) 0 ds"

text \<open>The end of the function: fewer than 19 digits fit; 19 digits are compared with
  \<open>2^63\<close>; more do not fit.\<close>

definition atoi64_finish :: "bool \<Rightarrow> int \<Rightarrow> u8 list \<Rightarrow> int \<times> i64" where
  "atoi64_finish neg rc ds =
     (let u = atoi64_value ds;
          num = (if u > LARGEST_INT64 then (if neg then SMALLEST_INT64 else LARGEST_INT64)
                 else if neg then - u else u)
      in if length ds < 19 then (rc, num)
         else
           let c = (if length ds > 19 then 1 else compare2pow63 ds) in
           if c < 0 then (rc, num)
           else
             let num = (if neg then SMALLEST_INT64 else LARGEST_INT64) in
             if c > 0 then (2, num) else (if neg then rc else 3, num))"

text \<open>From \<open>zStart\<close> on: skip leading zeros, take the digits, find the base return code.\<close>

definition atoi64_number :: "bool \<Rightarrow> u8 list \<Rightarrow> bool \<Rightarrow> int \<times> i64" where
  "atoi64_number neg zStart nonNum =
     (let z = dropWhile (\<lambda>c. c = 48) zStart;
          ds = takeWhile (\<lambda>c. 48 \<le> c \<and> c \<le> 57) z;
          rest = dropWhile (\<lambda>c. 48 \<le> c \<and> c \<le> 57) z;
          rc = (if ds = [] \<and> length zStart = length z then -1
                else if nonNum then 1
                else if list_all sqlite3Isspace rest then 0 else 1)
      in atoi64_finish neg rc ds)"

definition atoi64_body :: "u8 list \<Rightarrow> bool \<Rightarrow> int \<times> i64" where
  "atoi64_body z nonNum =
     (let z = dropWhile sqlite3Isspace z in
      if z \<noteq> [] \<and> hd z = 45 then atoi64_number True (tl z) nonNum
      else if z \<noteq> [] \<and> hd z = 43 then atoi64_number False (tl z) nonNum
      else atoi64_number False z nonNum)"

definition sqlite3Atoi64 :: "mem \<Rightarrow> nat \<Rightarrow> nat \<Rightarrow> int \<times> i64" where
  "sqlite3Atoi64 zNum len enc = (let (z, nonNum) = atoi64_units zNum len enc in atoi64_body z nonNum)"

section \<open>Hexadecimal\<close>

definition sqlite3HexToInt :: "u8 \<Rightarrow> u8" where
  "sqlite3HexToInt h = (h + 9 * (1 AND drop_bit 6 h)) AND 0xf"

fun hex_pairs :: "u8 list \<Rightarrow> u8 list" where
  "hex_pairs (x # y # z) = (push_bit 4 (sqlite3HexToInt x) OR sqlite3HexToInt y) # hex_pairs z"
| "hex_pairs _ = []"

text \<open>
  \<open>sqlite3HexToBlob\<close> on a literal body of \<open>n\<close> bytes whose last byte is the closing
  quote (\<open>n--\<close>); the blob without the terminator stored after it.
\<close>

definition sqlite3HexToBlob :: "u8 list \<Rightarrow> u8 list" where
  "sqlite3HexToBlob z = hex_pairs (butlast z)"

text \<open>\<open>strspn(z,"+- \n\t0123456789")\<close>\<close>

definition decimal_span :: "cstr \<Rightarrow> nat" where
  "decimal_span z =
     length (takeWhile (\<lambda>c. c = 43 \<or> c = 45 \<or> c = 32 \<or> c = 10 \<or> c = 9 \<or> 48 \<le> c \<and> c \<le> 57) z)"

definition sqlite3DecOrHexToI64 :: "cstr \<Rightarrow> int \<times> i64" where
  "sqlite3DecOrHexToI64 z =
     (if zat z 0 = 48 \<and> (zat z 1 = 120 \<or> zat z 1 = 88) then
        let z = dropWhile (\<lambda>c. c = 48) (drop 2 z);
            hs = takeWhile sqlite3Isxdigit z;
            u = foldl (\<lambda>u c. u * 16 + ucast (sqlite3HexToInt c)) 0 hs :: u64
        in if length hs > 16 then (2, u)
           else if zat z (length hs) \<noteq> 0 then (1, u)
           else (0, u)
      else
        let n = and 0x3fffffff (decimal_span z);
            n = (if zat z n \<noteq> 0 then n + 1 else n)
        in sqlite3Atoi64 (zat z) n SQLITE_UTF8)"

section \<open>32-bit integers\<close>

text \<open>
  The decimal part of \<open>sqlite3GetInt32\<close>, after the sign: at most 11 digits are read after the
  leading zeros, so \<open>v\<close> stays far inside an \<open>i64\<close>.
\<close>

definition getInt32_number :: "bool \<Rightarrow> cstr \<Rightarrow> (32 word) option" where
  "getInt32_number neg z =
     (let z = dropWhile (\<lambda>c. c = 48) z;
          ds = takeWhile (\<lambda>c. 48 \<le> c \<and> c \<le> 57) (take 11 z);
          v = foldl (\<lambda>v c. v * 10 + (uint c - 48)) 0 ds
      in if length ds > 10 then None
         else if v - of_bool neg > 2147483647 then None
         else Some (word_of_int (if neg then - v else v)))"

definition sqlite3GetInt32 :: "cstr \<Rightarrow> (32 word) option" where
  "sqlite3GetInt32 z =
     (let neg = (zat z 0 = 45);
          signed = (zat z 0 = 45 \<or> zat z 0 = 43)
      in if \<not> signed \<and> zat z 0 = 48 \<and> (zat z 1 = 120 \<or> zat z 1 = 88) \<and> sqlite3Isxdigit (zat z 2)
         then
           let z = dropWhile (\<lambda>c. c = 48) (drop 2 z);
               hs = takeWhile sqlite3Isxdigit (take 8 z);
               u = foldl (\<lambda>u c. u * 16 + ucast (sqlite3HexToInt c)) 0 hs :: u32
           in if u AND 0x80000000 = 0 \<and> \<not> sqlite3Isxdigit (zat z (length hs)) then Some u else None
         else
           let z = (if signed then tl z else z) in
           if \<not> sqlite3Isdigit (zat z 0) then None else getInt32_number neg z)"

definition sqlite3Atoi :: "cstr \<Rightarrow> 32 word" where
  "sqlite3Atoi z = (case sqlite3GetInt32 z of Some x \<Rightarrow> x | None \<Rightarrow> 0)"

text \<open>The loop of \<open>sqlite3GetUInt32\<close>; the result is the return code and \<open>*pI\<close>.\<close>

fun getUInt32_loop :: "nat \<Rightarrow> u64 \<Rightarrow> cstr \<Rightarrow> int \<times> u32" where
  "getUInt32_loop i v [] = (if i = 0 then (0, 0) else (1, ucast v))"
| "getUInt32_loop i v (c # z) =
     (if sqlite3Isdigit c then
        let v = v * 10 + ucast c - 48 in
        if v > 4294967296 then (0, 0) else getUInt32_loop (i + 1) v z
      else (0, 0))"

definition sqlite3GetUInt32 :: "cstr \<Rightarrow> int \<times> u32" where
  "sqlite3GetUInt32 z = getUInt32_loop 0 0 z"

section \<open>Quoting\<close>

text \<open>
  The loop of \<open>sqlite3Dequote\<close>.  The in-place write index \<open>j\<close> is always below the
  read index \<open>i\<close>, so the bytes still to be read are those of the input.  \<open>None\<close> is the
  case the source excludes by \<open>assert( z[i] )\<close>: the closing quote is missing and the
  loop would run past the terminator.
\<close>

fun dequote_loop :: "u8 \<Rightarrow> u8 list \<Rightarrow> u8 list option" where
  "dequote_loop q [] = None"
| "dequote_loop q [c] = (if c = q then Some [] else None)"
| "dequote_loop q (c # d # z) =
     (if c = q then
        (if d = q then map_option (Cons q) (dequote_loop q z) else Some [])
      else map_option (Cons c) (dequote_loop q (d # z)))"

definition sqlite3Dequote :: "cstr \<Rightarrow> cstr option" where
  "sqlite3Dequote z =
     (let quote = zat z 0 in
      if \<not> sqlite3Isquote quote then Some z
      else dequote_loop (if quote = 91 then 93 else quote) (tl z))"

definition sqlite3DequoteToken :: "cstr \<Rightarrow> cstr" where
  "sqlite3DequoteToken z =
     (if length z < 2 then z
      else if \<not> sqlite3Isquote (hd z) then z
      else if list_ex sqlite3Isquote (butlast (tl z)) then z
      else butlast (tl z))"

section \<open>Decimal digits\<close>

abbreviation digit :: "u8 \<Rightarrow> bool" where
  "digit c \<equiv> 48 \<le> c \<and> c \<le> 57"

definition dec_value :: "u8 list \<Rightarrow> nat" where
  "dec_value ds = foldl (\<lambda>n c. n * 10 + (unat c - 48)) 0 ds"

lemma dec_value_Nil [simp]: "dec_value [] = 0"
  by (simp add: dec_value_def)

lemma dec_value_snoc: "dec_value (ds @ [c]) = dec_value ds * 10 + (unat c - 48)"
  by (simp add: dec_value_def)

lemma dec_value_append: "dec_value (xs @ ys) = dec_value xs * 10 ^ length ys + dec_value ys"
proof (induction ys rule: rev_induct)
  case (snoc y ys)
  then show ?case
    using dec_value_snoc [of "xs @ ys" y] by (simp add: dec_value_snoc algebra_simps)
qed simp

lemma dec_value_Cons: "dec_value (c # ds) = (unat c - 48) * 10 ^ length ds + dec_value ds"
  using dec_value_append [of "[c]" ds] dec_value_snoc [of "[]" c] by simp

lemma digit_unat: "digit c \<Longrightarrow> unat c - 48 < 10 \<and> unat c = 48 + (unat c - 48)"
  by (auto simp: word_le_nat_alt)

lemma dec_value_less: "list_all digit ds \<Longrightarrow> dec_value ds < 10 ^ length ds"
proof (induction ds rule: rev_induct)
  case (snoc c ds)
  then have "dec_value ds < 10 ^ length ds" "unat c - 48 < 10" using digit_unat [of c] by auto
  then have "dec_value ds * 10 + (unat c - 48) < 10 ^ length ds * 10" by linarith
  then show ?case by (simp add: dec_value_snoc)
qed simp

lemma unat_eq_of_nat: "unat (c :: 'a::len word) = n \<Longrightarrow> c = of_nat n"
  by (drule sym) simp

lemma dec_value_ge:
  assumes "list_all digit ds" and "ds \<noteq> []" and "hd ds \<noteq> 48"
  shows "10 ^ (length ds - 1) \<le> dec_value ds"
proof -
  obtain c cs where ds: "ds = c # cs" using assms(2) by (cases ds) auto
  have "unat c \<noteq> 48"
  proof
    assume "unat c = 48"
    then have "c = of_nat 48" using unat_eq_of_nat by blast
    with assms(3) ds show False by simp
  qed
  then have "1 \<le> unat c - 48" using assms(1) ds by (auto simp: word_le_nat_alt)
  then have "10 ^ length cs \<le> (unat c - 48) * 10 ^ length cs" by (cases "unat c - 48") auto
  then show ?thesis using ds by (simp add: dec_value_Cons trans_le_add1)
qed

lemma dec_value_dropWhile_zero: "dec_value (dropWhile (\<lambda>c. c = 48) ds) = dec_value ds"
  by (induction ds) (auto simp: dec_value_Cons)

lemma digit_ucast: "digit c \<Longrightarrow> ucast c - 48 = (of_nat (unat c - 48) :: u64)"
  using digit_unat [of c] by (metis add_diff_cancel_left' of_nat_add of_nat_numeral of_nat_unat)

lemma atoi64_value_dec: "list_all digit ds \<Longrightarrow> atoi64_value ds = of_nat (dec_value ds)"
proof (induction ds rule: rev_induct)
  case Nil
  then show ?case by (simp add: atoi64_value_def)
next
  case (snoc c ds)
  then have "ucast c - 48 = (of_nat (unat c - 48) :: u64)" by (simp add: digit_ucast)
  with snoc show ?case
    by (simp add: atoi64_value_def dec_value_snoc add_diff_eq [symmetric])
qed

lemma compare_digits_correct:
  assumes "length xs = length ys" and "list_all digit xs" and "list_all digit ys"
  shows "(compare_digits xs ys < 0 \<longleftrightarrow> dec_value xs < dec_value ys) \<and>
    (compare_digits xs ys > 0 \<longleftrightarrow> dec_value xs > dec_value ys)"
  using assms
proof (induction xs ys rule: list_induct2)
  case (Cons x xs y ys)
  have less: "dec_value xs < 10 ^ length ys" "dec_value ys < 10 ^ length ys"
    using Cons dec_value_less [of xs] dec_value_less [of ys] by auto
  have dom: "a * P + r < b * P + s" if "a < b" "r < P" for a b r s P :: nat
  proof -
    have "(a + 1) * P \<le> b * P" using that by (intro mult_right_mono) auto
    with that show ?thesis by simp
  qed
  define a b where "a = unat x - 48" and "b = unat y - 48"
  have u: "uint x = int a + 48" "uint y = int b + 48"
    using Cons.prems by (simp_all add: a_def b_def word_le_nat_alt of_nat_diff)
  have v: "dec_value (x # xs) = a * 10 ^ length ys + dec_value xs"
    "dec_value (y # ys) = b * 10 ^ length ys + dec_value ys"
    using Cons.hyps by (simp_all add: a_def b_def dec_value_Cons)
  consider "a < b" | "a = b" | "b < a" by linarith
  then show ?case
  proof cases
    case 1
    with dom [OF 1 less(1), of "dec_value ys"] show ?thesis by (simp add: u v)
  next
    case 2
    with Cons show ?thesis by (simp add: u v)
  next
    case 3
    with dom [OF 3 less(2), of "dec_value xs"] show ?thesis by (simp add: u v)
  qed
qed simp

lemma digit_pow63: "list_all digit pow63"
  by (simp add: pow63_def)

lemma dec_value_pow63: "dec_value pow63 * 10 + 8 = 2 ^ 63"
  by (simp add: pow63_def dec_value_def)

lemma compare2pow63_correct:
  assumes "list_all digit ds" and "length ds = 19"
  shows "(compare2pow63 ds < 0 \<longleftrightarrow> dec_value ds < 2 ^ 63) \<and>
    (compare2pow63 ds > 0 \<longleftrightarrow> dec_value ds > 2 ^ 63)"
proof -
  have split: "ds = take 18 ds @ [ds ! 18]"
    using assms(2) take_Suc_conv_app_nth [of 18 ds] by simp
  have "digit (ds ! 18)" using assms by (simp add: list_all_length)
  then obtain l where l: "unat (ds ! 18) - 48 = l" "uint (ds ! 18) = int l + 48" "l < 10"
    by (auto simp: word_le_nat_alt of_nat_diff intro!: that [of "unat (ds ! 18) - 48"])
  have v: "dec_value ds = dec_value (take 18 ds) * 10 + l"
    using dec_value_snoc [of "take 18 ds" "ds ! 18"] l split by simp
  have "(compare_digits (take 18 ds) pow63 < 0 \<longleftrightarrow> dec_value (take 18 ds) < dec_value pow63) \<and>
    (compare_digits (take 18 ds) pow63 > 0 \<longleftrightarrow> dec_value (take 18 ds) > dec_value pow63)"
    using assms digit_pow63
    by (intro compare_digits_correct) (auto simp: pow63_def list_all_iff dest: in_set_takeD)
  then show ?thesis
    unfolding compare2pow63_def Let_def v dec_value_pow63 [symmetric] using l(2,3) by auto
qed

section \<open>Parsing decimal text\<close>

definition decimal_result :: "bool \<Rightarrow> nat \<Rightarrow> int \<times> i64" where
  "decimal_result neg m =
     (let v = (if neg then - int m else int m) in
      if in_i64 v then (0, word_of_int v)
      else if m = 2 ^ 63 then (3, LARGEST_INT64)
      else (2, if neg then SMALLEST_INT64 else LARGEST_INT64))"

lemma digit_not_space: "digit c \<Longrightarrow> \<not> sqlite3Isspace c"
  by (auto simp: isspace_iff word_le_nat_alt)

lemma space_not_digit: "sqlite3Isspace c \<Longrightarrow> \<not> digit c"
  using digit_not_space by blast

lemma sign_not_space: "\<not> sqlite3Isspace 45" "\<not> sqlite3Isspace 43"
  by (simp_all add: isspace_iff)

lemma LARGEST_unat: "unat LARGEST_INT64 = 2 ^ 63 - 1"
  by (simp add: LARGEST_INT64_def)

lemma atoi64_finish_decimal:
  assumes ds: "list_all digit nds" and lead: "nds \<noteq> [] \<longrightarrow> hd nds \<noteq> 48"
  shows "atoi64_finish neg 0 nds = decimal_result neg (dec_value nds)"
proof -
  define m where "m = dec_value nds"
  let ?u = "atoi64_value nds"
  let ?num = "if ?u > LARGEST_INT64 then (if neg then SMALLEST_INT64 else LARGEST_INT64)
    else if neg then - ?u else ?u"
  have uv: "?u = of_nat m" using ds by (simp add: m_def atoi64_value_dec)
  have small: "(0, ?num) = decimal_result neg m" if "m < 2 ^ 63"
  proof -
    have "unat ?u = m" using that uv by (simp add: unat_of_nat)
    then have "\<not> ?u > LARGEST_INT64" using that by (simp add: word_less_nat_alt LARGEST_unat)
    then show ?thesis using that uv by (simp add: decimal_result_def)
  qed
  consider "length nds < 19" | "length nds = 19" | "19 < length nds" by linarith
  then have "atoi64_finish neg 0 nds = decimal_result neg m"
  proof cases
    case 1
    have "m < 10 ^ length nds" using dec_value_less [OF ds] by (simp add: m_def)
    also have "\<dots> \<le> 10 ^ 18" using 1 by (intro power_increasing) auto
    finally show ?thesis using small 1 by (simp add: atoi64_finish_def Let_def)
  next
    case 2
    note c = compare2pow63_correct [OF ds 2, folded m_def]
    consider "m < 2 ^ 63" | "m = 2 ^ 63" | "2 ^ 63 < m" by linarith
    then show ?thesis
      using c 2 small
      by cases (auto simp: atoi64_finish_def Let_def decimal_result_def SMALLEST_INT64_def LARGEST_INT64_def)
  next
    case 3
    then have "10 ^ 19 \<le> (10 :: nat) ^ (length nds - 1)" by (intro power_increasing) auto
    also have "\<dots> \<le> m" using dec_value_ge [OF ds] lead 3 by (cases nds) (auto simp: m_def)
    finally show ?thesis using 3 by (auto simp: atoi64_finish_def Let_def decimal_result_def)
  qed
  then show ?thesis by (simp add: m_def)
qed

lemma takeWhile_digits_spaces:
  assumes "list_all digit nds" and "list_all sqlite3Isspace sp"
  shows "takeWhile digit (nds @ sp) = nds \<and> dropWhile digit (nds @ sp) = sp"
proof (cases sp)
  case Nil
  with assms(1) show ?thesis by (simp add: list_all_iff)
next
  case (Cons c cs)
  then have "\<not> digit c" using assms(2) space_not_digit by auto
  with Cons assms(1) show ?thesis by (auto simp: list_all_iff takeWhile_tail dropWhile_append3)
qed

lemma dropWhile_zeros:
  assumes "list_all sqlite3Isspace sp"
  shows "dropWhile (\<lambda>c. c = 48) (ds @ sp) = dropWhile (\<lambda>c. c = 48) ds @ sp"
proof (induction ds)
  case Nil
  then show ?case using assms by (cases sp) (auto simp: isspace_iff)
qed auto

lemma atoi64_number_decimal:
  assumes ds: "list_all digit ds" "ds \<noteq> []" and sp: "list_all sqlite3Isspace sp"
  shows "atoi64_number neg (ds @ sp) False = decimal_result neg (dec_value ds)"
proof -
  define nds where "nds = dropWhile (\<lambda>c. c = 48) ds"
  have digits: "list_all digit nds"
    using ds(1) by (auto simp: nds_def list_all_iff dest: set_dropWhileD)
  have lead: "nds \<noteq> [] \<longrightarrow> hd nds \<noteq> 48"
    using hd_dropWhile [of "\<lambda>c. c = 48" ds] by (auto simp: nds_def)
  have rc: "\<not> (nds = [] \<and> length (ds @ sp) = length (nds @ sp))" using ds(2) by auto
  have "atoi64_number neg (ds @ sp) False = atoi64_finish neg 0 nds"
    using takeWhile_digits_spaces [OF digits sp] rc sp
    by (auto simp: atoi64_number_def Let_def dropWhile_zeros [OF sp] nds_def [symmetric])
  also have "\<dots> = decimal_result neg (dec_value nds)"
    by (rule atoi64_finish_decimal [OF digits lead])
  finally show ?thesis by (simp add: nds_def dec_value_dropWhile_zero)
qed

definition decimal_text :: "u8 list \<Rightarrow> bool \<Rightarrow> u8 list \<Rightarrow> u8 list \<Rightarrow> bool" where
  "decimal_text z neg ds sp \<longleftrightarrow>
     list_all digit ds \<and> ds \<noteq> [] \<and> list_all sqlite3Isspace sp \<and>
     (\<exists>lead sgn. z = lead @ sgn @ ds @ sp \<and> list_all sqlite3Isspace lead \<and>
       (sgn = [45] \<and> neg \<or> (sgn = [] \<or> sgn = [43]) \<and> \<not> neg))"

lemma dropWhile_spaces:
  "list_all sqlite3Isspace sp \<Longrightarrow> z \<noteq> [] \<Longrightarrow> \<not> sqlite3Isspace (hd z) \<Longrightarrow>
   dropWhile sqlite3Isspace (sp @ z) = z"
  by (cases z) (simp_all add: dropWhile_append2 list_all_iff)

lemma atoi64_body_decimal:
  assumes "decimal_text z neg ds sp"
  shows "atoi64_body z False = decimal_result neg (dec_value ds)"
proof -
  obtain lead sgn where z: "z = lead @ sgn @ ds @ sp" and lead: "list_all sqlite3Isspace lead"
    and sgn: "sgn = [45] \<and> neg \<or> (sgn = [] \<or> sgn = [43]) \<and> \<not> neg"
    and ds: "list_all digit ds" "ds \<noteq> []" and sp: "list_all sqlite3Isspace sp"
    using assms by (auto simp: decimal_text_def)
  obtain d ds' where d: "ds = d # ds'" "digit d" using ds by (cases ds) auto
  then have hd: "\<not> sqlite3Isspace d" "d \<noteq> 45" "d \<noteq> 43"
    using digit_not_space by (auto simp: word_le_nat_alt)
  have "dropWhile sqlite3Isspace z = sgn @ ds @ sp"
    unfolding z using sgn d hd sign_not_space by (intro dropWhile_spaces [OF lead]) auto
  with sgn d hd atoi64_number_decimal [OF ds sp] show ?thesis
    by (auto simp: atoi64_body_def)
qed

lemma atoi64_decimal:
  assumes "decimal_text z neg ds sp"
  shows "sqlite3Atoi64 (mem_of z) (length z) SQLITE_UTF8 = decimal_result neg (dec_value ds)"
proof -
  have "map (mem_of z) [0..<length z] = z"
    by (rule nth_equalityI) (simp_all add: mem_of_def)
  then show ?thesis
    using atoi64_body_decimal [OF assms] by (simp add: sqlite3Atoi64_def atoi64_units_def)
qed

section \<open>Printing\<close>

lemma digit_pair_table:
  "map (\<lambda>k. (unat (sqlite3DigitPairs ! (2 * k)), unat (sqlite3DigitPairs ! (2 * k + 1)))) [0..<100] =
   map (\<lambda>k. (48 + k div 10, 48 + k mod 10)) [0..<100]"
  by code_simp

lemma digit_pair:
  assumes "k < 100"
  shows "unat (sqlite3DigitPairs ! (k * 2)) = 48 + k div 10"
    "unat (sqlite3DigitPairs ! (k * 2 + 1)) = 48 + k mod 10"
  using arg_cong [OF digit_pair_table, of "\<lambda>xs. xs ! k"] assms
  by (simp_all add: mult.commute del: upt_rec_numeral)

lemma int64_pairs_correct:
  "\<exists>x' ps. int64_pairs x acc = (x', ps @ acc) \<and> list_all digit ps \<and> x' < 10 \<and>
     unat x = unat x' * 10 ^ length ps + dec_value ps \<and>
     (x' = 0 \<longrightarrow> x \<noteq> 0 \<longrightarrow> ps \<noteq> [] \<and> hd ps \<noteq> 48)"
proof (induction x acc rule: int64_pairs.induct)
  case (1 x acc)
  show ?case
  proof (cases "10 \<le> x")
    case False
    then show ?thesis by (auto simp: int64_pairs.simps [of x acc] not_le)
  next
    case True
    define k where "k = unat x mod 100"
    define p q where "p = sqlite3DigitPairs ! (k * 2)" and "q = sqlite3DigitPairs ! (k * 2 + 1)"
    have k: "k < 100" by (simp add: k_def)
    have pq: "unat p = 48 + k div 10" "unat q = 48 + k mod 10"
      using digit_pair [OF k] by (simp_all add: p_def q_def)
    have kk: "unat (x mod 100) = k" by (simp add: k_def unat_mod)
    from "1.IH" [OF True refl] obtain x' ps where ih:
      "int64_pairs (x div 100) (p # q # acc) = (x', ps @ p # q # acc)" "list_all digit ps" "x' < 10"
      "unat (x div 100) = unat x' * 10 ^ length ps + dec_value ps"
      "x' = 0 \<Longrightarrow> x div 100 \<noteq> 0 \<Longrightarrow> ps \<noteq> [] \<and> hd ps \<noteq> 48"
      unfolding kk p_def [symmetric] q_def [symmetric] by auto
    have rec: "int64_pairs x acc = int64_pairs (x div 100) (p # q # acc)"
      using True by (simp add: int64_pairs.simps [of x acc] kk p_def q_def Let_def)
    have dpq: "list_all digit [p, q]" using pq k by (auto simp: word_le_nat_alt)
    have v: "dec_value (ps @ [p, q]) = dec_value ps * 100 + k"
      using pq by (simp add: dec_value_append dec_value_Cons)
    have q100: "unat (x div 100) = unat x div 100" by (simp add: unat_div)
    have "unat x = (unat x' * 10 ^ length ps + dec_value ps) * 100 + k"
      using ih(4) div_mult_mod_eq [of "unat x" 100] by (simp add: q100 k_def)
    then have "unat x = unat x' * 10 ^ length (ps @ [p, q]) + dec_value (ps @ [p, q])"
      by (simp add: v distrib_right)
    moreover have "hd (ps @ [p, q]) \<noteq> 48" if "x' = 0"
    proof (cases "x div 100 = 0")
      case True
      then have ps: "ps = []" using ih(1) by (simp add: int64_pairs.simps [of 0])
      have "unat x div 100 = 0" using True q100 by simp
      then have "k = unat x" by (simp add: k_def div_eq_0_iff)
      then have "48 < unat p" using pq(1) \<open>10 \<le> x\<close> by (simp add: word_le_nat_alt)
      with ps show ?thesis by auto
    qed (use ih(5) that in auto)
    ultimately show ?thesis
      using ih(1-3) dpq rec by (intro exI [of _ x'] exI [of _ "ps @ [p, q]"]) auto
  qed
qed


lemma int64_magnitude:
  assumes "v \<noteq> 0"
  shows "unat (if 0 <s v then v else if v = SMALLEST_INT64 then push_bit 63 1 else - v) = nat \<bar>sint v\<bar>"
proof -
  have v0: "sint v \<noteq> 0" using assms by (metis sint_0 signed_word_eqI)
  consider "0 < sint v" | "v = SMALLEST_INT64" | "sint v < 0" "v \<noteq> SMALLEST_INT64"
    using v0 by linarith
  then show ?thesis
  proof cases
    case 1
    then show ?thesis using unat_of_sint [of v] by (simp add: word_sless_alt)
  next
    case 2
    then show ?thesis by (simp add: word_sless_alt) 
  next
    case 3
    then have "sint (- v) = - sint v"
      using sint_i64_range [of v] eq_SMALLEST [of v] by (intro sint_i64_arith(4)) auto
    with 3 show ?thesis using unat_of_sint [of "- v"] by (simp add: word_sless_alt)
  qed
qed

lemma unat_digit_char:
  assumes "(x :: u64) < 10"
  shows "unat (ucast x + 48 :: u8) = unat x + 48"
proof -
  have "unat (ucast x :: u8) = unat x" using assms by (simp add: unsigned_ucast_eq word_less_nat_alt take_bit_nat_eq_self)
  moreover have "unat x < 10" using assms by (simp add: word_less_nat_alt)
  ultimately show ?thesis by (simp add: unat_word_ariths)
qed

lemma int64ToText_decimal:
  "\<exists>ds. decimal_text (sqlite3Int64ToText v) (v <s 0) ds [] \<and> dec_value ds = nat \<bar>sint v\<bar>"
proof (cases "v = 0")
  case True
  then show ?thesis
    by (intro exI [of _ "[48]"]) (auto simp: sqlite3Int64ToText_def decimal_text_def dec_value_def)
next
  case False
  define x where "x = (if 0 <s v then v else if v = SMALLEST_INT64 then push_bit 63 1 else - v)"
  have x: "unat x = nat \<bar>sint v\<bar>" unfolding x_def by (rule int64_magnitude [OF False])
  have "sint v \<noteq> 0" using False by (metis sint_0 signed_word_eqI)
  with x have x0: "x \<noteq> 0" by auto
  obtain x' ps where p: "int64_pairs x [] = (x', ps)" "list_all digit ps" "x' < 10"
     "unat x = unat x' * 10 ^ length ps + dec_value ps" "x' = 0 \<longrightarrow> x \<noteq> 0 \<longrightarrow> ps \<noteq> []"
    using int64_pairs_correct [of x "[]"] by auto
  define ds where "ds = (if x' \<noteq> 0 then (ucast x' + 48) # ps else ps)"
  have u: "unat (ucast x' + 48 :: u8) = unat x' + 48"
    by (rule unat_digit_char [OF p(3)])
  have "list_all digit ds" using p(2,3) u by (auto simp: ds_def word_le_nat_alt word_less_nat_alt)
  moreover have "dec_value ds = unat x" using p(4) u by (simp add: ds_def dec_value_Cons)
  moreover have "ds \<noteq> []" using p(5) x0 by (auto simp: ds_def)
  moreover have "sqlite3Int64ToText v = (if v <s 0 then [45] else []) @ ds"
    using False p(1) by (simp add: sqlite3Int64ToText_def x_def [symmetric] ds_def Let_def)
  ultimately show ?thesis
    using x by (auto simp: decimal_text_def)
qed

section \<open>Unsigned 32-bit integers\<close>

text \<open>The value test is \<open>v>4294967296LL\<close>: the number $2^{32}$ itself is accepted, and stored as 0.\<close>

lemma getUInt32_loop_digits:
  assumes "list_all digit ds" and "unat v < 2 ^ 33"
  shows "getUInt32_loop i v ds =
    (if i + length ds = 0 then (0, 0)
     else if ds \<noteq> [] \<and> unat v * 10 ^ length ds + dec_value ds > 2 ^ 32 then (0, 0)
     else (1, of_nat (unat v * 10 ^ length ds + dec_value ds)))"
  using assms
proof (induction ds arbitrary: i v)
  case Nil
  then show ?case by (simp add: unsigned_ucast_eq)
next
  case (Cons c ds)
  define k where "k = unat c - 48"
  have c: "sqlite3Isdigit c" "unat c = 48 + k" "k < 10"
    using Cons.prems(1) digit_unat [of c] by (auto simp: isdigit_iff k_def)
  define w where "w = v * 10 + ucast c - 48"
  have "w = of_nat (unat v * 10 + k)"
    using digit_ucast [of c] Cons.prems(1) by (simp add: w_def k_def add_diff_eq [symmetric])
  then have w: "unat w = unat v * 10 + k" using Cons.prems(2) c(3)
    by (simp del: of_nat_add of_nat_mult add: unat_of_nat)
  have m: "unat v * 10 ^ length (c # ds) + dec_value (c # ds) = unat w * 10 ^ length ds + dec_value ds"
    by (simp add: w dec_value_Cons k_def algebra_simps)
  show ?case
  proof (cases "w > 4294967296")
    case True
    then have "unat w > 2 ^ 32" by (simp add: word_less_nat_alt)
    moreover have "unat w \<le> unat w * 10 ^ length ds" by simp
    ultimately have "unat w * 10 ^ length ds + dec_value ds > 2 ^ 32" by linarith
    moreover have "getUInt32_loop i v (c # ds) = (0, 0)" using True c(1) by (simp add: w_def Let_def)
    ultimately show ?thesis unfolding m by simp
  next
    case False
    then have "unat w \<le> 2 ^ 32" by (simp add: word_less_nat_alt not_less)
    then have ih: "getUInt32_loop (Suc i) w ds =
      (if ds \<noteq> [] \<and> unat w * 10 ^ length ds + dec_value ds > 2 ^ 32 then (0, 0)
       else (1, of_nat (unat w * 10 ^ length ds + dec_value ds)))"
      using Cons.IH [of w "Suc i"] Cons.prems by simp
    have "getUInt32_loop i v (c # ds) = getUInt32_loop (Suc i) w ds"
      using False c(1) by (simp add: Let_def w_def [symmetric])
    with ih \<open>unat w \<le> 2 ^ 32\<close> show ?thesis unfolding m by (cases "ds = []") auto
  qed
qed


lemma getUInt32_loop_stops:
  "\<not> list_all digit z \<Longrightarrow> getUInt32_loop i v z = (0, 0)"
  by (induction i v z rule: getUInt32_loop.induct) (auto simp: Let_def isdigit_iff word_le_nat_alt)

lemma getUInt32_spec:
  "sqlite3GetUInt32 z =
     (if z \<noteq> [] \<and> list_all digit z \<and> dec_value z \<le> 2 ^ 32 then (1, of_nat (dec_value z)) else (0, 0))"
  using getUInt32_loop_digits [of z 0 0] getUInt32_loop_stops [of z 0 0]
  by (cases "list_all digit z") (auto simp: sqlite3GetUInt32_def not_le)

section \<open>Signed 32-bit integers\<close>

lemma foldl_digits_int:
  "list_all digit ds \<Longrightarrow> foldl (\<lambda>v c. v * 10 + (uint c - 48)) 0 ds = int (dec_value ds)"
proof (induction ds rule: rev_induct)
  case (snoc c ds)
  then have "uint c - 48 = int (unat c - 48)" by (simp add: word_le_nat_alt of_nat_diff)
  with snoc show ?case by (simp add: dec_value_snoc)
qed simp

lemma takeWhile_digits_rest:
  assumes "list_all digit nds" and "\<not> digit (zat rest 0)"
  shows "takeWhile digit (take k (nds @ rest)) = take k nds"
proof (cases "k \<le> length nds")
  case True
  with assms(1) show ?thesis by (auto simp: takeWhile_eq_all_conv list_all_iff dest: in_set_takeD)
next
  case False
  then obtain j where j: "k - length nds = Suc j" by (cases "k - length nds") auto
  have "takeWhile digit (take (Suc j) rest) = []" using assms(2) by (cases rest) auto
  moreover have "takeWhile digit (nds @ take (Suc j) rest) = nds @ takeWhile digit (take (Suc j) rest)"
    using assms(1) by (intro takeWhile_append2) (auto simp: list_all_iff)
  ultimately show ?thesis using False by (simp add: j)
qed

lemma dropWhile_zeros_rest:
  "\<not> digit (zat rest 0) \<Longrightarrow>
   dropWhile (\<lambda>c. c = 48) (ds @ rest) = dropWhile (\<lambda>c. c = 48) ds @ rest"
proof (induction ds)
  case Nil
  then show ?case by (cases rest) auto
qed auto

definition int32_result :: "bool \<Rightarrow> nat \<Rightarrow> (32 word) option" where
  "int32_result neg m =
     (let v = (if neg then - int m else int m)
      in if - (2 ^ 31) \<le> v \<and> v < 2 ^ 31 then Some (word_of_int v) else None)"

lemma getInt32_number_decimal:
  assumes ds: "list_all digit ds" and rest: "\<not> digit (zat rest 0)"
  shows "getInt32_number neg (ds @ rest) = int32_result neg (dec_value ds)"
proof -
  define nds where "nds = dropWhile (\<lambda>c. c = 48) ds"
  have digits: "list_all digit nds"
    using ds by (auto simp: nds_def list_all_iff dest: set_dropWhileD)
  have lead: "nds \<noteq> [] \<longrightarrow> hd nds \<noteq> 48"
    using hd_dropWhile [of "\<lambda>c. c = 48" ds] by (auto simp: nds_def)
  note tk = takeWhile_digits_rest [OF digits rest, of 11]
  have dv: "dec_value ds = dec_value nds" by (simp add: nds_def dec_value_dropWhile_zero)
  note unf = getInt32_number_def Let_def dropWhile_zeros_rest [OF rest] nds_def [symmetric] tk dv int32_result_def
  show ?thesis
  proof (cases "length nds > 10")
    case True
    then have "10 ^ 10 \<le> (10 :: nat) ^ (length nds - 1)" by (intro power_increasing) auto
    also have "\<dots> \<le> dec_value nds" using dec_value_ge [OF digits] lead True by (cases nds) auto
    finally show ?thesis using True by (simp add: unf del: take_append)
  next
    case False
    then show ?thesis by (auto simp: unf foldl_digits_int [OF digits] simp del: take_append)
  qed
qed

lemma getInt32_decimal_aux:
  assumes ds: "list_all digit ds" "ds \<noteq> []"
    and sg: "sg = [45] \<and> neg \<or> (sg = [] \<or> sg = [43]) \<and> \<not> neg"
    and rest: "\<not> digit (zat rest 0)" and nohex: "\<not> (ds = [48] \<and> (zat rest 0 = 120 \<or> zat rest 0 = 88))"
  shows "sqlite3GetInt32 (sg @ ds @ rest) = int32_result neg (dec_value ds)"
proof -
  obtain d ds' where d: "ds = d # ds'" "digit d" using ds by (cases ds) auto
  then have hd: "d \<noteq> 45" "d \<noteq> 43" "sqlite3Isdigit d" by (auto simp: isdigit_iff word_le_nat_alt)
  have x: "\<not> (d = 48 \<and> (zat (ds' @ rest) 0 = 120 \<or> zat (ds' @ rest) 0 = 88))"
    using nohex ds(1) d by (cases ds') (auto simp: word_le_nat_alt)
  show ?thesis
    using sg hd x getInt32_number_decimal [OF ds(1) rest, of neg]
    by (elim disjE conjE) (auto simp: sqlite3GetInt32_def Let_def d)
qed

section \<open>Hexadecimal\<close>

definition hexdigit :: "nat \<Rightarrow> u8" where
  "hexdigit n = (if n < 10 then of_nat (48 + n) else of_nat (55 + n))"

definition hex_text :: "u8 list \<Rightarrow> u8 list" where
  "hex_text bs = concat (map (\<lambda>b. [hexdigit (unat b div 16), hexdigit (unat b mod 16)]) bs)"

lemma hexToInt_table: "map (\<lambda>n. sqlite3HexToInt (hexdigit n)) [0..<16] = map of_nat [0..<16]"
  by code_simp

lemma hexToInt_hexdigit: "n < 16 \<Longrightarrow> sqlite3HexToInt (hexdigit n) = of_nat n"
  using arg_cong [OF hexToInt_table, of "\<lambda>xs. xs ! n"] by (simp del: upt_rec_numeral)

lemma nibbles_u8: "push_bit 4 (of_nat (unat b div 16)) OR of_nat (unat b mod 16) = (b :: u8)"
proof -
  have "of_nat (unat b div 16) = drop_bit 4 b"
    by (simp add: unat_eq_of_nat [symmetric] unat_drop_bit_eq drop_bit_nat_def)
  moreover have "of_nat (unat b mod 16) = b AND 15"
    using take_bit_eq_mod [of 4 "unat b"] take_bit_eq_mask [of 4 b]
    by (intro unat_eq_of_nat [symmetric]) (simp add: mask_eq_exp_minus_1 unsigned_take_bit_eq [symmetric])
  ultimately show ?thesis by (simp add: u8_eq_bits bitblast bit_simps)
qed

lemma hexToBlob_hex_text: "sqlite3HexToBlob (hex_text bs @ [39]) = bs"
proof -
  have "hex_pairs (hex_text bs) = bs"
  proof (induction bs)
    case (Cons b bs)
    have "unat b div 16 < 16" using unsigned_less [of b, where 'a = nat] by (simp add: less_mult_imp_div_less)
    with Cons show ?case by (simp add: hex_text_def hexToInt_hexdigit nibbles_u8)
  qed (simp add: hex_text_def)
  then show ?thesis by (simp add: sqlite3HexToBlob_def)
qed

section \<open>Quoting\<close>

definition closing :: "u8 \<Rightarrow> u8" where
  "closing q = (if q = 91 then 93 else q)"

fun double_quote :: "u8 \<Rightarrow> u8 list \<Rightarrow> u8 list" where
  "double_quote q [] = []"
| "double_quote q (c # z) = (if c = q then q # q # double_quote q z else c # double_quote q z)"

lemma dequote_loop_double: 
  "zat rest 0 \<noteq> q \<Longrightarrow> dequote_loop q (double_quote q z @ q # rest) = Some z"
proof (induction z)
  case Nil
  then show ?case by (cases rest) auto
next
  case (Cons c z)
  have "double_quote q z @ q # rest \<noteq> []" by simp
  then obtain d y where d: "double_quote q z @ q # rest = d # y" by (cases "double_quote q z @ q # rest") auto
  with Cons show ?case by auto
qed

lemma dequote_of_quoted:
  assumes "sqlite3Isquote q"
    and "zat rest 0 \<noteq> closing q"
  shows "sqlite3Dequote (q # double_quote (closing q) z @ closing q # rest) = Some z"
  using assms dequote_loop_double by (simp add: sqlite3Dequote_def closing_def)


section \<open>UTF-16 text\<close>

definition utf16_text :: "nat \<Rightarrow> u8 list \<Rightarrow> u8 list" where
  "utf16_text enc z =
     concat (map (\<lambda>c. if enc = SQLITE_UTF16LE then [c, 0] else [0, c]) z)"

lemma utf16_text_simps [simp]:
  "utf16_text enc [] = []"
  "utf16_text enc (c # z) = (if enc = SQLITE_UTF16LE then [c, 0] else [0, c]) @ utf16_text enc z"
  by (simp_all add: utf16_text_def)

lemma length_utf16_text [simp]: "length (utf16_text enc z) = 2 * length z"
  by (induction z) auto

lemma nth_utf16_text:
  "k < length z \<Longrightarrow>
   utf16_text enc z ! (2 * k) = (if enc = SQLITE_UTF16LE then z ! k else 0) \<and>
   utf16_text enc z ! (2 * k + 1) = (if enc = SQLITE_UTF16LE then 0 else z ! k)"
proof (induction z arbitrary: k)
  case (Cons c z)
  then show ?case by (cases k) (auto simp: nth_append)
qed simp

lemma utf16_high_zero:
  assumes "\<And>k. i + 2 * k < len \<Longrightarrow> z (i + 2 * k) = 0"
  shows "len \<le> utf16_high z len i \<and> (i \<le> len + 1 \<longrightarrow> utf16_high z len i \<le> len + 1) \<and>
    (even (utf16_high z len i) \<longleftrightarrow> even i)"
  using assms
proof (induction z len i rule: utf16_high.induct)
  case (1 z len i)
  show ?case
  proof (cases "i < len")
    case True
    then have "z i = 0" using "1.prems" [of 0] by simp
    moreover have "z (i + 2 + 2 * k) = 0" if "i + 2 + 2 * k < len" for k
      using "1.prems" [of "Suc k"] that by simp
    ultimately show ?thesis
      using "1.IH" True by (simp add: utf16_high.simps [of z len i])
  qed (simp add: utf16_high.simps [of z len i])
qed

lemma atoi64_units_utf16:
  assumes "enc = SQLITE_UTF16LE \<or> enc = SQLITE_UTF16BE"
  shows "atoi64_units (mem_of (utf16_text enc z)) (2 * length z) enc = (z, False)"
proof -
  define m n where "m = mem_of (utf16_text enc z)" and "n = length z"
  note enc = SQLITE_UTF8_def SQLITE_UTF16LE_def SQLITE_UTF16BE_def
  have at: "m (enc mod 2 + 2 * k) = z ! k" "m (3 - enc + 2 * k) = 0" if "k < n" for k
    using that assms nth_utf16_text [of k z enc] by (auto simp: m_def n_def mem_of_def enc)
  then have "m (3 - enc + 2 * k) = 0" if "3 - enc + 2 * k < 2 * n" for k
    using that by simp
  then have r: "2 * n \<le> utf16_high m (2 * n) (3 - enc)"
    "3 - enc \<le> 2 * n + 1 \<longrightarrow> utf16_high m (2 * n) (3 - enc) \<le> 2 * n + 1"
    "even (utf16_high m (2 * n) (3 - enc)) \<longleftrightarrow> even (3 - enc)"
    using utf16_high_zero [of "3 - enc" "2 * n" m] by blast+
  have u: "map (\<lambda>k. m (enc mod 2 + 2 * k)) [0..<n] = z"
    using at by (intro nth_equalityI) (auto simp: n_def)
  have odd: "2 * n \<le> r \<Longrightarrow> r \<le> 2 * n + 1 \<Longrightarrow> odd r \<Longrightarrow> r = 2 * n + 1"
    and even: "2 * n \<le> r \<Longrightarrow> r \<le> 2 * n + 1 \<Longrightarrow> even r \<Longrightarrow> r = 2 * n" for r
    by presburger+
  from assms have "atoi64_units m (2 * n) enc = (z, False)"
  proof
    assume e: "enc = SQLITE_UTF16LE"
    then have "utf16_high m (2 * n) 1 = 2 * n + 1" using r by (intro odd) (simp_all add: enc)
    with u e show ?thesis by (simp add: atoi64_units_def Let_def enc)
  next
    assume e: "enc = SQLITE_UTF16BE"
    then have "utf16_high m (2 * n) 0 = 2 * n" using r by (intro even) (simp_all add: enc)
    with u e show ?thesis by (simp add: atoi64_units_def Let_def enc)
  qed
  then show ?thesis by (simp add: m_def n_def)
qed

lemma atoi64_utf16:
  assumes "enc = SQLITE_UTF16LE \<or> enc = SQLITE_UTF16BE"
  shows "sqlite3Atoi64 (mem_of (utf16_text enc z)) (2 * length z) enc =
    sqlite3Atoi64 (mem_of z) (length z) SQLITE_UTF8"
proof -
  have "map (mem_of z) [0..<length z] = z"
    by (rule nth_equalityI) (simp_all add: mem_of_def)
  then show ?thesis
    using atoi64_units_utf16 [OF assms, of z] by (simp add: sqlite3Atoi64_def atoi64_units_def)
qed

section \<open>Properties\<close>

text \<open>
  C30: printing a 64-bit integer with \<open>sqlite3Int64ToText\<close> and reading the text with
  \<open>sqlite3Atoi64\<close> gives back the integer with return code 0, for every integer, the
  smallest one included.
\<close>

theorem int64_text_roundtrip:
  "sqlite3Atoi64 (mem_of (sqlite3Int64ToText v)) (length (sqlite3Int64ToText v)) SQLITE_UTF8 = (0, v)"
proof -
  obtain ds where ds: "decimal_text (sqlite3Int64ToText v) (v <s 0) ds []" "dec_value ds = nat \<bar>sint v\<bar>"
    using int64ToText_decimal by blast
  have "(if v <s 0 then - int (dec_value ds) else int (dec_value ds)) = sint v"
    unfolding ds(2) by (simp add: word_sless_alt)
  then show ?thesis
    using atoi64_decimal [OF ds(1)] sint_i64_range [of v] by (simp add: decimal_result_def)
qed

text \<open>
  C29: on text that is an optional run of spaces, an optional sign, one or more digits and an
  optional run of spaces, in UTF-8 or in either UTF-16 byte order, \<open>sqlite3Atoi64\<close> returns 0
  and the number when it fits 64 bits, 3 and the largest integer for exactly \<open>+2^63\<close>, and 2
  with the nearest representable integer otherwise.
\<close>

theorem atoi64_decimal_text:
  assumes "decimal_text z neg ds sp" and "enc = SQLITE_UTF16LE \<or> enc = SQLITE_UTF16BE"
  shows "sqlite3Atoi64 (mem_of z) (length z) SQLITE_UTF8 = decimal_result neg (dec_value ds) \<and>
    sqlite3Atoi64 (mem_of (utf16_text enc z)) (2 * length z) enc = decimal_result neg (dec_value ds)"
  using atoi64_decimal [OF assms(1)] atoi64_utf16 [OF assms(2), of z] by simp

theorem atoi64_decimal_text_witness:
  "sqlite3Atoi64 (mem_of [32, 45, 48, 49, 50, 32]) 6 SQLITE_UTF8 = (0, -12) \<and>
   sqlite3Atoi64 (mem_of (utf16_text SQLITE_UTF16BE [32, 45, 48, 49, 50, 32])) 12 SQLITE_UTF16BE = (0, -12)"
proof -
  have "decimal_text [32, 45, 48, 49, 50, 32] True [48, 49, 50] [32]"
    unfolding decimal_text_def
    by (auto simp: isspace_iff intro!: exI [of _ "[32]"] exI [of _ "[45]"])
  moreover have "length [32 :: u8, 45, 48, 49, 50, 32] = 6" by simp
  ultimately show ?thesis
    using atoi64_decimal_text [of "[32, 45, 48, 49, 50, 32]" True "[48, 49, 50]" "[32]" SQLITE_UTF16BE]
    by (simp only:) (simp add: decimal_result_def dec_value_def)
qed

text \<open>
  C39: \<open>sqlite3GetUInt32\<close> accepts exactly the non-empty digit strings whose value is at most
  \<open>2^32\<close> and stores the value modulo \<open>2^32\<close>; on anything else it returns 0 and stores 0.
  The bound is one too large: \<open>4294967296\<close> is accepted and stored as 0.
\<close>

theorem getUInt32_exact:
  "sqlite3GetUInt32 z =
     (if z \<noteq> [] \<and> list_all digit z \<and> dec_value z \<le> 2 ^ 32 then (1, of_nat (dec_value z)) else (0, 0))
   \<and> sqlite3GetUInt32 [52, 50, 57, 52, 57, 54, 55, 50, 57, 54] = (1, 0)"
  using getUInt32_spec [of z] getUInt32_spec [of "[52, 50, 57, 52, 57, 54, 55, 50, 57, 54]"]
  by (simp add: dec_value_def)

text \<open>
  \<open>sqlite3GetInt32\<close> on an optional sign and a run of digits, followed by anything that is
  not a digit, stores the number and succeeds exactly when the number fits 32 bits; a
  hexadecimal literal is the only other form, so \<open>0x\<close> and \<open>0X\<close> are excluded.
\<close>

theorem getInt32_decimal:
  assumes "list_all digit ds" and "ds \<noteq> []"
    and "sg = [45] \<and> neg \<or> (sg = [] \<or> sg = [43]) \<and> \<not> neg"
    and "\<not> digit (zat rest 0)" and "\<not> (ds = [48] \<and> (zat rest 0 = 120 \<or> zat rest 0 = 88))"
  shows "sqlite3GetInt32 (sg @ ds @ rest) = int32_result neg (dec_value ds)"
  using assms by (rule getInt32_decimal_aux)

theorem getInt32_decimal_witness:
  "sqlite3GetInt32 ([45] @ [50, 49, 52, 55, 52, 56, 51, 54, 52, 56] @ [44]) = Some 0x80000000"
  using getInt32_decimal [of "[50, 49, 52, 55, 52, 56, 51, 54, 52, 56]" "[45]" True "[44]"]
  by (simp add: int32_result_def dec_value_def)

text \<open>
  The body of a blob literal, two hexadecimal digits for each byte and the closing quote,
  is decoded by \<open>sqlite3HexToBlob\<close> to those bytes.
\<close>

theorem hexToBlob_roundtrip: "sqlite3HexToBlob (hex_text bs @ [39]) = bs"
  by (rule hexToBlob_hex_text)

text \<open>
  Text quoted with any of the four quote characters SQL accepts, its own closing quotes
  doubled, is returned by \<open>sqlite3Dequote\<close> unchanged, whatever follows the closing quote.
\<close>

theorem dequote_roundtrip:
  assumes "sqlite3Isquote q" and "zat rest 0 \<noteq> closing q"
  shows "sqlite3Dequote (q # double_quote (closing q) z @ closing q # rest) = Some z"
  using assms by (rule dequote_of_quoted)

theorem dequote_roundtrip_witness:
  "sqlite3Dequote ([91] @ double_quote 93 [97, 93, 98] @ [93]) = Some [97, 93, 98]"
  using dequote_roundtrip [of 91 "[]" "[97, 93, 98]"] by (simp add: closing_def isquote_iff)

end
