(* ===== verification/Sq_Base64.thy ===== *)
theory Sq_Base64
  imports Sq_Prelude
begin

text \<open>
  The base-64 codec of the realtime-database client (fbase64.c), used for the key and the accept
  hash of its WebSocket handshake: \<open>f_b64_ntop\<close> and \<open>f_b64_pton\<close>.

  A buffer is the list of the bytes of the memory object that a pointer leads to; \<open>targsize\<close> is an
  argument of its own.  Every load and store checks its index against the object: \<open>Overrun\<close> is an
  access outside of it, \<open>Rejected\<close> the return value \<open>-1\<close> (what the buffer then holds is left open).
  \<open>tarindex\<close> is a 32-bit word and wraps; the results are converted to a 32-bit signed \<open>int\<close>.
  Values of type \<open>size_t\<close> are natural numbers: they are sizes of objects, far below \<open>2 ^ 64\<close>.
\<close>

section \<open>Memory\<close>

datatype b64_fail = Rejected | Overrun

fun b64_bind :: "b64_fail + 'a \<Rightarrow> ('a \<Rightarrow> b64_fail + 'b) \<Rightarrow> b64_fail + 'b" where
  "b64_bind (Inl e) f = Inl e"
| "b64_bind (Inr x) f = f x"

definition b64_load :: "u8 list \<Rightarrow> u32 \<Rightarrow> b64_fail + u8" where
  "b64_load t i = (if unat i < length t then Inr (t ! unat i) else Inl Overrun)"

definition b64_store :: "u8 list \<Rightarrow> u32 \<Rightarrow> u8 \<Rightarrow> b64_fail + u8 list" where
  "b64_store t i v = (if unat i < length t then Inr (t[unat i := v]) else Inl Overrun)"

text \<open>\<open>target[i] |= v\<close>\<close>

definition b64_or :: "u8 list \<Rightarrow> u32 \<Rightarrow> u8 \<Rightarrow> b64_fail + u8 list" where
  "b64_or t i v = b64_bind (b64_load t i) (\<lambda>x. b64_store t i (x OR v))"

text \<open>Repeated \<open>target[datalength++] = c\<close>\<close>

fun put_chars :: "u8 list \<Rightarrow> nat \<Rightarrow> u8 list \<Rightarrow> b64_fail + u8 list" where
  "put_chars t i [] = Inr t"
| "put_chars t i (c # cs) = (if i < length t then put_chars (t[i := c]) (i + 1) cs else Inl Overrun)"

section \<open>Encoding\<close>

definition Base64 :: "u8 list" where
  "Base64 = [
     65, 66, 67, 68, 69, 70, 71, 72, 73, 74, 75, 76, 77, 78, 79, 80,
     81, 82, 83, 84, 85, 86, 87, 88, 89, 90, 97, 98, 99, 100, 101, 102,
     103, 104, 105, 106, 107, 108, 109, 110, 111, 112, 113, 114, 115, 116, 117, 118,
     119, 120, 121, 122, 48, 49, 50, 51, 52, 53, 54, 55, 56, 57, 43, 47]"

definition Pad64 :: u8 where "Pad64 = 61"

text \<open>\<open>Base64[output[i]]\<close>\<close>

definition b64_char :: "u8 \<Rightarrow> u8" where
  "b64_char v = Base64 ! unat v"

text \<open>
  \<open>f_b64_ntop\<close>: the loop over whole groups of three bytes, then the last one or two bytes with their
  padding, then the terminator, for which there must be room; the result is the length of the text
  and the target.
\<close>

fun ntop_loop :: "u8 list \<Rightarrow> u8 list \<Rightarrow> nat \<Rightarrow> nat \<Rightarrow> b64_fail + int \<times> u8 list" where
  "ntop_loop (i0 # i1 # i2 # src) target datalength targsize =
     (if datalength + 4 > targsize then Inl Rejected
      else b64_bind (put_chars target datalength
        [b64_char (drop_bit 2 i0),
         b64_char (push_bit 4 (i0 AND 0x03) + drop_bit 4 i1),
         b64_char (push_bit 2 (i1 AND 0x0f) + drop_bit 6 i2),
         b64_char (i2 AND 0x3f)]) (\<lambda>target. ntop_loop src target (datalength + 4) targsize))"
| "ntop_loop src target datalength targsize =
     (let i0 = (case src of [] \<Rightarrow> 0 | b # _ \<Rightarrow> b);
          i1 = (case src of [_, b] \<Rightarrow> b | _ \<Rightarrow> 0)
      in if src \<noteq> [] \<and> datalength + 4 > targsize then Inl Rejected
         else
           b64_bind (put_chars target datalength
             (if src \<noteq> [] then
                [b64_char (drop_bit 2 i0),
                 b64_char (push_bit 4 (i0 AND 0x03) + drop_bit 4 i1),
                 if length src = 1 then Pad64
                 else b64_char (push_bit 2 (i1 AND 0x0f) + drop_bit 6 0),
                 Pad64]
              else [])) (\<lambda>target.
           let datalength = (if src \<noteq> [] then datalength + 4 else datalength)
           in if datalength \<ge> targsize then Inl Rejected
              else b64_bind (put_chars target datalength [0]) (\<lambda>target.
                Inr (sint (of_nat datalength :: u32), target))))"

definition f_b64_ntop :: "u8 list \<Rightarrow> u8 list \<Rightarrow> nat \<Rightarrow> b64_fail + int \<times> u8 list" where
  "f_b64_ntop src target targsize = ntop_loop src target 0 targsize"

section \<open>Decoding\<close>

definition isspace :: "u8 \<Rightarrow> bool" where
  "isspace c \<longleftrightarrow> c = 32 \<or> 9 \<le> c \<and> c \<le> 13"

text \<open>\<open>strchr(Base64, ch) - Base64\<close>\<close>

fun strchr_from :: "u8 list \<Rightarrow> u8 \<Rightarrow> u8 \<Rightarrow> u8 option" where
  "strchr_from [] c i = None"
| "strchr_from (x # xs) c i = (if x = c then Some i else strchr_from xs c (i + 1))"

definition b64_index :: "u8 \<Rightarrow> u8 option" where
  "b64_index c = strchr_from Base64 c 0"

text \<open>
  The state of the decoder: the position in a group, \<open>tarindex\<close>, and the target, or \<open>None\<close> for a null
  \<open>target\<close>, which only counts.
\<close>

record b64_state =
  state :: nat
  tarindex :: u32
  target :: "u8 list option"

definition pton_step :: "nat \<Rightarrow> b64_state \<Rightarrow> u8 \<Rightarrow> b64_fail + b64_state" where
  "pton_step targsize s v =
     (let i = tarindex s in
      if state s = 0 then
        (case target s of
           None \<Rightarrow> Inr (s\<lparr>state := 1\<rparr>)
         | Some t \<Rightarrow>
             if unat i \<ge> targsize then Inl Rejected
             else b64_bind (b64_store t i (push_bit 2 v)) (\<lambda>t. Inr (s\<lparr>target := Some t, state := 1\<rparr>)))
      else if state s = 1 then
        (case target s of
           None \<Rightarrow> Inr (s\<lparr>tarindex := i + 1, state := 2\<rparr>)
         | Some t \<Rightarrow>
             if unat (i + 1) \<ge> targsize then Inl Rejected
             else b64_bind (b64_or t i (drop_bit 4 v)) (\<lambda>t.
               b64_bind (b64_store t (i + 1) (push_bit 4 (v AND 0x0f))) (\<lambda>t.
               Inr (s\<lparr>target := Some t, tarindex := i + 1, state := 2\<rparr>))))
      else if state s = 2 then
        (case target s of
           None \<Rightarrow> Inr (s\<lparr>tarindex := i + 1, state := 3\<rparr>)
         | Some t \<Rightarrow>
             if unat (i + 1) \<ge> targsize then Inl Rejected
             else b64_bind (b64_or t i (drop_bit 2 v)) (\<lambda>t.
               b64_bind (b64_store t (i + 1) (push_bit 6 (v AND 0x03))) (\<lambda>t.
               Inr (s\<lparr>target := Some t, tarindex := i + 1, state := 3\<rparr>))))
      else
        (case target s of
           None \<Rightarrow> Inr (s\<lparr>tarindex := i + 1, state := 0\<rparr>)
         | Some t \<Rightarrow>
             if unat i \<ge> targsize then Inl Rejected
             else b64_bind (b64_or t i v) (\<lambda>t. Inr (s\<lparr>target := Some t, tarindex := i + 1, state := 0\<rparr>))))"

text \<open>The \<open>while\<close> loop; the first component says that it was left at a pad character, the
  second is what follows it.\<close>

fun pton_loop :: "nat \<Rightarrow> cstr \<Rightarrow> b64_state \<Rightarrow> b64_fail + bool \<times> cstr \<times> b64_state" where
  "pton_loop targsize [] s = Inr (False, [], s)"
| "pton_loop targsize (ch # src) s =
     (if isspace ch then pton_loop targsize src s
      else if ch = Pad64 then Inr (True, src, s)
      else case b64_index ch of
             None \<Rightarrow> Inl Rejected
           | Some v \<Rightarrow> b64_bind (pton_step targsize s v) (pton_loop targsize src))"

text \<open>After the one or two pad characters: white space only, and no bits left over.\<close>

definition pton_tail :: "cstr \<Rightarrow> b64_state \<Rightarrow> b64_fail + int \<times> u8 list option" where
  "pton_tail src s =
     (if \<not> list_all isspace src then Inl Rejected
      else case target s of
             None \<Rightarrow> Inr (sint (tarindex s), None)
           | Some t \<Rightarrow>
               b64_bind (b64_load t (tarindex s)) (\<lambda>x.
                 if x \<noteq> 0 then Inl Rejected else Inr (sint (tarindex s), Some t)))"

definition pton_from :: "nat \<Rightarrow> cstr \<Rightarrow> b64_state \<Rightarrow> b64_fail + int \<times> u8 list option" where
  "pton_from targsize src s =
     b64_bind (pton_loop targsize src s) (\<lambda>(pad, src, s).
       if pad then
         (if state s = 0 \<or> state s = 1 then Inl Rejected
          else if state s = 2 then
            (let src = dropWhile isspace src in
             if src = [] \<or> hd src \<noteq> Pad64 then Inl Rejected else pton_tail (tl src) s)
          else pton_tail src s)
       else if state s \<noteq> 0 then Inl Rejected
       else Inr (sint (tarindex s), target s))"

definition f_b64_pton :: "cstr \<Rightarrow> u8 list option \<Rightarrow> nat \<Rightarrow> b64_fail + int \<times> u8 list option" where
  "f_b64_pton src tgt targsize = pton_from targsize src \<lparr>state = 0, tarindex = 0, target = tgt\<rparr>"

section \<open>The alphabet\<close>

lemma strchr_from_sound:
  "strchr_from xs c i = Some v \<Longrightarrow> \<exists>k < length xs. xs ! k = c \<and> v = i + of_nat k"
proof (induction xs c i rule: strchr_from.induct)
  case (2 x xs c i)
  show ?case
  proof (cases "x = c")
    case False
    then obtain k where "k < length xs" "xs ! k = c" "v = i + 1 + of_nat k" using 2 by auto
    then show ?thesis by (intro exI [of _ "Suc k"]) auto
  qed (use 2 in auto)
qed simp

lemma b64_index_table: "map (\<lambda>v. b64_index (Base64 ! v)) [0..<64] = map (Some \<circ> of_nat) [0..<64]"
  by code_simp

lemma length_Base64 [simp]: "length Base64 = 64"
  by (simp add: Base64_def)

lemma b64_index_char: "v < 64 \<Longrightarrow> b64_index (b64_char v) = Some v"
  using arg_cong [OF b64_index_table, of "\<lambda>xs. xs ! unat v"]
  by (simp add: b64_char_def word_less_nat_alt del: upt_rec_numeral)

lemma b64_index_sound: "b64_index c = Some v \<Longrightarrow> v < 64 \<and> c = b64_char v"
  using strchr_from_sound [of Base64 c 0 v]
  by (auto simp: b64_index_def b64_char_def word_less_nat_alt unat_of_nat)

lemma Base64_no_space: "list_all (\<lambda>c. \<not> isspace c \<and> c \<noteq> Pad64) Base64"
  by code_simp

lemma b64_char_plain: "v < 64 \<Longrightarrow> \<not> isspace (b64_char v) \<and> b64_char v \<noteq> Pad64"
  using Base64_no_space by (auto simp: list_all_length b64_char_def word_less_nat_alt)

lemma pad_not_space: "\<not> isspace Pad64"
  by code_simp

section \<open>The encoder\<close>

definition b64_o1 :: "u8 \<Rightarrow> u8 \<Rightarrow> u8" where "b64_o1 a b = push_bit 4 (a AND 0x03) + drop_bit 4 b"
definition b64_o2 :: "u8 \<Rightarrow> u8 \<Rightarrow> u8" where "b64_o2 a b = push_bit 2 (a AND 0x0f) + drop_bit 6 b"

text \<open>The encoding of RFC 1521, by groups of three bytes.\<close>

fun b64_encode :: "u8 list \<Rightarrow> u8 list" where
  "b64_encode [] = []"
| "b64_encode [a] = [b64_char (drop_bit 2 a), b64_char (b64_o1 a 0), Pad64, Pad64]"
| "b64_encode [a, b] = [b64_char (drop_bit 2 a), b64_char (b64_o1 a b), b64_char (b64_o2 b 0), Pad64]"
| "b64_encode (a # b # c # src) =
     [b64_char (drop_bit 2 a), b64_char (b64_o1 a b), b64_char (b64_o2 b c), b64_char (c AND 0x3f)] @
     b64_encode src"

lemma put_chars_eq:
  "i + length cs \<le> length t \<Longrightarrow> put_chars t i cs = Inr (take i t @ cs @ drop (i + length cs) t)"
proof (induction cs arbitrary: t i)
  case (Cons c cs)
  then have "put_chars (t[i := c]) (i + 1) cs = Inr (take (i + 1) (t[i := c]) @ cs @ drop (i + 1 + length cs) (t[i := c]))"
    by simp
  moreover have "take (i + 1) (t[i := c]) = take i t @ [c]" using Cons.prems by (simp add: take_Suc_conv_app_nth)
  ultimately show ?case using Cons.prems by simp
qed simp

lemma drop_same: "length xs = k \<Longrightarrow> drop (k + m) (xs @ drop k t) = drop (k + m) t"
  by (simp add: add.commute)

lemma put_end:
  assumes "targsize \<le> length t" "d + length cs \<le> targsize"
  shows "b64_bind (put_chars t d cs) (\<lambda>t. if d + length cs \<ge> targsize then Inl Rejected
      else b64_bind (put_chars t (d + length cs) [0]) (\<lambda>t. Inr (n, t))) =
    (if d + length cs < targsize then Inr (n, take d t @ cs @ 0 # drop (d + length cs + 1) t) else Inl Rejected)"
proof (cases "d + length cs < targsize")
  case True
  let ?t = "(take d t @ cs) @ drop (d + length cs) t"
  have "put_chars t d cs = Inr ?t" using assms put_chars_eq [of d cs t] by simp
  moreover have "put_chars ?t (d + length cs) [0] =
      Inr (take (d + length cs) ?t @ [0] @ drop (d + length cs + length [0 :: u8]) ?t)"
    using True assms by (intro put_chars_eq) simp
  moreover have "take (d + length cs) ?t = take d t @ cs" using assms by simp
  moreover have "drop (d + length cs + length [0 :: u8]) ?t = drop (d + length cs + length [0 :: u8]) t"
    by (rule drop_same) (use assms in simp)
  ultimately show ?thesis using True by simp
qed (use assms put_chars_eq [of d cs t] in simp)

text \<open>The encoder writes the encoding and the terminator and leaves the rest of the target alone.\<close>

lemma ntop_loop_encode:
  "targsize \<le> length t \<Longrightarrow> ntop_loop src t d targsize =
     (if d + length (b64_encode src) < targsize
      then Inr (sint (of_nat (d + length (b64_encode src)) :: u32),
        take d t @ b64_encode src @ 0 # drop (d + length (b64_encode src) + 1) t)
      else Inl Rejected)"
proof (induction src arbitrary: t d rule: b64_encode.induct)
  case (4 a b c src)
  show ?case
  proof (cases "d + 4 \<le> targsize")
    case True
    let ?cs = "[b64_char (drop_bit 2 a), b64_char (b64_o1 a b), b64_char (b64_o2 b c), b64_char (c AND 0x3f)]"
    let ?t = "(take d t @ ?cs) @ drop (d + 4) t"
    have l: "targsize \<le> length ?t" and pc: "put_chars t d ?cs = Inr ?t"
      using 4(2) True put_chars_eq [of d ?cs t] by (simp_all add: eval_nat_numeral)
    have tk: "take (d + 4) ?t = take d t @ ?cs" using True 4(2) by simp
    have dr: "drop (d + 4 + length (b64_encode src) + 1) ?t = drop (d + 4 + length (b64_encode src) + 1) t"
      unfolding add.assoc [of "d + 4"] by (rule drop_same) (use True 4(2) in simp)
    have "ntop_loop (a # b # c # src) t d targsize = ntop_loop src ?t (d + 4) targsize"
      using True by (simp only: ntop_loop.simps b64_o1_def [symmetric] b64_o2_def [symmetric] pc b64_bind.simps) simp
    also have "\<dots> = (if d + 4 + length (b64_encode src) < targsize
        then Inr (sint (of_nat (d + 4 + length (b64_encode src)) :: u32),
          take (d + 4) ?t @ b64_encode src @ 0 # drop (d + 4 + length (b64_encode src) + 1) ?t)
        else Inl Rejected)" by (rule 4(1) [OF l])
    finally have "ntop_loop (a # b # c # src) t d targsize = (if d + 4 + length (b64_encode src) < targsize
        then Inr (sint (of_nat (d + 4 + length (b64_encode src)) :: u32),
          (take d t @ ?cs) @ b64_encode src @ 0 # drop (d + 4 + length (b64_encode src) + 1) t)
        else Inl Rejected)" unfolding tk dr .
    moreover have "d + length (b64_encode (a # b # c # src)) = d + 4 + length (b64_encode src)" by simp
    ultimately show ?thesis by (simp only: append_assoc) (simp only: b64_encode.simps append_assoc)
  qed simp
next
  case 1
  then show ?case by (simp add: Let_def upd_conv_take_nth_drop)
next
  case (2 a)
  have e: "b64_encode [a] = [b64_char (drop_bit 2 a), b64_char (push_bit 4 (a AND 0x03) + drop_bit 4 0), Pad64, Pad64]"
    by (simp only: b64_encode.simps b64_o1_def)
  have l: "length (b64_encode [a]) = 4" by simp
  have eq: "ntop_loop [a] t d targsize = (if d + 4 > targsize then Inl Rejected
      else b64_bind (put_chars t d (b64_encode [a])) (\<lambda>t. if d + 4 \<ge> targsize then Inl Rejected
        else b64_bind (put_chars t (d + 4) [0]) (\<lambda>t. Inr (sint (of_nat (d + 4) :: u32), t))))"
    unfolding e by (simp add: Let_def del: put_chars.simps)
  show ?case
  proof (cases "d + 4 \<le> targsize")
    case True
    then have "\<not> targsize < d + 4" by simp
    then show ?thesis by (simp only: eq l if_False put_end [OF 2, of d "b64_encode [a]", unfolded l, OF True])
  next
    case False
    then have "targsize < d + 4" "\<not> d + 4 < targsize" by simp_all
    then show ?thesis by (simp only: eq l if_True if_False)
  qed
next
  case (3 a b)
  have e: "b64_encode [a, b] = [b64_char (drop_bit 2 a), b64_char (push_bit 4 (a AND 0x03) + drop_bit 4 b),
      b64_char (push_bit 2 (b AND 0x0f) + drop_bit 6 0), Pad64]"
    by (simp only: b64_encode.simps b64_o1_def b64_o2_def)
  have l: "length (b64_encode [a, b]) = 4" by simp
  have eq: "ntop_loop [a, b] t d targsize = (if d + 4 > targsize then Inl Rejected
      else b64_bind (put_chars t d (b64_encode [a, b])) (\<lambda>t. if d + 4 \<ge> targsize then Inl Rejected
        else b64_bind (put_chars t (d + 4) [0]) (\<lambda>t. Inr (sint (of_nat (d + 4) :: u32), t))))"
    unfolding e by (simp add: Let_def del: put_chars.simps)
  show ?case
  proof (cases "d + 4 \<le> targsize")
    case True
    then have "\<not> targsize < d + 4" by simp
    then show ?thesis by (simp only: eq l if_False put_end [OF 3, of d "b64_encode [a, b]", unfolded l, OF True])
  next
    case False
    then have "targsize < d + 4" "\<not> d + 4 < targsize" by simp_all
    then show ?thesis by (simp only: eq l if_True if_False)
  qed
qed

lemma length_b64_encode: "length (b64_encode src) = 4 * ((length src + 2) div 3)"
proof (induction src rule: b64_encode.induct)
  case (4 a b c src)
  have "(length src + 3 + 2) div 3 = (length src + 2) div 3 + 1" by presburger
  with 4 show ?case by (simp add: add.commute)
qed auto

lemma b64_sum_or: "b64_o1 a b = push_bit 4 (a AND 0x03) OR drop_bit 4 b"
  "b64_o2 a b = push_bit 2 (a AND 0x0f) OR drop_bit 6 b"
  unfolding b64_o1_def b64_o2_def
  by (rule disjunctive_add_eq_or; simp add: u8_eq_bits bitblast bit_simps)+

lemma u8_lt_64: "(v :: u8) < 64 \<longleftrightarrow> \<not> bit v 6 \<and> \<not> bit v 7"
proof -
  have "v < 64 \<longleftrightarrow> drop_bit 6 v = 0" by (simp add: drop_bit_zero_iff word_less_nat_alt)
  also have "\<dots> \<longleftrightarrow> \<not> bit v 6 \<and> \<not> bit v 7" by (simp add: u8_eq_bits bitblast bit_simps)
  finally show ?thesis .
qed

lemma b64_groups_lt: "drop_bit 2 a < (64 :: u8)" "b64_o1 a b < 64" "b64_o2 a b < 64" "a AND 0x3f < (64 :: u8)"
  unfolding b64_sum_or u8_lt_64 by (simp_all add: bitblast bit_simps)

lemma b64_join:
  "push_bit 2 (drop_bit 2 a) OR drop_bit 4 (b64_o1 a b) = a"
  "push_bit 4 (b64_o1 a b AND 0x0f) OR drop_bit 2 (b64_o2 b c) = b"
  "push_bit 6 (b64_o2 b c AND 0x03) OR (c AND 0x3f) = c"
  "push_bit 4 (b64_o1 a 0 AND 0x0f) = 0" "push_bit 6 (b64_o2 a 0 AND 0x03) = 0"
  unfolding b64_sum_or by (simp_all add: u8_eq_bits bitblast bit_simps)

lemma b64_split:
  assumes "v0 < 64" "v1 < 64" "v2 < 64" "v3 < 64"
  defines "a \<equiv> push_bit 2 v0 OR drop_bit 4 v1" and "b \<equiv> push_bit 4 (v1 AND 0x0f) OR drop_bit 2 v2"
    and "c \<equiv> push_bit 6 (v2 AND 0x03) OR v3"
  shows "drop_bit 2 a = v0" "b64_o1 a b = v1" "b64_o2 b c = v2" "c AND 0x3f = v3"
    "push_bit 4 (v1 AND 0x0f) = 0 \<Longrightarrow> b64_o1 a 0 = v1"
    "push_bit 6 (v2 AND 0x03) = 0 \<Longrightarrow> b64_o2 b 0 = v2"
  using assms(1-4) unfolding b64_sum_or u8_lt_64 a_def b_def c_def
  by (simp_all add: u8_eq_bits bitblast bit_simps)

section \<open>The reference decoder\<close>

text \<open>
  The reference decoder works with unbounded positions on a target of exactly \<open>targsize\<close> bytes, and
  says only that an input is rejected; the section on refinement relates it to the code.
\<close>

record b64_dec =
  phase :: nat
  idx :: nat
  out :: "u8 list option"

definition dec_step :: "b64_dec \<Rightarrow> u8 \<Rightarrow> b64_dec option" where
  "dec_step s v =
     (let i = idx s in
      if phase s = 0 then
        (case out s of
           None \<Rightarrow> Some (s\<lparr>phase := 1\<rparr>)
         | Some t \<Rightarrow> if i \<ge> length t then None
             else Some (s\<lparr>out := Some (t[i := push_bit 2 v]), phase := 1\<rparr>))
      else if phase s = 1 then
        (case out s of
           None \<Rightarrow> Some (s\<lparr>idx := i + 1, phase := 2\<rparr>)
         | Some t \<Rightarrow> if i + 1 \<ge> length t then None
             else Some (s\<lparr>out := Some (t[i := t ! i OR drop_bit 4 v, i + 1 := push_bit 4 (v AND 0x0f)]),
               idx := i + 1, phase := 2\<rparr>))
      else if phase s = 2 then
        (case out s of
           None \<Rightarrow> Some (s\<lparr>idx := i + 1, phase := 3\<rparr>)
         | Some t \<Rightarrow> if i + 1 \<ge> length t then None
             else Some (s\<lparr>out := Some (t[i := t ! i OR drop_bit 2 v, i + 1 := push_bit 6 (v AND 0x03)]),
               idx := i + 1, phase := 3\<rparr>))
      else
        (case out s of
           None \<Rightarrow> Some (s\<lparr>idx := i + 1, phase := 0\<rparr>)
         | Some t \<Rightarrow> if i \<ge> length t then None
             else Some (s\<lparr>out := Some (t[i := t ! i OR v]), idx := i + 1, phase := 0\<rparr>)))"

text \<open>The loop; the first component says that it was left at a pad character, the
  second is what follows it.\<close>

fun dec_loop :: "cstr \<Rightarrow> b64_dec \<Rightarrow> (bool \<times> cstr \<times> b64_dec) option" where
  "dec_loop [] s = Some (False, [], s)"
| "dec_loop (ch # src) s =
     (if isspace ch then dec_loop src s
      else if ch = Pad64 then Some (True, src, s)
      else case b64_index ch of
             None \<Rightarrow> None
           | Some v \<Rightarrow> (case dec_step s v of None \<Rightarrow> None | Some s \<Rightarrow> dec_loop src s))"

declare dec_loop.simps(2) [simp del]

text \<open>After the one or two pad characters: white space only, and no bits left over.\<close>

definition dec_tail :: "cstr \<Rightarrow> b64_dec \<Rightarrow> (nat \<times> u8 list option) option" where
  "dec_tail src s =
     (if \<not> list_all isspace src then None
      else case out s of
             None \<Rightarrow> Some (idx s, None)
           | Some t \<Rightarrow> if t ! idx s \<noteq> 0 then None else Some (idx s, Some t))"

definition dec_from :: "cstr \<Rightarrow> b64_dec \<Rightarrow> (nat \<times> u8 list option) option" where
  "dec_from src s =
     (case dec_loop src s of
        None \<Rightarrow> None
      | Some (pad, src, s) \<Rightarrow>
          if pad then
            (if phase s = 0 \<or> phase s = 1 then None
             else if phase s = 2 then
               (let src = dropWhile isspace src in
                if src = [] \<or> hd src \<noteq> Pad64 then None else dec_tail (tl src) s)
             else dec_tail src s)
          else if phase s \<noteq> 0 then None
          else Some (idx s, out s))"

abbreviation at_group :: "nat \<Rightarrow> u8 list \<Rightarrow> b64_dec" where
  "at_group i t \<equiv> \<lparr>phase = 0, idx = i, out = Some t\<rparr>"

lemma dec_char:
  "v < 64 \<Longrightarrow> dec_loop (b64_char v # src) s =
     (case dec_step s v of None \<Rightarrow> None | Some s \<Rightarrow> dec_loop src s)"
  using b64_char_plain [of v] by (simp add: b64_index_char dec_loop.simps(2))

lemma dec_pad: "dec_loop (Pad64 # src) s = Some (True, src, s)"
  by (simp add: pad_not_space dec_loop.simps(2))

lemma dec_group:
  assumes "v0 < 64" "v1 < 64" "v2 < 64" "v3 < 64"
  shows "dec_loop (b64_char v0 # b64_char v1 # b64_char v2 # b64_char v3 # src) (at_group i t) =
    (if i + 2 < length t then dec_loop src (at_group (i + 3)
       (t[i := push_bit 2 v0 OR drop_bit 4 v1, i + 1 := push_bit 4 (v1 AND 0x0f) OR drop_bit 2 v2,
          i + 2 := push_bit 6 (v2 AND 0x03) OR v3]))
     else None)"
  using assms
  by (cases "i + 2 < length t")
    (auto simp: dec_char dec_step_def list_update_swap add.commute numeral_3_eq_3
      split: option.splits)

lemma dec_last1:
  assumes "v0 < 64" "v1 < 64"
  shows "dec_loop (b64_char v0 # b64_char v1 # src) (at_group i t) =
    (if i + 1 < length t then dec_loop src \<lparr>phase = 2, idx = i + 1, out = Some
       (t[i := push_bit 2 v0 OR drop_bit 4 v1, i + 1 := push_bit 4 (v1 AND 0x0f)])\<rparr>
     else None)"
  using assms by (auto simp: dec_char dec_step_def list_update_swap)

lemma dec_last2:
  assumes "v0 < 64" "v1 < 64" "v2 < 64"
  shows "dec_loop (b64_char v0 # b64_char v1 # b64_char v2 # src) (at_group i t) =
    (if i + 2 < length t then dec_loop src \<lparr>phase = 3, idx = i + 2, out = Some
       (t[i := push_bit 2 v0 OR drop_bit 4 v1, i + 1 := push_bit 4 (v1 AND 0x0f) OR drop_bit 2 v2,
          i + 2 := push_bit 6 (v2 AND 0x03)])\<rparr>
     else None)"
  using assms
  by (auto simp: dec_char dec_step_def list_update_swap)

lemma take_update3:
  "i + 2 < length t \<Longrightarrow> take (i + 3) (t[i := a, i + 1 := b, i + 2 := c]) = take i t @ [a, b, c]"
  by (simp add: take_Suc_conv_app_nth numeral_3_eq_3)

lemma take_update2:
  "i + 1 < length t \<Longrightarrow> take (i + 2) (t[i := a, i + 1 := b]) = take i t @ [a, b]"
  by (simp add: take_Suc_conv_app_nth)

text \<open>Decoding an encoding, from any group boundary on.\<close>

lemma dec_encode1:
  "i + 1 < length t \<Longrightarrow>
   dec_from (b64_encode [a]) (at_group i t) = Some (i + 1, Some (t[i := a, i + 1 := 0]))"
  unfolding b64_encode.simps dec_from_def
  by (subst dec_last1) (simp_all only: b64_groups_lt b64_join, simp add: dec_pad pad_not_space dec_tail_def)

lemma dec_encode2:
  "i + 2 < length t \<Longrightarrow>
   dec_from (b64_encode [a, b]) (at_group i t) = Some (i + 2, Some (t[i := a, i + 1 := b, i + 2 := 0]))"
  unfolding b64_encode.simps dec_from_def
  by (subst dec_last2) (simp_all only: b64_groups_lt b64_join, simp add: dec_pad pad_not_space dec_tail_def)

lemma dec_encode3:
  "i + 2 < length t \<Longrightarrow>
   dec_from (b64_encode (a # b # c # src)) (at_group i t) =
   dec_from (b64_encode src) (at_group (i + 3) (t[i := a, i + 1 := b, i + 2 := c]))"
  unfolding b64_encode.simps append.simps dec_from_def
  by (subst dec_group) (simp_all only: b64_groups_lt b64_join, simp)

definition b64_room :: "nat \<Rightarrow> nat" where
  "b64_room n = (if n mod 3 = 0 then n else n + 1)"

lemma b64_room_3: "b64_room (n + 3) = b64_room n + 3" "n \<le> b64_room n"
  by (simp_all add: b64_room_def)

lemma dec_from_encode:
  "i + b64_room (length bs) \<le> length t \<Longrightarrow>
   \<exists>t'. dec_from (b64_encode bs) (at_group i t) = Some (i + length bs, Some t') \<and>
     length t' = length t \<and> take (i + length bs) t' = take i t @ bs"
proof (induction bs arbitrary: i t rule: b64_encode.induct)
  case 1
  then show ?case by (auto simp: dec_from_def)
next
  case (2 a)
  then have "i + 1 < length t" by (simp add: b64_room_def)
  with dec_encode1 [of i t a] show ?case by (auto simp: take_Suc_conv_app_nth simp del: b64_encode.simps)
next
  case (3 a b)
  then have i: "i + 2 < length t" by (simp add: b64_room_def)
  with take_update2 [of i "t[i + 2 := 0]" a b]
  have "take (i + 2) (t[i := a, i + 1 := b, i + 2 := 0]) = take i t @ [a, b]"
    by (simp add: list_update_swap)
  with i dec_encode2 [of i t a b] show ?case by (simp del: b64_encode.simps)
next
  case (4 a b c src)
  let ?t = "t[i := a, i + 1 := b, i + 2 := c]"
  have i: "i + 2 < length t" and r: "i + 3 + b64_room (length src) \<le> length ?t"
    using 4(2) b64_room_3 [of "length src"] by (simp_all add: eval_nat_numeral)
  from 4(1) [OF r] obtain t' where t': "dec_from (b64_encode src) (at_group (i + 3) ?t) =
      Some (i + 3 + length src, Some t')" "length t' = length ?t"
      "take (i + 3 + length src) t' = take (i + 3) ?t @ src"
    by blast
  have len: "i + length (a # b # c # src) = i + 3 + length src" by simp
  show ?case
    unfolding len dec_encode3 [OF i] using t' take_update3 [of i t a b c] i by auto
qed

lemma dec_null_encode:
  "dec_from (b64_encode bs) \<lparr>phase = 0, idx = i, out = None\<rparr> = Some (i + length bs, None)"
proof (induction bs arbitrary: i rule: b64_encode.induct)
  case (4 a b c src)
  then show ?case
    by (simp add: dec_from_def dec_char dec_step_def b64_groups_lt)
qed (auto simp: dec_from_def dec_char dec_step_def b64_groups_lt dec_pad pad_not_space dec_tail_def)

text \<open>White space is ignored everywhere.\<close>

abbreviation despace :: "u8 list \<Rightarrow> u8 list" where
  "despace z \<equiv> filter (\<lambda>c. \<not> isspace c) z"

lemma dec_loop_despace:
  "dec_loop (despace z) s = map_option (\<lambda>(p, src, s). (p, despace src, s)) (dec_loop z s)"
  by (induction z s rule: dec_loop.induct) (auto simp: pad_not_space dec_loop.simps(2) split: option.splits)

lemma despace_Nil: "despace z = [] \<longleftrightarrow> list_all isspace z"
  by (induction z) auto

lemma despace_dropWhile: "despace (dropWhile isspace z) = despace z"
  by (induction z) auto

lemma dropWhile_space_Cons:
  "dropWhile isspace z = c # r \<Longrightarrow> \<not> isspace c"
  by (metis hd_dropWhile list.distinct(1) list.sel(1))

lemma dec_tail_despace: "dec_tail (despace z) s = dec_tail z s"
  by (induction z) (auto simp: dec_tail_def)

lemma dec_from_despace: "dec_from (despace z) s = dec_from z s"
proof -
  have two: "(let src = dropWhile isspace (despace src) in
        if src = [] \<or> hd src \<noteq> Pad64 then None else dec_tail (tl src) s) =
      (let src = dropWhile isspace src in
        if src = [] \<or> hd src \<noteq> Pad64 then None else dec_tail (tl src) s)" for src s
  proof (cases "dropWhile isspace src")
    case Nil
    then have "despace src = []" using despace_dropWhile [of src] by simp
    with Nil show ?thesis by simp
  next
    case (Cons c r)
    then have "despace src = c # despace r" "\<not> isspace c"
      using despace_dropWhile [of src] dropWhile_space_Cons [OF Cons] by auto
    with Cons show ?thesis by (simp add: dec_tail_despace)
  qed
  show ?thesis
    by (auto simp: dec_from_def dec_loop_despace two dec_tail_despace split: option.splits)
qed

text \<open>The decoder accepts nothing but encodings.\<close>

lemma plain_cases:
  assumes "\<not> isspace c"
  obtains "c = Pad64" | v where "v < 64" "c = b64_char v" | "\<And>z s. dec_loop (c # z) s = None"
  using assms b64_index_sound by (cases "c = Pad64"; cases "b64_index c") (auto simp: dec_loop.simps(2))

lemma all_space_plain: "list_all isspace z \<Longrightarrow> list_all (\<lambda>c. \<not> isspace c) z \<Longrightarrow> z = []"
  by (cases z) auto

text \<open>One, two or three characters of a last group, and what the decoder demands after them.\<close>

lemma dec_from_one:
  assumes "list_all (\<lambda>c. \<not> isspace c) z" and "v0 < 64"
    and "dec_from (b64_char v0 # z) (at_group i t) = Some r"
  obtains v1 z' where "v1 < 64" "z = b64_char v1 # z'"
proof (cases z)
  case Nil
  then show ?thesis
    using assms by (auto simp: dec_from_def dec_char dec_step_def split: if_splits)
next
  case (Cons c z')
  then have "\<not> isspace c" using assms(1) by simp
  then show ?thesis
  proof (cases rule: plain_cases)
    case 1
    then show ?thesis
      using assms Cons by (auto simp: dec_from_def dec_char dec_step_def dec_pad split: if_splits)
  next
    case (2 v)
    then show ?thesis using that Cons by blast
  next
    case 3
    then show ?thesis
      using assms Cons by (auto simp: dec_from_def dec_char split: option.splits)
  qed
qed

lemma dec_from_two:
  assumes "list_all (\<lambda>c. \<not> isspace c) z" and "v0 < 64" "v1 < 64"
    and "dec_from (b64_char v0 # b64_char v1 # z) (at_group i t) = Some r"
  obtains "z = [Pad64, Pad64]" "i + 1 < length t" "push_bit 4 (v1 AND 0x0f) = 0"
      "r = (i + 1, Some (t[i := push_bit 2 v0 OR drop_bit 4 v1, i + 1 := push_bit 4 (v1 AND 0x0f)]))"
    | v2 z' where "v2 < 64" "z = b64_char v2 # z'"
proof (cases z)
  case Nil
  then show ?thesis
    using assms by (auto simp: dec_from_def dec_last1 split: if_splits)
next
  case (Cons c z')
  then have "\<not> isspace c" using assms(1) by simp
  then show ?thesis
  proof (cases rule: plain_cases)
    case 1
    have f: "dec_from (b64_char v0 # b64_char v1 # Pad64 # z') (at_group i t) =
       (if i + 1 < length t then
          (let src = dropWhile isspace z' in
            if src = [] \<or> hd src \<noteq> Pad64 then None
            else dec_tail (tl src) \<lparr>phase = 2, idx = i + 1, out = Some
              (t[i := push_bit 2 v0 OR drop_bit 4 v1, i + 1 := push_bit 4 (v1 AND 0x0f)])\<rparr>)
        else None)"
      using assms(2,3) by (simp add: dec_from_def dec_last1 dec_pad Let_def)
    have "dropWhile isspace z' = z'" using assms(1) Cons by (cases z') auto
    with f assms(4) Cons 1 obtain z2 where z': "z' = Pad64 # z2" "i + 1 < length t"
      "dec_tail z2 \<lparr>phase = 2, idx = i + 1, out = Some
              (t[i := push_bit 2 v0 OR drop_bit 4 v1, i + 1 := push_bit 4 (v1 AND 0x0f)])\<rparr> = Some r"
      by (cases z') (auto simp: Let_def split: if_splits)
    moreover have "z2 = []"
      using z' assms(1) Cons all_space_plain [of z2] by (auto simp: dec_tail_def split: if_splits)
    ultimately show ?thesis
      using that(1) Cons 1 by (auto simp: dec_tail_def split: if_splits)
  next
    case (2 v)
    then show ?thesis using that Cons by blast
  next
    case 3
    then show ?thesis
      using assms Cons by (auto simp: dec_from_def dec_last1 split: option.splits if_splits)
  qed
qed

lemma dec_from_three:
  assumes "list_all (\<lambda>c. \<not> isspace c) z" and "v0 < 64" "v1 < 64" "v2 < 64"
    and "dec_from (b64_char v0 # b64_char v1 # b64_char v2 # z) (at_group i t) = Some r"
  obtains "z = [Pad64]" "i + 2 < length t" "push_bit 6 (v2 AND 0x03) = 0"
      "r = (i + 2, Some (t[i := push_bit 2 v0 OR drop_bit 4 v1,
         i + 1 := push_bit 4 (v1 AND 0x0f) OR drop_bit 2 v2, i + 2 := push_bit 6 (v2 AND 0x03)]))"
    | v3 z' where "v3 < 64" "z = b64_char v3 # z'"
proof (cases z)
  case Nil
  then show ?thesis
    using assms by (auto simp: dec_from_def dec_last2 split: if_splits)
next
  case (Cons c z')
  then have "\<not> isspace c" using assms(1) by simp
  then show ?thesis
  proof (cases rule: plain_cases)
    case 1
    have f: "dec_from (b64_char v0 # b64_char v1 # b64_char v2 # Pad64 # z') (at_group i t) =
       (if i + 2 < length t then dec_tail z' \<lparr>phase = 3, idx = i + 2, out = Some
              (t[i := push_bit 2 v0 OR drop_bit 4 v1,
         i + 1 := push_bit 4 (v1 AND 0x0f) OR drop_bit 2 v2, i + 2 := push_bit 6 (v2 AND 0x03)])\<rparr>
        else None)"
      using assms(2-4) by (simp add: dec_from_def dec_last2 dec_pad)
    moreover have "z' = []"
      using f assms(1,5) Cons 1 all_space_plain [of z'] by (auto simp: dec_tail_def split: if_splits)
    ultimately show ?thesis
      using that(1) Cons 1 assms(5) by (auto simp: dec_tail_def split: if_splits)
  next
    case (2 v)
    then show ?thesis using that Cons by blast
  next
    case 3
    then show ?thesis
      using assms Cons by (auto simp: dec_from_def dec_last2 split: option.splits if_splits)
  qed
qed

definition b64_accepts :: "u8 list \<Rightarrow> nat \<Rightarrow> u8 list \<Rightarrow> nat \<times> u8 list option \<Rightarrow> bool" where
  "b64_accepts z i t r \<longleftrightarrow> (\<exists>t' bs. r = (i + length bs, Some t') \<and> length t' = length t \<and>
     z = b64_encode bs \<and> i + length bs \<le> length t \<and> take (i + length bs) t' = take i t @ bs)"

lemma b64_accepts1:
  assumes "v0 < 64" "v1 < 64" "i + 1 < length t" "push_bit 4 (v1 AND 0x0f) = 0"
  shows "b64_accepts [b64_char v0, b64_char v1, Pad64, Pad64] i t
    (i + 1, Some (t[i := push_bit 2 v0 OR drop_bit 4 v1, i + 1 := push_bit 4 (v1 AND 0x0f)]))"
proof -
  let ?a = "push_bit 2 v0 OR drop_bit 4 v1"
  have "b64_encode [?a] = [b64_char v0, b64_char v1, Pad64, Pad64]"
    using b64_split(1,5) [OF assms(1,2) assms(1,1)] assms(4) by simp
  with assms(3) show ?thesis
    unfolding b64_accepts_def
    by (intro exI [of _ "t[i := ?a, i + 1 := push_bit 4 (v1 AND 0x0f)]"] exI [of _ "[?a]"])
      (simp add: take_Suc_conv_app_nth)
qed

lemma b64_accepts2:
  assumes "v0 < 64" "v1 < 64" "v2 < 64" "i + 2 < length t" "push_bit 6 (v2 AND 0x03) = 0"
  shows "b64_accepts [b64_char v0, b64_char v1, b64_char v2, Pad64] i t
    (i + 2, Some (t[i := push_bit 2 v0 OR drop_bit 4 v1,
         i + 1 := push_bit 4 (v1 AND 0x0f) OR drop_bit 2 v2, i + 2 := push_bit 6 (v2 AND 0x03)]))"
proof -
  let ?a = "push_bit 2 v0 OR drop_bit 4 v1" and ?b = "push_bit 4 (v1 AND 0x0f) OR drop_bit 2 v2"
  let ?t = "t[i := ?a, i + 1 := ?b, i + 2 := push_bit 6 (v2 AND 0x03)]"
  have e: "b64_encode [?a, ?b] = [b64_char v0, b64_char v1, b64_char v2, Pad64]"
    using b64_split(1,2,6) [OF assms(1-3) assms(1)] assms(5) by simp
  have "take (i + 2) ?t = take i t @ [?a, ?b]"
    using take_update2 [of i "t[i + 2 := push_bit 6 (v2 AND 0x03)]" ?a ?b] assms(4)
    by (simp add: list_update_swap)
  with e assms(4) show ?thesis
    unfolding b64_accepts_def by (intro exI [of _ ?t] exI [of _ "[?a, ?b]"]) simp
qed

lemma b64_accepts3:
  assumes "v0 < 64" "v1 < 64" "v2 < 64" "v3 < 64" "i + 2 < length t"
    and "b64_accepts z (i + 3) (t[i := push_bit 2 v0 OR drop_bit 4 v1,
         i + 1 := push_bit 4 (v1 AND 0x0f) OR drop_bit 2 v2, i + 2 := push_bit 6 (v2 AND 0x03) OR v3]) r"
  shows "b64_accepts (b64_char v0 # b64_char v1 # b64_char v2 # b64_char v3 # z) i t r"
proof -
  let ?a = "push_bit 2 v0 OR drop_bit 4 v1" and ?b = "push_bit 4 (v1 AND 0x0f) OR drop_bit 2 v2"
    and ?c = "push_bit 6 (v2 AND 0x03) OR v3"
  let ?t = "t[i := ?a, i + 1 := ?b, i + 2 := ?c]"
  obtain t' bs where r: "r = (i + 3 + length bs, Some t')" "length t' = length ?t" "z = b64_encode bs"
    "i + 3 + length bs \<le> length ?t" "take (i + 3 + length bs) t' = take (i + 3) ?t @ bs"
    using assms(6) unfolding b64_accepts_def by blast
  have e: "b64_encode (?a # ?b # ?c # bs) =
      b64_char v0 # b64_char v1 # b64_char v2 # b64_char v3 # b64_encode bs"
    using b64_split(1-4) [OF assms(1-4)] by simp
  have l: "i + length (?a # ?b # ?c # bs) = i + 3 + length bs" by simp
  show ?thesis
    unfolding b64_accepts_def
    using r e take_update3 [OF assms(5), of ?a ?b ?c]
    by (intro exI [of _ t'] exI [of _ "?a # ?b # ?c # bs"]) (simp only: l, simp)
qed

lemma dec_from_canonical:
  assumes "list_all (\<lambda>c. \<not> isspace c) z" and "dec_from z (at_group i t) = Some r" and "i \<le> length t"
  shows "b64_accepts z i t r"
  using assms
proof (induction "length z" arbitrary: z i t rule: less_induct)
  case less
  show ?case
  proof (cases z)
    case Nil
    with less.prems show ?thesis by (auto simp: dec_from_def b64_accepts_def)
  next
    case (Cons c z0)
    then have "\<not> isspace c" using less.prems(1) by simp
    then obtain v0 where v0: "v0 < 64" "c = b64_char v0"
      by (cases rule: plain_cases) (use less.prems Cons in \<open>auto simp: dec_from_def dec_pad\<close>)
    obtain v1 z1 where v1: "v1 < 64" "z0 = b64_char v1 # z1"
      using dec_from_one [of z0 v0 i t r] less.prems(1,2) Cons v0 by auto
    have p2: "dec_from (b64_char v0 # b64_char v1 # z1) (at_group i t) = Some r"
      and z1: "list_all (\<lambda>c. \<not> isspace c) z1"
      using less.prems(1,2) Cons v0 v1 by auto
    from dec_from_two [OF z1 v0(1) v1(1) p2] show ?thesis
    proof cases
      case 1
      then show ?thesis
        using b64_accepts1 [OF v0(1) v1(1)] Cons v0 v1 by simp
    next
      case (2 v2 z2)
      note v2 = this
      have p3: "dec_from (b64_char v0 # b64_char v1 # b64_char v2 # z2) (at_group i t) = Some r"
        and z2: "list_all (\<lambda>c. \<not> isspace c) z2"
        using p2 z1 2 by auto
      from dec_from_three [OF z2 v0(1) v1(1) 2(1) p3] show ?thesis
      proof cases
        case 1
        then show ?thesis
          using b64_accepts2 [OF v0(1) v1(1) v2(1)] v2 Cons v0 v1 by simp
      next
        case (2 v3 z3)
        let ?t = "t[i := push_bit 2 v0 OR drop_bit 4 v1,
          i + 1 := push_bit 4 (v1 AND 0x0f) OR drop_bit 2 v2, i + 2 := push_bit 6 (v2 AND 0x03) OR v3]"
        have p4: "i + 2 < length t" "dec_from z3 (at_group (i + 3) ?t) = Some r"
          using p3 2 unfolding dec_from_def
          by (simp_all only: dec_group [OF v0(1) v1(1) v2(1) 2(1)]) (simp_all split: if_splits)
        have "b64_accepts z3 (i + 3) ?t r"
          using p4 z2 2 v0 v1 v2 Cons by (intro less.hyps) auto
        then show ?thesis
          using b64_accepts3 [OF v0(1) v1(1) v2(1) 2(1) p4(1)] 2 v2 v1 v0 Cons by simp
      qed
    qed
  qed
qed

section \<open>The code refines the reference decoder\<close>

text \<open>
  The state of the code for a state of the reference decoder: \<open>rest\<close> are the bytes of the buffer from
  \<open>targsize\<close> on.
\<close>

definition conc :: "u8 list \<Rightarrow> b64_dec \<Rightarrow> b64_state" where
  "conc rest a = \<lparr>state = phase a, tarindex = of_nat (idx a), target = map_option (\<lambda>t. t @ rest) (out a)\<rparr>"

definition dec_ok :: "nat \<Rightarrow> b64_dec \<Rightarrow> bool" where
  "dec_ok n a \<longleftrightarrow> (\<forall>t. out a = Some t \<longrightarrow> length t = n \<and> idx a \<le> n \<and> (phase a \<noteq> 0 \<longrightarrow> idx a < n))"

definition conc_result :: "u8 list \<Rightarrow> (nat \<times> u8 list option) option \<Rightarrow> b64_fail + int \<times> u8 list option" where
  "conc_result rest r =
     (case r of None \<Rightarrow> Inl Rejected
      | Some (i, t) \<Rightarrow> Inr (sint (of_nat i :: u32), map_option (\<lambda>t. t @ rest) t))"

lemma unat_index: "i \<le> n \<Longrightarrow> n < 2 ^ 31 \<Longrightarrow> unat (of_nat i :: u32) = i \<and> unat (of_nat i + 1 :: u32) = i + 1"
proof -
  assume "i \<le> n" "n < 2 ^ 31"
  moreover have "(of_nat i + 1 :: u32) = of_nat (i + 1)" by simp
  ultimately show ?thesis by (simp add: unat_of_nat del: of_nat_add of_nat_Suc)
qed

lemma pton_step_refines:
  assumes "dec_ok n a" "n < 2 ^ 31"
  shows "pton_step n (conc rest a) v = (case dec_step a v of None \<Rightarrow> Inl Rejected | Some a' \<Rightarrow> Inr (conc rest a'))"
    and "dec_step a v = Some a' \<Longrightarrow> dec_ok n a'"
proof -
  show "dec_step a v = Some a' \<Longrightarrow> dec_ok n a'"
    using assms(1) by (auto simp: dec_ok_def dec_step_def Let_def split: if_splits option.splits)
  show "pton_step n (conc rest a) v = (case dec_step a v of None \<Rightarrow> Inl Rejected | Some a' \<Rightarrow> Inr (conc rest a'))"
  proof (cases "out a")
    case None
    then show ?thesis by (simp add: conc_def pton_step_def dec_step_def Let_def add.commute)
  next
    case (Some t)
    then have t: "length t = n" "idx a \<le> n" "phase a \<noteq> 0 \<longrightarrow> idx a < n" using assms(1) by (auto simp: dec_ok_def)
    note u = unat_index [OF t(2) assms(2)]
    show ?thesis
      using Some t u
      by (auto simp: conc_def pton_step_def dec_step_def b64_or_def b64_load_def b64_store_def
        list_update_append nth_append add.commute Let_def)
  qed
qed

lemma pton_loop_refines:
  assumes "dec_ok n a" "n < 2 ^ 31"
  shows "pton_loop n src (conc rest a) =
      (case dec_loop src a of None \<Rightarrow> Inl Rejected | Some (p, src, a') \<Rightarrow> Inr (p, src, conc rest a'))"
    and "dec_loop src a = Some (p, src', a') \<Longrightarrow> dec_ok n a'"
proof -
  have "pton_loop n src (conc rest a) =
      (case dec_loop src a of None \<Rightarrow> Inl Rejected | Some (p, src, a') \<Rightarrow> Inr (p, src, conc rest a')) \<and>
    (\<forall>p src' a'. dec_loop src a = Some (p, src', a') \<longrightarrow> dec_ok n a')"
    using assms(1)
  proof (induction src arbitrary: a)
    case (Cons c src)
    show ?case
    proof (cases "isspace c \<or> c = Pad64 \<or> b64_index c = None")
      case True
      then show ?thesis using Cons by (auto simp: dec_loop.simps(2))
    next
      case False
      then obtain v where v: "b64_index c = Some v" by auto
      show ?thesis
        using False v Cons.IH pton_step_refines(1) [OF Cons.prems assms(2), of rest v]
          pton_step_refines(2) [OF Cons.prems assms(2), of v]
        by (cases "dec_step a v") (simp_all add: dec_loop.simps(2))
    qed
  qed simp
  then show "pton_loop n src (conc rest a) =
      (case dec_loop src a of None \<Rightarrow> Inl Rejected | Some (p, src, a') \<Rightarrow> Inr (p, src, conc rest a'))"
    and "dec_loop src a = Some (p, src', a') \<Longrightarrow> dec_ok n a'" by blast+
qed

lemma pton_tail_refines:
  assumes "dec_ok n a" "n < 2 ^ 31" "phase a \<noteq> 0"
  shows "pton_tail src (conc rest a) = conc_result rest (dec_tail src a)"
proof (cases "out a")
  case (Some t)
  then have t: "length t = n" "idx a < n" using assms by (auto simp: dec_ok_def)
  then show ?thesis
    using Some unat_index [of "idx a" n] assms(2)
    by (auto simp: pton_tail_def dec_tail_def conc_def conc_result_def b64_load_def nth_append)
qed (simp add: pton_tail_def dec_tail_def conc_def conc_result_def)

lemma pton_from_refines:
  assumes "dec_ok n a" "n < 2 ^ 31"
  shows "pton_from n src (conc rest a) = conc_result rest (dec_from src a)"
proof (cases "dec_loop src a")
  case None
  then show ?thesis by (simp add: pton_from_def dec_from_def pton_loop_refines(1) [OF assms] conc_result_def)
next
  case (Some r)
  obtain p src' a' where r: "r = (p, src', a')" by (cases r)
  note ok = pton_loop_refines(2) [OF assms Some [unfolded r]]
  have s: "state (conc rest a') = phase a'" by (simp add: conc_def)
  have f: "Inr (sint (tarindex (conc rest a')), target (conc rest a')) = conc_result rest (Some (idx a', out a'))"
    "Inl Rejected = conc_result rest None"
    by (simp_all add: conc_def conc_result_def)
  have "pton_from n src (conc rest a) =
      (if p then
         (if phase a' = 0 \<or> phase a' = 1 then Inl Rejected
          else if phase a' = 2 then
            (let src = dropWhile isspace src' in
             if src = [] \<or> hd src \<noteq> Pad64 then Inl Rejected else pton_tail (tl src) (conc rest a'))
          else pton_tail src' (conc rest a'))
       else if phase a' \<noteq> 0 then Inl Rejected
       else Inr (sint (tarindex (conc rest a')), target (conc rest a')))"
    by (simp add: pton_from_def pton_loop_refines(1) [OF assms] Some r s)
  also have "\<dots> = conc_result rest (dec_from src a)"
    unfolding f dec_from_def Some r by (simp add: pton_tail_refines [OF ok assms(2)] Let_def)
  finally show ?thesis .
qed

text \<open>Calls of \<open>f_b64_pton\<close>, with a target of which \<open>targsize\<close> bytes may be used and with a null target.\<close>

lemma pton_target:
  assumes "targsize \<le> length buf" "targsize < 2 ^ 31"
  shows "f_b64_pton z (Some buf) targsize =
    conc_result (drop targsize buf) (dec_from (despace z) (at_group 0 (take targsize buf)))"
proof -
  let ?a = "at_group 0 (take targsize buf)"
  have "dec_ok targsize ?a" using assms(1) by (simp add: dec_ok_def)
  from pton_from_refines [OF this assms(2), of z "drop targsize buf"] show ?thesis
    by (simp add: f_b64_pton_def dec_from_despace conc_def)
qed

lemma pton_null: "f_b64_pton z None targsize =
    conc_result [] (dec_from (despace z) \<lparr>phase = 0, idx = 0, out = None\<rparr>)"
proof -
  let ?a = "\<lparr>phase = 0, idx = 0, out = None\<rparr>"
  have "pton_loop targsize z s = pton_loop 0 z s" if "target s = None" for s
    using that
  proof (induction z arbitrary: s)
    case (Cons c z)
    have "pton_step targsize s v = pton_step 0 s v" "\<And>s'. pton_step 0 s v = Inr s' \<Longrightarrow> target s' = None" for v
      using Cons.prems by (auto simp: pton_step_def Let_def split: if_splits)
    then show ?case
      using Cons.IH [OF Cons.prems] Cons.IH
      by (cases "b64_index c"; cases "pton_step 0 s (the (b64_index c))") auto
  qed simp
  then have "f_b64_pton z None targsize = pton_from 0 z (conc [] ?a)"
    by (simp add: f_b64_pton_def pton_from_def conc_def)
  then show ?thesis using pton_from_refines [of 0 ?a] by (simp add: dec_ok_def dec_from_despace)
qed

text \<open>Of whatever size the target is, every access is inside of it.\<close>

definition pton_inv :: "nat \<Rightarrow> b64_state \<Rightarrow> bool" where
  "pton_inv n s \<longleftrightarrow> (\<forall>t. target s = Some t \<longrightarrow> n \<le> length t \<and> (state s \<noteq> 0 \<longrightarrow> unat (tarindex s) < n))"

lemma pton_step_inv:
  assumes "pton_inv n s"
  shows "case pton_step n s v of Inl e \<Rightarrow> e = Rejected | Inr s' \<Rightarrow> pton_inv n s'"
  using assms
  by (cases "target s") (auto simp: pton_inv_def pton_step_def Let_def b64_or_def b64_load_def b64_store_def)

lemma pton_loop_inv:
  "pton_inv n s \<Longrightarrow> case pton_loop n src s of Inl e \<Rightarrow> e = Rejected | Inr (_, _, s') \<Rightarrow> pton_inv n s'"
proof (induction src arbitrary: s)
  case (Cons c src)
  then show ?case
    using pton_step_inv [OF Cons.prems, of "the (b64_index c)"]
    by (cases "b64_index c"; cases "pton_step n s (the (b64_index c))") auto
qed simp

lemma pton_tail_inside: "pton_inv n s \<Longrightarrow> state s \<noteq> 0 \<Longrightarrow> pton_tail src s \<noteq> Inl Overrun"
  by (cases "target s") (auto simp: pton_tail_def pton_inv_def b64_load_def)

lemma pton_inside: "targsize \<le> length buf \<Longrightarrow> f_b64_pton z (Some buf) targsize \<noteq> Inl Overrun"
  using pton_loop_inv [of targsize "\<lparr>state = 0, tarindex = 0, target = Some buf\<rparr>" z]
  by (cases "pton_loop targsize z \<lparr>state = 0, tarindex = 0, target = Some buf\<rparr>")
    (auto simp: f_b64_pton_def pton_from_def Let_def pton_inv_def [of _ "\<lparr>state = 0, tarindex = 0, target = Some buf\<rparr>"]
      pton_tail_inside split: if_splits)

section \<open>Properties\<close>

text \<open>
  \<open>f_b64_ntop\<close> succeeds exactly when \<open>targsize\<close> has room for four characters per group of three bytes and
  the terminator; it then writes the encoding of RFC 1521 and the terminator and nothing else.
\<close>

theorem ntop_encodes:
  assumes "targsize \<le> length tgt"
  shows "f_b64_ntop src tgt targsize =
     (let n = 4 * ((length src + 2) div 3)
      in if n < targsize then Inr (sint (of_nat n :: u32), b64_encode src @ 0 # drop (n + 1) tgt) else Inl Rejected)"
  using assms by (simp add: f_b64_ntop_def ntop_loop_encode length_b64_encode Let_def)

lemma sint_size: "n < 2 ^ 31 \<Longrightarrow> sint (of_nat n :: u32) = int n"
  by (simp add: signed_of_nat signed_take_bit_int_eq_self)

text \<open>
  C26: \<open>f_b64_ntop\<close>, given a target with room for four characters per group of three bytes and the
  terminator, returns; its text, with white space inserted anywhere, is decoded by \<open>f_b64_pton\<close> to the
  original bytes and their number, if \<open>targsize\<close> has one byte to spare when that number is not a multiple
  of three; bytes of the buffer from \<open>targsize\<close> on are unchanged.  With a null target only the number is
  returned.  Sizes are below \<open>2 ^ 31\<close>, the range of the \<open>int\<close> that is returned.
\<close>

theorem base64_roundtrip:
  assumes "4 * ((length bs + 2) div 3) < outsize" "outsize \<le> length outbuf" "outsize < 2 ^ 31"
    and "length bs + (if length bs mod 3 = 0 then 0 else 1) \<le> targsize" "targsize \<le> length buf" "targsize < 2 ^ 31"
  shows "\<exists>len text. f_b64_ntop bs outbuf outsize = Inr (len, text) \<and>
    (\<forall>z. filter (\<lambda>c. \<not> isspace c) z = take (nat len) text \<longrightarrow>
      (\<exists>t. f_b64_pton z (Some buf) targsize = Inr (int (length bs), Some t) \<and>
        take (length bs) t = bs \<and> length t = length buf \<and> drop targsize t = drop targsize buf) \<and>
      f_b64_pton z None targsize = Inr (int (length bs), None))"
proof -
  let ?n = "4 * ((length bs + 2) div 3)"
  have n: "nat (sint (of_nat ?n :: u32)) = ?n" "sint (of_nat (length bs) :: u32) = int (length bs)"
    using assms(1,3,4,6) sint_size [of ?n] sint_size [of "length bs"] by simp_all
  have e: "f_b64_ntop bs outbuf outsize = Inr (sint (of_nat ?n :: u32), b64_encode bs @ 0 # drop (?n + 1) outbuf)"
    unfolding ntop_encodes [OF assms(2)] using assms(1) by (simp only: Let_def if_True)
  have "0 + b64_room (length bs) \<le> length (take targsize buf)"
    using assms(4,5) by (simp add: b64_room_def split: if_splits)
  from dec_from_encode [OF this] obtain t where
    t: "dec_from (b64_encode bs) (at_group 0 (take targsize buf)) = Some (length bs, Some t)"
      "length t = targsize" "take (length bs) t = bs" using assms(5) by auto
  have "length bs \<le> length t" using assms(4) t(2) by simp
  then have "f_b64_pton z (Some buf) targsize = Inr (int (length bs), Some (t @ drop targsize buf)) \<and>
      f_b64_pton z None targsize = Inr (int (length bs), None)" if "despace z = b64_encode bs" for z
    using t(1) dec_null_encode [of bs 0] n(2)
    by (simp add: pton_target [OF assms(5,6)] pton_null that conc_result_def)
  moreover have "take (length bs) (t @ drop targsize buf) = bs" "length (t @ drop targsize buf) = length buf"
      "drop targsize (t @ drop targsize buf) = drop targsize buf"
    using t(2,3) assms(4,5) by simp_all
  moreover have "take (nat (sint (of_nat ?n :: u32))) (b64_encode bs @ 0 # drop (?n + 1) outbuf) = b64_encode bs"
    unfolding n(1) using length_b64_encode [of bs] by simp
  ultimately show ?thesis using e by metis
qed

theorem base64_roundtrip_witness:
  "f_b64_ntop [1, 2] [0, 0, 0, 0, 0] 5 = Inr (4, [65, 81, 73, 61, 0]) \<and>
   (\<exists>t. f_b64_pton [65, 10, 81, 73, 61] (Some [9, 9, 9, 8]) 3 = Inr (2, Some t) \<and> take 2 t = [1, 2] \<and> drop 3 t = [8]) \<and>
   f_b64_pton [65, 10, 81, 73, 61] None 3 = Inr (2, None)"
proof -
  have "f_b64_ntop [1, 2] [0, 0, 0, 0, 0] 5 = Inr (4, [65, 81, 73, 61, 0])" by code_simp
  moreover have "filter (\<lambda>c. \<not> isspace c) [65, 10, 81, 73, 61] = take (nat 4) [65, 81, 73, 61, 0]"
    by (simp add: isspace_def)
  moreover have "\<exists>len text. f_b64_ntop [1, 2] [0, 0, 0, 0, 0] 5 = Inr (len, text) \<and>
    (\<forall>z. filter (\<lambda>c. \<not> isspace c) z = take (nat len) text \<longrightarrow>
      (\<exists>t. f_b64_pton z (Some [9, 9, 9, 8]) 3 = Inr (2, Some t) \<and>
        take 2 t = [1, 2] \<and> length t = 4 \<and> drop 3 t = [8]) \<and>
      f_b64_pton z None 3 = Inr (2, None))"
    using base64_roundtrip [of "[1, 2]" 5 "[0, 0, 0, 0, 0]" 3 "[9, 9, 9, 8]"]
    by (simp add: numeral_2_eq_2 [symmetric])
  ultimately show ?thesis by (metis Inr_inject prod.inject)
qed

text \<open>
  C27: \<open>f_b64_pton\<close> with a target never reads or writes outside of it, whatever the input and the size
  (the guards hold up when \<open>tarindex\<close> wraps, too); and for sizes below \<open>2 ^ 31\<close> it accepts nothing but
  encodings: when it succeeds, its input without white space is the encoding of the bytes it stored, so
  misplaced padding, foreign characters and non-zero left-over bits are all rejected, and bytes of the
  buffer from \<open>targsize\<close> on are unchanged.
\<close>

theorem base64_decodes_only_encodings:
  assumes "targsize \<le> length buf"
  shows "f_b64_pton z (Some buf) targsize \<noteq> Inl Overrun \<and>
    (\<forall>n r. targsize < 2 ^ 31 \<and> f_b64_pton z (Some buf) targsize = Inr (n, r) \<longrightarrow>
      (\<exists>t. r = Some t \<and> filter (\<lambda>c. \<not> isspace c) z = b64_encode (take (nat n) t) \<and> 0 \<le> n \<and> n \<le> int targsize \<and>
        length t = length buf \<and> drop targsize t = drop targsize buf))"
proof -
  have "\<exists>t. r = Some t \<and> despace z = b64_encode (take (nat n) t) \<and> 0 \<le> n \<and> n \<le> int targsize \<and>
        length t = length buf \<and> drop targsize t = drop targsize buf"
    if size: "targsize < 2 ^ 31" and res: "f_b64_pton z (Some buf) targsize = Inr (n, r)" for n r
  proof -
    obtain i t' where d: "dec_from (despace z) (at_group 0 (take targsize buf)) = Some (i, t')"
        "n = sint (of_nat i :: u32)" "r = map_option (\<lambda>t. t @ drop targsize buf) t'"
      using res unfolding pton_target [OF assms size] conc_result_def by (auto split: option.splits)
    have "b64_accepts (despace z) 0 (take targsize buf) (i, t')"
      by (rule dec_from_canonical [OF _ d(1)]) (simp_all add: list_all_iff)
    then obtain t bs where t: "i = length bs" "t' = Some t" "length t = targsize" "despace z = b64_encode bs"
        "length bs \<le> targsize" "take (length bs) t = bs"
      using assms by (auto simp: b64_accepts_def)
    have "n = int (length bs)" using d(2) t(1,5) size sint_size [of "length bs"] by simp
    then show ?thesis using t d(3) assms by (intro exI [of _ "t @ drop targsize buf"]) simp
  qed
  then show ?thesis using pton_inside [OF assms] by blast
qed

theorem base64_decodes_only_encodings_witness:
  "f_b64_pton [65, 32, 81, 61, 61] (Some [7, 7, 7]) 2 = Inr (1, Some [1, 0, 7]) \<and>
   filter (\<lambda>c. \<not> isspace c) [65, 32, 81, 61, 61] = b64_encode (take 1 [1, 0, 7])"
proof -
  have r: "f_b64_pton [65, 32, 81, 61, 61] (Some [7, 7, 7]) 2 = Inr (1, Some [1, 0, 7])" by code_simp
  have "(2 :: nat) \<le> length [7, 7, 7 :: u8]" by simp
  from base64_decodes_only_encodings [OF this, of "[65, 32, 81, 61, 61]"] r show ?thesis by simp
qed

end
