(* ===== verification/Sq_Utf.thy ===== *)
theory Sq_Utf
  imports Sq_Prelude
begin

text \<open>
  Text encodings, of utf.c: the macros \<open>WRITE_UTF8\<close>, \<open>WRITE_UTF16LE\<close>, \<open>WRITE_UTF16BE\<close>
  and \<open>READ_UTF8\<close>, \<open>sqlite3AppendOneUtf8Character\<close>, \<open>sqlite3Utf8Read\<close>,
  \<open>sqlite3Utf8ReadLimited\<close>, \<open>sqlite3Utf8CharLen\<close>, \<open>sqlite3Utf16ByteLen\<close>, and the
  conversions of \<open>sqlite3VdbeMemTranslate\<close> and \<open>sqlite3VdbeMemHandleBom\<close>.  Input is the list
  of bytes up to the end of the text; a read returns the character and the bytes after it.
\<close>

section \<open>Single characters\<close>

definition sqlite3Utf8Trans1 :: "u8 list" where
  "sqlite3Utf8Trans1 = [
     0x00, 0x01, 0x02, 0x03, 0x04, 0x05, 0x06, 0x07,
     0x08, 0x09, 0x0a, 0x0b, 0x0c, 0x0d, 0x0e, 0x0f,
     0x10, 0x11, 0x12, 0x13, 0x14, 0x15, 0x16, 0x17,
     0x18, 0x19, 0x1a, 0x1b, 0x1c, 0x1d, 0x1e, 0x1f,
     0x00, 0x01, 0x02, 0x03, 0x04, 0x05, 0x06, 0x07,
     0x08, 0x09, 0x0a, 0x0b, 0x0c, 0x0d, 0x0e, 0x0f,
     0x00, 0x01, 0x02, 0x03, 0x04, 0x05, 0x06, 0x07,
     0x00, 0x01, 0x02, 0x03, 0x00, 0x01, 0x00, 0x00]"

definition WRITE_UTF8 :: "u32 \<Rightarrow> u8 list" where
  "WRITE_UTF8 c =
     (if c < 0x00080 then [ucast (c AND 0xFF)]
      else if c < 0x00800 then
        [0xC0 + ucast (drop_bit 6 c AND 0x1F), 0x80 + ucast (c AND 0x3F)]
      else if c < 0x10000 then
        [0xE0 + ucast (drop_bit 12 c AND 0x0F), 0x80 + ucast (drop_bit 6 c AND 0x3F),
         0x80 + ucast (c AND 0x3F)]
      else
        [0xF0 + ucast (drop_bit 18 c AND 0x07), 0x80 + ucast (drop_bit 12 c AND 0x3F),
         0x80 + ucast (drop_bit 6 c AND 0x3F), 0x80 + ucast (c AND 0x3F)])"

definition WRITE_UTF16LE :: "u32 \<Rightarrow> u8 list" where
  "WRITE_UTF16LE c =
     (if c \<le> 0xFFFF then [ucast (c AND 0x00FF), ucast (drop_bit 8 c AND 0x00FF)]
      else
        [ucast ((drop_bit 10 c AND 0x003F) + (drop_bit 10 (c - 0x10000) AND 0x00C0)),
         ucast (0x00D8 + (drop_bit 18 (c - 0x10000) AND 0x03)),
         ucast (c AND 0x00FF),
         ucast (0x00DC + (drop_bit 8 c AND 0x03))])"

definition WRITE_UTF16BE :: "u32 \<Rightarrow> u8 list" where
  "WRITE_UTF16BE c =
     (if c \<le> 0xFFFF then [ucast (drop_bit 8 c AND 0x00FF), ucast (c AND 0x00FF)]
      else
        [ucast (0x00D8 + (drop_bit 18 (c - 0x10000) AND 0x03)),
         ucast ((drop_bit 10 c AND 0x003F) + (drop_bit 10 (c - 0x10000) AND 0x00C0)),
         ucast (0x00DC + (drop_bit 8 c AND 0x03)),
         ucast (c AND 0x00FF)])"

definition sqlite3AppendOneUtf8Character :: "u32 \<Rightarrow> u8 list" where
  "sqlite3AppendOneUtf8Character v =
     (if v < 0x00080 then [ucast (v AND 0xff)]
      else if v < 0x00800 then
        [0xc0 + ucast (drop_bit 6 v AND 0x1f), 0x80 + ucast (v AND 0x3f)]
      else if v < 0x10000 then
        [0xe0 + ucast (drop_bit 12 v AND 0x0f), 0x80 + ucast (drop_bit 6 v AND 0x3f),
         0x80 + ucast (v AND 0x3f)]
      else
        [0xf0 + ucast (drop_bit 18 v AND 0x07), 0x80 + ucast (drop_bit 12 v AND 0x3f),
         0x80 + ucast (drop_bit 6 v AND 0x3f), 0x80 + ucast (v AND 0x3f)])"

text \<open>\<open>while( zIn<zTerm && (*zIn & 0xc0)==0x80 ) c = (c<<6) + (0x3f & *(zIn++));\<close>\<close>

fun utf8_continue :: "u32 \<Rightarrow> u8 list \<Rightarrow> u32 \<times> u8 list" where
  "utf8_continue c [] = (c, [])"
| "utf8_continue c (b # z) =
     (if b AND 0xc0 = 0x80 then utf8_continue (push_bit 6 c + (0x3f AND ucast b)) z else (c, b # z))"

definition utf8_reject :: "u32 \<Rightarrow> bool" where
  "utf8_reject c \<longleftrightarrow> c < 0x80 \<or> c AND 0xFFFFF800 = 0xD800 \<or> c AND 0xFFFFFFFE = 0xFFFE"

text \<open>
  \<open>READ_UTF8(zIn, zTerm, c)\<close> on the bytes from \<open>zIn\<close> to \<open>zTerm\<close>.
\<close>

fun READ_UTF8 :: "u8 list \<Rightarrow> u32 \<times> u8 list" where
  "READ_UTF8 [] = (0, [])"
| "READ_UTF8 (b # z) =
     (if ucast b \<ge> (0xc0 :: u32) then
        let (c, z) = utf8_continue (ucast (sqlite3Utf8Trans1 ! unat (b - 0xc0))) z
        in (if utf8_reject c then 0xFFFD else c, z)
      else (ucast b, z))"

text \<open>
  \<open>sqlite3Utf8Read\<close> is the same on a NUL-terminated string, whose terminator ends the loop; at
  the terminator itself it returns 0.
\<close>

definition sqlite3Utf8Read :: "cstr \<Rightarrow> u32 \<times> cstr" where
  "sqlite3Utf8Read z = READ_UTF8 z"

text \<open>\<open>sqlite3Utf8ReadLimited(z, n, piOut)\<close> on the \<open>n\<close> bytes of \<open>z\<close>: the count and the
  character, which is not checked.\<close>

definition sqlite3Utf8ReadLimited :: "u8 list \<Rightarrow> nat \<times> u32" where
  "sqlite3Utf8ReadLimited z =
     (let b = hd z in
      if ucast b \<ge> (0xc0 :: u32) then
        let zs = take 3 (tl z);
            (c, rest) = utf8_continue (ucast (sqlite3Utf8Trans1 ! unat (b - 0xc0))) zs
        in (1 + (length zs - length rest), c)
      else (1, ucast b))"

section \<open>Lengths\<close>

text \<open>\<open>SQLITE_SKIP_UTF8\<close>\<close>

fun SQLITE_SKIP_UTF8 :: "cstr \<Rightarrow> cstr" where
  "SQLITE_SKIP_UTF8 [] = []"
| "SQLITE_SKIP_UTF8 (b # z) = (if b \<ge> 0xc0 then dropWhile (\<lambda>b. b AND 0xc0 = 0x80) z else z)"

lemma skip_utf8_length: "z \<noteq> [] \<Longrightarrow> length (SQLITE_SKIP_UTF8 z) < length z"
  by (cases z) (auto simp: le_imp_less_Suc length_dropWhile_le)

text \<open>
  \<open>sqlite3Utf8CharLen\<close> on the rest \<open>z\<close> of a NUL-terminated string, with the \<open>lim\<close> bytes left
  before \<open>zTerm\<close>, or none for a negative \<open>nByte\<close>.  The pointer may step past \<open>zTerm\<close>.
\<close>

function utf8CharLen_from :: "cstr \<Rightarrow> int option \<Rightarrow> nat" where
  "utf8CharLen_from z lim =
     (if z \<noteq> [] \<and> hd z \<noteq> 0 \<and> (case lim of None \<Rightarrow> True | Some k \<Rightarrow> 0 < k) then
        let z' = SQLITE_SKIP_UTF8 z
        in 1 + utf8CharLen_from z' (map_option (\<lambda>k. k - int (length z - length z')) lim)
      else 0)"
  by pat_completeness auto
termination
  by (relation "measure (\<lambda>(z, lim). length z)") (auto simp: skip_utf8_length)

declare utf8CharLen_from.simps [simp del]

definition sqlite3Utf8CharLen :: "cstr \<Rightarrow> int \<Rightarrow> nat" where
  "sqlite3Utf8CharLen z nByte = utf8CharLen_from z (if nByte \<ge> 0 then Some nByte else None)"

text \<open>
  \<open>sqlite3Utf16ByteLen\<close> for a little-endian build: \<open>i\<close> is the offset of the high byte of the
  next code unit, \<open>nByte\<close> the size of \<open>z\<close>, and \<open>k\<close> the number of characters still to skip.
\<close>

fun utf16ByteLen_from :: "u8 list \<Rightarrow> nat \<Rightarrow> nat \<Rightarrow> nat" where
  "utf16ByteLen_from z i 0 = i - 1"
| "utf16ByteLen_from z i (Suc k) =
     (if i < length z then
        let c = z ! i;
            i = i + 2
        in if c \<ge> 0xd8 \<and> c < 0xdc \<and> i < length z \<and> z ! i \<ge> 0xdc \<and> z ! i < 0xe0
           then utf16ByteLen_from z (i + 2) k
           else utf16ByteLen_from z i k
      else i - 1)"

definition sqlite3Utf16ByteLen :: "u8 list \<Rightarrow> nat \<Rightarrow> nat" where
  "sqlite3Utf16ByteLen z nChar = utf16ByteLen_from z 1 nChar"

section \<open>Translation\<close>

text \<open>\<open>while( zIn<zTerm )\<close> with the two macros, for either byte order.\<close>

lemma utf8_continue_length: "length (snd (utf8_continue c z)) \<le> length z"
  by (induction c z rule: utf8_continue.induct) auto

lemma read_utf8_length: "z \<noteq> [] \<Longrightarrow> length (snd (READ_UTF8 z)) < length z"
  using utf8_continue_length by (cases z) (auto simp: Let_def split_def le_imp_less_Suc)

function utf8_to_utf16 :: "(u32 \<Rightarrow> u8 list) \<Rightarrow> u8 list \<Rightarrow> u8 list" where
  "utf8_to_utf16 write zIn =
     (if zIn = [] then []
      else write (fst (READ_UTF8 zIn)) @ utf8_to_utf16 write (snd (READ_UTF8 zIn)))"
  by pat_completeness auto
termination
  by (relation "measure (\<lambda>(write, z). length z)") (auto simp: read_utf8_length)

declare utf8_to_utf16.simps [simp del]

text \<open>The code unit of two bytes, low byte first or high byte first.\<close>

definition unit16le :: "u8 \<Rightarrow> u8 \<Rightarrow> u32" where
  "unit16le b0 b1 = ucast b0 + push_bit 8 (ucast b1)"

definition unit16be :: "u8 \<Rightarrow> u8 \<Rightarrow> u32" where
  "unit16be b0 b1 = push_bit 8 (ucast b0) + ucast b1"

definition surrogate_pair :: "u32 \<Rightarrow> u32 \<Rightarrow> u32" where
  "surrogate_pair c c2 =
     (c2 AND 0x03FF) + push_bit 10 (c AND 0x003F) + push_bit 10 ((c AND 0x03C0) + 0x0040)"

text \<open>
  The UTF-16 reading loops, for the code unit read by \<open>u\<close>; \<open>n\<close> was made even before.  The build
  does not define \<open>SQLITE_REPLACE_INVALID_UTF\<close>.
\<close>

fun utf16_to_utf8 :: "(u8 \<Rightarrow> u8 \<Rightarrow> u32) \<Rightarrow> u8 list \<Rightarrow> u8 list" where
  "utf16_to_utf8 u (b0 # b1 # b2 # b3 # z) =
     (let c = u b0 b1 in
      if c \<ge> 0xd800 \<and> c < 0xe000
      then WRITE_UTF8 (surrogate_pair c (u b2 b3)) @ utf16_to_utf8 u z
      else WRITE_UTF8 c @ utf16_to_utf8 u (b2 # b3 # z))"
| "utf16_to_utf8 u (b0 # b1 # z) = WRITE_UTF8 (u b0 b1)"
| "utf16_to_utf8 u z = []"

fun swap_pairs :: "u8 list \<Rightarrow> u8 list" where
  "swap_pairs (a # b # z) = b # a # swap_pairs z"
| "swap_pairs z = z"

text \<open>
  \<open>sqlite3VdbeMemTranslate\<close> on the text and its encoding.  \<open>mem_ok\<close> says whether the output
  buffer of the given size could be allocated, \<open>None\<close> is \<open>SQLITE_NOMEM\<close>.  The flags and the
  allocation of the \<open>Mem\<close> are not represented.
\<close>

record Mem =
  mem_z :: "u8 list"
  mem_enc :: nat

definition translate_len :: "nat \<Rightarrow> nat \<Rightarrow> nat" where
  "translate_len n desiredEnc =
     (if desiredEnc = SQLITE_UTF8 then 2 * (n - n mod 2) + 1 else 2 * n + 2)"

definition sqlite3VdbeMemTranslate :: "(nat \<Rightarrow> bool) \<Rightarrow> Mem \<Rightarrow> nat \<Rightarrow> Mem option" where
  "sqlite3VdbeMemTranslate mem_ok m desiredEnc =
     (let z = mem_z m; n = length z in
      if mem_enc m \<noteq> SQLITE_UTF8 \<and> desiredEnc \<noteq> SQLITE_UTF8 then
        (if mem_ok n then Some \<lparr>mem_z = swap_pairs z, mem_enc = desiredEnc\<rparr> else None)
      else if \<not> mem_ok (translate_len n desiredEnc) then None
      else Some \<lparr>mem_z =
          (if mem_enc m = SQLITE_UTF8 then
             (if desiredEnc = SQLITE_UTF16LE then utf8_to_utf16 WRITE_UTF16LE z
              else utf8_to_utf16 WRITE_UTF16BE z)
           else
             let z = take (n - n mod 2) z in
             if mem_enc m = SQLITE_UTF16LE then utf16_to_utf8 unit16le z
             else utf16_to_utf8 unit16be z),
          mem_enc = desiredEnc\<rparr>)"

definition sqlite3VdbeMemHandleBom :: "Mem \<Rightarrow> Mem" where
  "sqlite3VdbeMemHandleBom m =
     (let z = mem_z m;
          bom = (if length z > 1 then
                   (if z ! 0 = 0xFE \<and> z ! 1 = 0xFF then SQLITE_UTF16BE
                    else if z ! 0 = 0xFF \<and> z ! 1 = 0xFE then SQLITE_UTF16LE else 0)
                 else 0)
      in if bom \<noteq> 0 then \<lparr>mem_z = drop 2 z, mem_enc = bom\<rparr> else m)"

section \<open>Reading one written character\<close>

lemma utf8Trans1_table:
  "map (\<lambda>k. sqlite3Utf8Trans1 ! k) [0..<56] =
   map of_nat ([0..<32] @ [0..<16] @ [0..<8])"
  by code_simp

lemma utf8Trans1_lead:
  fixes x :: u8
  shows "x < 0x20 \<Longrightarrow> sqlite3Utf8Trans1 ! unat x = x"
    and "x < 0x10 \<Longrightarrow> sqlite3Utf8Trans1 ! (32 + unat x) = x"
    and "x < 0x08 \<Longrightarrow> sqlite3Utf8Trans1 ! (48 + unat x) = x"
  using arg_cong [OF utf8Trans1_table, of "\<lambda>xs. xs ! unat x"]
    arg_cong [OF utf8Trans1_table, of "\<lambda>xs. xs ! (32 + unat x)"]
    arg_cong [OF utf8Trans1_table, of "\<lambda>xs. xs ! (48 + unat x)"]
  by (simp_all add: word_less_nat_alt nth_append del: upt_rec_numeral)

lemma unat_lead:
  fixes x :: u8
  shows "x < 0x20 \<Longrightarrow> unat (0xC0 + x) = 192 + unat x"
    and "x < 0x10 \<Longrightarrow> unat (0xE0 + x) = 224 + unat x"
    and "x < 0x08 \<Longrightarrow> unat (0xF0 + x) = 240 + unat x"
  by (simp_all add: unat_word_ariths word_less_nat_alt)

lemma unat_ucast_u8: "unat (ucast (b :: u8) :: u32) = unat b"
proof -
  have "unat b < 2 ^ 32" using unsigned_less [of b, where 'a = nat] by (rule less_trans) simp
  then show ?thesis by (simp add: unsigned_ucast_eq take_bit_nat_eq_self)
qed

lemma ucast_ge_c0: "ucast (b :: u8) \<ge> (0xc0 :: u32) \<longleftrightarrow> 192 \<le> unat b"
  by (simp add: word_le_nat_alt unat_ucast_u8)

lemma read_lead:
  fixes x :: u8
  defines "finish \<equiv> \<lambda>(c, z). (if utf8_reject c then 0xFFFD else c, z)"
  shows "x < 0x20 \<Longrightarrow> READ_UTF8 ((0xC0 + x) # z) = finish (utf8_continue (ucast x) z)"
    and "x < 0x10 \<Longrightarrow> READ_UTF8 ((0xE0 + x) # z) = finish (utf8_continue (ucast x) z)"
    and "x < 0x08 \<Longrightarrow> READ_UTF8 ((0xF0 + x) # z) = finish (utf8_continue (ucast x) z)"
proof -
  have "0xE0 + x - 0xc0 = 0x20 + x" "0xF0 + x - 0xc0 = 0x30 + x" by simp_all
  moreover have "unat (0x20 + x) = 32 + unat x" if "x < 0x10"
    using that by (simp add: unat_word_ariths word_less_nat_alt)
  moreover have "unat (0x30 + x) = 48 + unat x" if "x < 0x08"
    using that by (simp add: unat_word_ariths word_less_nat_alt)
  ultimately show "x < 0x20 \<Longrightarrow> READ_UTF8 ((0xC0 + x) # z) = finish (utf8_continue (ucast x) z)"
    and "x < 0x10 \<Longrightarrow> READ_UTF8 ((0xE0 + x) # z) = finish (utf8_continue (ucast x) z)"
    and "x < 0x08 \<Longrightarrow> READ_UTF8 ((0xF0 + x) # z) = finish (utf8_continue (ucast x) z)"
    by (simp_all add: finish_def ucast_ge_c0 unat_lead utf8Trans1_lead)
qed

lemma lead_small:
  fixes y :: u32
  shows "ucast (y AND 0x1F) < (0x20 :: u8)" "ucast (y AND 0x0F) < (0x10 :: u8)" "ucast (y AND 0x07) < (0x08 :: u8)"
proof -
  have "drop_bit 5 (ucast (y AND 0x1F) :: u8) = 0" "drop_bit 4 (ucast (y AND 0x0F) :: u8) = 0"
    "drop_bit 3 (ucast (y AND 0x07) :: u8) = 0"
    by (simp_all add: u8_eq_bits bitblast bit_simps)
  then show "ucast (y AND 0x1F) < (0x20 :: u8)" "ucast (y AND 0x0F) < (0x10 :: u8)" "ucast (y AND 0x07) < (0x08 :: u8)"
    by (simp_all only: drop_bit_zero_iff word_less_nat_alt) simp_all
qed

lemma continuation_byte:
  fixes y :: u32
  shows "(0x80 + ucast (y AND 0x3F) :: u8) AND 0xc0 = 0x80"
    "0x3f AND ucast (0x80 + ucast (y AND 0x3F) :: u8) = y AND 0x3F"
proof -
  have b: "(0x80 + ucast (y AND 0x3F) :: u8) = 0x80 OR ucast (y AND 0x3F)"
    by (rule disjunctive_add_eq_or) (simp add: u8_eq_bits bitblast bit_simps)
  show "(0x80 + ucast (y AND 0x3F) :: u8) AND 0xc0 = 0x80"
    unfolding b by (simp add: u8_eq_bits bitblast bit_simps)
  show "0x3f AND ucast (0x80 + ucast (y AND 0x3F) :: u8) = y AND 0x3F"
    unfolding b by (simp add: u32_eq_bits bitblast bit_simps)
qed

lemma utf8_continue_byte:
  "utf8_continue c ((0x80 + ucast (y AND 0x3F)) # z) = utf8_continue (push_bit 6 c + (y AND 0x3F)) z"
  by (simp only: utf8_continue.simps continuation_byte if_True refl)

definition starts_char :: "u8 list \<Rightarrow> bool" where
  "starts_char z \<longleftrightarrow> z = [] \<or> hd z AND 0xc0 \<noteq> 0x80"

lemma utf8_continue_stop: "starts_char z \<Longrightarrow> utf8_continue c z = (c, z)"
  by (cases z) (auto simp: starts_char_def)

lemma shift_sum_or: "push_bit 6 c + (y AND 0x3F) = push_bit 6 c OR (y AND 0x3F :: u32)"
  by (rule disjunctive_add_eq_or) (simp add: u32_eq_bits bitblast bit_simps)

lemma u32_less_bits:
  fixes c :: u32
  shows "c < 0x80 \<longleftrightarrow> drop_bit 7 c = 0" "c < 0x800 \<longleftrightarrow> drop_bit 11 c = 0" "c < 0x10000 \<longleftrightarrow> drop_bit 16 c = 0"
   "c < 0x200000 \<longleftrightarrow> drop_bit 21 c = 0"
  by (simp_all add: drop_bit_zero_iff word_less_nat_alt)

lemma utf8_reassemble:
  fixes c :: u32
  shows "c < 0x800 \<Longrightarrow> push_bit 6 (ucast (ucast (drop_bit 6 c AND 0x1F) :: u8)) + (c AND 0x3F) = c"
    and "c < 0x10000 \<Longrightarrow> push_bit 6 (push_bit 6 (ucast (ucast (drop_bit 12 c AND 0x0F) :: u8)) +
      (drop_bit 6 c AND 0x3F)) + (c AND 0x3F) = c"
    and "c < 0x200000 \<Longrightarrow> push_bit 6 (push_bit 6 (push_bit 6 (ucast (ucast (drop_bit 18 c AND 0x07) :: u8)) +
      (drop_bit 12 c AND 0x3F)) + (drop_bit 6 c AND 0x3F)) + (c AND 0x3F) = c"
  unfolding shift_sum_or u32_less_bits by (simp_all add: u32_eq_bits bitblast bit_simps)

lemma read_write_utf8:
  assumes "c < 0x200000" and "starts_char z"
  shows "READ_UTF8 (WRITE_UTF8 c @ z) = (if 0x80 \<le> c \<and> utf8_reject c then 0xFFFD else c, z)"
proof -
  consider "c < 0x80" | "\<not> c < 0x80" "c < 0x800" | "\<not> c < 0x80" "\<not> c < 0x800" "c < 0x10000"
    | "\<not> c < 0x80" "\<not> c < 0x800" "\<not> c < 0x10000" by blast
  then show ?thesis
  proof cases
    case 1
    then have "ucast (ucast (c AND 0xFF) :: u8) = c"
      unfolding u32_less_bits by (simp add: u32_eq_bits bitblast bit_simps)
    moreover have "\<not> 0xc0 \<le> c" "\<not> 0x80 \<le> c" using 1 by (simp_all add: word_le_nat_alt word_less_nat_alt)
    ultimately show ?thesis using 1 by (simp add: WRITE_UTF8_def)
  next
    case 2
    then have f: "(c < 0x80) = False" "0x80 \<le> c" by (simp_all add: not_less)
    from 2 show ?thesis
      using assms(2) by (simp add: WRITE_UTF8_def read_lead(1) [OF lead_small(1)] utf8_continue_byte
        utf8_continue_stop utf8_reassemble f del: READ_UTF8.simps utf8_continue.simps)
  next
    case 3
    then have f: "(c < 0x80) = False" "(c < 0x800) = False" "0x80 \<le> c" by (simp_all add: not_less)
    from 3 show ?thesis
      using assms(2) by (simp add: WRITE_UTF8_def read_lead(2) [OF lead_small(2)] utf8_continue_byte
        utf8_continue_stop utf8_reassemble f del: READ_UTF8.simps utf8_continue.simps)
  next
    case 4
    then have f: "(c < 0x80) = False" "(c < 0x800) = False" "(c < 0x10000) = False" "0x80 \<le> c" by (simp_all add: not_less)
    from 4 show ?thesis
      using assms by (simp add: WRITE_UTF8_def read_lead(3) [OF lead_small(3)] utf8_continue_byte
        utf8_continue_stop utf8_reassemble f del: READ_UTF8.simps utf8_continue.simps)
  qed
qed


section \<open>UTF-16 code units\<close>

lemma unit16_or: "unit16le b0 b1 = ucast b0 OR push_bit 8 (ucast b1)" "unit16be b0 b1 = unit16le b1 b0"
  unfolding unit16le_def unit16be_def add.commute [of "push_bit 8 _"]
  by (rule disjunctive_add_eq_or; simp add: u32_eq_bits bitblast bit_simps) (rule refl)

lemma unit16_bmp:
  "c \<le> 0xFFFF \<Longrightarrow> unit16le (ucast (c AND 0xFF)) (ucast (drop_bit 8 c AND 0xFF)) = c"
proof -
  assume "c \<le> 0xFFFF"
  then have "drop_bit 16 c = 0" by (simp add: drop_bit_zero_iff word_le_nat_alt)
  then show ?thesis unfolding unit16_or by (simp add: u32_eq_bits bitblast bit_simps)
qed

lemma low_bits_shifted:
  fixes d :: u32
  assumes "n < 16"
  shows "bit (d + 0x10000) n = bit d n"
proof -
  have "d = take_bit 16 d + push_bit 16 (drop_bit 16 d)"
    using bits_ident [of 16 d] by (simp add: add.commute)
  then have "d + 0x10000 = take_bit 16 d + push_bit 16 (drop_bit 16 d + 1)"
    by (simp add: push_bit_add add.assoc)
  also have "\<dots> = take_bit 16 d OR push_bit 16 (drop_bit 16 d + 1)"
    by (rule disjunctive_add) (auto simp: bit_simps)
  finally show ?thesis using assms by (simp add: bit_simps)
qed

lemma low_bits_shifted_masks:
  fixes d :: u32
  shows "drop_bit 10 (d + 0x10000) AND 0x3F = drop_bit 10 d AND 0x3F"
    "(d + 0x10000) AND 0xFF = d AND 0xFF" "drop_bit 8 (d + 0x10000) AND 3 = drop_bit 8 d AND 3"
  by (simp_all add: u32_eq_bits bitblast bit_simps low_bits_shifted)

lemma surrogate_halves:
  fixes d :: u32
  assumes "d < 0x100000"
  defines "c \<equiv> d + 0x10000"
  defines "b0 \<equiv> ucast ((drop_bit 10 c AND 0x003F) + (drop_bit 10 (c - 0x10000) AND 0x00C0)) :: u8"
    and "b1 \<equiv> ucast (0x00D8 + (drop_bit 18 (c - 0x10000) AND 0x03)) :: u8"
    and "b2 \<equiv> ucast (c AND 0x00FF) :: u8" and "b3 \<equiv> ucast (0x00DC + (drop_bit 8 c AND 0x03)) :: u8"
  shows "unit16le b0 b1 AND 0xFC00 = 0xD800" "unit16le b2 b3 AND 0xFC00 = 0xDC00"
    "surrogate_pair (unit16le b0 b1) (unit16le b2 b3) = c"
proof -
  have d: "drop_bit 20 d = 0" using assms(1) by (simp add: drop_bit_zero_iff word_less_nat_alt)
  have o: "(drop_bit 10 d AND 0x3F) + (drop_bit 10 d AND 0xC0) = (drop_bit 10 d AND 0x3F) OR (drop_bit 10 d AND 0xC0)"
    "0xD8 + (drop_bit 18 d AND 3) = 0xD8 OR (drop_bit 18 d AND 3)"
    "0xDC + (drop_bit 8 d AND 3) = 0xDC OR (drop_bit 8 d AND 3)"
    by (rule disjunctive_add_eq_or; simp add: u32_eq_bits bitblast bit_simps)+
  have b0: "b0 = ucast ((drop_bit 10 d AND 0x003F) OR (drop_bit 10 d AND 0x00C0))"
    and b1: "b1 = ucast (0xD8 OR (drop_bit 18 d AND 3))" and b2: "b2 = ucast (d AND 0xFF)"
    and b3: "b3 = ucast (0xDC OR (drop_bit 8 d AND 3))"
    unfolding b0_def b1_def b2_def b3_def c_def low_bits_shifted_masks add_diff_cancel_right' o by (rule refl)+
  show "unit16le b0 b1 AND 0xFC00 = 0xD800" unfolding unit16_or b0 b1
    by (simp add: u32_eq_bits bitblast bit_simps)
  show "unit16le b2 b3 AND 0xFC00 = 0xDC00" unfolding unit16_or b2 b3
    by (simp add: u32_eq_bits bitblast bit_simps)
  have hi: "(unit16le b0 b1 AND 0x03C0) = drop_bit 10 d AND 0x03C0"
    using d unfolding unit16_or b0 b1
    by (simp add: u32_eq_bits bitblast bit_simps)
  have lo: "(unit16le b2 b3 AND 0x03FF) + push_bit 10 (unit16le b0 b1 AND 0x003F) = d AND 0xFFFF"
    unfolding unit16_or b0 b1 b2 b3
    by (subst disjunctive_add_eq_or) (simp_all add: u32_eq_bits bitblast bit_simps)
  have "surrogate_pair (unit16le b0 b1) (unit16le b2 b3) =
     (d AND 0xFFFF) + push_bit 10 (drop_bit 10 d AND 0x03C0) + 0x10000"
    using lo hi by (simp add: surrogate_pair_def push_bit_add)
  also have "(d AND 0xFFFF) + push_bit 10 (drop_bit 10 d AND 0x03C0) = d"
    using d by (subst disjunctive_add_eq_or) (simp_all add: u32_eq_bits bitblast bit_simps)
  finally show "surrogate_pair (unit16le b0 b1) (unit16le b2 b3) = c" by (simp add: c_def)
qed


section \<open>Texts\<close>

text \<open>The characters the decoders accept: code points other than surrogates, U+FFFE and U+FFFF.\<close>

definition utf_char :: "u32 \<Rightarrow> bool" where
  "utf_char c \<longleftrightarrow> c < 0x110000 \<and> \<not> (0x80 \<le> c \<and> utf8_reject c)"

definition utf8_text :: "u32 list \<Rightarrow> u8 list" where
  "utf8_text cs = concat (map WRITE_UTF8 cs)"

lemma utf8_text_simps [simp]: "utf8_text [] = []" "utf8_text (c # cs) = WRITE_UTF8 c @ utf8_text cs"
  by (simp_all add: utf8_text_def)

lemma write_utf8_nonempty [simp]: "WRITE_UTF8 c \<noteq> []" "0 < length (WRITE_UTF8 c)"
  by (simp_all add: WRITE_UTF8_def)

lemma length_write_utf8: "length (WRITE_UTF8 c) \<le> 4"
  by (simp add: WRITE_UTF8_def)

lemma lead_not_continuation:
  fixes x :: u8
  shows "x < 0x20 \<Longrightarrow> (0xC0 + x) AND 0xc0 \<noteq> 0x80"
    and "x < 0x10 \<Longrightarrow> (0xE0 + x) AND 0xc0 \<noteq> 0x80"
    and "x < 0x08 \<Longrightarrow> (0xF0 + x) AND 0xc0 \<noteq> 0x80"
proof -
  have u: "192 \<le> unat b \<Longrightarrow> b AND 0xc0 \<noteq> 0x80" for b :: u8
  proof
    assume "192 \<le> unat b" and a: "b AND 0xc0 = 0x80"
    then have "bit b 7" "\<not> bit b 6" by (auto simp: u8_eq_bits bitblast bit_simps)
    then have "drop_bit 6 b = 2" by (simp add: u8_eq_bits bitblast bit_simps)
    then have "unat (drop_bit 6 b) = 2" by simp
    with \<open>192 \<le> unat b\<close> show False by (simp add: unat_drop_bit_eq drop_bit_nat_def)
  qed
  show "x < 0x20 \<Longrightarrow> (0xC0 + x) AND 0xc0 \<noteq> 0x80" "x < 0x10 \<Longrightarrow> (0xE0 + x) AND 0xc0 \<noteq> 0x80"
    "x < 0x08 \<Longrightarrow> (0xF0 + x) AND 0xc0 \<noteq> 0x80"
    by (rule u; simp add: unat_lead)+
qed

lemma starts_char_write: "starts_char (WRITE_UTF8 c @ z)"
proof -
  have "ucast (c AND 0xFF) AND 0xc0 \<noteq> (0x80 :: u8)" if "c < 0x80"
    using that unfolding u32_less_bits by (simp add: u32_eq_bits u8_eq_bits bitblast bit_simps)
  then show ?thesis
    using lead_not_continuation(1) [OF lead_small(1)] lead_not_continuation(2) [OF lead_small(2)]
      lead_not_continuation(3) [OF lead_small(3)]
    by (simp add: starts_char_def WRITE_UTF8_def)
qed

lemma starts_char_text: "starts_char (utf8_text cs)"
proof (cases cs)
  case Nil
  then show ?thesis by (simp add: starts_char_def)
qed (simp add: starts_char_write)

lemma read_utf8_text:
  assumes "utf_char c" and "starts_char z"
  shows "READ_UTF8 (WRITE_UTF8 c @ z) = (c, z)"
proof -
  have "c < 0x110000" using assms(1) by (simp add: utf_char_def)
  then have "c < 0x200000" by (rule less_trans) simp
  with read_write_utf8 [OF _ assms(2)] assms(1) show ?thesis by (auto simp: utf_char_def)
qed

lemma utf8_to_utf16_text:
  "list_all utf_char cs \<Longrightarrow> utf8_to_utf16 write (utf8_text cs) = concat (map write cs)"
proof (induction cs)
  case Nil
  then show ?case by (simp add: utf8_to_utf16.simps)
next
  case (Cons c cs)
  then show ?case
    by (subst utf8_to_utf16.simps) (simp add: read_utf8_text starts_char_text)
qed

lemma surrogate_range: "0xd800 \<le> c \<and> c < 0xe000 \<longleftrightarrow> c AND 0xFFFFF800 = (0xD800 :: u32)"
proof -
  have div27: "n div 2048 = 27 \<longleftrightarrow> 0xd800 \<le> n \<and> n < 0xe000" for n :: nat
    using less_eq_div_iff_mult_less_eq [of 2048 27 n] div_less_iff_less_mult [of 2048 n 28] by auto
  have "c AND 0xFFFFF800 = 0xD800 \<longleftrightarrow> drop_bit 11 c = 27"
    by (simp add: u32_eq_bits bitblast bit_simps)
  also have "\<dots> \<longleftrightarrow> unat (drop_bit 11 c) = unat (27 :: u32)" by (rule word_unat_eq_iff)
  also have "\<dots> \<longleftrightarrow> unat c div 2048 = 27" by (simp add: unat_drop_bit_eq drop_bit_nat_def)
  also have "\<dots> \<longleftrightarrow> 0xd800 \<le> c \<and> c < 0xe000" using div27 [of "unat c"] by (simp add: word_le_nat_alt word_less_nat_alt)
  finally show ?thesis by blast
qed

lemma utf16_to_utf8_unit:
  "\<not> (0xd800 \<le> u b0 b1 \<and> u b0 b1 < 0xe000) \<Longrightarrow>
   utf16_to_utf8 u (b0 # b1 # z) = WRITE_UTF8 (u b0 b1) @ utf16_to_utf8 u z"
  by (cases z; cases "tl z") (auto simp: Let_def)

lemma utf_char_not_surrogate: "utf_char c \<Longrightarrow> \<not> (0xd800 \<le> c \<and> c < 0xe000)"
proof
  assume c: "utf_char c" and r: "0xd800 \<le> c \<and> c < 0xe000"
  then have "utf8_reject c" unfolding surrogate_range utf8_reject_def by simp
  moreover have "0x80 \<le> c" using r by (simp add: word_le_nat_alt)
  ultimately show False using c by (simp add: utf_char_def)
qed

lemma unit16_high: "unit16le b0 b1 AND 0xFFFF0000 = 0"
  unfolding unit16_or by (simp add: u32_eq_bits bitblast bit_simps)

lemma high_surrogate:
  "unit16le b0 b1 AND 0xFC00 = 0xD800 \<Longrightarrow> 0xd800 \<le> unit16le b0 b1 \<and> unit16le b0 b1 < 0xe000"
  unfolding surrogate_range unit16_or by (simp add: u32_eq_bits bitblast bit_simps)

lemma utf16_to_utf8_char:
  assumes "utf_char c"
  shows "utf16_to_utf8 unit16le (WRITE_UTF16LE c @ z) = WRITE_UTF8 c @ utf16_to_utf8 unit16le z"
proof (cases "c \<le> 0xFFFF")
  case True
  then show ?thesis
    using utf_char_not_surrogate [OF assms] unit16_bmp [OF True]
    by (simp add: WRITE_UTF16LE_def utf16_to_utf8_unit del: utf16_to_utf8.simps)
next
  case False
  define d where "d = c - 0x10000"
  have c: "c = d + 0x10000" by (simp add: d_def)
  have "unat c < 0x110000" "0x10000 \<le> unat c"
    using assms False by (simp_all add: utf_char_def word_less_nat_alt word_le_nat_alt)
  then have "d < 0x100000" by (simp add: d_def word_less_nat_alt unat_sub word_le_nat_alt)
  note s = surrogate_halves [OF this, folded c]
  obtain b0 b1 b2 b3 where w: "WRITE_UTF16LE c = [b0, b1, b2, b3]"
    and u: "unit16le b0 b1 AND 0xFC00 = 0xD800" "surrogate_pair (unit16le b0 b1) (unit16le b2 b3) = c"
    using s False unfolding WRITE_UTF16LE_def if_not_P [OF False] by blast
  show ?thesis using u high_surrogate [OF u(1)] by (simp add: w Let_def)
qed

lemma swap_utf16: "swap_pairs (WRITE_UTF16LE c @ z) = WRITE_UTF16BE c @ swap_pairs z"
  by (simp add: WRITE_UTF16LE_def WRITE_UTF16BE_def)

lemma swap_utf16_text: "swap_pairs (concat (map WRITE_UTF16LE cs)) = concat (map WRITE_UTF16BE cs)"
  by (induction cs) (simp_all add: swap_utf16)

lemma swap_swap: "swap_pairs (swap_pairs z) = z"
  by (induction z rule: swap_pairs.induct) auto

lemma utf16be_swap: "utf16_to_utf8 unit16be (swap_pairs z) = utf16_to_utf8 unit16le z"
  by (induction unit16le z rule: utf16_to_utf8.induct) (auto simp: unit16_or(2) Let_def)

lemma utf16_to_utf8_text:
  "list_all utf_char cs \<Longrightarrow> utf16_to_utf8 unit16le (concat (map WRITE_UTF16LE cs)) = utf8_text cs"
  by (induction cs) (simp_all add: utf16_to_utf8_char)

section \<open>Sizes\<close>

lemma length_write_utf16: "length (WRITE_UTF16LE c) = (if c \<le> 0xFFFF then 2 else 4)"
  "length (WRITE_UTF16BE c) = (if c \<le> 0xFFFF then 2 else 4)"
  by (simp_all add: WRITE_UTF16LE_def WRITE_UTF16BE_def)

lemma utf8Trans1_small: "k < 64 \<Longrightarrow> unat (sqlite3Utf8Trans1 ! k) < 32"
proof -
  have "list_all (\<lambda>b. unat b < 32) sqlite3Utf8Trans1" by code_simp
  moreover have "length sqlite3Utf8Trans1 = 64" by (simp add: sqlite3Utf8Trans1_def)
  ultimately show "k < 64 \<Longrightarrow> unat (sqlite3Utf8Trans1 ! k) < 32" by (simp add: list_all_length)
qed

lemma utf8_continue_same: "length (snd (utf8_continue c z)) = length z \<Longrightarrow> fst (utf8_continue c z) = c"
proof (cases z)
  case (Cons b y)
  then show "length (snd (utf8_continue c z)) = length z \<Longrightarrow> fst (utf8_continue c z) = c"
    using utf8_continue_length [of "push_bit 6 c + (0x3f AND ucast b)" y] by (auto split: if_splits)
qed simp

lemma astral_takes_two:
  assumes "z \<noteq> []" and "\<not> fst (READ_UTF8 z) \<le> 0xFFFF"
  shows "length (snd (READ_UTF8 z)) + 2 \<le> length z"
proof -
  obtain b y where z: "z = b # y" using assms(1) by (cases z) auto
  let ?t = "ucast (sqlite3Utf8Trans1 ! unat (b - 0xc0)) :: u32"
  show ?thesis
  proof (cases "ucast b \<ge> (0xc0 :: u32)")
    case True
    have "length (snd (utf8_continue ?t y)) \<noteq> length y"
    proof
      assume "length (snd (utf8_continue ?t y)) = length y"
      then have "fst (utf8_continue ?t y) = ?t" by (rule utf8_continue_same)
      moreover have "unat (b - 0xc0) < 64"
        using True [unfolded ucast_ge_c0] unsigned_less [of b, where 'a = nat]
        by (simp add: unat_sub word_le_nat_alt)
      then have "utf8_reject ?t"
        using utf8Trans1_small [of "unat (b - 0xc0)"]
        by (simp add: utf8_reject_def word_less_nat_alt unat_ucast_u8)
      ultimately show False using assms(2) True by (simp add: z split_def Let_def)
    qed
    then show ?thesis using True utf8_continue_length [of ?t y] by (simp add: z split_def Let_def)
  next
    case False
    have "(ucast b :: u32) \<le> 0xFFFF"
      using unsigned_less [of b, where 'a = nat] by (simp add: word_le_nat_alt unat_ucast_u8)
    with False assms(2) show ?thesis by (simp add: z)
  qed
qed

lemma length_utf8_to_utf16:
  assumes w: "\<And>c. length (w c) = (if c \<le> (0xFFFF :: u32) then 2 else 4)"
  shows "length (utf8_to_utf16 w z) \<le> 2 * length z"
proof (induction "length z" arbitrary: z rule: less_induct)
  case less
  show ?case
  proof (cases "z = []")
    case False
    have "length (utf8_to_utf16 w (snd (READ_UTF8 z))) \<le> 2 * length (snd (READ_UTF8 z))"
      using less read_utf8_length [OF False] by blast
    moreover have "length (w (fst (READ_UTF8 z))) + 2 * length (snd (READ_UTF8 z)) \<le> 2 * length z"
      using read_utf8_length [OF False] astral_takes_two [OF False] by (auto simp: w)
    ultimately show ?thesis using False by (subst utf8_to_utf16.simps) simp
  qed (simp add: utf8_to_utf16.simps)
qed

lemma length_utf16_to_utf8: "length (utf16_to_utf8 u z) \<le> 2 * length z"
proof (induction u z rule: utf16_to_utf8.induct)
  case (1 u b0 b1 b2 b3 z)
  then show ?case
    using length_write_utf8 [of "surrogate_pair (u b0 b1) (u b2 b3)"] length_write_utf8 [of "u b0 b1"]
    by (auto simp: Let_def)
qed (auto intro: order_trans [OF length_write_utf8])


section \<open>Counting\<close>

lemma skip_continue: "dropWhile (\<lambda>b. b AND 0xc0 = 0x80) z = snd (utf8_continue c z)"
  by (induction c z rule: utf8_continue.induct) auto

lemma skip_is_read: "SQLITE_SKIP_UTF8 z = snd (READ_UTF8 z)"
proof (cases z)
  case (Cons b y)
  have "0xc0 \<le> b \<longleftrightarrow> ucast b \<ge> (0xc0 :: u32)" by (simp add: ucast_ge_c0) (simp add: word_le_nat_alt)
  then show ?thesis
    unfolding Cons SQLITE_SKIP_UTF8.simps READ_UTF8.simps
    by (simp add: skip_continue [symmetric] split_def Let_def)
qed simp

lemma hd_write_utf8: "c \<noteq> 0 \<Longrightarrow> hd (WRITE_UTF8 c) \<noteq> 0"
proof -
  assume c: "c \<noteq> 0"
  have "ucast (c AND 0xFF) \<noteq> (0 :: u8)" if "c < 0x80"
    using that c unfolding u32_less_bits by (simp add: u32_eq_bits u8_eq_bits bitblast bit_simps)
  moreover have "0 < unat b \<Longrightarrow> b \<noteq> 0" for b :: u8 by auto
  then have "0xC0 + ucast (drop_bit 6 c AND 0x1F) \<noteq> (0 :: u8)" "0xE0 + ucast (drop_bit 12 c AND 0x0F) \<noteq> (0 :: u8)"
    "0xF0 + ucast (drop_bit 18 c AND 0x07) \<noteq> (0 :: u8)"
    using unat_lead(1) [OF lead_small(1), of "drop_bit 6 c"] unat_lead(2) [OF lead_small(2), of "drop_bit 12 c"]
      unat_lead(3) [OF lead_small(3), of "drop_bit 18 c"] by force+
  ultimately show ?thesis by (simp add: WRITE_UTF8_def)
qed

lemma utf8CharLen_text:
  "list_all utf_char cs \<Longrightarrow> 0 \<notin> set cs \<Longrightarrow> utf8CharLen_from (utf8_text cs) None = length cs"
proof (induction cs)
  case Nil
  then show ?case by (simp add: utf8CharLen_from.simps)
next
  case (Cons c cs)
  then show ?case
    by (subst utf8CharLen_from.simps) (auto simp: skip_is_read read_utf8_text starts_char_text hd_write_utf8)
qed


lemma utf16_high_bytes:
  assumes "utf_char c"
  shows "\<exists>b0 b1 r. WRITE_UTF16LE c = b0 # b1 # r \<and>
    (if c \<le> 0xFFFF then r = [] \<and> \<not> (0xd8 \<le> b1 \<and> b1 < 0xdc)
     else 0xd8 \<le> b1 \<and> b1 < 0xdc \<and> (\<exists>b2 b3. r = [b2, b3] \<and> 0xdc \<le> b3 \<and> b3 < 0xe0))"
proof (cases "c \<le> 0xFFFF")
  case True
  let ?h = "ucast (drop_bit 8 c AND 0xFF) :: u8"
  have h: "?h = ucast (drop_bit 8 c)" by (simp add: u8_eq_bits bitblast bit_simps)
  have "unat c < 65536" using True by (simp add: word_le_nat_alt)
  then have "unat ?h = unat c div 256"
    unfolding h by (simp add: unsigned_ucast_eq unat_drop_bit_eq drop_bit_nat_def take_bit_nat_eq_self)
  moreover have "\<not> (0xd800 \<le> unat c \<and> unat c < 0xe000)"
    using utf_char_not_surrogate [OF assms] by (simp add: word_le_nat_alt word_less_nat_alt)
  ultimately have "\<not> (0xd8 \<le> ?h \<and> ?h < 0xdc)" by (auto simp: word_le_nat_alt word_less_nat_alt)
  with True show ?thesis by (simp add: WRITE_UTF16LE_def)
next
  case False
  define x where "x y = (ucast (y AND 3) :: u8)" for y :: u32
  have x: "unat (x y) < 4" for y
  proof -
    have "drop_bit 2 (x y) = 0" by (simp add: x_def u8_eq_bits bitblast bit_simps)
    then show ?thesis by (simp add: drop_bit_zero_iff)
  qed
  have e: "0xD8 + (y AND 3) = 0xD8 OR (y AND 3)" "0xDC + (y AND 3) = 0xDC OR (y AND 3)" for y :: u32
    by (rule disjunctive_add_eq_or; simp add: u32_eq_bits bitblast bit_simps)+
  have e8: "0xD8 + x y = 0xD8 OR x y" "0xDC + x y = 0xDC OR x y" for y
    by (rule disjunctive_add_eq_or; simp add: x_def u8_eq_bits bitblast bit_simps)+
  have "ucast (0xD8 + (y AND 3)) = 0xD8 + x y" "ucast (0xDC + (y AND 3)) = 0xDC + x y" for y
    unfolding e e8 by (simp_all add: x_def u8_eq_bits bitblast bit_simps)
  moreover have "unat (0xD8 + x y) = 216 + unat (x y)" "unat (0xDC + x y) = 220 + unat (x y)" for y
    using x [of y] by (simp_all add: unat_word_ariths)
  moreover have "0xd8 \<le> 0xD8 + x y \<and> 0xD8 + x y < 0xdc" "0xdc \<le> 0xDC + x y \<and> 0xDC + x y < 0xe0" for y
    using calculation(3,4) [of y] x [of y] by (simp_all add: word_le_nat_alt word_less_nat_alt)
  ultimately show ?thesis using False by (simp add: WRITE_UTF16LE_def)
qed

lemma utf16ByteLen_text:
  assumes "list_all utf_char cs"
  shows "utf16ByteLen_from (pre @ concat (map WRITE_UTF16LE cs)) (length pre + 1) k =
    length pre + length (concat (map WRITE_UTF16LE (take k cs)))"
  using assms
proof (induction cs arbitrary: pre k)
  case Nil
  then show ?case by (cases k) simp_all
next
  case (Cons c cs)
  show ?case
  proof (cases k)
    case (Suc k')
    let ?w = "WRITE_UTF16LE c" and ?r = "concat (map WRITE_UTF16LE cs)"
    have ih: "utf16ByteLen_from ((pre @ ?w) @ ?r) (length (pre @ ?w) + 1) k' =
      length (pre @ ?w) + length (concat (map WRITE_UTF16LE (take k' cs)))"
      using Cons by (intro Cons.IH) simp
    have "utf16ByteLen_from (pre @ ?w @ ?r) (length pre + 1) (Suc k') =
        utf16ByteLen_from (pre @ ?w @ ?r) (length (pre @ ?w) + 1) k'"
    proof -
      obtain b0 b1 r where w: "?w = b0 # b1 # r" and c: "if c \<le> 0xFFFF then r = [] \<and> \<not> (0xd8 \<le> b1 \<and> b1 < 0xdc)
          else 0xd8 \<le> b1 \<and> b1 < 0xdc \<and> (\<exists>b2 b3. r = [b2, b3] \<and> 0xdc \<le> b3 \<and> b3 < 0xe0)"
        using utf16_high_bytes [of c] Cons.prems by auto
      show ?thesis
        using c by (cases "c \<le> 0xFFFF") (auto simp: w nth_append Let_def)
    qed
    with ih Suc show ?thesis by simp
  qed simp
qed


lemma appendOne_eq: "sqlite3AppendOneUtf8Character = WRITE_UTF8"
  by (rule ext) (simp add: sqlite3AppendOneUtf8Character_def WRITE_UTF8_def)

lemma concat_utf16_even: "even (length (concat (map WRITE_UTF16LE cs)))" "even (length (concat (map WRITE_UTF16BE cs)))"
  by (induction cs) (simp_all add: length_write_utf16)

section \<open>Properties\<close>

text \<open>
  The library's self-test as a theorem: for every code point, reading back the character
  that \<open>sqlite3AppendOneUtf8Character\<close> writes consumes exactly its bytes and returns it, or
  U+FFFD for surrogates and for U+FFFE and U+FFFF.
\<close>

theorem utf8_selftest:
  assumes "c < 0x110000" and "starts_char z"
  shows "sqlite3Utf8Read (sqlite3AppendOneUtf8Character c @ z) =
    (if 0xD800 \<le> c \<and> c < 0xE000 \<or> c AND 0xFFFFFFFE = 0xFFFE then 0xFFFD else c, z)"
proof -
  have "c < 0x200000" using assms(1) by (rule less_trans) simp
  moreover have "0x80 \<le> c \<and> utf8_reject c \<longleftrightarrow> 0xD800 \<le> c \<and> c < 0xE000 \<or> c AND 0xFFFFFFFE = 0xFFFE"
  proof -
    have "\<not> c < 0x80" if "c AND 0xFFFFFFFE = 0xFFFE \<or> 0xD800 \<le> c"
    proof
      assume "c < 0x80"
      then have "c AND 0xFFFFFFFE \<noteq> 0xFFFE" unfolding u32_less_bits by (simp add: u32_eq_bits bitblast bit_simps)
      with that \<open>c < 0x80\<close> show False by (simp add: word_le_nat_alt word_less_nat_alt)
    qed
    then show ?thesis by (auto simp: utf8_reject_def surrogate_range [symmetric] not_less)
  qed
  ultimately show ?thesis
    using read_write_utf8 [OF _ assms(2), of c] by (simp add: sqlite3Utf8Read_def appendOne_eq)
qed

theorem utf8_selftest_witness:
  "sqlite3Utf8Read (sqlite3AppendOneUtf8Character 0x20AC @ [65]) = (0x20AC, [65])"
  using utf8_selftest [of "0x20AC" "[65]"] by (simp add: starts_char_def)

text \<open>
  C24: text made of valid characters keeps them through \<open>sqlite3VdbeMemTranslate\<close>: from UTF-8 to
  either UTF-16 byte order it becomes the UTF-16 text of the same characters, from UTF-16 the
  UTF-8 text, and between the two byte orders the bytes of each unit are exchanged.
\<close>

theorem translate_keeps_characters:
  assumes "list_all utf_char cs" and "\<And>n. mem_ok n"
  shows "sqlite3VdbeMemTranslate mem_ok \<lparr>mem_z = utf8_text cs, mem_enc = SQLITE_UTF8\<rparr> SQLITE_UTF16LE =
      Some \<lparr>mem_z = concat (map WRITE_UTF16LE cs), mem_enc = SQLITE_UTF16LE\<rparr> \<and>
    sqlite3VdbeMemTranslate mem_ok \<lparr>mem_z = utf8_text cs, mem_enc = SQLITE_UTF8\<rparr> SQLITE_UTF16BE =
      Some \<lparr>mem_z = concat (map WRITE_UTF16BE cs), mem_enc = SQLITE_UTF16BE\<rparr> \<and>
    sqlite3VdbeMemTranslate mem_ok \<lparr>mem_z = concat (map WRITE_UTF16LE cs), mem_enc = SQLITE_UTF16LE\<rparr> SQLITE_UTF8 =
      Some \<lparr>mem_z = utf8_text cs, mem_enc = SQLITE_UTF8\<rparr> \<and>
    sqlite3VdbeMemTranslate mem_ok \<lparr>mem_z = concat (map WRITE_UTF16BE cs), mem_enc = SQLITE_UTF16BE\<rparr> SQLITE_UTF8 =
      Some \<lparr>mem_z = utf8_text cs, mem_enc = SQLITE_UTF8\<rparr> \<and>
    sqlite3VdbeMemTranslate mem_ok \<lparr>mem_z = concat (map WRITE_UTF16LE cs), mem_enc = SQLITE_UTF16LE\<rparr> SQLITE_UTF16BE =
      Some \<lparr>mem_z = concat (map WRITE_UTF16BE cs), mem_enc = SQLITE_UTF16BE\<rparr>"
proof -
  have e: "n - n mod 2 = n" if "even n" for n :: nat using that by simp
  note enc = SQLITE_UTF8_def SQLITE_UTF16LE_def SQLITE_UTF16BE_def
  have be: "utf16_to_utf8 unit16be (concat (map WRITE_UTF16BE cs)) = utf8_text cs"
    using utf16be_swap [of "concat (map WRITE_UTF16LE cs)"] utf16_to_utf8_text [OF assms(1)]
    by (simp add: swap_utf16_text)
  show ?thesis
    using assms be
    by (simp only: sqlite3VdbeMemTranslate_def Let_def)
      (simp add: enc utf8_to_utf16_text utf16_to_utf8_text swap_utf16_text e concat_utf16_even
        del: length_concat)
qed

theorem translate_keeps_characters_witness:
  "sqlite3VdbeMemTranslate (\<lambda>n. True) \<lparr>mem_z = utf8_text [0x41, 0x1F377], mem_enc = SQLITE_UTF8\<rparr> SQLITE_UTF16LE =
     Some \<lparr>mem_z = [0x41, 0, 0x3C, 0xD8, 0x77, 0xDF], mem_enc = SQLITE_UTF16LE\<rparr>"
proof -
  have "list_all utf_char [0x41, 0x1F377]"
    by (simp add: utf_char_def utf8_reject_def)
  moreover have "concat (map WRITE_UTF16LE [0x41, 0x1F377]) = [0x41, 0, 0x3C, 0xD8, 0x77, 0xDF]"
    by (simp add: WRITE_UTF16LE_def)
  ultimately show ?thesis using translate_keeps_characters [of "[0x41, 0x1F377]" "\<lambda>n. True"] by simp
qed

text \<open>
  C25: \<open>sqlite3VdbeMemTranslate\<close> never writes past the output buffer it allocates, whatever the
  bytes of the input are, valid text or not: the output and its terminator fit the size computed
  in advance.
\<close>

theorem translate_fits_buffer:
  assumes "sqlite3VdbeMemTranslate mem_ok m desiredEnc = Some m'"
    and "mem_enc m = SQLITE_UTF8 \<or> desiredEnc = SQLITE_UTF8" and "mem_enc m \<noteq> desiredEnc"
  shows "length (mem_z m') + (if desiredEnc = SQLITE_UTF8 then 1 else 2) \<le>
    translate_len (length (mem_z m)) desiredEnc"
proof -
  let ?z = "mem_z m"
  have "length (utf16_to_utf8 u (take (length ?z - length ?z mod 2) ?z)) \<le> 2 * (length ?z - length ?z mod 2)" for u
    using length_utf16_to_utf8 [of u "take (length ?z - length ?z mod 2) ?z"] by simp
  moreover have "length (utf8_to_utf16 WRITE_UTF16LE ?z) \<le> 2 * length ?z"
    "length (utf8_to_utf16 WRITE_UTF16BE ?z) \<le> 2 * length ?z"
    by (rule length_utf8_to_utf16, rule length_write_utf16)+
  ultimately show ?thesis
    using assms by (auto simp: sqlite3VdbeMemTranslate_def translate_len_def Let_def split: if_splits)
qed

theorem translate_fits_buffer_witness:
  "length (mem_z (the (sqlite3VdbeMemTranslate (\<lambda>n. True) \<lparr>mem_z = [0xFF, 0xC1], mem_enc = SQLITE_UTF8\<rparr> SQLITE_UTF16LE))) + 2
   \<le> translate_len 2 SQLITE_UTF16LE"
proof -
  let ?m = "\<lparr>mem_z = [0xFF, 0xC1], mem_enc = SQLITE_UTF8\<rparr>"
  obtain m' where "sqlite3VdbeMemTranslate (\<lambda>n. True) ?m SQLITE_UTF16LE = Some m'"
    by (simp add: sqlite3VdbeMemTranslate_def Let_def)
  with translate_fits_buffer [OF this] show ?thesis
    by (simp add: SQLITE_UTF8_def SQLITE_UTF16LE_def numeral_2_eq_2)
qed

text \<open>
  \<open>sqlite3Utf8CharLen\<close> counts the characters of UTF-8 text without NUL, and \<open>sqlite3Utf16ByteLen\<close> is
  the size of the first characters of little-endian UTF-16 text, where a surrogate pair counts once.
\<close>

theorem utf_lengths:
  assumes "list_all utf_char cs" and "0 \<notin> set cs"
  shows "sqlite3Utf8CharLen (utf8_text cs) (-1) = length cs \<and>
    sqlite3Utf16ByteLen (concat (map WRITE_UTF16LE cs)) k = length (concat (map WRITE_UTF16LE (take k cs)))"
  using utf8CharLen_text [OF assms] utf16ByteLen_text [OF assms(1), of "[]" k]
  by (simp add: sqlite3Utf8CharLen_def sqlite3Utf16ByteLen_def)

theorem utf_lengths_witness:
  "sqlite3Utf8CharLen (utf8_text [0x41, 0x1F377, 0x42]) (-1) = 3"
proof -
  have "list_all utf_char [0x41, 0x1F377, 0x42]"
    by (simp add: utf_char_def utf8_reject_def)
  from utf_lengths [OF this] show ?thesis by simp
qed

end
