(* ===== verification/Sq_Record.thy ===== *)
theory Sq_Record
  imports Sq_Varint
begin

text \<open>
  The record format: the serial types and the deserializer of vdbeaux.c
  (\<open>sqlite3VdbeSerialTypeLen\<close>, \<open>sqlite3VdbeSerialGet\<close>, \<open>serialGet\<close>, \<open>serialGet7\<close>,
  \<open>vdbeRecordDecodeInt\<close>, \<open>sqlite3VdbeRecordUnpack\<close>) and the \<open>OP_MakeRecord\<close> opcode of
  vdbe.c after affinities have been applied.

  A \<open>Mem\<close> is the value its flags and union give it: \<open>MEM_Null\<close>, \<open>MEM_Null|MEM_Zero\<close> (an
  unchanged virtual-table column), \<open>MEM_Int\<close>, \<open>MEM_IntReal\<close>, \<open>MEM_Real\<close> with the 64 bits
  of the double, \<open>MEM_Str\<close>, \<open>MEM_Blob\<close>, and \<open>MEM_Blob|MEM_Zero\<close> with the bytes of \<open>z\<close>
  and the count \<open>u.nZero\<close> of the zero bytes that follow them.
\<close>

datatype mval =
    VNull
  | VNoChange
  | VInt i64
  | VIntReal i64
  | VReal u64
  | VText "u8 list"
  | VBlob "u8 list"
  | VZeroBlob "u8 list" nat

section \<open>Serial types\<close>

definition sqlite3SmallTypeSizes :: "nat list" where
  "sqlite3SmallTypeSizes = [
      0,  1,  2,  3,  4,  6,  8,  8,  0,  0,
      0,  0,  0,  0,  1,  1,  2,  2,  3,  3,
      4,  4,  5,  5,  6,  6,  7,  7,  8,  8,
      9,  9, 10, 10, 11, 11, 12, 12, 13, 13,
     14, 14, 15, 15, 16, 16, 17, 17, 18, 18,
     19, 19, 20, 20, 21, 21, 22, 22, 23, 23,
     24, 24, 25, 25, 26, 26, 27, 27, 28, 28,
     29, 29, 30, 30, 31, 31, 32, 32, 33, 33,
     34, 34, 35, 35, 36, 36, 37, 37, 38, 38,
     39, 39, 40, 40, 41, 41, 42, 42, 43, 43,
     44, 44, 45, 45, 46, 46, 47, 47, 48, 48,
     49, 49, 50, 50, 51, 51, 52, 52, 53, 53,
     54, 54, 55, 55, 56, 56, 57, 57]"

definition sqlite3VdbeSerialTypeLen :: "u32 \<Rightarrow> nat" where
  "sqlite3VdbeSerialTypeLen serial_type =
     (if serial_type \<ge> 128 then unat ((serial_type - 12) div 2)
      else sqlite3SmallTypeSizes ! unat serial_type)"

definition sqlite3VdbeOneByteSerialTypeLen :: "u8 \<Rightarrow> nat" where
  "sqlite3VdbeOneByteSerialTypeLen serial_type = sqlite3SmallTypeSizes ! unat serial_type"

section \<open>Deserializing\<close>

definition ONE_BYTE_INT :: "mem \<Rightarrow> 32 word" where
  "ONE_BYTE_INT x = scast (x 0)"

definition TWO_BYTE_INT :: "mem \<Rightarrow> 32 word" where
  "TWO_BYTE_INT x = 256 * scast (x 0) OR ucast (x 1)"

definition THREE_BYTE_INT :: "mem \<Rightarrow> 32 word" where
  "THREE_BYTE_INT x = 65536 * scast (x 0) OR push_bit 8 (ucast (x 1)) OR ucast (x 2)"

definition FOUR_BYTE_UINT :: "mem \<Rightarrow> u32" where
  "FOUR_BYTE_UINT x = push_bit 24 (ucast (x 0)) OR push_bit 16 (ucast (x 1)) OR
     push_bit 8 (ucast (x 2)) OR ucast (x 3)"

definition FOUR_BYTE_INT :: "mem \<Rightarrow> 32 word" where
  "FOUR_BYTE_INT x = 16777216 * scast (x 0) OR push_bit 16 (ucast (x 1)) OR
     push_bit 8 (ucast (x 2)) OR ucast (x 3)"

definition EXP754 :: u64 where "EXP754 = push_bit 52 0x7ff"
definition MAN754 :: u64 where "MAN754 = push_bit 52 1 - 1"

definition IsNaN :: "u64 \<Rightarrow> bool" where
  "IsNaN x \<longleftrightarrow> x AND EXP754 = EXP754 \<and> x AND MAN754 \<noteq> 0"

definition serialGet :: "mem \<Rightarrow> u32 \<Rightarrow> mval" where
  "serialGet buf serial_type =
     (let x = ucast (FOUR_BYTE_UINT buf) :: u64;
          y = FOUR_BYTE_UINT (\<lambda>i. buf (4 + i));
          x = push_bit 32 x + ucast y
      in if serial_type = 6 then VInt x
         else if IsNaN x then VNull else VReal x)"

definition serialGet7 :: "mem \<Rightarrow> bool \<times> mval" where
  "serialGet7 buf =
     (let x = ucast (FOUR_BYTE_UINT buf) :: u64;
          y = FOUR_BYTE_UINT (\<lambda>i. buf (4 + i));
          x = push_bit 32 x + ucast y
      in if IsNaN x then (True, VNull) else (False, VReal x))"

text \<open>A blob or a string refers to the bytes of \<open>buf\<close>.\<close>

definition sqlite3VdbeSerialGet :: "mem \<Rightarrow> u32 \<Rightarrow> mval" where
  "sqlite3VdbeSerialGet buf serial_type =
     (if serial_type = 10 then VNoChange
      else if serial_type = 11 \<or> serial_type = 0 then VNull
      else if serial_type = 1 then VInt (scast (ONE_BYTE_INT buf))
      else if serial_type = 2 then VInt (scast (TWO_BYTE_INT buf))
      else if serial_type = 3 then VInt (scast (THREE_BYTE_INT buf))
      else if serial_type = 4 then VInt (scast (FOUR_BYTE_INT buf))
      else if serial_type = 5 then
        VInt (ucast (FOUR_BYTE_UINT (\<lambda>i. buf (2 + i))) + push_bit 32 1 * scast (TWO_BYTE_INT buf))
      else if serial_type = 6 \<or> serial_type = 7 then serialGet buf serial_type
      else if serial_type = 8 \<or> serial_type = 9 then VInt (ucast (serial_type - 8))
      else
        let bs = map buf [0..<unat ((serial_type - 12) div 2)]
        in if serial_type AND 1 = 0 then VBlob bs else VText bs)"

definition vdbeRecordDecodeInt :: "u32 \<Rightarrow> mem \<Rightarrow> i64" where
  "vdbeRecordDecodeInt serial_type aKey =
     (if serial_type = 0 \<or> serial_type = 1 then scast (ONE_BYTE_INT aKey)
      else if serial_type = 2 then scast (TWO_BYTE_INT aKey)
      else if serial_type = 3 then scast (THREE_BYTE_INT aKey)
      else if serial_type = 4 then scast (FOUR_BYTE_UINT aKey)
      else if serial_type = 5 then
        ucast (FOUR_BYTE_UINT (\<lambda>i. aKey (2 + i))) + push_bit 32 1 * scast (TWO_BYTE_INT aKey)
      else if serial_type = 6 then
        push_bit 32 (ucast (FOUR_BYTE_UINT aKey)) OR ucast (FOUR_BYTE_UINT (\<lambda>i. aKey (4 + i)))
      else ucast (serial_type - 8))"

text \<open>
  The loop of \<open>sqlite3VdbeRecordUnpack\<close>: \<open>idx\<close> and \<open>d\<close> are 32-bit offsets into the header and
  the data, \<open>nField\<close> the number of cells left; the test for the last cell comes after it is filled, so
  there is always at least one.  The result is the cells filled and the final \<open>d\<close>.
\<close>

fun unpack_loop :: "mem \<Rightarrow> nat \<Rightarrow> nat \<Rightarrow> nat \<Rightarrow> nat \<Rightarrow> nat \<Rightarrow> mval list \<times> nat" where
  "unpack_loop aKey nKey szHdr 0 idx d = ([], d)"
| "unpack_loop aKey nKey szHdr (Suc nField) idx d =
     (if idx < szHdr \<and> d \<le> nKey then
        let (k, serial_type) = getVarint32 (\<lambda>i. aKey (idx + i));
            v = sqlite3VdbeSerialGet (\<lambda>i. aKey (d + i)) serial_type;
            (vs, d) = unpack_loop aKey nKey szHdr nField ((idx + k) mod 2 ^ 32)
              ((d + sqlite3VdbeSerialTypeLen serial_type) mod 2 ^ 32)
        in (v # vs, d)
      else ([], d))"

definition sqlite3VdbeRecordUnpack :: "nat \<Rightarrow> mem \<Rightarrow> nat \<Rightarrow> mval list" where
  "sqlite3VdbeRecordUnpack nKey aKey nField =
     (let (idx, szHdr) = getVarint32 aKey;
          (vs, d) = unpack_loop aKey nKey (unat szHdr) (max 1 nField) idx (unat szHdr)
      in if d > nKey \<and> vs \<noteq> [] then butlast vs @ [VNull] else vs)"

section \<open>Making a record\<close>

text \<open>The C conversion \<open>(double)i\<close>: the nearest double, ties to the even one.\<close>

definition double_of_int :: "i64 \<Rightarrow> u64" where
  "double_of_int i =
     (let m = nat \<bar>sint i\<bar> in
      if m = 0 then 0
      else
        let e = length (filter (\<lambda>k. 2 ^ k \<le> m) [1..<64]);
            q = (if e \<le> 52 then m * 2 ^ (52 - e) else m div 2 ^ (e - 52));
            r = (if e \<le> 52 then 0 else m mod 2 ^ (e - 52));
            half = (if e \<le> 52 then 1 else 2 ^ (e - 53));
            q = (if r > half \<or> r = half \<and> odd q then q + 1 else q)
        in (if i <s 0 then push_bit 63 1 else 0) OR of_nat ((e + 1022) * 2 ^ 52 + q))"

text \<open>
  The first loop of \<open>OP_MakeRecord\<close>, from the last field to the first.  For every field it stores
  the serial type in \<open>uTemp\<close>, expands a zero-blob that is followed by data, and turns a large
  \<open>MEM_IntReal\<close> into a real; \<open>nHdr\<close>, \<open>nData\<close> and \<open>nZero\<close> are accumulated.
  An expansion for which there is no memory sets \<open>mk_nomem\<close> (the jump to \<open>no_mem\<close>).
\<close>

record mkrec =
  mk_fields :: "(u32 \<times> mval) list"
  mk_nHdr :: nat
  mk_nData :: nat
  mk_nZero :: nat
  mk_nomem :: bool

definition mk_int_type :: "nat \<Rightarrow> i64 \<Rightarrow> bool \<Rightarrow> (u32 \<times> mval) \<times> nat" where
  "mk_int_type minFmt i intReal =
     (let uu = (if i <s 0 then NOT i else i);
          v = (if intReal then VIntReal i else VInt i)
      in if uu \<le> 127 then
           (if i AND 1 = i \<and> minFmt \<ge> 4 then ((8 + ucast uu, v), 0) else ((1, v), 1))
         else if uu \<le> 32767 then ((2, v), 2)
         else if uu \<le> 8388607 then ((3, v), 3)
         else if uu \<le> 2147483647 then ((4, v), 4)
         else if uu \<le> 140737488355327 then ((5, v), 6)
         else if intReal then ((7, VReal (double_of_int i)), 8)
         else ((6, v), 8))"

definition mk_bytes_type :: "nat \<Rightarrow> bool \<Rightarrow> u32" where
  "mk_bytes_type len str = of_nat len * 2 + 12 + of_bool str"

fun mk_scan :: "nat \<Rightarrow> (nat \<Rightarrow> bool) \<Rightarrow> mval list \<Rightarrow> mkrec" where
  "mk_scan minFmt mem_ok [] =
     \<lparr>mk_fields = [], mk_nHdr = 0, mk_nData = 0, mk_nZero = 0, mk_nomem = False\<rparr>"
| "mk_scan minFmt mem_ok (v # vs) =
     (let r = mk_scan minFmt mem_ok vs;
          add = (\<lambda>f h d z. \<lparr>mk_fields = f # mk_fields r, mk_nHdr = mk_nHdr r + h,
                  mk_nData = mk_nData r + d, mk_nZero = mk_nZero r + z, mk_nomem = mk_nomem r\<rparr>)
      in case v of
           VNull \<Rightarrow> add (0, v) 1 0 0
         | VNoChange \<Rightarrow> add (10, v) 1 0 0
         | VInt i \<Rightarrow> (let (f, d) = mk_int_type minFmt i False in add f 1 d 0)
         | VIntReal i \<Rightarrow> (let (f, d) = mk_int_type minFmt i True in add f 1 d 0)
         | VReal x \<Rightarrow> add (7, v) 1 8 0
         | VText bs \<Rightarrow>
             (let t = mk_bytes_type (length bs) True
              in add (t, v) (sqlite3VarintLen (ucast t)) (length bs) 0)
         | VBlob bs \<Rightarrow>
             (let t = mk_bytes_type (length bs) False
              in add (t, v) (sqlite3VarintLen (ucast t)) (length bs) 0)
         | VZeroBlob bs nZero \<Rightarrow>
             (let t = mk_bytes_type (length bs) False + of_nat nZero * 2
              in if mk_nData r \<noteq> 0
                 then add (t, VBlob (bs @ replicate nZero 0)) (sqlite3VarintLen (ucast t))
                   (length bs + nZero) 0 \<lparr>mk_nomem := mk_nomem r \<or> \<not> mem_ok (length bs + nZero)\<rparr>
                 else add (t, v) (sqlite3VarintLen (ucast t)) (length bs) nZero))"

definition mk_header_size :: "nat \<Rightarrow> nat" where
  "mk_header_size nHdr =
     (if nHdr \<le> 126 then nHdr + 1
      else
        let nVarint = sqlite3VarintLen (of_nat nHdr);
            nHdr = nHdr + nVarint
        in if nVarint < sqlite3VarintLen (of_nat nHdr) then nHdr + 1 else nHdr)"

text \<open>The bytes of \<open>v\<close>, the low \<open>len\<close> of them, most significant first.\<close>

definition put_int :: "nat \<Rightarrow> u64 \<Rightarrow> u8 list" where
  "put_int len v = map (\<lambda>k. ucast (drop_bit (8 * k) v AND 0xff)) (rev [0..<len])"

definition value_bytes :: "mval \<Rightarrow> u8 list" where
  "value_bytes v = (case v of VText bs \<Rightarrow> bs | VBlob bs \<Rightarrow> bs | VZeroBlob bs _ \<Rightarrow> bs | _ \<Rightarrow> [])"

text \<open>The writing loop: what one field adds to the header and to the payload.\<close>

definition mk_write :: "u32 \<times> mval \<Rightarrow> u8 list \<times> u8 list" where
  "mk_write f =
     (let (serial_type, v) = f in
      if serial_type \<le> 7 then
        ([ucast serial_type],
         if serial_type = 0 then []
         else put_int (sqlite3SmallTypeSizes ! unat serial_type)
                (case v of VInt i \<Rightarrow> i | VIntReal i \<Rightarrow> i | VReal x \<Rightarrow> x | _ \<Rightarrow> 0))
      else if serial_type < 0x80 then
        ([ucast serial_type], if serial_type \<ge> 14 then value_bytes v else [])
      else (sqlite3PutVarint (ucast serial_type), value_bytes v))"

datatype mk_error = TooBig | NoMem | Overrun

text \<open>
  \<open>OP_MakeRecord\<close>: the bytes of the record and the number of zero bytes that follow them.
  \<open>szMalloc\<close> is the space the output register already has, \<open>lim\<close> the limit
  \<open>SQLITE_LIMIT_LENGTH\<close>, \<open>mem_ok\<close> whether the allocator can provide so many bytes; \<open>Overrun\<close> stands for a
  header or a payload that would not have exactly the size reserved for it, which the assertions
  at the end of the opcode exclude.
\<close>

definition MakeRecord ::
    "nat \<Rightarrow> nat \<Rightarrow> nat \<Rightarrow> (nat \<Rightarrow> bool) \<Rightarrow> mval list \<Rightarrow> mk_error + (u8 list \<times> nat)" where
  "MakeRecord minFmt szMalloc lim mem_ok vs =
     (let r = mk_scan minFmt mem_ok vs;
          nHdr = mk_header_size (mk_nHdr r);
          nByte = nHdr + mk_nData r;
          nZero = mk_nZero r
      in if mk_nomem r then Inl NoMem
         else if nByte + nZero > szMalloc \<and> nByte + nZero > lim then Inl TooBig
         else if nByte + nZero > szMalloc \<and> \<not> mem_ok nByte then Inl NoMem
         else
           let zHdr = (if nHdr < 0x80 then [of_nat nHdr] else sqlite3PutVarint (of_nat nHdr)) @
                 concat (map (fst \<circ> mk_write) (mk_fields r));
               zPayload = concat (map (snd \<circ> mk_write) (mk_fields r))
           in if length zHdr \<noteq> nHdr \<or> length zPayload \<noteq> mk_nData r then Inl Overrun
              else Inr (zHdr @ zPayload, nZero))"

section \<open>Integers\<close>

lemma put_int_bytes:
  "put_int 1 v = [ucast v]" "put_int 2 v = [ucast (drop_bit 8 v), ucast v]"
  "put_int 3 v = [ucast (drop_bit 16 v), ucast (drop_bit 8 v), ucast v]"
  "put_int 4 v = [ucast (drop_bit 24 v), ucast (drop_bit 16 v), ucast (drop_bit 8 v), ucast v]"
  "put_int 6 v = [ucast (drop_bit 40 v), ucast (drop_bit 32 v), ucast (drop_bit 24 v),
     ucast (drop_bit 16 v), ucast (drop_bit 8 v), ucast v]"
  "put_int 8 v = [ucast (drop_bit 56 v), ucast (drop_bit 48 v), ucast (drop_bit 40 v), ucast (drop_bit 32 v),
     ucast (drop_bit 24 v), ucast (drop_bit 16 v), ucast (drop_bit 8 v), ucast v]"
proof -
  have m: "ucast (x AND 0xff) = (ucast x :: u8)" for x :: u64
    by (simp add: u8_eq_bits bitblast bit_simps)
  show "put_int 1 v = [ucast v]" "put_int 2 v = [ucast (drop_bit 8 v), ucast v]"
    "put_int 3 v = [ucast (drop_bit 16 v), ucast (drop_bit 8 v), ucast v]"
    "put_int 4 v = [ucast (drop_bit 24 v), ucast (drop_bit 16 v), ucast (drop_bit 8 v), ucast v]"
    "put_int 6 v = [ucast (drop_bit 40 v), ucast (drop_bit 32 v), ucast (drop_bit 24 v),
       ucast (drop_bit 16 v), ucast (drop_bit 8 v), ucast v]"
    "put_int 8 v = [ucast (drop_bit 56 v), ucast (drop_bit 48 v), ucast (drop_bit 40 v), ucast (drop_bit 32 v),
       ucast (drop_bit 24 v), ucast (drop_bit 16 v), ucast (drop_bit 8 v), ucast v]"
    by (simp_all add: put_int_def m upt_rec)
qed

lemma length_put_int [simp]: "length (put_int n v) = n"
  by (simp add: put_int_def)

lemma sless_zero_bit: "(i :: i64) <s 0 \<longleftrightarrow> bit i 63"
  using bit_last_iff [of i] by (simp add: word_sless_alt)

lemma signed_take_bit_fits:
  assumes "unat (if i <s 0 then NOT i else i) < 2 ^ n" and "n < 64"
  shows "signed_take_bit n i = (i :: i64)"
proof (rule bit_word_eqI)
  fix k :: nat
  let ?u = "if i <s 0 then NOT i else i"
  note s = sless_zero_bit [of i]
  have d: "drop_bit n ?u = 0" using assms(1) by (simp only: drop_bit_zero_iff)
  have z: "\<not> bit ?u k" if "n \<le> k" for k
    using arg_cong [OF d, of "\<lambda>x. bit x (k - n)"] that by (simp add: bit_drop_bit_eq)
  have "bit i k = bit i 63" if "n \<le> k" "k < 64" for k
    using z [OF that(1)] that(2) by (auto simp: s bit_not_iff split: if_splits)
  from this [of n] this [of k] assms(2) show "k < LENGTH(64) \<Longrightarrow> bit (signed_take_bit n i) k = bit i k"
    by (auto simp: bit_signed_take_bit_iff min_def)
qed

lemma mult_shifts: "256 * (x :: 32 word) = push_bit 8 x" "65536 * x = push_bit 16 x" "16777216 * x = push_bit 24 x"
  "push_bit 32 1 * (y :: 64 word) = push_bit 32 y"
  by (simp_all add: push_bit_eq_mult)

lemma agree_bytes: "agree (length bs) p (mem_of bs) \<Longrightarrow> k < length bs \<Longrightarrow> p k = bs ! k"
  by (simp add: agree_def mem_of_def)

lemma get_int1:
  assumes "agree (length (put_int 1 i)) p (mem_of (put_int 1 i))"
  shows "scast (ONE_BYTE_INT p) = signed_take_bit 7 i"
proof -
  have "p 0 = ucast i" using agree_bytes [OF assms, of 0] unfolding put_int_bytes by simp
  then show ?thesis unfolding ONE_BYTE_INT_def by (simp add: u64_eq_bits bitblast bit_simps)
qed

lemma get_int2:
  assumes "agree (length (put_int 2 i)) p (mem_of (put_int 2 i))"
  shows "scast (TWO_BYTE_INT p) = signed_take_bit 15 i"
proof -
  have "p 0 = ucast (drop_bit 8 i)" "p 1 = ucast i"
    using agree_bytes [OF assms, of 0] agree_bytes [OF assms, of 1] by (simp_all add: put_int_bytes)
  then show ?thesis
    unfolding TWO_BYTE_INT_def mult_shifts by (simp add: u64_eq_bits bitblast bit_simps)
qed

lemma get_int3:
  assumes "agree (length (put_int 3 i)) p (mem_of (put_int 3 i))"
  shows "scast (THREE_BYTE_INT p) = signed_take_bit 23 i"
proof -
  have "p 0 = ucast (drop_bit 16 i)" "p 1 = ucast (drop_bit 8 i)" "p 2 = ucast i"
    using agree_bytes [OF assms, of 0] agree_bytes [OF assms, of 1] agree_bytes [OF assms, of 2]
    by (simp_all add: put_int_bytes)
  then show ?thesis
    unfolding THREE_BYTE_INT_def mult_shifts by (simp add: u64_eq_bits bitblast bit_simps)
qed

lemma get_int4:
  assumes "agree (length (put_int 4 i)) p (mem_of (put_int 4 i))"
  shows "scast (FOUR_BYTE_INT p) = signed_take_bit 31 i"
proof -
  have "p 0 = ucast (drop_bit 24 i)" "p 1 = ucast (drop_bit 16 i)" "p 2 = ucast (drop_bit 8 i)" "p 3 = ucast i"
    using agree_bytes [OF assms, of 0] agree_bytes [OF assms, of 1] agree_bytes [OF assms, of 2]
      agree_bytes [OF assms, of 3]
    by (simp_all add: put_int_bytes)
  then show ?thesis
    unfolding FOUR_BYTE_INT_def mult_shifts by (simp add: u64_eq_bits bitblast bit_simps)
qed

lemma get_int6:
  assumes "agree (length (put_int 6 i)) p (mem_of (put_int 6 i))"
  shows "ucast (FOUR_BYTE_UINT (\<lambda>k. p (2 + k))) + push_bit 32 1 * scast (TWO_BYTE_INT p) = signed_take_bit 47 i"
proof -
  have p: "p 0 = ucast (drop_bit 40 i)" "p 1 = ucast (drop_bit 32 i)" "p 2 = ucast (drop_bit 24 i)"
    "p 3 = ucast (drop_bit 16 i)" "p 4 = ucast (drop_bit 8 i)" "p 5 = ucast i"
    using agree_bytes [OF assms, of 0] agree_bytes [OF assms, of 1] agree_bytes [OF assms, of 2]
      agree_bytes [OF assms, of 3] agree_bytes [OF assms, of 4] agree_bytes [OF assms, of 5]
    by (simp_all add: put_int_bytes)
  have "ucast (FOUR_BYTE_UINT (\<lambda>k. p (2 + k))) + push_bit 32 1 * scast (TWO_BYTE_INT p) =
      (ucast (FOUR_BYTE_UINT (\<lambda>k. p (2 + k))) OR push_bit 32 (scast (TWO_BYTE_INT p)) :: u64)"
    unfolding mult_shifts by (rule disjunctive_add_eq_or) (simp add: u64_eq_bits bitblast bit_simps)
  also have "\<dots> = signed_take_bit 47 i"
    using p unfolding TWO_BYTE_INT_def FOUR_BYTE_UINT_def mult_shifts
    by (simp add: u64_eq_bits bitblast bit_simps)
  finally show ?thesis .
qed

lemma get_int8:
  assumes "agree (length (put_int 8 i)) p (mem_of (put_int 8 i))"
  shows "push_bit 32 (ucast (FOUR_BYTE_UINT p)) + ucast (FOUR_BYTE_UINT (\<lambda>k. p (4 + k))) = i"
proof -
  have p: "p 0 = ucast (drop_bit 56 i)" "p 1 = ucast (drop_bit 48 i)" "p 2 = ucast (drop_bit 40 i)"
    "p 3 = ucast (drop_bit 32 i)" "p 4 = ucast (drop_bit 24 i)"
    "p 5 = ucast (drop_bit 16 i)" "p 6 = ucast (drop_bit 8 i)" "p 7 = ucast i"
    using agree_bytes [OF assms, of 0] agree_bytes [OF assms, of 1] agree_bytes [OF assms, of 2]
      agree_bytes [OF assms, of 3] agree_bytes [OF assms, of 4] agree_bytes [OF assms, of 5]
      agree_bytes [OF assms, of 6] agree_bytes [OF assms, of 7]
    by (simp_all add: put_int_bytes)
  have "push_bit 32 (ucast (FOUR_BYTE_UINT p)) + ucast (FOUR_BYTE_UINT (\<lambda>k. p (4 + k))) =
      (push_bit 32 (ucast (FOUR_BYTE_UINT p)) OR ucast (FOUR_BYTE_UINT (\<lambda>k. p (4 + k))) :: u64)"
    by (rule disjunctive_add_eq_or) (simp add: u64_eq_bits bitblast bit_simps)
  also have "\<dots> = i"
    using p unfolding FOUR_BYTE_UINT_def by (simp add: u64_eq_bits bitblast bit_simps)
  finally show ?thesis .
qed


section \<open>Integers as doubles\<close>

lemma filter_pow_len:
  fixes m :: nat
  assumes "2 ^ j \<le> m" "m < 2 ^ Suc j" "j < 64"
  shows "length (filter (\<lambda>k. 2 ^ k \<le> m) [1..<64]) = j"
proof -
  have "2 ^ k \<le> m \<longleftrightarrow> k \<le> j" for k
  proof
    assume "2 ^ k \<le> m"
    then have "(2::nat) ^ k < 2 ^ Suc j" using assms(2) by linarith
    then have "k < Suc j" by (rule power_less_imp_less_exp [rotated]) simp
    then show "k \<le> j" by simp
  next
    assume "k \<le> j"
    then have "(2::nat) ^ k \<le> 2 ^ j" by (simp add: power_increasing)
    then show "2 ^ k \<le> m" using assms(1) by linarith
  qed
  moreover have "[1..<64] = [1..<Suc j] @ [Suc j..<64]"
    using assms(3) upt_add_eq_append [of 1 "Suc j" "64 - Suc j"] by (simp del: upt_Suc upt_rec_numeral)
  ultimately show ?thesis
    by (simp del: upt_Suc upt_rec_numeral add: filter_empty_conv)
qed

lemma bit_61_62:
  fixes n :: nat
  assumes "n < 1152 * 2 ^ 52" and "bit n 61"
  shows "\<not> bit n 62"
proof -
  define q where "q = n div 2 ^ 61"
  have "q < 3" using assms(1) by (simp add: less_mult_imp_div_less q_def)
  moreover have "odd q" using assms(2) by (simp add: bit_iff_odd q_def)
  ultimately have "q = 1" by presburger
  moreover have "n div 2 ^ 62 = q div 2" by (simp add: q_def div_mult2_eq [symmetric])
  ultimately show ?thesis by (simp add: bit_iff_odd)
qed

lemma floor_pow: "0 < (m :: nat) \<Longrightarrow> \<exists>j. 2 ^ j \<le> m \<and> m < 2 ^ Suc j"
proof (induction m rule: less_induct)
  case (less m)
  show ?case
  proof (cases "m = 1")
    case True then show ?thesis by (intro exI [of _ 0]) simp
  next
    case False
    then obtain j where "2 ^ j \<le> m div 2 \<and> m div 2 < 2 ^ Suc j" using less.IH [of "m div 2"] less.prems by auto
    then show ?thesis by (intro exI [of _ "Suc j"]) auto
  qed
qed

lemma double_magnitude:
  fixes m :: nat
  assumes "2 ^ j \<le> m" "m < 2 ^ Suc j" "j < 64"
    and "q = (if j \<le> 52 then m * 2 ^ (52 - j) else m div 2 ^ (j - 52))"
  shows "q < 2 ^ 53"
proof (cases "j \<le> 52")
  case True
  have "m * 2 ^ (52 - j) < 2 ^ Suc j * 2 ^ (52 - j)" using assms(2) by simp
  also have "\<dots> = 2 ^ 53" using True by (simp add: power_add [symmetric])
  finally show ?thesis using assms(4) True by simp
next
  case False
  have "2 ^ Suc j = 2 ^ 53 * (2 :: nat) ^ (j - 52)" using False power_add [of "2 :: nat" 53 "j - 52"] by simp
  then show ?thesis using assms(2,4) False by (simp add: less_mult_imp_div_less)
qed

lemma double_of_int_not_nan: "\<not> IsNaN (double_of_int i)"
proof (cases "sint i = 0")
  case True
  then show ?thesis by (simp add: double_of_int_def IsNaN_def EXP754_def)
next
  case False
  define m where "m = nat \<bar>sint i\<bar>"
  have m: "0 < m" using False by (simp add: m_def)
  obtain j where j: "2 ^ j \<le> m" "m < 2 ^ Suc j" using floor_pow [OF m] by blast
  have "m \<le> 2 ^ 63" using sint_range_size [of i] by (simp add: m_def word_size nat_le_iff) linarith
  then have "(2 :: nat) ^ j < 2 ^ 64" using j(1) by (simp add: le_less_trans)
  then have j64: "j < 64" by (rule power_less_imp_less_exp [rotated]) simp
  define q where "q = (if j \<le> 52 then m * 2 ^ (52 - j) else m div 2 ^ (j - 52))"
  note q = double_magnitude [OF j j64 q_def]
  obtain q' where d: "double_of_int i = (if i <s 0 then push_bit 63 1 else 0) OR of_nat ((j + 1022) * 2 ^ 52 + q')"
    and q': "q' \<le> q + 1"
    using m unfolding double_of_int_def m_def [symmetric] Let_def filter_pow_len [OF j j64] q_def [symmetric]
    by (auto split: if_splits)
  define n where "n = (j + 1022) * 2 ^ 52 + q'"
  have "n < 1152 * 2 ^ 52" using q q' j64 by (simp add: n_def)
  note b = bit_61_62 [OF this]
  have "\<not> (bit (double_of_int i) 61 \<and> bit (double_of_int i) 62)"
    using b unfolding d n_def [symmetric] by (auto simp: bit_simps)
  moreover have "bit EXP754 61" "bit EXP754 62" by (simp_all add: EXP754_def bit_simps)
  ultimately show ?thesis unfolding IsNaN_def by (metis bit_and_iff)
qed

section \<open>Fields\<close>

text \<open>What the reader returns for a stored value.\<close>

fun stored :: "mval \<Rightarrow> mval" where
  "stored (VIntReal i) =
     (if (if i <s 0 then NOT i else i) \<le> 140737488355327 then VInt i
      else VReal (double_of_int i))"
| "stored (VReal x) = (if IsNaN x then VNull else VReal x)"
| "stored (VZeroBlob bs n) = VBlob (bs @ replicate n 0)"
| "stored v = v"

fun mval_size :: "mval \<Rightarrow> nat" where
  "mval_size (VText bs) = length bs"
| "mval_size (VBlob bs) = length bs"
| "mval_size (VZeroBlob bs n) = length bs + n"
| "mval_size v = 8"

text \<open>The serial type of a value and the bytes its field takes, zeros included.\<close>

fun field :: "nat \<Rightarrow> mval \<Rightarrow> u32 \<times> u8 list" where
  "field fmt VNull = (0, [])"
| "field fmt VNoChange = (10, [])"
| "field fmt (VInt i) = (let ((t, v), d) = mk_int_type fmt i False in (t, put_int d i))"
| "field fmt (VIntReal i) =
     (let ((t, v), d) = mk_int_type fmt i True
      in (t, put_int d (case v of VReal x \<Rightarrow> x | _ \<Rightarrow> i)))"
| "field fmt (VReal x) = (7, put_int 8 x)"
| "field fmt (VText bs) = (mk_bytes_type (length bs) True, bs)"
| "field fmt (VBlob bs) = (mk_bytes_type (length bs) False, bs)"
| "field fmt (VZeroBlob bs n) = (mk_bytes_type (length bs + n) False, bs @ replicate n 0)"

lemma small_type_sizes:
  "sqlite3SmallTypeSizes ! 1 = 1" "sqlite3SmallTypeSizes ! 2 = 2" "sqlite3SmallTypeSizes ! 3 = 3"
  "sqlite3SmallTypeSizes ! 4 = 4" "sqlite3SmallTypeSizes ! 5 = 6" "sqlite3SmallTypeSizes ! 6 = 8"
  "sqlite3SmallTypeSizes ! 7 = 8" "sqlite3SmallTypeSizes ! 0 = 0" "sqlite3SmallTypeSizes ! 8 = 0"
  "sqlite3SmallTypeSizes ! 9 = 0" "sqlite3SmallTypeSizes ! 10 = 0"
  by (simp_all add: sqlite3SmallTypeSizes_def)

lemma small_type_table:
  "map (\<lambda>k. sqlite3SmallTypeSizes ! k) [12..<128] = map (\<lambda>k. (k - 12) div 2) [12..<128]"
  by code_simp

lemma small_type_bytes: "12 \<le> k \<Longrightarrow> k < 128 \<Longrightarrow> sqlite3SmallTypeSizes ! k = (k - 12) div 2"
  using arg_cong [OF small_type_table, of "\<lambda>xs. xs ! (k - 12)"] by (simp del: upt_rec_numeral)

lemma unat_bytes_type:
  assumes "n \<le> 1000000000"
  shows "unat (mk_bytes_type n b) = 2 * n + 12 + of_bool b"
proof -
  have "mk_bytes_type n b = of_nat (2 * n + 12 + of_bool b)" by (simp add: mk_bytes_type_def)
  then show ?thesis using assms by (simp only: unat_of_nat) simp
qed

lemma serialTypeLen_bytes:
  assumes "n \<le> 1000000000"
  shows "sqlite3VdbeSerialTypeLen (mk_bytes_type n b) = n"
proof -
  let ?t = "mk_bytes_type n b"
  note u = unat_bytes_type [OF assms, of b]
  have "unat (?t - 12) = 2 * n + of_bool b" using u by (simp add: unat_sub word_le_nat_alt)
  then have "unat ((?t - 12) div 2) = n" by (simp add: unat_div)
  with u show ?thesis
    by (simp add: sqlite3VdbeSerialTypeLen_def word_le_nat_alt small_type_bytes)
qed

lemma serialGet_bytes:
  assumes "length bs \<le> 1000000000" and "agree (length bs) p (mem_of bs)"
  shows "sqlite3VdbeSerialGet p (mk_bytes_type (length bs) b) = (if b then VText bs else VBlob bs)"
proof -
  let ?t = "mk_bytes_type (length bs) b"
  note u = unat_bytes_type [OF assms(1), of b]
  have ne: "?t \<noteq> k" if "unat k < 12" for k using u that by auto
  have "unat (?t - 12) = 2 * length bs + of_bool b" using u by (simp add: unat_sub word_le_nat_alt)
  then have "unat ((?t - 12) div 2) = length bs" by (simp add: unat_div)
  moreover have "map p [0..<length bs] = bs"
    using assms(2) by (intro nth_equalityI) (simp_all add: agree_def mem_of_def)
  moreover have "?t AND 1 = 0 \<longleftrightarrow> \<not> b"
  proof -
    have "?t AND 1 = 0 \<longleftrightarrow> even ?t" by (simp add: and_one_eq even_iff_mod_2_eq_zero)
    also have "\<dots> \<longleftrightarrow> even (unat ?t)"
      using bit_unsigned_iff [of ?t 0, where 'a = nat] by (simp add: bit_0)
    finally show ?thesis using u by simp
  qed
  ultimately show ?thesis
    using ne [of 0] ne [of 1] ne [of 2] ne [of 3] ne [of 4] ne [of 5] ne [of 6] ne [of 7] ne [of 8]
      ne [of 9] ne [of 10] ne [of 11]
    by (simp add: sqlite3VdbeSerialGet_def)
qed

text \<open>A serial type below 8 is good for a number when it has the size of its field and the reader
  returns the number from the bytes of the field.\<close>

definition good_field :: "u32 \<Rightarrow> mval \<Rightarrow> nat \<Rightarrow> u64 \<Rightarrow> mval \<Rightarrow> bool" where
  "good_field t v d x w \<longleftrightarrow> unat t < 10 \<and> sqlite3VdbeSerialTypeLen t = d \<and>
     mk_write (t, v) = ([ucast t], put_int d x) \<and>
     (\<forall>p. agree (length (put_int d x)) p (mem_of (put_int d x)) \<longrightarrow> sqlite3VdbeSerialGet p t = w)"

lemma number_of: "(case if b then VIntReal i else VInt i of VInt i \<Rightarrow> f i | VIntReal i \<Rightarrow> f i | VReal x \<Rightarrow> g x | _ \<Rightarrow> z) = f i"
  by simp

lemma good_int:
  assumes "v = VInt i \<or> v = VIntReal i" and "unat (if i <s 0 then NOT i else i) < 2 ^ n"
  shows "n = 7 \<Longrightarrow> good_field 1 v 1 i (VInt i)"
    and "n = 15 \<Longrightarrow> good_field 2 v 2 i (VInt i)"
    and "n = 23 \<Longrightarrow> good_field 3 v 3 i (VInt i)"
    and "n = 31 \<Longrightarrow> good_field 4 v 4 i (VInt i)"
    and "n = 47 \<Longrightarrow> good_field 5 v 6 i (VInt i)"
proof -
  have s: "signed_take_bit n i = i" if "n < 64" using signed_take_bit_fits [OF assms(2) that] .
  have v: "(case v of VInt i \<Rightarrow> i | VIntReal i \<Rightarrow> i | VReal x \<Rightarrow> x | _ \<Rightarrow> 0) = i" using assms(1) by auto
  note d = good_field_def sqlite3VdbeSerialTypeLen_def mk_write_def small_type_sizes
  show "n = 7 \<Longrightarrow> good_field 1 v 1 i (VInt i)"
    using s v get_int1 [of i] small_type_sizes(1) by (auto simp: d sqlite3VdbeSerialGet_def word_le_nat_alt)
  show "n = 15 \<Longrightarrow> good_field 2 v 2 i (VInt i)"
    using s v get_int2 [of i] by (auto simp: d sqlite3VdbeSerialGet_def)
  show "n = 23 \<Longrightarrow> good_field 3 v 3 i (VInt i)"
    using s v get_int3 [of i] by (auto simp: d sqlite3VdbeSerialGet_def)
  show "n = 31 \<Longrightarrow> good_field 4 v 4 i (VInt i)"
    using s v get_int4 [of i] by (auto simp: d sqlite3VdbeSerialGet_def)
  show "n = 47 \<Longrightarrow> good_field 5 v 6 i (VInt i)"
    using s v get_int6 [of i] by (auto simp: d sqlite3VdbeSerialGet_def)
qed

lemma good_int8:
  assumes "v = VInt i \<or> v = VIntReal i"
  shows "good_field 6 v 8 i (VInt i)"
proof -
  have v: "(case v of VInt i \<Rightarrow> i | VIntReal i \<Rightarrow> i | VReal x \<Rightarrow> x | _ \<Rightarrow> 0) = i" using assms by auto
  show ?thesis
    using v get_int8 [of i]
    by (auto simp: good_field_def sqlite3VdbeSerialTypeLen_def mk_write_def small_type_sizes
      sqlite3VdbeSerialGet_def serialGet_def Let_def)
qed

lemma good_real: "good_field 7 (VReal x) 8 x (stored (VReal x))"
  using get_int8 [of x]
  by (auto simp: good_field_def sqlite3VdbeSerialTypeLen_def mk_write_def small_type_sizes
    sqlite3VdbeSerialGet_def serialGet_def Let_def)

lemma good_const:
  assumes "i AND 1 = i"
  shows "good_field (8 + ucast i) v 0 i (VInt i)"
proof -
  have "i = of_bool (odd i)" using assms by (metis and_one_eq mod2_eq_if of_bool_def)
  then consider "i = 0" | "i = 1" by (cases "odd i") auto
  then show ?thesis
    by cases (simp_all add: good_field_def sqlite3VdbeSerialTypeLen_def mk_write_def small_type_sizes
      sqlite3VdbeSerialGet_def put_int_def)
qed


lemma mk_int_type_good:
  assumes "mk_int_type fmt i ir = ((t, v), d)"
  shows "good_field t v d (case v of VReal x \<Rightarrow> x | _ \<Rightarrow> i) (stored (if ir then VIntReal i else VInt i))"
proof -
  define uu where "uu = (if i <s 0 then NOT i else i)"
  define w where "w = (if ir then VIntReal i else VInt i)"
  have w: "w = VInt i \<or> w = VIntReal i" by (simp add: w_def)
  have small: "stored w = VInt i" if "uu \<le> 140737488355327" using that by (simp add: w_def uu_def)
  have x: "(case w of VReal x \<Rightarrow> x | _ \<Rightarrow> i) = i" by (simp add: w_def)
  have le: "uu \<le> k \<Longrightarrow> unat k \<le> m \<Longrightarrow> unat uu \<le> m" for k m by (simp add: word_le_nat_alt)
  have M: "uu \<le> k \<Longrightarrow> k \<le> 140737488355327 \<Longrightarrow> stored w = VInt i" for k using small order_trans by blast
  note mk = assms [unfolded mk_int_type_def Let_def, folded uu_def, folded w_def]
  consider "uu \<le> 127" "i AND 1 = i \<and> 4 \<le> fmt" | "uu \<le> 127" "\<not> (i AND 1 = i \<and> 4 \<le> fmt)"
    | "\<not> uu \<le> 127" "uu \<le> 32767" | "\<not> uu \<le> 127" "\<not> uu \<le> 32767" "uu \<le> 8388607"
    | "\<not> uu \<le> 127" "\<not> uu \<le> 32767" "\<not> uu \<le> 8388607" "uu \<le> 2147483647"
    | "\<not> uu \<le> 127" "\<not> uu \<le> 32767" "\<not> uu \<le> 8388607" "\<not> uu \<le> 2147483647" "uu \<le> 140737488355327"
    | "\<not> uu \<le> 127" "\<not> uu \<le> 32767" "\<not> uu \<le> 8388607" "\<not> uu \<le> 2147483647" "\<not> uu \<le> 140737488355327"
    by blast
  then have "good_field t v d (case v of VReal x \<Rightarrow> x | _ \<Rightarrow> i) (stored w)"
  proof cases
    case 1
    then have "bit i 63 = bit (i AND 1) 63" by simp
    then have "\<not> i <s 0" by (simp add: sless_zero_bit bit_simps)
    then have "uu = i" by (simp add: uu_def)
    with 1 mk have "t = 8 + ucast i" "v = w" "d = 0" by auto
    with 1 good_const [of i w] M [OF 1(1)] x show ?thesis by simp
  next
    case 2
    with mk have "t = 1" "v = w" "d = 1" by auto
    with good_int(1) [OF w, of 7] le [OF 2(1), of 127] M [OF 2(1)] x show ?thesis by (simp add: uu_def)
  next
    case 3
    with mk have "t = 2" "v = w" "d = 2" by (auto split: if_splits)
    with good_int(2) [OF w, of 15] le [OF 3(2), of 32767] M [OF 3(2)] x show ?thesis by (simp add: uu_def)
  next
    case 4
    with mk have "t = 3" "v = w" "d = 3" by (auto split: if_splits)
    with good_int(3) [OF w, of 23] le [OF 4(3), of 8388607] M [OF 4(3)] x show ?thesis by (simp add: uu_def)
  next
    case 5
    with mk have "t = 4" "v = w" "d = 4" by (auto split: if_splits)
    with good_int(4) [OF w, of 31] le [OF 5(4), of 2147483647] M [OF 5(4)] x show ?thesis by (simp add: uu_def)
  next
    case 6
    with mk have "t = 5" "v = w" "d = 6" by (auto split: if_splits)
    with good_int(5) [OF w, of 47] le [OF 6(5), of 140737488355327] M [OF 6(5)] x show ?thesis by (simp add: uu_def)
  next
    case 7
    show ?thesis
    proof (cases ir)
      case True
      with mk 7 have "t = 7" "v = VReal (double_of_int i)" "d = 8" by (auto split: if_splits)
      moreover have "stored w = stored (VReal (double_of_int i))"
        using 7 True by (simp add: w_def uu_def double_of_int_not_nan)
      ultimately show ?thesis using good_real [of "double_of_int i"] by simp
    next
      case False
      with mk 7 have "t = 6" "v = w" "d = 8" by (auto split: if_splits)
      with good_int8 [OF w] x False show ?thesis by (simp add: w_def)
    qed
  qed
  then show ?thesis by (simp add: w_def)
qed


lemma number_field:
  "good_field (fst (field fmt (VInt i))) (snd (fst (mk_int_type fmt i False))) (snd (mk_int_type fmt i False))
     (case snd (fst (mk_int_type fmt i False)) of VReal x \<Rightarrow> x | _ \<Rightarrow> i) (VInt i)"
  using mk_int_type_good [of fmt i False] by (cases "mk_int_type fmt i False") (auto simp: Let_def)

lemma mk_int_type_VInt: "mk_int_type fmt i False = ((t, v), d) \<Longrightarrow> v = VInt i"
  by (auto simp: mk_int_type_def Let_def split: if_splits)

lemma field_good:
  assumes "mval_size v \<le> 1000000000"
  shows "sqlite3VdbeSerialTypeLen (fst (field fmt v)) = length (snd (field fmt v)) \<and>
    (\<forall>p. agree (length (snd (field fmt v))) p (mem_of (snd (field fmt v))) \<longrightarrow>
      sqlite3VdbeSerialGet p (fst (field fmt v)) = stored v)"
proof (cases v)
  case VNull
  then show ?thesis
    by (simp add: sqlite3VdbeSerialTypeLen_def small_type_sizes sqlite3VdbeSerialGet_def word_le_nat_alt)
next
  case VNoChange
  then show ?thesis by (simp add: sqlite3VdbeSerialTypeLen_def small_type_sizes sqlite3VdbeSerialGet_def)
next
  case (VInt i)
  obtain t w d where m: "mk_int_type fmt i False = ((t, w), d)" by (metis surj_pair)
  with VInt mk_int_type_good [OF m] mk_int_type_VInt [OF m] show ?thesis by (simp add: good_field_def)
next
  case (VIntReal i)
  obtain t w d where m: "mk_int_type fmt i True = ((t, w), d)" by (metis surj_pair)
  with VIntReal mk_int_type_good [OF m] show ?thesis by (simp add: good_field_def)
next
  case (VReal x)
  with good_real [of x] show ?thesis by (simp add: good_field_def)
next
  case (VText bs)
  with assms serialTypeLen_bytes [of "length bs"] serialGet_bytes [of bs] show ?thesis by simp
next
  case (VBlob bs)
  with assms serialTypeLen_bytes [of "length bs"] serialGet_bytes [of bs] show ?thesis by simp
next
  case (VZeroBlob bs n)
  with assms serialTypeLen_bytes [of "length bs + n"] serialGet_bytes [of "bs @ replicate n 0"]
  show ?thesis by simp
qed

section \<open>The scan and the writer\<close>

text \<open>The serial type as a header entry.\<close>

definition type_bytes :: "u32 \<Rightarrow> u8 list" where
  "type_bytes t = sqlite3PutVarint (ucast t)"

lemma unat_ucast_32: "unat (ucast t :: u64) = unat (t :: u32)"
proof -
  have "unat t < 2 ^ 64" using unsigned_less [of t, where 'a = nat] by (rule less_trans) simp
  then show ?thesis by (simp add: unsigned_ucast_eq take_bit_nat_eq_self)
qed

lemma type_bytes_small:
  assumes "t < 0x80"
  shows "type_bytes t = [ucast t]"
proof -
  have "ucast t \<le> (0x7f :: u64)" using assms by (simp add: word_le_nat_alt word_less_nat_alt unat_ucast_32)
  moreover have "ucast (ucast t :: u64) = (ucast t :: u8)" by (simp add: u8_eq_bits bitblast bit_simps)
  ultimately show ?thesis by (simp add: type_bytes_def put_varint_small)
qed

lemma varintLen_type: "sqlite3VarintLen (ucast t) = length (type_bytes t)"
  using unsigned_less [of t, where 'a = nat]
  by (simp add: type_bytes_def varintLen_put unat_ucast_32)

lemma mk_write_header: "fst (mk_write (t, v)) = type_bytes t"
proof -
  have "t \<le> 7 \<Longrightarrow> t < 0x80" by (simp add: word_le_nat_alt word_less_nat_alt)
  then show ?thesis by (simp add: mk_write_def type_bytes_small) (simp add: type_bytes_def)
qed

lemma mk_write_bytes:
  assumes "n \<le> 1000000000" and "length (value_bytes v) \<le> n"
  shows "snd (mk_write (mk_bytes_type n b, v)) = value_bytes v"
proof -
  have u: "unat (mk_bytes_type n b) = 2 * n + 12 + of_bool b" by (rule unat_bytes_type [OF assms(1)])
  then have "\<not> mk_bytes_type n b \<le> 7" by (simp add: word_le_nat_alt)
  moreover have "value_bytes v = []" if "\<not> 14 \<le> mk_bytes_type n b"
  proof -
    have "n = 0" using that u by (simp add: word_le_nat_alt)
    then show ?thesis using assms(2) by simp
  qed
  ultimately show ?thesis by (auto simp: mk_write_def)
qed

lemma mk_bytes_type_add: "mk_bytes_type n b + of_nat k * 2 = mk_bytes_type (n + k) b"
  by (simp add: mk_bytes_type_def algebra_simps)

definition mk_ok :: "nat \<Rightarrow> (nat \<Rightarrow> bool) \<Rightarrow> mval list \<Rightarrow> bool" where
  "mk_ok fmt ok vs \<longleftrightarrow> (let r = mk_scan fmt ok vs in
     map fst (mk_fields r) = map (fst \<circ> field fmt) vs \<and>
     mk_nHdr r = length (concat (map (fst \<circ> mk_write) (mk_fields r))) \<and>
     mk_nData r = length (concat (map (snd \<circ> mk_write) (mk_fields r))) \<and>
     concat (map (snd \<circ> mk_write) (mk_fields r)) @ replicate (mk_nZero r) 0 =
       concat (map (snd \<circ> field fmt) vs))"


lemma mk_ok_Cons:
  assumes "mk_ok fmt ok vs"
    and "mk_scan fmt ok (v # vs) = \<lparr>mk_fields = f # mk_fields (mk_scan fmt ok vs),
      mk_nHdr = mk_nHdr (mk_scan fmt ok vs) + length (fst (mk_write f)),
      mk_nData = mk_nData (mk_scan fmt ok vs) + length (snd (mk_write f)), mk_nZero = mk_nZero (mk_scan fmt ok vs) + z, mk_nomem = nm\<rparr>"
    and "fst f = fst (field fmt v)"
    and "snd (mk_write f) @ replicate z 0 = snd (field fmt v)"
    and "z \<noteq> 0 \<longrightarrow> mk_nData (mk_scan fmt ok vs) = 0"
  shows "mk_ok fmt ok (v # vs)"
proof -
  let ?r = "mk_scan fmt ok vs" and ?p = "concat (map (snd \<circ> mk_write) (mk_fields (mk_scan fmt ok vs)))"
  have r: "map fst (mk_fields ?r) = map (fst \<circ> field fmt) vs"
    "mk_nHdr ?r = length (concat (map (fst \<circ> mk_write) (mk_fields ?r)))" "mk_nData ?r = length ?p"
    "?p @ replicate (mk_nZero ?r) 0 = concat (map (snd \<circ> field fmt) vs)"
    using assms(1) by (simp_all only: mk_ok_def Let_def)
  have "snd (mk_write f) @ ?p @ replicate (mk_nZero ?r + z) 0 = snd (field fmt v) @ ?p @ replicate (mk_nZero ?r) 0"
  proof (cases "z = 0")
    case False
    then have "?p = []" using r(3) assms(5) by (metis length_0_conv)
    then show ?thesis
      by (simp add: assms(4) [symmetric] replicate_add [symmetric] add.commute del: concat_eq_Nil_conv)
  qed (use assms(4) in simp)
  with r show ?thesis
    unfolding mk_ok_def Let_def assms(2) by (simp add: assms(3))
qed

lemma mk_scan_ok: "\<forall>v \<in> set vs. mval_size v \<le> 1000000000 \<Longrightarrow> mk_ok fmt ok vs"
proof (induction vs)
  case Nil
  then show ?case by (simp add: mk_ok_def)
next
  case (Cons v vs)
  then have ih: "mk_ok fmt ok vs" and size: "mval_size v \<le> 1000000000" by auto
  show ?case
  proof (cases v)
    case VNull
    then show ?thesis
      by (intro mk_ok_Cons [OF ih, where f = "(0, VNull)" and z = 0]) (simp_all add: mk_write_def Let_def)
  next
    case VNoChange
    then show ?thesis
      by (intro mk_ok_Cons [OF ih, where f = "(10, VNoChange)" and z = 0]) (simp_all add: mk_write_def Let_def)
  next
    case (VInt i)
    obtain t w d where m: "mk_int_type fmt i False = ((t, w), d)" by (metis surj_pair)
    with VInt mk_int_type_good [OF m] mk_int_type_VInt [OF m] show ?thesis
      by (intro mk_ok_Cons [OF ih, where f = "(t, w)" and z = 0]) (simp_all add: good_field_def Let_def mk_write_header varintLen_type)
  next
    case (VIntReal i)
    obtain t w d where m: "mk_int_type fmt i True = ((t, w), d)" by (metis surj_pair)
    with VIntReal mk_int_type_good [OF m] show ?thesis
      by (intro mk_ok_Cons [OF ih, where f = "(t, w)" and z = 0]) (simp_all add: good_field_def Let_def mk_write_header varintLen_type)
  next
    case (VReal x)
    with good_real [of x] show ?thesis
      by (intro mk_ok_Cons [OF ih, where f = "(7, VReal x)" and z = 0]) (simp_all add: good_field_def Let_def mk_write_header varintLen_type)
  next
    case (VText bs)
    with size mk_write_bytes [of "length bs" "VText bs" True] show ?thesis
      by (intro mk_ok_Cons [OF ih, where f = "(mk_bytes_type (length bs) True, VText bs)" and z = 0])
        (simp_all add: mk_write_header varintLen_type value_bytes_def Let_def)
  next
    case (VBlob bs)
    with size mk_write_bytes [of "length bs" "VBlob bs" False] show ?thesis
      by (intro mk_ok_Cons [OF ih, where f = "(mk_bytes_type (length bs) False, VBlob bs)" and z = 0])
        (simp_all add: mk_write_header varintLen_type value_bytes_def Let_def)
  next
    case (VZeroBlob bs n)
    show ?thesis
    proof (cases "mk_nData (mk_scan fmt ok vs) = 0")
      case True
      with VZeroBlob size mk_write_bytes [of "length bs + n" v False] show ?thesis
        by (intro mk_ok_Cons [OF ih, where f = "(mk_bytes_type (length bs + n) False, v)" and z = n])
          (simp_all add: mk_write_header varintLen_type value_bytes_def Let_def mk_bytes_type_add)
    next
      case False
      with VZeroBlob size mk_write_bytes [of "length bs + n" "VBlob (bs @ replicate n 0)" False] show ?thesis
        by (intro mk_ok_Cons [OF ih, where f = "(mk_bytes_type (length bs + n) False, VBlob (bs @ replicate n 0))" and z = 0])
          (simp_all add: mk_write_header varintLen_type value_bytes_def Let_def mk_bytes_type_add)
    qed
  qed
qed


section \<open>The header size\<close>

lemma unat_of_nat_u64: "m < 2 ^ 64 \<Longrightarrow> unat (of_nat m :: u64) = m"
  by (simp add: unsigned_of_nat take_bit_nat_eq_self)

lemma header_size:
  assumes "n < 2 ^ 40"
  shows "length (sqlite3PutVarint (of_nat (mk_header_size n))) + n = mk_header_size n \<and> mk_header_size n < 2 ^ 41"
proof -
  define L where "L m = length (sqlite3PutVarint (of_nat m))" for m
  have L: "L m \<le> k \<longleftrightarrow> m < 2 ^ (7 * k)" if "0 < k" "k \<le> 8" "m < 2 ^ 42" for m k
    using that length_put_le [of k "of_nat m"] by (simp add: L_def unat_of_nat_u64)
  have V: "sqlite3VarintLen (of_nat m) = L m" if "m < 2 ^ 42" for m
    using that varintLen_put [of "of_nat m"] by (simp add: L_def unat_of_nat_u64)
  have pos: "0 < L m" for m by (simp add: L_def put_nonempty)
  have six: "L m \<le> 7" if "m < 2 ^ 42" for m using that L [of 7 m] by simp
  show ?thesis
  proof (cases "n \<le> 126")
    case True
    then have "L (Suc n) \<le> 1" using L [of 1 "Suc n"] by simp
    then have "L (Suc n) = 1" using pos [of "Suc n"] by simp
    then show ?thesis using True by (simp add: mk_header_size_def L_def)
  next
    case False
    define a where "a = L n"
    have a: "0 < a" "a \<le> 7" "n < 2 ^ (7 * a)" using pos six [of n] L [of a n] assms by (auto simp: a_def)
    have na: "n + a + 1 < 2 ^ 41" using assms a(2) by simp
    have "2 * 2 ^ (7 * a) \<le> (2 ^ (7 * Suc a) :: nat)" by (simp add: power_add)
    moreover have "a + 1 \<le> 2 ^ (7 * a)" using less_exp [of "7 * a"] a(1) by linarith
    ultimately have "n + a + 1 < 2 ^ (7 * Suc a)" using a(3) by linarith
    then have up: "L (n + a + 1) \<le> Suc a" using L [of "Suc a" "n + a + 1"] a na by simp
    show ?thesis
    proof (cases "a < L (n + a)")
      case True
      then have "\<not> n + a < 2 ^ (7 * a)" using L [of a "n + a"] a na by simp
      then have "\<not> L (n + a + 1) \<le> a" using L [of a "n + a + 1"] a na by simp
      with up have "L (n + a + 1) = Suc a" by simp
      then show ?thesis
        using False True na V [of n] V [of "n + a"] assms
        by (simp add: mk_header_size_def Let_def a_def L_def)
    next
      case F: False
      have "n + a < 2 ^ (7 * a)" using F L [of a "n + a"] a na by simp
      have "\<not> L (n + a) < a"
      proof
        assume lt: "L (n + a) < a"
        then have a1: "0 < a - 1" "L (n + a) \<le> a - 1" using pos [of "n + a"] by auto
        then have "n + a < 2 ^ (7 * (a - 1))" using L [of "a - 1" "n + a"] a na by simp
        with a1 have "L n \<le> a - 1" using L [of "a - 1" n] a assms by simp
        then show False using a by (simp add: a_def)
      qed
      with F have "L (n + a) = a" by simp
      then show ?thesis
        using False na V [of n] V [of "n + a"] assms
        by (simp add: mk_header_size_def Let_def a_def L_def)
    qed
  qed
qed


section \<open>Unpacking\<close>

text \<open>The serial types and the data of a list of values.\<close>

definition field_types :: "nat \<Rightarrow> mval list \<Rightarrow> u8 list" where
  "field_types fmt vs = concat (map (type_bytes \<circ> fst \<circ> field fmt) vs)"

definition field_data :: "nat \<Rightarrow> mval list \<Rightarrow> u8 list" where
  "field_data fmt vs = concat (map (snd \<circ> field fmt) vs)"

lemma field_types_simps [simp]:
  "field_types fmt [] = []" "field_types fmt (v # vs) = type_bytes (fst (field fmt v)) @ field_types fmt vs"
  by (simp_all add: field_types_def)

lemma field_data_simps [simp]:
  "field_data fmt [] = []" "field_data fmt (v # vs) = snd (field fmt v) @ field_data fmt vs"
  by (simp_all add: field_data_def)

lemma unpack_loop_stored:
  assumes "\<forall>v \<in> set vs. mval_size v \<le> 1000000000"
    and "agree (length (field_types fmt vs)) (\<lambda>i. p (idx + i))
      (mem_of (field_types fmt vs))"
    and "agree (length (field_data fmt vs)) (\<lambda>i. p (d + i))
      (mem_of (field_data fmt vs))"
    and "idx + length (field_types fmt vs) = szHdr" "szHdr < 2 ^ 32"
    and "d + length (field_data fmt vs) = nKey" "nKey < 2 ^ 32"
    and "length vs \<le> nField"
  shows "unpack_loop p nKey szHdr nField idx d = (map stored vs, nKey)"
  using assms
proof (induction vs arbitrary: idx d nField)
  case Nil
  then show ?case by (cases nField) auto
next
  case (Cons v vs)
  let ?H = "field_types fmt vs" and ?D = "field_data fmt vs"
  obtain t bs where f: "field fmt v = (t, bs)" by (metis surj_pair)
  obtain n where n: "nField = Suc n" "length vs \<le> n" using Cons.prems(8) by (cases nField) auto
  have g: "sqlite3VdbeSerialTypeLen t = length bs"
    "agree (length bs) q (mem_of bs) \<Longrightarrow> sqlite3VdbeSerialGet q t = stored v" for q
    using field_good [of v fmt] Cons.prems(1) f by auto
  have h: "agree (length (type_bytes t)) (\<lambda>i. p (idx + i)) (mem_of (type_bytes t))"
    "agree (length ?H) (\<lambda>i. p (idx + length (type_bytes t) + i)) (mem_of ?H)"
    using agree_split [of "type_bytes t" "length ?H" "\<lambda>i. p (idx + i)" ?H] Cons.prems(2) f
    by (auto simp: add.assoc)
  have e: "agree (length bs) (\<lambda>i. p (d + i)) (mem_of bs)"
    "agree (length ?D) (\<lambda>i. p (d + length bs + i)) (mem_of ?D)"
    using agree_split [of bs "length ?D" "\<lambda>i. p (d + i)" ?D] Cons.prems(3) f by (auto simp: add.assoc)
  have tn: "0 < length (type_bytes t)" by (simp add: type_bytes_def put_nonempty)
  have s: "idx + length (type_bytes t) + length ?H = szHdr" "d + length bs + length ?D = nKey"
    using Cons.prems(4,6) f by auto
  have t: "getVarint32 (\<lambda>i. p (idx + i)) = (length (type_bytes t), t)"
    using getVarint32_put [of t "\<lambda>i. p (idx + i)"] h(1) by (simp add: type_bytes_def)
  have "unpack_loop p nKey szHdr n (idx + length (type_bytes t)) (d + length bs) = (map stored vs, nKey)"
    by (rule Cons.IH) (use Cons.prems(1,5,7) h(2) e(2) s n(2) in auto)
  moreover have "(idx + length (type_bytes t)) mod 2 ^ 32 = idx + length (type_bytes t)"
    "(d + length bs) mod 2 ^ 32 = d + length bs" using s Cons.prems(5,7) by simp_all
  moreover have "idx < szHdr" "d \<le> nKey" using s tn by linarith+
  ultimately show ?case
    using e(1) unfolding n(1) by (simp add: t g)
qed

lemma put_length_9: "length (sqlite3PutVarint v) \<le> 9"
  using varintLen_cases [of v] length_put_buf [of 9 v] drop_bit_zero_iff [of 63 v]
  by (auto simp: put_varint_eq_put64 length_putVarint64)

lemma field_types_length: "length (field_types fmt vs) \<le> 9 * length vs"
proof (induction vs)
  case (Cons v vs)
  have "length (type_bytes (fst (field fmt v))) \<le> 9" using put_length_9 by (simp add: type_bytes_def)
  with Cons show ?case by simp
qed simp

lemma mk_fields_header:
  assumes "map fst fs = map (fst \<circ> field fmt) vs"
  shows "concat (map (fst \<circ> mk_write) fs) = field_types fmt vs"
proof -
  have "fst (mk_write f) = type_bytes (fst f)" for f by (cases f) (simp add: mk_write_header)
  then have "map (fst \<circ> mk_write) fs = map type_bytes (map fst fs)" by (simp add: comp_def)
  also have "\<dots> = map (type_bytes \<circ> fst \<circ> field fmt) vs" by (simp only: assms map_map comp_assoc)
  finally show ?thesis by (simp add: field_types_def)
qed

text \<open>The layout of a record, zeros included.\<close>

definition record_bytes :: "nat \<Rightarrow> mval list \<Rightarrow> u8 list" where
  "record_bytes fmt vs =
     (let H = field_types fmt vs
      in sqlite3PutVarint (of_nat (mk_header_size (length H))) @ H @ field_data fmt vs)"

lemma header_varint:
  "(if n < 0x80 then [of_nat n] else sqlite3PutVarint (of_nat n)) = sqlite3PutVarint (of_nat n)"
proof (cases "n < 0x80")
  case True
  then have "of_nat n \<le> (0x7f :: u64)" by (simp add: word_le_nat_alt unat_of_nat_u64)
  moreover have "ucast (of_nat n :: u64) = (of_nat n :: u8)" by (intro unsigned_word_eqI [where 'a = nat]) (simp add: unsigned_ucast_eq unsigned_of_nat)
  ultimately show ?thesis using True by (simp add: put_varint_small)
qed simp

text \<open>For bounded values the opcode writes this layout, unless it fails for size or memory.\<close>

lemma makeRecord_bytes:
  assumes "\<forall>v \<in> set vs. mval_size v \<le> 1000000000" and "length vs < 2 ^ 32"
  shows "MakeRecord fmt szMalloc lim ok vs = Inl TooBig \<or> MakeRecord fmt szMalloc lim ok vs = Inl NoMem \<or>
    (\<exists>rec nZero. MakeRecord fmt szMalloc lim ok vs = Inr (rec, nZero) \<and>
      rec @ replicate nZero 0 = record_bytes fmt vs \<and>
      (length rec + nZero \<le> szMalloc \<or> length rec + nZero \<le> lim) \<and>
      mk_header_size (length (field_types fmt vs)) \<le> length rec)"
proof -
  define r where "r = mk_scan fmt ok vs"
  let ?H = "field_types fmt vs"
  let ?P = "concat (map (snd \<circ> mk_write) (mk_fields r))"
  let ?n = "mk_header_size (length ?H)"
  have r: "map fst (mk_fields r) = map (fst \<circ> field fmt) vs"
    "mk_nHdr r = length (concat (map (fst \<circ> mk_write) (mk_fields r)))" "mk_nData r = length ?P"
    "?P @ replicate (mk_nZero r) 0 = field_data fmt vs"
    using mk_scan_ok [OF assms(1), of fmt ok] by (simp_all only: mk_ok_def Let_def r_def field_data_def)
  note hd = mk_fields_header [OF r(1)]
  have "length ?H < 2 ^ 40" using field_types_length [of fmt vs] assms(2) by simp
  note sz = header_size [OF this]
  show ?thesis
    using sz r(4) unfolding MakeRecord_def Let_def r_def [symmetric] hd r(2) header_varint
    by (auto simp: record_bytes_def Let_def r(3) simp del: length_concat)
qed


lemma record_bytes_unpack:
  assumes "\<forall>v \<in> set vs. mval_size v \<le> 1000000000" and "length vs < 2 ^ 32"
    and "length (record_bytes fmt vs) < 2 ^ 32" and "length vs \<le> nField"
  shows "sqlite3VdbeRecordUnpack (length (record_bytes fmt vs)) (mem_of (record_bytes fmt vs)) nField =
    map stored vs"
proof -
  let ?H = "field_types fmt vs" and ?D = "field_data fmt vs" and ?r = "record_bytes fmt vs"
  let ?n = "mk_header_size (length ?H)"
  have "length ?H < 2 ^ 40" using field_types_length [of fmt vs] assms(2) by simp
  note sz = header_size [OF this]
  let ?S = "sqlite3PutVarint (of_nat ?n)"
  have r: "?r = ?S @ ?H @ ?D" by (simp add: record_bytes_def Let_def)
  have n: "?n < 2 ^ 32" "length ?S + length ?H = ?n" using sz assms(3) by (auto simp: r)
  have u: "ucast (of_nat ?n :: u32) = (of_nat ?n :: u64)" "unat (of_nat ?n :: u32) = ?n"
    using n(1) by (auto intro!: unsigned_word_eqI [where 'a = nat] simp: unsigned_ucast_eq unsigned_of_nat
      take_bit_nat_eq_self)
  have "getVarint32 (mem_of ?r) = (length ?S, of_nat ?n)"
    using getVarint32_put [of "of_nat ?n" "mem_of ?r"] agree_mem_of_append [of ?S "?H @ ?D"]
    by (simp add: u r)
  moreover have "unpack_loop (mem_of ?r) (length ?r) ?n (max 1 nField) (length ?S) ?n = (map stored vs, length ?r)"
  proof (rule unpack_loop_stored [OF assms(1)])
    show "agree (length ?H) (\<lambda>i. mem_of ?r (length ?S + i)) (mem_of ?H)"
      "agree (length ?D) (\<lambda>i. mem_of ?r (?n + i)) (mem_of ?D)"
      using n(2) by (auto simp: agree_def mem_of_def r nth_append)
  qed (use n assms(3,4) in \<open>auto simp: r\<close>)
  ultimately show ?thesis by (simp add: sqlite3VdbeRecordUnpack_def u)
qed

section \<open>Properties\<close>

text \<open>
  C1: reading back a record gives the values it was made from.  When \<open>OP_MakeRecord\<close> succeeds on
  values of at most \<open>SQLITE_MAX_LENGTH\<close> bytes, \<open>sqlite3VdbeRecordUnpack\<close> of the record (with the
  zero bytes that follow it) returns every value as stored: integers, text and blobs unchanged
  whatever their serial type, zero-blobs expanded, NaN as NULL, a large integer-valued real as the
  real.
\<close>

theorem record_roundtrip:
  assumes "\<forall>v \<in> set vs. mval_size v \<le> 1000000000" and "length vs \<le> nField" and "nField < 2 ^ 16"
    and "szMalloc < 2 ^ 31" and "lim \<le> 1000000000"
    and "MakeRecord minFmt szMalloc lim mem_ok vs = Inr (rec, nZero)"
  shows "sqlite3VdbeRecordUnpack (length rec + nZero) (mem_of (rec @ replicate nZero 0)) nField =
    map stored vs"
proof -
  have "length vs < 2 ^ 32" using assms(2,3) by simp
  with makeRecord_bytes [OF assms(1), of minFmt szMalloc lim mem_ok] assms(6)
  have rb: "rec @ replicate nZero 0 = record_bytes minFmt vs" and
    len: "length rec + nZero \<le> szMalloc \<or> length rec + nZero \<le> lim" by auto
  have l: "length (record_bytes minFmt vs) = length rec + nZero" unfolding rb [symmetric] by simp
  show ?thesis
    using record_bytes_unpack [OF assms(1) \<open>length vs < 2 ^ 32\<close>, of minFmt nField] len assms(2,4,5)
    by (auto simp: l rb)
qed

theorem record_roundtrip_witness:
  "MakeRecord 4 0 100 (\<lambda>_. True) [VInt (-2), VNull, VInt 1, VText [104, 105], VZeroBlob [7] 2] =
     Inr ([6, 1, 0, 9, 17, 18, 0xFE, 104, 105, 7], 2) \<and>
   sqlite3VdbeRecordUnpack 12 (mem_of [6, 1, 0, 9, 17, 18, 0xFE, 104, 105, 7, 0, 0]) 8 =
     [VInt (-2), VNull, VInt 1, VText [104, 105], VBlob [7, 0, 0]]"
proof -
  let ?vs = "[VInt (-2), VNull, VInt 1, VText [104, 105], VZeroBlob [7] 2]"
  have m: "MakeRecord 4 0 100 (\<lambda>_. True) ?vs = Inr ([6, 1, 0, 9, 17, 18, 0xFE, 104, 105, 7], 2)"
    by code_simp
  have two: "replicate 2 (0 :: u8) = [0, 0]" by (simp add: numeral_2_eq_2)
  have "(8 :: nat) < 2 ^ 16" by simp
  from record_roundtrip [of ?vs 8 0 100 4 "\<lambda>_. True", OF _ _ this _ _ m]
  show ?thesis by (simp add: m two) (simp add: eval_nat_numeral)
qed

text \<open>
  C16: making a record never overruns its buffers.  For values of at most \<open>SQLITE_MAX_LENGTH\<close> bytes
  the header and the payload written by the second loop of \<open>OP_MakeRecord\<close> have exactly the sizes
  the first loop reserved for them; the opcode fails only for a too big record or for lack of memory.
\<close>

theorem makeRecord_never_overruns:
  assumes "\<forall>v \<in> set vs. mval_size v \<le> 1000000000" and "length vs < 2 ^ 32"
  shows "MakeRecord minFmt szMalloc lim mem_ok vs \<noteq> Inl Overrun"
  using makeRecord_bytes [OF assms, of minFmt szMalloc lim mem_ok] by auto

theorem makeRecord_never_overruns_witness:
  "MakeRecord 4 0 100 (\<lambda>_. True) [VInt 1, VZeroBlob [7] 3, VNull, VText [65]] \<noteq> Inl Overrun"
  using makeRecord_never_overruns [of "[VInt 1, VZeroBlob [7] 3, VNull, VText [65]]" 4 0 100 "\<lambda>_. True"]
  by simp

text \<open>
  The integer decoder of the fast index-key comparators agrees with the general one.  For every
  integer serial type, 1 to 6, 8 and 9, \<open>sqlite3VdbeSerialGet\<close> returns the integer that
  \<open>vdbeRecordDecodeInt\<close> computes.
\<close>

theorem vdbeRecordDecodeInt_agrees:
  assumes "serial_type \<in> {1, 2, 3, 4, 5, 6, 8, 9}"
  shows "sqlite3VdbeSerialGet p serial_type = VInt (vdbeRecordDecodeInt serial_type p)"
proof -
  have "push_bit 32 (ucast (FOUR_BYTE_UINT p)) + ucast (FOUR_BYTE_UINT (\<lambda>i. p (4 + i))) =
      (push_bit 32 (ucast (FOUR_BYTE_UINT p)) OR ucast (FOUR_BYTE_UINT (\<lambda>i. p (4 + i))) :: u64)"
    by (rule disjunctive_add_eq_or) (simp add: u64_eq_bits bitblast bit_simps)
  moreover have "FOUR_BYTE_UINT p = FOUR_BYTE_INT p"
    unfolding FOUR_BYTE_UINT_def FOUR_BYTE_INT_def mult_shifts by (simp add: u32_eq_bits bitblast bit_simps)
  ultimately show ?thesis
    using assms by (auto simp: sqlite3VdbeSerialGet_def vdbeRecordDecodeInt_def serialGet_def Let_def)
qed

theorem vdbeRecordDecodeInt_agrees_witness:
  "sqlite3VdbeSerialGet (mem_of [0xFF, 0xFF, 0xFF, 0xFB]) 4 = VInt (-5) \<and>
   vdbeRecordDecodeInt 4 (mem_of [0xFF, 0xFF, 0xFF, 0xFB]) = -5"
proof -
  have d: "vdbeRecordDecodeInt 4 (mem_of [0xFF, 0xFF, 0xFF, 0xFB]) = -5" by code_simp
  with vdbeRecordDecodeInt_agrees [of 4 "mem_of [0xFF, 0xFF, 0xFF, 0xFB]"] show ?thesis by simp
qed

end
