(* ===== verification/Sq_Keyword.thy ===== *)
theory Sq_Keyword
  imports Sq_Ctype
begin

text \<open>
  The keyword table of tokenize.c (keywordhash.h): the parser's token codes, the tables
  \<open>zKWText\<close>, \<open>aKWHash\<close>, \<open>aKWNext\<close>, \<open>aKWLen\<close>, \<open>aKWOffset\<close>, \<open>aKWCode\<close>, and the
  lookup \<open>keywordCode\<close> with its callers \<open>sqlite3KeywordCode\<close>, \<open>sqlite3_keyword_name\<close> and
  \<open>sqlite3_keyword_check\<close>.

  The hash table packs 147 keywords into 666 bytes of overlapping text; the lemmas compare it
  with the plain list of keywords.
\<close>

section \<open>Token codes\<close>

abbreviation (input) TK_SEMI :: nat where "TK_SEMI \<equiv> 1"
abbreviation (input) TK_EXPLAIN :: nat where "TK_EXPLAIN \<equiv> 2"
abbreviation (input) TK_QUERY :: nat where "TK_QUERY \<equiv> 3"
abbreviation (input) TK_PLAN :: nat where "TK_PLAN \<equiv> 4"
abbreviation (input) TK_BEGIN :: nat where "TK_BEGIN \<equiv> 5"
abbreviation (input) TK_TRANSACTION :: nat where "TK_TRANSACTION \<equiv> 6"
abbreviation (input) TK_DEFERRED :: nat where "TK_DEFERRED \<equiv> 7"
abbreviation (input) TK_IMMEDIATE :: nat where "TK_IMMEDIATE \<equiv> 8"
abbreviation (input) TK_EXCLUSIVE :: nat where "TK_EXCLUSIVE \<equiv> 9"
abbreviation (input) TK_COMMIT :: nat where "TK_COMMIT \<equiv> 10"
abbreviation (input) TK_END :: nat where "TK_END \<equiv> 11"
abbreviation (input) TK_ROLLBACK :: nat where "TK_ROLLBACK \<equiv> 12"
abbreviation (input) TK_SAVEPOINT :: nat where "TK_SAVEPOINT \<equiv> 13"
abbreviation (input) TK_RELEASE :: nat where "TK_RELEASE \<equiv> 14"
abbreviation (input) TK_TO :: nat where "TK_TO \<equiv> 15"
abbreviation (input) TK_TABLE :: nat where "TK_TABLE \<equiv> 16"
abbreviation (input) TK_CREATE :: nat where "TK_CREATE \<equiv> 17"
abbreviation (input) TK_IF :: nat where "TK_IF \<equiv> 18"
abbreviation (input) TK_NOT :: nat where "TK_NOT \<equiv> 19"
abbreviation (input) TK_EXISTS :: nat where "TK_EXISTS \<equiv> 20"
abbreviation (input) TK_TEMP :: nat where "TK_TEMP \<equiv> 21"
abbreviation (input) TK_LP :: nat where "TK_LP \<equiv> 22"
abbreviation (input) TK_RP :: nat where "TK_RP \<equiv> 23"
abbreviation (input) TK_AS :: nat where "TK_AS \<equiv> 24"
abbreviation (input) TK_COMMA :: nat where "TK_COMMA \<equiv> 25"
abbreviation (input) TK_WITHOUT :: nat where "TK_WITHOUT \<equiv> 26"
abbreviation (input) TK_ABORT :: nat where "TK_ABORT \<equiv> 27"
abbreviation (input) TK_ACTION :: nat where "TK_ACTION \<equiv> 28"
abbreviation (input) TK_AFTER :: nat where "TK_AFTER \<equiv> 29"
abbreviation (input) TK_ANALYZE :: nat where "TK_ANALYZE \<equiv> 30"
abbreviation (input) TK_ASC :: nat where "TK_ASC \<equiv> 31"
abbreviation (input) TK_ATTACH :: nat where "TK_ATTACH \<equiv> 32"
abbreviation (input) TK_BEFORE :: nat where "TK_BEFORE \<equiv> 33"
abbreviation (input) TK_BY :: nat where "TK_BY \<equiv> 34"
abbreviation (input) TK_CASCADE :: nat where "TK_CASCADE \<equiv> 35"
abbreviation (input) TK_CAST :: nat where "TK_CAST \<equiv> 36"
abbreviation (input) TK_CONFLICT :: nat where "TK_CONFLICT \<equiv> 37"
abbreviation (input) TK_DATABASE :: nat where "TK_DATABASE \<equiv> 38"
abbreviation (input) TK_DESC :: nat where "TK_DESC \<equiv> 39"
abbreviation (input) TK_DETACH :: nat where "TK_DETACH \<equiv> 40"
abbreviation (input) TK_EACH :: nat where "TK_EACH \<equiv> 41"
abbreviation (input) TK_FAIL :: nat where "TK_FAIL \<equiv> 42"
abbreviation (input) TK_OR :: nat where "TK_OR \<equiv> 43"
abbreviation (input) TK_AND :: nat where "TK_AND \<equiv> 44"
abbreviation (input) TK_IS :: nat where "TK_IS \<equiv> 45"
abbreviation (input) TK_ISNOT :: nat where "TK_ISNOT \<equiv> 46"
abbreviation (input) TK_MATCH :: nat where "TK_MATCH \<equiv> 47"
abbreviation (input) TK_LIKE_KW :: nat where "TK_LIKE_KW \<equiv> 48"
abbreviation (input) TK_BETWEEN :: nat where "TK_BETWEEN \<equiv> 49"
abbreviation (input) TK_IN :: nat where "TK_IN \<equiv> 50"
abbreviation (input) TK_ISNULL :: nat where "TK_ISNULL \<equiv> 51"
abbreviation (input) TK_NOTNULL :: nat where "TK_NOTNULL \<equiv> 52"
abbreviation (input) TK_NE :: nat where "TK_NE \<equiv> 53"
abbreviation (input) TK_EQ :: nat where "TK_EQ \<equiv> 54"
abbreviation (input) TK_GT :: nat where "TK_GT \<equiv> 55"
abbreviation (input) TK_LE :: nat where "TK_LE \<equiv> 56"
abbreviation (input) TK_LT :: nat where "TK_LT \<equiv> 57"
abbreviation (input) TK_GE :: nat where "TK_GE \<equiv> 58"
abbreviation (input) TK_ESCAPE :: nat where "TK_ESCAPE \<equiv> 59"
abbreviation (input) TK_ID :: nat where "TK_ID \<equiv> 60"
abbreviation (input) TK_COLUMNKW :: nat where "TK_COLUMNKW \<equiv> 61"
abbreviation (input) TK_DO :: nat where "TK_DO \<equiv> 62"
abbreviation (input) TK_FOR :: nat where "TK_FOR \<equiv> 63"
abbreviation (input) TK_IGNORE :: nat where "TK_IGNORE \<equiv> 64"
abbreviation (input) TK_INITIALLY :: nat where "TK_INITIALLY \<equiv> 65"
abbreviation (input) TK_INSTEAD :: nat where "TK_INSTEAD \<equiv> 66"
abbreviation (input) TK_NO :: nat where "TK_NO \<equiv> 67"
abbreviation (input) TK_KEY :: nat where "TK_KEY \<equiv> 68"
abbreviation (input) TK_OF :: nat where "TK_OF \<equiv> 69"
abbreviation (input) TK_OFFSET :: nat where "TK_OFFSET \<equiv> 70"
abbreviation (input) TK_PRAGMA :: nat where "TK_PRAGMA \<equiv> 71"
abbreviation (input) TK_RAISE :: nat where "TK_RAISE \<equiv> 72"
abbreviation (input) TK_RECURSIVE :: nat where "TK_RECURSIVE \<equiv> 73"
abbreviation (input) TK_REPLACE :: nat where "TK_REPLACE \<equiv> 74"
abbreviation (input) TK_RESTRICT :: nat where "TK_RESTRICT \<equiv> 75"
abbreviation (input) TK_ROW :: nat where "TK_ROW \<equiv> 76"
abbreviation (input) TK_ROWS :: nat where "TK_ROWS \<equiv> 77"
abbreviation (input) TK_TRIGGER :: nat where "TK_TRIGGER \<equiv> 78"
abbreviation (input) TK_VACUUM :: nat where "TK_VACUUM \<equiv> 79"
abbreviation (input) TK_VIEW :: nat where "TK_VIEW \<equiv> 80"
abbreviation (input) TK_VIRTUAL :: nat where "TK_VIRTUAL \<equiv> 81"
abbreviation (input) TK_WITH :: nat where "TK_WITH \<equiv> 82"
abbreviation (input) TK_NULLS :: nat where "TK_NULLS \<equiv> 83"
abbreviation (input) TK_FIRST :: nat where "TK_FIRST \<equiv> 84"
abbreviation (input) TK_LAST :: nat where "TK_LAST \<equiv> 85"
abbreviation (input) TK_CURRENT :: nat where "TK_CURRENT \<equiv> 86"
abbreviation (input) TK_FOLLOWING :: nat where "TK_FOLLOWING \<equiv> 87"
abbreviation (input) TK_PARTITION :: nat where "TK_PARTITION \<equiv> 88"
abbreviation (input) TK_PRECEDING :: nat where "TK_PRECEDING \<equiv> 89"
abbreviation (input) TK_RANGE :: nat where "TK_RANGE \<equiv> 90"
abbreviation (input) TK_UNBOUNDED :: nat where "TK_UNBOUNDED \<equiv> 91"
abbreviation (input) TK_EXCLUDE :: nat where "TK_EXCLUDE \<equiv> 92"
abbreviation (input) TK_GROUPS :: nat where "TK_GROUPS \<equiv> 93"
abbreviation (input) TK_OTHERS :: nat where "TK_OTHERS \<equiv> 94"
abbreviation (input) TK_TIES :: nat where "TK_TIES \<equiv> 95"
abbreviation (input) TK_GENERATED :: nat where "TK_GENERATED \<equiv> 96"
abbreviation (input) TK_ALWAYS :: nat where "TK_ALWAYS \<equiv> 97"
abbreviation (input) TK_MATERIALIZED :: nat where "TK_MATERIALIZED \<equiv> 98"
abbreviation (input) TK_REINDEX :: nat where "TK_REINDEX \<equiv> 99"
abbreviation (input) TK_RENAME :: nat where "TK_RENAME \<equiv> 100"
abbreviation (input) TK_CTIME_KW :: nat where "TK_CTIME_KW \<equiv> 101"
abbreviation (input) TK_ANY :: nat where "TK_ANY \<equiv> 102"
abbreviation (input) TK_BITAND :: nat where "TK_BITAND \<equiv> 103"
abbreviation (input) TK_BITOR :: nat where "TK_BITOR \<equiv> 104"
abbreviation (input) TK_LSHIFT :: nat where "TK_LSHIFT \<equiv> 105"
abbreviation (input) TK_RSHIFT :: nat where "TK_RSHIFT \<equiv> 106"
abbreviation (input) TK_PLUS :: nat where "TK_PLUS \<equiv> 107"
abbreviation (input) TK_MINUS :: nat where "TK_MINUS \<equiv> 108"
abbreviation (input) TK_STAR :: nat where "TK_STAR \<equiv> 109"
abbreviation (input) TK_SLASH :: nat where "TK_SLASH \<equiv> 110"
abbreviation (input) TK_REM :: nat where "TK_REM \<equiv> 111"
abbreviation (input) TK_CONCAT :: nat where "TK_CONCAT \<equiv> 112"
abbreviation (input) TK_PTR :: nat where "TK_PTR \<equiv> 113"
abbreviation (input) TK_COLLATE :: nat where "TK_COLLATE \<equiv> 114"
abbreviation (input) TK_BITNOT :: nat where "TK_BITNOT \<equiv> 115"
abbreviation (input) TK_ON :: nat where "TK_ON \<equiv> 116"
abbreviation (input) TK_INDEXED :: nat where "TK_INDEXED \<equiv> 117"
abbreviation (input) TK_STRING :: nat where "TK_STRING \<equiv> 118"
abbreviation (input) TK_JOIN_KW :: nat where "TK_JOIN_KW \<equiv> 119"
abbreviation (input) TK_CONSTRAINT :: nat where "TK_CONSTRAINT \<equiv> 120"
abbreviation (input) TK_DEFAULT :: nat where "TK_DEFAULT \<equiv> 121"
abbreviation (input) TK_NULL :: nat where "TK_NULL \<equiv> 122"
abbreviation (input) TK_PRIMARY :: nat where "TK_PRIMARY \<equiv> 123"
abbreviation (input) TK_UNIQUE :: nat where "TK_UNIQUE \<equiv> 124"
abbreviation (input) TK_CHECK :: nat where "TK_CHECK \<equiv> 125"
abbreviation (input) TK_REFERENCES :: nat where "TK_REFERENCES \<equiv> 126"
abbreviation (input) TK_AUTOINCR :: nat where "TK_AUTOINCR \<equiv> 127"
abbreviation (input) TK_INSERT :: nat where "TK_INSERT \<equiv> 128"
abbreviation (input) TK_DELETE :: nat where "TK_DELETE \<equiv> 129"
abbreviation (input) TK_UPDATE :: nat where "TK_UPDATE \<equiv> 130"
abbreviation (input) TK_SET :: nat where "TK_SET \<equiv> 131"
abbreviation (input) TK_DEFERRABLE :: nat where "TK_DEFERRABLE \<equiv> 132"
abbreviation (input) TK_FOREIGN :: nat where "TK_FOREIGN \<equiv> 133"
abbreviation (input) TK_DROP :: nat where "TK_DROP \<equiv> 134"
abbreviation (input) TK_UNION :: nat where "TK_UNION \<equiv> 135"
abbreviation (input) TK_ALL :: nat where "TK_ALL \<equiv> 136"
abbreviation (input) TK_EXCEPT :: nat where "TK_EXCEPT \<equiv> 137"
abbreviation (input) TK_INTERSECT :: nat where "TK_INTERSECT \<equiv> 138"
abbreviation (input) TK_SELECT :: nat where "TK_SELECT \<equiv> 139"
abbreviation (input) TK_VALUES :: nat where "TK_VALUES \<equiv> 140"
abbreviation (input) TK_DISTINCT :: nat where "TK_DISTINCT \<equiv> 141"
abbreviation (input) TK_DOT :: nat where "TK_DOT \<equiv> 142"
abbreviation (input) TK_FROM :: nat where "TK_FROM \<equiv> 143"
abbreviation (input) TK_JOIN :: nat where "TK_JOIN \<equiv> 144"
abbreviation (input) TK_USING :: nat where "TK_USING \<equiv> 145"
abbreviation (input) TK_ORDER :: nat where "TK_ORDER \<equiv> 146"
abbreviation (input) TK_GROUP :: nat where "TK_GROUP \<equiv> 147"
abbreviation (input) TK_HAVING :: nat where "TK_HAVING \<equiv> 148"
abbreviation (input) TK_LIMIT :: nat where "TK_LIMIT \<equiv> 149"
abbreviation (input) TK_WHERE :: nat where "TK_WHERE \<equiv> 150"
abbreviation (input) TK_RETURNING :: nat where "TK_RETURNING \<equiv> 151"
abbreviation (input) TK_INTO :: nat where "TK_INTO \<equiv> 152"
abbreviation (input) TK_NOTHING :: nat where "TK_NOTHING \<equiv> 153"
abbreviation (input) TK_FLOAT :: nat where "TK_FLOAT \<equiv> 154"
abbreviation (input) TK_BLOB :: nat where "TK_BLOB \<equiv> 155"
abbreviation (input) TK_INTEGER :: nat where "TK_INTEGER \<equiv> 156"
abbreviation (input) TK_VARIABLE :: nat where "TK_VARIABLE \<equiv> 157"
abbreviation (input) TK_CASE :: nat where "TK_CASE \<equiv> 158"
abbreviation (input) TK_WHEN :: nat where "TK_WHEN \<equiv> 159"
abbreviation (input) TK_THEN :: nat where "TK_THEN \<equiv> 160"
abbreviation (input) TK_ELSE :: nat where "TK_ELSE \<equiv> 161"
abbreviation (input) TK_INDEX :: nat where "TK_INDEX \<equiv> 162"
abbreviation (input) TK_ALTER :: nat where "TK_ALTER \<equiv> 163"
abbreviation (input) TK_ADD :: nat where "TK_ADD \<equiv> 164"
abbreviation (input) TK_WINDOW :: nat where "TK_WINDOW \<equiv> 165"
abbreviation (input) TK_OVER :: nat where "TK_OVER \<equiv> 166"
abbreviation (input) TK_FILTER :: nat where "TK_FILTER \<equiv> 167"
abbreviation (input) TK_COLUMN :: nat where "TK_COLUMN \<equiv> 168"
abbreviation (input) TK_AGG_FUNCTION :: nat where "TK_AGG_FUNCTION \<equiv> 169"
abbreviation (input) TK_AGG_COLUMN :: nat where "TK_AGG_COLUMN \<equiv> 170"
abbreviation (input) TK_TRUEFALSE :: nat where "TK_TRUEFALSE \<equiv> 171"
abbreviation (input) TK_FUNCTION :: nat where "TK_FUNCTION \<equiv> 172"
abbreviation (input) TK_UPLUS :: nat where "TK_UPLUS \<equiv> 173"
abbreviation (input) TK_UMINUS :: nat where "TK_UMINUS \<equiv> 174"
abbreviation (input) TK_TRUTH :: nat where "TK_TRUTH \<equiv> 175"
abbreviation (input) TK_REGISTER :: nat where "TK_REGISTER \<equiv> 176"
abbreviation (input) TK_VECTOR :: nat where "TK_VECTOR \<equiv> 177"
abbreviation (input) TK_SELECT_COLUMN :: nat where "TK_SELECT_COLUMN \<equiv> 178"
abbreviation (input) TK_IF_NULL_ROW :: nat where "TK_IF_NULL_ROW \<equiv> 179"
abbreviation (input) TK_ASTERISK :: nat where "TK_ASTERISK \<equiv> 180"
abbreviation (input) TK_SPAN :: nat where "TK_SPAN \<equiv> 181"
abbreviation (input) TK_ERROR :: nat where "TK_ERROR \<equiv> 182"
abbreviation (input) TK_QNUMBER :: nat where "TK_QNUMBER \<equiv> 183"
abbreviation (input) TK_SPACE :: nat where "TK_SPACE \<equiv> 184"
abbreviation (input) TK_COMMENT :: nat where "TK_COMMENT \<equiv> 185"
abbreviation (input) TK_ILLEGAL :: nat where "TK_ILLEGAL \<equiv> 186"

section \<open>Tables\<close>

definition ascii :: "string \<Rightarrow> u8 list" where
  "ascii s = map of_char s"

definition zKWString :: string where
  "zKWString =
     ''REINDEXEDESCAPEACHECKEYBEFOREIGNOREGEXPLAINSTEADDATABASELECTABLEFTHENDEF'' @
     ''ERRABLELSEXCLUDELETEMPORARYISNULLSAVEPOINTERSECTIESNOTNULLIKEXCEPTRANSAC'' @
     ''TIONATURALTERAISEXCLUSIVEXISTSCONSTRAINTOFFSETRIGGERANGENERATEDETACHAVIN'' @
     ''GLOBEGINNEREFERENCESUNIQUERYWITHOUTERELEASEATTACHBETWEENOTHINGROUPSCASCA'' @
     ''DEFAULTCASECOLLATECREATECURRENT_DATEIMMEDIATEJOINSERTMATCHPLANALYZEPRAGM'' @
     ''ATERIALIZEDEFERREDISTINCTUPDATEVALUESVIRTUALWAYSWHENWHERECURSIVEABORTAFT'' @
     ''ERENAMEANDROPARTITIONAUTOINCREMENTCASTCOLUMNCOMMITCONFLICTCROSSCURRENT_T'' @
     ''IMESTAMPRECEDINGFAILASTFILTEREPLACEFIRSTFOLLOWINGFROMFULLIMITIFORDERESTR'' @
     ''ICTOTHERSOVERETURNINGRIGHTROLLBACKROWSUNBOUNDEDUNIONUSINGVACUUMVIEWINDOW'' @
     ''BYINITIALLYPRIMARY''"

definition zKWText :: "u8 list" where
  "zKWText = ascii zKWString"

definition aKWHash :: "nat list" where
  "aKWHash = [
     84, 92, 134, 82, 105, 29, 0, 0, 94, 0, 85, 72, 0, 53, 35, 86, 15, 0, 42, 97, 54, 89, 135,
     19, 0, 0, 140, 0, 40, 129, 0, 22, 107, 0, 9, 0, 0, 123, 80, 0, 78, 6, 0, 65, 103, 147, 0,
     136, 115, 0, 0, 48, 0, 90, 24, 0, 17, 0, 27, 70, 23, 26, 5, 60, 142, 110, 122, 0, 73, 91,
     71, 145, 61, 120, 74, 0, 49, 0, 11, 41, 0, 113, 0, 0, 0, 109, 10, 111, 116, 125, 14, 50,
     124, 0, 100, 0, 18, 121, 144, 56, 130, 139, 88, 83, 37, 30, 126, 0, 0, 108, 51, 131, 128,
     0, 34, 0, 0, 132, 0, 98, 38, 39, 0, 20, 45, 117, 93]"

definition aKWNext :: "nat list" where
  "aKWNext = [
     0, 0, 0, 0, 0, 4, 0, 43, 0, 0, 106, 114, 0, 0, 0, 2, 0, 0, 143, 0, 0, 0, 13, 0, 0, 0, 0,
     141, 0, 0, 119, 52, 0, 0, 137, 12, 0, 0, 62, 0, 138, 0, 133, 0, 0, 36, 0, 0, 28, 77, 0, 0,
     0, 0, 59, 0, 47, 0, 0, 0, 0, 0, 0, 0, 0, 0, 0, 69, 0, 0, 0, 0, 0, 146, 3, 0, 58, 0, 1, 75,
     0, 0, 0, 31, 0, 0, 0, 0, 0, 127, 0, 104, 0, 64, 66, 63, 0, 0, 0, 0, 0, 46, 0, 16, 8, 0, 0,
     0, 0, 0, 0, 0, 0, 0, 0, 81, 101, 0, 112, 21, 7, 67, 0, 79, 96, 118, 0, 0, 68, 0, 0, 99,
     44, 0, 55, 0, 76, 0, 95, 32, 33, 57, 25, 0, 102, 0, 0, 87]"

definition aKWLen :: "nat list" where
  "aKWLen = [
     0, 7, 7, 5, 4, 6, 4, 5, 3, 6, 7, 3, 6, 6, 7, 7, 3, 8, 2, 6, 5, 4, 4, 3, 10, 4, 7, 6, 9, 4,
     2, 6, 5, 9, 9, 4, 7, 3, 2, 4, 4, 6, 11, 6, 2, 7, 5, 5, 9, 6, 10, 4, 6, 2, 3, 7, 5, 9, 6,
     6, 4, 5, 5, 10, 6, 5, 7, 4, 5, 7, 6, 7, 7, 6, 5, 7, 3, 7, 4, 7, 6, 12, 9, 4, 6, 5, 4, 7,
     6, 12, 8, 8, 2, 6, 6, 7, 6, 4, 5, 9, 5, 5, 6, 3, 4, 9, 13, 2, 2, 4, 6, 6, 8, 5, 17, 12, 7,
     9, 4, 4, 6, 7, 5, 9, 4, 4, 5, 2, 5, 8, 6, 4, 9, 5, 8, 4, 3, 9, 5, 5, 6, 4, 6, 2, 2, 9, 3,
     7]"

definition aKWOffset :: "nat list" where
  "aKWOffset = [
     0, 0, 2, 2, 8, 9, 14, 16, 20, 23, 25, 25, 29, 33, 36, 41, 46, 48, 53, 54, 59, 62, 65, 67,
     69, 78, 81, 86, 90, 90, 94, 99, 101, 105, 111, 119, 123, 123, 123, 126, 129, 132, 137,
     142, 146, 147, 152, 156, 160, 168, 174, 181, 184, 184, 187, 189, 195, 198, 206, 211, 216,
     219, 222, 226, 236, 239, 244, 244, 248, 252, 259, 265, 271, 277, 277, 283, 284, 288, 295,
     299, 306, 312, 324, 333, 335, 341, 346, 348, 355, 359, 370, 377, 378, 385, 391, 397, 402,
     408, 412, 415, 424, 429, 433, 439, 441, 444, 453, 455, 457, 466, 470, 476, 482, 490, 495,
     495, 495, 511, 520, 523, 527, 532, 539, 544, 553, 557, 560, 565, 567, 571, 579, 585, 588,
     597, 602, 610, 610, 614, 623, 628, 633, 639, 642, 645, 648, 650, 655, 659]"

definition aKWCode :: "nat list" where
  "aKWCode = [
     0, TK_REINDEX, TK_INDEXED, TK_INDEX, TK_DESC, TK_ESCAPE, TK_EACH, TK_CHECK, TK_KEY,
     TK_BEFORE, TK_FOREIGN, TK_FOR, TK_IGNORE, TK_LIKE_KW, TK_EXPLAIN, TK_INSTEAD, TK_ADD,
     TK_DATABASE, TK_AS, TK_SELECT, TK_TABLE, TK_JOIN_KW, TK_THEN, TK_END, TK_DEFERRABLE,
     TK_ELSE, TK_EXCLUDE, TK_DELETE, TK_TEMP, TK_TEMP, TK_OR, TK_ISNULL, TK_NULLS,
     TK_SAVEPOINT, TK_INTERSECT, TK_TIES, TK_NOTNULL, TK_NOT, TK_NO, TK_NULL, TK_LIKE_KW,
     TK_EXCEPT, TK_TRANSACTION, TK_ACTION, TK_ON, TK_JOIN_KW, TK_ALTER, TK_RAISE, TK_EXCLUSIVE,
     TK_EXISTS, TK_CONSTRAINT, TK_INTO, TK_OFFSET, TK_OF, TK_SET, TK_TRIGGER, TK_RANGE,
     TK_GENERATED, TK_DETACH, TK_HAVING, TK_LIKE_KW, TK_BEGIN, TK_JOIN_KW, TK_REFERENCES,
     TK_UNIQUE, TK_QUERY, TK_WITHOUT, TK_WITH, TK_JOIN_KW, TK_RELEASE, TK_ATTACH, TK_BETWEEN,
     TK_NOTHING, TK_GROUPS, TK_GROUP, TK_CASCADE, TK_ASC, TK_DEFAULT, TK_CASE, TK_COLLATE,
     TK_CREATE, TK_CTIME_KW, TK_IMMEDIATE, TK_JOIN, TK_INSERT, TK_MATCH, TK_PLAN, TK_ANALYZE,
     TK_PRAGMA, TK_MATERIALIZED, TK_DEFERRED, TK_DISTINCT, TK_IS, TK_UPDATE, TK_VALUES,
     TK_VIRTUAL, TK_ALWAYS, TK_WHEN, TK_WHERE, TK_RECURSIVE, TK_ABORT, TK_AFTER, TK_RENAME,
     TK_AND, TK_DROP, TK_PARTITION, TK_AUTOINCR, TK_TO, TK_IN, TK_CAST, TK_COLUMNKW, TK_COMMIT,
     TK_CONFLICT, TK_JOIN_KW, TK_CTIME_KW, TK_CTIME_KW, TK_CURRENT, TK_PRECEDING, TK_FAIL,
     TK_LAST, TK_FILTER, TK_REPLACE, TK_FIRST, TK_FOLLOWING, TK_FROM, TK_JOIN_KW, TK_LIMIT,
     TK_IF, TK_ORDER, TK_RESTRICT, TK_OTHERS, TK_OVER, TK_RETURNING, TK_JOIN_KW, TK_ROLLBACK,
     TK_ROWS, TK_ROW, TK_UNBOUNDED, TK_UNION, TK_USING, TK_VACUUM, TK_VIEW, TK_WINDOW, TK_DO,
     TK_BY, TK_INITIALLY, TK_ALL, TK_PRIMARY]"

section \<open>Lookup\<close>

text \<open>The text of the \<open>i\<close>-th keyword.\<close>

definition kw_text :: "nat \<Rightarrow> u8 list" where
  "kw_text i = take (aKWLen ! i) (drop (aKWOffset ! i) zKWText)"

definition kw_hash :: "u8 list \<Rightarrow> nat" where
  "kw_hash z =
     ((unat (UpperToLower (hd z)) * 4) XOR (unat (UpperToLower (last z)) * 3) XOR length z) mod 127"

text \<open>
  The number of entries left on the collision chain from each entry.  It decreases along
  \<open>aKWNext\<close>, so the search ends; the bound 148 is the size of the arrays.
\<close>

definition kw_depths :: "nat list" where
  "kw_depths = [
     0, 1, 1, 1, 1, 2, 1, 2, 1, 1, 2, 2, 1, 1, 1, 2, 1, 1, 2, 1, 1, 1, 2, 1, 1, 1, 1, 3, 1, 1,
     3, 2, 1, 1, 2, 2, 1, 1, 2, 1, 4, 1, 2, 1, 1, 2, 1, 1, 2, 2, 1, 1, 1, 1, 2, 1, 2, 1, 1, 1,
     1, 1, 1, 1, 1, 1, 1, 2, 1, 1, 1, 1, 1, 2, 2, 1, 2, 1, 2, 2, 1, 1, 1, 3, 1, 1, 1, 1, 1, 2,
     1, 3, 1, 2, 2, 2, 1, 1, 1, 1, 1, 2, 1, 2, 2, 1, 1, 1, 1, 1, 1, 1, 1, 1, 1, 2, 3, 1, 2, 2,
     3, 3, 1, 3, 2, 3, 1, 1, 2, 1, 1, 2, 2, 1, 2, 1, 3, 1, 3, 2, 2, 2, 2, 1, 2, 1, 1, 2]"

lemma aKWNext_depths:
  "list_all (\<lambda>(d, i). i < 148 \<and> kw_depths ! i < d) (zip (tl kw_depths) (tl aKWNext))"
  by code_simp

lemma kw_lengths:
  "length kw_depths = 148" "length aKWNext = 148" "length aKWLen = 148" "length aKWOffset = 148"
  "length aKWCode = 148" "length aKWHash = 127"
  by (simp_all add: kw_depths_def aKWNext_def aKWLen_def aKWOffset_def aKWCode_def aKWHash_def)

lemma aKWNext_depth:
  assumes "0 < i" "i < 148"
  shows "aKWNext ! i < 148 \<and> kw_depths ! (aKWNext ! i) < kw_depths ! i"
proof -
  obtain k where k: "i = Suc k" "k < 147" using assms by (cases i) auto
  have "(tl kw_depths ! k, tl aKWNext ! k) \<in> set (zip (tl kw_depths) (tl aKWNext))"
    using k by (simp add: set_zip kw_lengths) blast
  then show ?thesis
    using aKWNext_depths k by (auto simp: list_all_iff nth_tl kw_lengths)
qed

text \<open>
  The loop of \<open>keywordCode\<close>: an entry matches when it has the length of \<open>z\<close> and every byte of
  \<open>z\<close>, with bit 5 cleared, is that of the keyword.
\<close>

function kw_search :: "u8 list \<Rightarrow> nat \<Rightarrow> nat \<Rightarrow> nat" where
  "kw_search z i t =
     (if 0 < i \<and> i < 148 then
        (if aKWLen ! i = length z \<and>
            list_all (\<lambda>j. z ! j AND NOT 0x20 = zKWText ! (aKWOffset ! i + j)) [0..<length z]
         then aKWCode ! i
         else kw_search z (aKWNext ! i) t)
      else t)"
  by pat_completeness auto
termination
  by (relation "measure (\<lambda>(z, i, t). kw_depths ! i)") (use aKWNext_depth in auto)

declare kw_search.simps [simp del]

text \<open>\<open>keywordCode(z, n, pType)\<close> for the \<open>n\<close> bytes \<open>z\<close>, with \<open>t\<close> the initial value of \<open>*pType\<close>.\<close>

definition keywordCode :: "u8 list \<Rightarrow> nat \<Rightarrow> nat" where
  "keywordCode z t = kw_search z (aKWHash ! kw_hash z) t"

definition sqlite3KeywordCode :: "u8 list \<Rightarrow> nat" where
  "sqlite3KeywordCode z = (if length z \<ge> 2 then keywordCode z TK_ID else TK_ID)"

definition sqlite3_keyword_name :: "int \<Rightarrow> (u8 list) option" where
  "sqlite3_keyword_name i = (if i < 0 \<or> i \<ge> 147 then None else Some (kw_text (nat (i + 1))))"

definition sqlite3_keyword_count :: nat where
  "sqlite3_keyword_count = 147"

definition sqlite3_keyword_check :: "u8 list \<Rightarrow> bool" where
  "sqlite3_keyword_check z \<longleftrightarrow> TK_ID \<noteq> sqlite3KeywordCode z"

section \<open>The keywords\<close>

definition kw_list :: "(string \<times> nat) list" where
  "kw_list = [
     (''REINDEX'', TK_REINDEX), (''INDEXED'', TK_INDEXED), (''INDEX'', TK_INDEX),
     (''DESC'', TK_DESC), (''ESCAPE'', TK_ESCAPE), (''EACH'', TK_EACH), (''CHECK'', TK_CHECK),
     (''KEY'', TK_KEY), (''BEFORE'', TK_BEFORE), (''FOREIGN'', TK_FOREIGN), (''FOR'', TK_FOR),
     (''IGNORE'', TK_IGNORE), (''REGEXP'', TK_LIKE_KW), (''EXPLAIN'', TK_EXPLAIN),
     (''INSTEAD'', TK_INSTEAD), (''ADD'', TK_ADD), (''DATABASE'', TK_DATABASE),
     (''AS'', TK_AS), (''SELECT'', TK_SELECT), (''TABLE'', TK_TABLE), (''LEFT'', TK_JOIN_KW),
     (''THEN'', TK_THEN), (''END'', TK_END), (''DEFERRABLE'', TK_DEFERRABLE),
     (''ELSE'', TK_ELSE), (''EXCLUDE'', TK_EXCLUDE), (''DELETE'', TK_DELETE),
     (''TEMPORARY'', TK_TEMP), (''TEMP'', TK_TEMP), (''OR'', TK_OR), (''ISNULL'', TK_ISNULL),
     (''NULLS'', TK_NULLS), (''SAVEPOINT'', TK_SAVEPOINT), (''INTERSECT'', TK_INTERSECT),
     (''TIES'', TK_TIES), (''NOTNULL'', TK_NOTNULL), (''NOT'', TK_NOT), (''NO'', TK_NO),
     (''NULL'', TK_NULL), (''LIKE'', TK_LIKE_KW), (''EXCEPT'', TK_EXCEPT),
     (''TRANSACTION'', TK_TRANSACTION), (''ACTION'', TK_ACTION), (''ON'', TK_ON),
     (''NATURAL'', TK_JOIN_KW), (''ALTER'', TK_ALTER), (''RAISE'', TK_RAISE),
     (''EXCLUSIVE'', TK_EXCLUSIVE), (''EXISTS'', TK_EXISTS), (''CONSTRAINT'', TK_CONSTRAINT),
     (''INTO'', TK_INTO), (''OFFSET'', TK_OFFSET), (''OF'', TK_OF), (''SET'', TK_SET),
     (''TRIGGER'', TK_TRIGGER), (''RANGE'', TK_RANGE), (''GENERATED'', TK_GENERATED),
     (''DETACH'', TK_DETACH), (''HAVING'', TK_HAVING), (''GLOB'', TK_LIKE_KW),
     (''BEGIN'', TK_BEGIN), (''INNER'', TK_JOIN_KW), (''REFERENCES'', TK_REFERENCES),
     (''UNIQUE'', TK_UNIQUE), (''QUERY'', TK_QUERY), (''WITHOUT'', TK_WITHOUT),
     (''WITH'', TK_WITH), (''OUTER'', TK_JOIN_KW), (''RELEASE'', TK_RELEASE),
     (''ATTACH'', TK_ATTACH), (''BETWEEN'', TK_BETWEEN), (''NOTHING'', TK_NOTHING),
     (''GROUPS'', TK_GROUPS), (''GROUP'', TK_GROUP), (''CASCADE'', TK_CASCADE),
     (''ASC'', TK_ASC), (''DEFAULT'', TK_DEFAULT), (''CASE'', TK_CASE),
     (''COLLATE'', TK_COLLATE), (''CREATE'', TK_CREATE), (''CURRENT_DATE'', TK_CTIME_KW),
     (''IMMEDIATE'', TK_IMMEDIATE), (''JOIN'', TK_JOIN), (''INSERT'', TK_INSERT),
     (''MATCH'', TK_MATCH), (''PLAN'', TK_PLAN), (''ANALYZE'', TK_ANALYZE),
     (''PRAGMA'', TK_PRAGMA), (''MATERIALIZED'', TK_MATERIALIZED), (''DEFERRED'', TK_DEFERRED),
     (''DISTINCT'', TK_DISTINCT), (''IS'', TK_IS), (''UPDATE'', TK_UPDATE),
     (''VALUES'', TK_VALUES), (''VIRTUAL'', TK_VIRTUAL), (''ALWAYS'', TK_ALWAYS),
     (''WHEN'', TK_WHEN), (''WHERE'', TK_WHERE), (''RECURSIVE'', TK_RECURSIVE),
     (''ABORT'', TK_ABORT), (''AFTER'', TK_AFTER), (''RENAME'', TK_RENAME), (''AND'', TK_AND),
     (''DROP'', TK_DROP), (''PARTITION'', TK_PARTITION), (''AUTOINCREMENT'', TK_AUTOINCR),
     (''TO'', TK_TO), (''IN'', TK_IN), (''CAST'', TK_CAST), (''COLUMN'', TK_COLUMNKW),
     (''COMMIT'', TK_COMMIT), (''CONFLICT'', TK_CONFLICT), (''CROSS'', TK_JOIN_KW),
     (''CURRENT_TIMESTAMP'', TK_CTIME_KW), (''CURRENT_TIME'', TK_CTIME_KW),
     (''CURRENT'', TK_CURRENT), (''PRECEDING'', TK_PRECEDING), (''FAIL'', TK_FAIL),
     (''LAST'', TK_LAST), (''FILTER'', TK_FILTER), (''REPLACE'', TK_REPLACE),
     (''FIRST'', TK_FIRST), (''FOLLOWING'', TK_FOLLOWING), (''FROM'', TK_FROM),
     (''FULL'', TK_JOIN_KW), (''LIMIT'', TK_LIMIT), (''IF'', TK_IF), (''ORDER'', TK_ORDER),
     (''RESTRICT'', TK_RESTRICT), (''OTHERS'', TK_OTHERS), (''OVER'', TK_OVER),
     (''RETURNING'', TK_RETURNING), (''RIGHT'', TK_JOIN_KW), (''ROLLBACK'', TK_ROLLBACK),
     (''ROWS'', TK_ROWS), (''ROW'', TK_ROW), (''UNBOUNDED'', TK_UNBOUNDED),
     (''UNION'', TK_UNION), (''USING'', TK_USING), (''VACUUM'', TK_VACUUM),
     (''VIEW'', TK_VIEW), (''WINDOW'', TK_WINDOW), (''DO'', TK_DO), (''BY'', TK_BY),
     (''INITIALLY'', TK_INITIALLY), (''ALL'', TK_ALL), (''PRIMARY'', TK_PRIMARY)]"

section \<open>The tables hold the keywords\<close>

definition kw_gaps :: "nat list" where
  "kw_gaps = [
     0, 2, 0, 6, 1, 5, 2, 4, 3, 2, 0, 4, 4, 3, 5, 5, 2, 5, 1, 5, 3, 3, 2, 2, 9, 3, 5, 4, 0, 4,
     5, 2, 4, 6, 8, 4, 0, 0, 3, 3, 3, 5, 5, 4, 1, 5, 4, 4, 8, 6, 7, 3, 0, 3, 2, 6, 3, 8, 5, 5,
     3, 3, 4, 10, 3, 5, 0, 4, 4, 7, 6, 6, 6, 0, 6, 1, 4, 7, 4, 7, 6, 12, 9, 2, 6, 5, 2, 7, 4,
     11, 7, 1, 7, 6, 6, 5, 6, 4, 3, 9, 5, 4, 6, 2, 3, 9, 2, 2, 9, 4, 6, 6, 8, 5, 0, 0, 16, 9,
     3, 4, 5, 7, 5, 9, 4, 3, 5, 2, 4, 8, 6, 3, 9, 5, 8, 0, 4, 9, 5, 5, 6, 3, 3, 3, 2, 5, 4]"

fun kw_offsets :: "nat \<Rightarrow> nat list \<Rightarrow> nat list" where
  "kw_offsets p [] = []"
| "kw_offsets p (g # gs) = (p + g) # kw_offsets (p + g) gs"

fun kw_slices :: "string \<Rightarrow> nat list \<Rightarrow> nat list \<Rightarrow> string list" where
  "kw_slices s (n # ns) (g # gs) = (let s' = drop g s in take n s' # kw_slices s' ns gs)"
| "kw_slices s _ _ = []"

lemma kw_slices_offsets:
  "map (\<lambda>(n, k). take n (drop k s)) (zip ns (kw_offsets p gs)) = kw_slices (drop p s) ns gs"
proof (induction ns arbitrary: p gs)
  case (Cons n ns)
  then show ?case by (cases gs) (simp_all add: Let_def add.commute)
qed simp

lemma kw_offsets: "kw_offsets 0 kw_gaps = tl aKWOffset"
  by (simp add: kw_gaps_def aKWOffset_def)

lemma kw_strings: "kw_slices zKWString (tl aKWLen) kw_gaps = map fst kw_list"
  by code_simp

definition kw_hash_upper :: "string \<Rightarrow> int" where
  "kw_hash_upper w =
     (((of_char (hd w) + 32) * 4) XOR ((of_char (last w) + 32) * 3) XOR int (length w)) mod 127"

definition kw_hashes :: "int list" where
  "kw_hashes = [
     40, 16, 74, 62, 62, 41, 73, 69, 34, 86, 78, 14, 31, 90, 16, 44, 56, 96, 23, 123, 105, 31,
     60, 54, 64, 61, 58, 51, 5, 105, 103, 101, 26, 114, 14, 124, 104, 120, 121, 28, 79, 18, 73,
     117, 124, 88, 99, 51, 76, 91, 110, 103, 13, 20, 2, 99, 58, 47, 20, 63, 72, 120, 28, 126,
     43, 8, 97, 112, 97, 59, 70, 11, 68, 74, 37, 47, 76, 40, 37, 38, 48, 3, 103, 0, 10, 15, 45,
     102, 21, 53, 69, 1, 126, 8, 28, 92, 19, 119, 111, 94, 88, 98, 44, 69, 4, 86, 32, 109, 85,
     65, 87, 89, 81, 78, 48, 88, 125, 89, 105, 73, 97, 66, 37, 92, 89, 106, 21, 112, 29, 100,
     111, 117, 18, 2, 22, 47, 114, 28, 101, 26, 58, 64, 96, 98, 71, 68, 45]"

lemma kw_hashes: "map (kw_hash_upper \<circ> fst) kw_list = kw_hashes"
  by code_simp

fun kw_chain :: "nat \<Rightarrow> nat \<Rightarrow> nat list" where
  "kw_chain 0 i = []"
| "kw_chain (Suc k) i = (if i = 0 then [] else i # kw_chain k (aKWNext ! i))"

lemma kw_chains: "list_all (\<lambda>(i, h). i \<in> set (kw_chain 4 (aKWHash ! nat h))) (zip [1..<148] kw_hashes)"
  by code_simp

lemma kw_list_shape:
  "list_all (\<lambda>(w, t). 2 \<le> length w \<and> hd w \<in> set ''ABCDEFGHIJKLMNOPQRSTUVWXYZ'' \<and> last w \<in> set ''ABCDEFGHIJKLMNOPQRSTUVWXYZ'') kw_list"
  by code_simp

lemma kw_codes: "tl aKWCode = map snd kw_list"
  by (simp add: aKWCode_def kw_list_def)

lemma kw_distinct: "distinct (map fst kw_list)"
  by code_simp

lemma kw_hash_bounds: "list_all (\<lambda>h. 0 \<le> h \<and> h < 127) kw_hashes"
  by code_simp

lemma length_kw_list [simp]: "length kw_list = 147"
  by (simp add: kw_list_def)

lemma kw_list_lengths: "map (length \<circ> fst) kw_list = tl aKWLen"
  by (simp add: kw_list_def aKWLen_def)

lemma kw_entry_string:
  assumes "0 < i" "i < 148"
  shows "take (aKWLen ! i) (drop (aKWOffset ! i) zKWString) = fst (kw_list ! (i - 1))"
    and "aKWLen ! i = length (fst (kw_list ! (i - 1)))"
    and "aKWCode ! i = snd (kw_list ! (i - 1))"
proof -
  obtain k where k: "i = Suc k" "k < 147" using assms by (cases i) auto
  have "map (\<lambda>(n, k). take n (drop k zKWString)) (zip (tl aKWLen) (tl aKWOffset)) = map fst kw_list"
    using kw_slices_offsets [of zKWString "tl aKWLen" 0 kw_gaps] kw_strings
    by (simp only: kw_offsets drop0)
  from arg_cong [OF this, of "\<lambda>xs. xs ! k"]
  show "take (aKWLen ! i) (drop (aKWOffset ! i) zKWString) = fst (kw_list ! (i - 1))"
    using k by (simp add: kw_lengths nth_tl)
  show "aKWLen ! i = length (fst (kw_list ! (i - 1)))"
    using arg_cong [OF kw_list_lengths, of "\<lambda>xs. xs ! k"] k by (simp add: kw_lengths nth_tl)
  show "aKWCode ! i = snd (kw_list ! (i - 1))"
    using arg_cong [OF kw_codes, of "\<lambda>xs. xs ! k"] k by (simp add: kw_lengths nth_tl)
qed

lemma kw_entry:
  assumes "0 < i" "i < 148"
  shows "kw_text i = ascii (fst (kw_list ! (i - 1)))"
    and "aKWOffset ! i + aKWLen ! i \<le> length zKWText"
proof -
  note e = kw_entry_string [OF assms]
  show "kw_text i = ascii (fst (kw_list ! (i - 1)))"
    using e(1) by (simp add: kw_text_def zKWText_def ascii_def drop_map take_map)
  have "kw_list ! (i - 1) \<in> set kw_list" using assms by (intro nth_mem) simp
  then have "2 \<le> aKWLen ! i" unfolding e(2) using kw_list_shape by (auto simp: list_all_iff)
  moreover have "min (length zKWString - aKWOffset ! i) (aKWLen ! i) = aKWLen ! i"
    using arg_cong [OF e(1), of length] e(2) by simp
  ultimately show "aKWOffset ! i + aKWLen ! i \<le> length zKWText"
    by (simp add: zKWText_def ascii_def)
qed

text \<open>Clearing bit 5 is folding to upper case, as far as the keyword text is concerned.\<close>

definition fold_case :: "u8 list \<Rightarrow> u8 list" where
  "fold_case z = map (\<lambda>c. c AND NOT 0x20) z"

lemma length_fold_case [simp]: "length (fold_case z) = length z"
  by (simp add: fold_case_def)

lemma kw_match_iff:
  assumes "0 < i" "i < 148"
  shows "aKWLen ! i = length z \<and>
      list_all (\<lambda>j. z ! j AND NOT 0x20 = zKWText ! (aKWOffset ! i + j)) [0..<length z] \<longleftrightarrow>
    fold_case z = kw_text i"
proof -
  have l: "length (kw_text i) = aKWLen ! i" using kw_entry(2) [OF assms] by (simp add: kw_text_def)
  show ?thesis
  proof (cases "aKWLen ! i = length z")
    case True
    then have "fold_case z = kw_text i \<longleftrightarrow> (\<forall>j<length z. fold_case z ! j = kw_text i ! j)"
      using l by (simp add: list_eq_iff_nth_eq)
    also have "\<dots> \<longleftrightarrow> (\<forall>j<length z. z ! j AND NOT 0x20 = zKWText ! (aKWOffset ! i + j))"
      using True kw_entry(2) [OF assms] by (simp add: fold_case_def kw_text_def)
    finally show ?thesis using True by (auto simp: list_all_iff)
  next
    case False
    then show ?thesis using l length_fold_case [of z] by metis
  qed
qed

lemma bit_horner_u8:
  "length bs = 8 \<Longrightarrow> bit (horner_sum of_bool 2 bs :: u8) k \<longleftrightarrow> bit (horner_sum of_bool 2 bs :: nat) k"
  by (auto simp: bit_horner_sum_bit_iff)

lemma bit_of_char: "bit (of_char c :: u8) k \<longleftrightarrow> bit (of_char c :: nat) k"
  by (cases c) (simp only: of_char_Char, rule bit_horner_u8, simp)

lemma unat_of_char: "unat (of_char c :: u8) = of_char c"
  by (rule bit_eqI) (auto simp: bit_of_char bit_unsigned_iff)

lemma ascii_inj: "ascii v = ascii w \<longleftrightarrow> v = w"
proof -
  have "inj (of_char :: char \<Rightarrow> u8)"
    by (rule injI) (metis unat_of_char of_char_eq_iff)
  then show ?thesis unfolding ascii_def by (rule inj_map_eq_map)
qed

text \<open>The hash of a spelling of a keyword is the hash of the keyword.\<close>

lemma lower_of_folded:
  assumes "c AND NOT 0x20 = of_char k" and "k \<in> set ''ABCDEFGHIJKLMNOPQRSTUVWXYZ''"
  shows "unat (UpperToLower c) = of_char k + 32"
proof -
  have "c AND NOT 0x20 = d \<Longrightarrow> c = d \<or> c = d OR 0x20" for d
    by (auto simp: u8_eq_bits bitblast bit_simps)
  from this [OF assms(1)] consider "c = of_char k" | "c = of_char k OR 0x20" by blast
  then show ?thesis
  proof cases
    case 1
    then show ?thesis using assms(2) by (auto simp: unat_UpperToLower unat_of_char)
  next
    case 2
    then show ?thesis using assms(2) by (auto simp: unat_UpperToLower)
  qed
qed

lemma kw_hash_folded:
  assumes "fold_case z = ascii w" and "(w, t) \<in> set kw_list"
  shows "int (kw_hash z) = kw_hash_upper w"
proof -
  have w: "2 \<le> length w" "hd w \<in> set ''ABCDEFGHIJKLMNOPQRSTUVWXYZ''" "last w \<in> set ''ABCDEFGHIJKLMNOPQRSTUVWXYZ''"
    using kw_list_shape assms(2) by (auto simp: list_all_iff)
  have len: "length z = length w" using arg_cong [OF assms(1), of length] by (simp add: ascii_def)
  have ne: "z \<noteq> []" "w \<noteq> []" using w(1) len by auto
  have "hd z AND NOT 0x20 = of_char (hd w)" "last z AND NOT 0x20 = of_char (last w)"
    using arg_cong [OF assms(1), of hd] arg_cong [OF assms(1), of last] ne
    by (simp_all add: fold_case_def ascii_def hd_map last_map)
  from lower_of_folded [OF this(1) w(2)] lower_of_folded [OF this(2) w(3)] show ?thesis
    by (simp add: kw_hash_def kw_hash_upper_def len of_nat_mod of_nat_xor_eq of_nat_of_char)
qed


section \<open>The search\<close>

lemma kw_text_inj: "0 < i \<Longrightarrow> i < 148 \<Longrightarrow> 0 < j \<Longrightarrow> j < 148 \<Longrightarrow> kw_text i = kw_text j \<Longrightarrow> i = j"
proof -
  assume ij: "0 < i" "i < 148" "0 < j" "j < 148" and "kw_text i = kw_text j"
  then have "map fst kw_list ! (i - 1) = map fst kw_list ! (j - 1)" by (simp add: kw_entry(1) ascii_inj)
  then have "i - 1 = j - 1" using nth_eq_iff_index_eq [OF kw_distinct, of "i - 1" "j - 1"] ij by simp
  then show "i = j" using ij by linarith
qed

lemma kw_search_step:
  assumes "0 < i" "i < 148"
  shows "kw_search z i t = (if fold_case z = kw_text i then aKWCode ! i else kw_search z (aKWNext ! i) t)"
proof -
  have "kw_search z i t = (if 0 < i \<and> i < 148 then
      (if fold_case z = kw_text i then aKWCode ! i else kw_search z (aKWNext ! i) t) else t)"
    unfolding kw_match_iff [OF assms, symmetric] by (rule kw_search.simps)
  then show ?thesis using assms by (simp only: simp_thms if_True)
qed

lemma kw_search_miss:
  assumes "\<And>i. 0 < i \<Longrightarrow> i < 148 \<Longrightarrow> fold_case z \<noteq> kw_text i"
  shows "kw_search z i t = t"
  using assms
proof (induction z i t rule: kw_search.induct)
  case (1 z i t)
  show ?case
  proof (cases "0 < i \<and> i < 148")
    case True
    then have "kw_search z i t = kw_search z (aKWNext ! i) t"
      using "1.prems" [of i] kw_search_step [of i z t] by simp
    also have "\<dots> = t"
    proof (rule "1.IH" [OF True])
      show "\<not> (aKWLen ! i = length z \<and>
          list_all (\<lambda>j. z ! j AND NOT 0x20 = zKWText ! (aKWOffset ! i + j)) [0..<length z])"
        using kw_match_iff [of i z] "1.prems" [of i] True by blast
    qed (rule "1.prems")
    finally show ?thesis .
  qed (use kw_search.simps [of z i t] in auto)
qed

lemma kw_search_hit:
  assumes "fold_case z = kw_text i" "0 < i" "i < 148" "i \<in> set (kw_chain k j)" "j < 148"
  shows "kw_search z j t = aKWCode ! i"
  using assms(4,5)
proof (induction k j rule: kw_chain.induct)
  case (2 k j)
  then have j: "0 < j" "j < 148" by (auto split: if_splits)
  show ?case
  proof (cases "j = i")
    case True
    then show ?thesis using assms(1) kw_search_step [OF j, of z t] by simp
  next
    case False
    then have "fold_case z \<noteq> kw_text j" using kw_text_inj [of i j] assms(1-3) j by auto
    then have "kw_search z j t = kw_search z (aKWNext ! j) t"
      using kw_search_step [OF j, of z t] by simp
    also have "\<dots> = aKWCode ! i"
      using "2.IH" "2.prems" j False aKWNext_depth [OF j] by simp
    finally show ?thesis .
  qed
qed simp

lemma in_set_zip_nth: "k < length xs \<Longrightarrow> k < length ys \<Longrightarrow> (xs ! k, ys ! k) \<in> set (zip xs ys)"
  by (auto simp: set_zip)

text \<open>A keyword is on the chain of its bucket.\<close>

lemma kw_on_chain:
  assumes "0 < i" "i < 148" "fold_case z = kw_text i"
  shows "i \<in> set (kw_chain 4 (aKWHash ! kw_hash z)) \<and> aKWHash ! kw_hash z < 148"
proof -
  let ?e = "kw_list ! (i - 1)"
  have "?e \<in> set kw_list" using assms by (intro nth_mem) simp
  then have h: "int (kw_hash z) = kw_hash_upper (fst ?e)"
    using kw_hash_folded [of z "fst ?e" "snd ?e"] assms by (simp add: kw_entry(1))
  have "kw_hash_upper (fst ?e) = kw_hashes ! (i - 1)"
    using arg_cong [OF kw_hashes, of "\<lambda>xs. xs ! (i - 1)"] assms by simp
  then have n: "kw_hash z = nat (kw_hashes ! (i - 1))" using h by linarith
  have "length kw_hashes = 147" using arg_cong [OF kw_hashes, of length] by simp
  then have "([1..<148] ! (i - 1), kw_hashes ! (i - 1)) \<in> set (zip [1..<148] kw_hashes)"
    using assms by (intro in_set_zip_nth) (simp_all del: upt_rec_numeral)
  moreover have "[1..<148] ! (i - 1) = i" using assms by (simp del: upt_rec_numeral)
  ultimately have c: "i \<in> set (kw_chain 4 (aKWHash ! kw_hash z))"
    using kw_chains unfolding n list_all_iff by fastforce
  have "kw_hash z < 127" by (simp add: kw_hash_def)
  then have "aKWHash ! kw_hash z \<in> set aKWHash" by (intro nth_mem) (simp add: kw_lengths)
  then have "aKWHash ! kw_hash z < 148" by (auto simp: aKWHash_def)
  with c show ?thesis by simp
qed

definition kw_lookup :: "u8 list \<Rightarrow> nat option" where
  "kw_lookup z = map_of (map (\<lambda>(w, t). (ascii w, t)) kw_list) (fold_case z)"

lemma kw_lookup_Some:
  assumes "0 < i" "i < 148" "fold_case z = kw_text i"
  shows "kw_lookup z = Some (aKWCode ! i)"
proof -
  let ?l = "map (\<lambda>(w, t). (ascii w, t)) kw_list"
  have "distinct (map fst ?l)"
    using kw_distinct by (auto simp: distinct_map comp_def case_prod_unfold inj_on_def ascii_inj)
  moreover have "?l ! (i - 1) = (kw_text i, aKWCode ! i)"
    using assms by (simp add: kw_entry(1) kw_entry_string(3) case_prod_unfold)
  then have "(kw_text i, aKWCode ! i) \<in> set ?l"
    using nth_mem [of "i - 1" ?l] assms by simp
  ultimately show ?thesis using assms(3) by (simp add: kw_lookup_def map_of_is_SomeI)
qed

lemma kw_lookup_None:
  assumes "kw_lookup z \<noteq> None"
  shows "\<exists>i. 0 < i \<and> i < 148 \<and> fold_case z = kw_text i"
proof -
  let ?l = "map (\<lambda>(w, t). (ascii w, t)) kw_list"
  have "fold_case z \<in> fst ` set ?l" using assms by (simp add: kw_lookup_def map_of_eq_None_iff)
  then obtain k where k: "k < 147" "fold_case z = fst (?l ! k)" by (auto simp: in_set_conv_nth)
  then have "fold_case z = kw_text (Suc k)" by (simp add: kw_entry(1) case_prod_unfold)
  with k(1) show ?thesis by (intro exI [of _ "Suc k"]) simp
qed

lemma keywordCode_lookup: "keywordCode z t = (case kw_lookup z of Some c \<Rightarrow> c | None \<Rightarrow> t)"
proof (cases "kw_lookup z = None")
  case False
  then obtain i where i: "0 < i" "i < 148" "fold_case z = kw_text i" using kw_lookup_None by blast
  have "kw_search z (aKWHash ! kw_hash z) t = aKWCode ! i"
    using kw_on_chain [OF i] kw_search_hit [OF i(3,1,2)] by blast
  with kw_lookup_Some [OF i] show ?thesis by (simp add: keywordCode_def)
next
  case True
  then have "kw_search z (aKWHash ! kw_hash z) t = t"
    by (intro kw_search_miss) (auto dest: kw_lookup_Some)
  with True show ?thesis by (simp add: keywordCode_def)
qed

lemma kw_lookup_short: "length z < 2 \<Longrightarrow> kw_lookup z = None"
proof (rule ccontr)
  assume z: "length z < 2" "kw_lookup z \<noteq> None"
  then obtain i where i: "0 < i" "i < 148" "fold_case z = kw_text i" using kw_lookup_None by blast
  have "length z = length (fst (kw_list ! (i - 1)))"
    using i(1,2) arg_cong [OF i(3), of length] by (simp add: kw_entry(1) ascii_def)
  moreover have "kw_list ! (i - 1) \<in> set kw_list" using i by (intro nth_mem) simp
  ultimately show False using z(1) kw_list_shape by (auto simp: list_all_iff)
qed

lemma keywordCode_all: "sqlite3KeywordCode z = (case kw_lookup z of Some t \<Rightarrow> t | None \<Rightarrow> TK_ID)"
  using keywordCode_lookup [of z TK_ID] kw_lookup_short [of z]
  by (cases "2 \<le> length z") (simp_all add: sqlite3KeywordCode_def)

lemma kw_no_id: "TK_ID \<notin> set aKWCode"
  by (simp add: aKWCode_def)

lemma keyword_check_lookup: "sqlite3_keyword_check z \<longleftrightarrow> kw_lookup z \<noteq> None"
proof (cases "kw_lookup z = None")
  case True
  then show ?thesis by (simp add: sqlite3_keyword_check_def keywordCode_all)
next
  case False
  then obtain i where i: "0 < i" "i < 148" "fold_case z = kw_text i" using kw_lookup_None by blast
  then have "aKWCode ! i \<in> set aKWCode" by (intro nth_mem) (simp add: kw_lengths)
  then have "aKWCode ! i \<noteq> TK_ID" using kw_no_id by metis
  with kw_lookup_Some [OF i] show ?thesis by (simp add: sqlite3_keyword_check_def keywordCode_all)
qed

lemma keyword_check_text: "sqlite3_keyword_check z \<longleftrightarrow> (\<exists>i. 0 < i \<and> i < 148 \<and> fold_case z = kw_text i)"
  using kw_lookup_None kw_lookup_Some by (fastforce simp: keyword_check_lookup)

text \<open>Letters and the underscore, the only bytes of a word that the tokenizer looks up.\<close>

definition kw_byte :: "u8 \<Rightarrow> bool" where
  "kw_byte c \<longleftrightarrow> 65 \<le> unat c \<and> unat c \<le> 90 \<or> 97 \<le> unat c \<and> unat c \<le> 122 \<or> unat c = 95"

lemma fold_lower: "UpperToLower c AND NOT 0x20 = c AND NOT 0x20"
  "kw_byte c \<Longrightarrow> UpperToLower (c AND NOT 0x20) = UpperToLower c"
proof -
  have t: "list_all (\<lambda>n. let c = of_nat n :: u8 in UpperToLower c AND NOT 0x20 = c AND NOT 0x20 \<and>
      (kw_byte c \<longrightarrow> UpperToLower (c AND NOT 0x20) = UpperToLower c)) [0..<256]" by code_simp
  have "unat c < 256" using unsigned_less [of c, where 'a = nat] by simp
  then have "unat c \<in> set [0..<256]" by simp
  from bspec [OF t [unfolded list_all_iff] this] show "UpperToLower c AND NOT 0x20 = c AND NOT 0x20"
    "kw_byte c \<Longrightarrow> UpperToLower (c AND NOT 0x20) = UpperToLower c"
    by (simp_all add: Let_def)
qed

lemma kw_list_upper: "list_all (\<lambda>(w, t). fold_case (ascii w) = ascii w) kw_list"
  by code_simp

text \<open>On such bytes, clearing bit 5 is folding the case.\<close>

lemma fold_case_same_name:
  assumes "list_all kw_byte z" "(w, t) \<in> set kw_list"
  shows "fold_case z = ascii w \<longleftrightarrow> same_name z (ascii w)"
proof -
  have w: "fold_case (ascii w) = ascii w" using kw_list_upper assms(2) by (auto simp: list_all_iff)
  have l: "map UpperToLower (fold_case z) = map UpperToLower z"
    using assms(1) fold_lower(2) by (simp add: fold_case_def list_all_iff)
  have f: "fold_case (map UpperToLower x) = fold_case x" for x unfolding fold_case_def map_map comp_def fold_lower(1) ..
  show ?thesis unfolding same_name_def using w l f by metis
qed

lemma kw_lookup_in: "(w, t) \<in> set kw_list \<Longrightarrow> fold_case z = ascii w \<Longrightarrow> kw_lookup z = Some t"
proof -
  assume a: "(w, t) \<in> set kw_list" "fold_case z = ascii w"
  have "distinct (map fst (map (\<lambda>(w, t). (ascii w, t)) kw_list))"
    using kw_distinct by (auto simp: distinct_map comp_def case_prod_unfold inj_on_def ascii_inj)
  moreover have "(fold_case z, t) \<in> set (map (\<lambda>(w, t). (ascii w, t)) kw_list)" using a by force
  ultimately show ?thesis unfolding kw_lookup_def by (rule map_of_is_SomeI)
qed

lemma kw_lookup_not_in: "\<forall>(w, t) \<in> set kw_list. fold_case z \<noteq> ascii w \<Longrightarrow> kw_lookup z = None"
  unfolding kw_lookup_def by (force simp: map_of_eq_None_iff)

section \<open>Properties\<close>

text \<open>
  C12: keyword recognition is exact up to bit 5.  For any bytes, \<open>sqlite3KeywordCode\<close> returns the code
  of the keyword whose text the bytes are once bit 5 of each is cleared, and \<open>TK_ID\<close> when there is
  none; every search of a collision chain ends.  For words of letters and underscores, which are all
  that the tokenizer looks up, this is equality up to case: each of the 147 keywords is found in any
  mixture of cases, and no other such word is taken for a keyword.
\<close>

theorem keywordCode_exact:
  "sqlite3KeywordCode z =
     (case map_of (map (\<lambda>(w, t). (ascii w, t)) kw_list) (map (\<lambda>c. c AND NOT 0x20) z) of
        Some t \<Rightarrow> t | None \<Rightarrow> TK_ID) \<and>
   (list_all kw_byte z \<longrightarrow>
     (\<forall>(w, t) \<in> set kw_list. same_name z (ascii w) \<longrightarrow> sqlite3KeywordCode z = t) \<and>
     ((\<forall>(w, t) \<in> set kw_list. \<not> same_name z (ascii w)) \<longrightarrow> sqlite3KeywordCode z = TK_ID))"
proof (intro conjI impI)
  show "sqlite3KeywordCode z =
     (case map_of (map (\<lambda>(w, t). (ascii w, t)) kw_list) (map (\<lambda>c. c AND NOT 0x20) z) of Some t \<Rightarrow> t | None \<Rightarrow> TK_ID)"
    using keywordCode_all [of z] by (simp only: kw_lookup_def fold_case_def)
  assume z: "list_all kw_byte z"
  note same = fold_case_same_name [OF z]
  show "\<forall>(w, t) \<in> set kw_list. same_name z (ascii w) \<longrightarrow> sqlite3KeywordCode z = t"
    using kw_lookup_in [of _ _ z] same by (auto simp: keywordCode_all)
  assume "\<forall>(w, t) \<in> set kw_list. \<not> same_name z (ascii w)"
  then have "kw_lookup z = None" using same by (intro kw_lookup_not_in) blast
  then show "sqlite3KeywordCode z = TK_ID" by (simp add: keywordCode_all)
qed

theorem keywordCode_exact_witness:
  "sqlite3KeywordCode (ascii ''Current_dAte'') = TK_CTIME_KW \<and> sqlite3KeywordCode (ascii ''wine'') = TK_ID"
proof -
  have "list_all kw_byte (ascii ''Current_dAte'')" "list_all kw_byte (ascii ''wine'')"
    "(''CURRENT_DATE'', TK_CTIME_KW) \<in> set kw_list"
    "same_name (ascii ''Current_dAte'') (ascii ''CURRENT_DATE'')"
    "list_all (\<lambda>(w, t). \<not> same_name (ascii ''wine'') (ascii w)) kw_list" by code_simp+
  then show ?thesis
    using keywordCode_exact [of "ascii ''Current_dAte''"] keywordCode_exact [of "ascii ''wine''"]
    by (auto simp: list_all_iff)
qed

text \<open>
  C40: \<open>sqlite3_keyword_check\<close> recognizes every name that \<open>sqlite3_keyword_name\<close> enumerates, and only
  spellings of them: bytes that equal a keyword up to bit 5.
\<close>

theorem keyword_check_iff_name:
  "sqlite3_keyword_check z \<longleftrightarrow>
     (\<exists>i < int sqlite3_keyword_count. 0 \<le> i \<and>
        sqlite3_keyword_name i = Some (map (\<lambda>c. c AND NOT 0x20) z))"
proof
  assume "sqlite3_keyword_check z"
  then obtain i where i: "0 < i" "i < 148" "fold_case z = kw_text i" by (auto simp: keyword_check_text)
  then show "\<exists>i < int sqlite3_keyword_count. 0 \<le> i \<and>
      sqlite3_keyword_name i = Some (map (\<lambda>c. c AND NOT 0x20) z)"
    unfolding fold_case_def
    by (intro exI [of _ "int i - 1"]) (auto simp: sqlite3_keyword_count_def sqlite3_keyword_name_def)
next
  assume "\<exists>i < int sqlite3_keyword_count. 0 \<le> i \<and>
      sqlite3_keyword_name i = Some (map (\<lambda>c. c AND NOT 0x20) z)"
  then obtain i where "0 \<le> i" "i < 147" "map (\<lambda>c. c AND NOT 0x20) z = kw_text (nat (i + 1))"
    by (auto simp: sqlite3_keyword_count_def sqlite3_keyword_name_def)
  then show "sqlite3_keyword_check z"
    unfolding keyword_check_text fold_case_def by (intro exI [of _ "nat (i + 1)"]) auto
qed

theorem keyword_check_iff_name_witness:
  "sqlite3_keyword_check (ascii ''cUrrent'' @ 0x7F # ascii ''Date'') \<and>
   sqlite3_keyword_name 80 = Some (ascii ''CURRENT_DATE'')"
proof -
  have n: "sqlite3_keyword_name 80 = Some (ascii ''CURRENT_DATE'')"
    by (simp add: sqlite3_keyword_name_def kw_entry(1) kw_list_def)
  have f: "map (\<lambda>c. c AND NOT 0x20) (ascii ''cUrrent'' @ 0x7F # ascii ''Date'') = ascii ''CURRENT_DATE''"
    by code_simp
  have "sqlite3_keyword_check (ascii ''cUrrent'' @ 0x7F # ascii ''Date'')"
    unfolding keyword_check_iff_name f
    by (intro exI [of _ 80]) (simp add: n sqlite3_keyword_count_def)
  with n show ?thesis by simp
qed

end
