(* ===== verification/Sq_Token.thy ===== *)
theory Sq_Token
  imports Sq_Keyword Sq_Text
begin

text \<open>
  The tokenizer of tokenize.c: the character classes \<open>aiClass\<close>, \<open>sqlite3GetToken\<close>, and the
  window-function keyword analysis (\<open>getToken\<close>, \<open>analyzeWindowKeyword\<close>, \<open>analyzeOverKeyword\<close>,
  \<open>analyzeFilterKeyword\<close>, with the parser's fallback table).

  The input \<open>z\<close> is a \<open>cstr\<close>: the bytes from the start of the token to the end of the SQL text,
  without its NUL; \<open>zat z i\<close> is \<open>z[i]\<close>.  Every branch of the switch on the class of the first byte
  is a definition of its own that returns the length of the token and its type.
\<close>

section \<open>Character classes\<close>

abbreviation (input) CC_X :: nat where "CC_X \<equiv> 0"
abbreviation (input) CC_KYWD0 :: nat where "CC_KYWD0 \<equiv> 1"
abbreviation (input) CC_KYWD :: nat where "CC_KYWD \<equiv> 2"
abbreviation (input) CC_DIGIT :: nat where "CC_DIGIT \<equiv> 3"
abbreviation (input) CC_DOLLAR :: nat where "CC_DOLLAR \<equiv> 4"
abbreviation (input) CC_VARALPHA :: nat where "CC_VARALPHA \<equiv> 5"
abbreviation (input) CC_VARNUM :: nat where "CC_VARNUM \<equiv> 6"
abbreviation (input) CC_SPACE :: nat where "CC_SPACE \<equiv> 7"
abbreviation (input) CC_QUOTE :: nat where "CC_QUOTE \<equiv> 8"
abbreviation (input) CC_QUOTE2 :: nat where "CC_QUOTE2 \<equiv> 9"
abbreviation (input) CC_PIPE :: nat where "CC_PIPE \<equiv> 10"
abbreviation (input) CC_MINUS :: nat where "CC_MINUS \<equiv> 11"
abbreviation (input) CC_LT :: nat where "CC_LT \<equiv> 12"
abbreviation (input) CC_GT :: nat where "CC_GT \<equiv> 13"
abbreviation (input) CC_EQ :: nat where "CC_EQ \<equiv> 14"
abbreviation (input) CC_BANG :: nat where "CC_BANG \<equiv> 15"
abbreviation (input) CC_SLASH :: nat where "CC_SLASH \<equiv> 16"
abbreviation (input) CC_LP :: nat where "CC_LP \<equiv> 17"
abbreviation (input) CC_RP :: nat where "CC_RP \<equiv> 18"
abbreviation (input) CC_SEMI :: nat where "CC_SEMI \<equiv> 19"
abbreviation (input) CC_PLUS :: nat where "CC_PLUS \<equiv> 20"
abbreviation (input) CC_STAR :: nat where "CC_STAR \<equiv> 21"
abbreviation (input) CC_PERCENT :: nat where "CC_PERCENT \<equiv> 22"
abbreviation (input) CC_COMMA :: nat where "CC_COMMA \<equiv> 23"
abbreviation (input) CC_AND :: nat where "CC_AND \<equiv> 24"
abbreviation (input) CC_TILDA :: nat where "CC_TILDA \<equiv> 25"
abbreviation (input) CC_DOT :: nat where "CC_DOT \<equiv> 26"
abbreviation (input) CC_ID :: nat where "CC_ID \<equiv> 27"
abbreviation (input) CC_ILLEGAL :: nat where "CC_ILLEGAL \<equiv> 28"
abbreviation (input) CC_NUL :: nat where "CC_NUL \<equiv> 29"
abbreviation (input) CC_BOM :: nat where "CC_BOM \<equiv> 30"

definition aiClass :: "nat list" where
  "aiClass = [
     29, 28, 28, 28, 28, 28, 28, 28, 28, 7, 7, 28, 7, 7, 28, 28, 28, 28, 28, 28, 28, 28, 28,
     28, 28, 28, 28, 28, 28, 28, 28, 28, 7, 15, 8, 5, 4, 22, 24, 8, 17, 18, 21, 20, 23, 11, 26,
     16, 3, 3, 3, 3, 3, 3, 3, 3, 3, 3, 5, 19, 12, 14, 13, 6, 5, 1, 1, 1, 1, 1, 1, 1, 1, 1, 1,
     1, 1, 1, 1, 1, 1, 1, 1, 1, 1, 1, 1, 1, 0, 2, 2, 9, 28, 28, 28, 2, 8, 1, 1, 1, 1, 1, 1, 1,
     1, 1, 1, 1, 1, 1, 1, 1, 1, 1, 1, 1, 1, 1, 1, 1, 0, 2, 2, 28, 10, 28, 25, 28, 27, 27, 27,
     27, 27, 27, 27, 27, 27, 27, 27, 27, 27, 27, 27, 27, 27, 27, 27, 27, 27, 27, 27, 27, 27,
     27, 27, 27, 27, 27, 27, 27, 27, 27, 27, 27, 27, 27, 27, 27, 27, 27, 27, 27, 27, 27, 27,
     27, 27, 27, 27, 27, 27, 27, 27, 27, 27, 27, 27, 27, 27, 27, 27, 27, 27, 27, 27, 27, 27,
     27, 27, 27, 27, 27, 27, 27, 27, 27, 27, 27, 27, 27, 27, 27, 27, 27, 27, 27, 27, 27, 27,
     27, 27, 27, 27, 27, 27, 27, 27, 27, 27, 27, 27, 27, 27, 27, 27, 27, 27, 27, 27, 30, 27,
     27, 27, 27, 27, 27, 27, 27, 27, 27, 27, 27, 27, 27, 27, 27]"

definition cclass :: "u8 \<Rightarrow> nat" where
  "cclass c = aiClass ! unat c"

section \<open>Scanning loops\<close>

text \<open>\<open>for(; P(z[i]); i++){}\<close>, for a test that fails on the terminator.\<close>

definition scan :: "(u8 \<Rightarrow> bool) \<Rightarrow> cstr \<Rightarrow> nat \<Rightarrow> nat" where
  "scan P z i = i + length (takeWhile P (drop i z))"

text \<open>
  The loops that look at two characters.  Each gets the bytes from \<open>z[i]\<close> on and returns the last
  value of \<open>c\<close> with the final \<open>i\<close>.
\<close>

fun comment_end :: "u8 \<Rightarrow> cstr \<Rightarrow> nat \<Rightarrow> u8 \<times> nat" where
  "comment_end c [] i = (0, i)"
| "comment_end c (d # z) i =
     (if c \<noteq> 42 \<or> d \<noteq> 47 then comment_end d z (i + 1) else (c, i))"

fun quote_end :: "u8 \<Rightarrow> cstr \<Rightarrow> nat \<Rightarrow> u8 \<times> nat" where
  "quote_end delim [] i = (0, i)"
| "quote_end delim [c] i = (if c = delim then (c, i) else (0, i + 1))"
| "quote_end delim (c # d # z) i =
     (if c = delim then (if d = delim then quote_end delim z (i + 2) else (c, i))
      else quote_end delim (d # z) (i + 1))"

fun bracket_end :: "u8 \<Rightarrow> cstr \<Rightarrow> nat \<Rightarrow> u8 \<times> nat" where
  "bracket_end c [] i = (if c \<noteq> 93 then (0, i) else (c, i))"
| "bracket_end c (d # z) i = (if c \<noteq> 93 then bracket_end d z (i + 1) else (c, i))"

text \<open>The digits of a number and its separators, which make it a \<open>TK_QNUMBER\<close>.\<close>

definition digits :: "(u8 \<Rightarrow> bool) \<Rightarrow> cstr \<Rightarrow> nat \<times> nat \<Rightarrow> nat \<times> nat" where
  "digits P z it =
     (let (i, t) = it; j = scan (\<lambda>c. P c \<or> c = 95) z i
      in (j, if 95 \<in> set (take (j - i) (drop i z)) then TK_QNUMBER else t))"

text \<open>The loop of a variable name: the bytes from \<open>z[i]\<close> on, \<open>i\<close>, \<open>n\<close>; the result is the final
  \<open>i\<close>, \<open>n\<close> and whether a parenthesized suffix was left open.\<close>

fun var_loop :: "cstr \<Rightarrow> nat \<Rightarrow> nat \<Rightarrow> nat \<times> nat \<times> bool" where
  "var_loop [] i n = (i, n, False)"
| "var_loop (c # z) i n =
     (if IdChar c then var_loop z (i + 1) (n + 1)
      else if c = 40 \<and> n > 0 then
        let k = length (takeWhile (\<lambda>c. \<not> sqlite3Isspace c \<and> c \<noteq> 41) z)
        in if zat z k = 41 then (i + 1 + k + 1, n, False) else (i + 1 + k, n, True)
      else if c = 58 \<and> zat z 0 = 58 then var_loop (tl z) (i + 2) n
      else (i, n, False))"

section \<open>The branches of the tokenizer\<close>

definition tok_space :: "cstr \<Rightarrow> nat \<times> nat" where
  "tok_space z = (scan sqlite3Isspace z 1, TK_SPACE)"

definition tok_minus :: "cstr \<Rightarrow> nat \<times> nat" where
  "tok_minus z =
     (if zat z 1 = 45 then (scan (\<lambda>c. c \<noteq> 0 \<and> c \<noteq> 10) z 2, TK_COMMENT)
      else if zat z 1 = 62 then (2 + of_bool (zat z 2 = 62), TK_PTR)
      else (1, TK_MINUS))"

definition tok_slash :: "cstr \<Rightarrow> nat \<times> nat" where
  "tok_slash z =
     (if zat z 1 \<noteq> 42 \<or> zat z 2 = 0 then (1, TK_SLASH)
      else let (c, i) = comment_end (zat z 2) (drop 3 z) 3
           in (if c \<noteq> 0 then i + 1 else i, TK_COMMENT))"

definition tok_lt :: "cstr \<Rightarrow> nat \<times> nat" where
  "tok_lt z =
     (if zat z 1 = 61 then (2, TK_LE)
      else if zat z 1 = 62 then (2, TK_NE)
      else if zat z 1 = 60 then (2, TK_LSHIFT)
      else (1, TK_LT))"

definition tok_gt :: "cstr \<Rightarrow> nat \<times> nat" where
  "tok_gt z =
     (if zat z 1 = 61 then (2, TK_GE)
      else if zat z 1 = 62 then (2, TK_RSHIFT)
      else (1, TK_GT))"

definition tok_bang :: "cstr \<Rightarrow> nat \<times> nat" where
  "tok_bang z = (if zat z 1 \<noteq> 61 then (1, TK_ILLEGAL) else (2, TK_NE))"

definition tok_pipe :: "cstr \<Rightarrow> nat \<times> nat" where
  "tok_pipe z = (if zat z 1 \<noteq> 124 then (1, TK_BITOR) else (2, TK_CONCAT))"

definition tok_quote :: "cstr \<Rightarrow> nat \<times> nat" where
  "tok_quote z =
     (let (c, i) = quote_end (zat z 0) (drop 1 z) 1
      in if c = 39 then (i + 1, TK_STRING)
         else if c \<noteq> 0 then (i + 1, TK_ID)
         else (i, TK_ILLEGAL))"

definition tok_hex :: "cstr \<Rightarrow> nat \<times> nat" where
  "tok_hex z = digits sqlite3Isxdigit z (3, TK_INTEGER)"

definition tok_decimal :: "cstr \<Rightarrow> nat \<times> nat" where
  "tok_decimal z =
     (let (i, t) = digits sqlite3Isdigit z (0, TK_INTEGER);
          (i, t) =
            (if zat z i = 46
             then digits sqlite3Isdigit z (i + 1, if t = TK_INTEGER then TK_FLOAT else t)
             else (i, t))
      in if (zat z i = 101 \<or> zat z i = 69) \<and>
            (sqlite3Isdigit (zat z (i + 1)) \<or>
             (zat z (i + 1) = 43 \<or> zat z (i + 1) = 45) \<and> sqlite3Isdigit (zat z (i + 2)))
         then digits sqlite3Isdigit z (i + 2, if t = TK_INTEGER then TK_FLOAT else t)
         else (i, t))"

definition tok_number :: "cstr \<Rightarrow> nat \<times> nat" where
  "tok_number z =
     (let (i, t) =
        (if zat z 0 = 48 \<and> (zat z 1 = 120 \<or> zat z 1 = 88) \<and> sqlite3Isxdigit (zat z 2)
         then tok_hex z else tok_decimal z);
          j = scan IdChar z i
      in (j, if i < j then TK_ILLEGAL else t))"

definition tok_dot :: "cstr \<Rightarrow> nat \<times> nat" where
  "tok_dot z = (if \<not> sqlite3Isdigit (zat z 1) then (1, TK_DOT) else tok_number z)"

definition tok_quote2 :: "cstr \<Rightarrow> nat \<times> nat" where
  "tok_quote2 z =
     (let (c, i) = bracket_end (zat z 0) (drop 1 z) 1
      in (i, if c = 93 then TK_ID else TK_ILLEGAL))"

definition tok_varnum :: "cstr \<Rightarrow> nat \<times> nat" where
  "tok_varnum z = (scan sqlite3Isdigit z 1, TK_VARIABLE)"

definition tok_varalpha :: "cstr \<Rightarrow> nat \<times> nat" where
  "tok_varalpha z =
     (let (i, n, open) = var_loop (drop 1 z) 1 0
      in (i, if n = 0 \<or> open then TK_ILLEGAL else TK_VARIABLE))"

text \<open>After the switch: the rest of an identifier.\<close>

definition tok_ident :: "cstr \<Rightarrow> nat \<Rightarrow> nat \<times> nat" where
  "tok_ident z i = (scan IdChar z i, TK_ID)"

definition tok_keyword :: "cstr \<Rightarrow> nat \<times> nat" where
  "tok_keyword z =
     (if cclass (zat z 1) > CC_KYWD then tok_ident z 1
      else
        let i = scan (\<lambda>c. cclass c \<le> CC_KYWD) z 2
        in if IdChar (zat z i) then tok_ident z (i + 1)
           else (i, keywordCode (take i z) TK_ID))"

definition tok_x :: "cstr \<Rightarrow> nat \<times> nat" where
  "tok_x z =
     (if zat z 1 = 39 then
        let i = scan sqlite3Isxdigit z 2;
            bad = (zat z i \<noteq> 39 \<or> i mod 2 \<noteq> 0);
            i = (if bad then scan (\<lambda>c. c \<noteq> 0 \<and> c \<noteq> 39) z i else i)
        in (if zat z i \<noteq> 0 then i + 1 else i, if bad then TK_ILLEGAL else TK_BLOB)
      else tok_ident z 1)"

definition tok_bom :: "cstr \<Rightarrow> nat \<times> nat" where
  "tok_bom z = (if zat z 1 = 0xbb \<and> zat z 2 = 0xbf then (3, TK_SPACE) else tok_ident z 1)"

definition sqlite3GetToken :: "cstr \<Rightarrow> nat \<times> nat" where
  "sqlite3GetToken z =
     (let cc = cclass (zat z 0) in
      if cc = CC_SPACE then tok_space z
      else if cc = CC_MINUS then tok_minus z
      else if cc = CC_LP then (1, TK_LP)
      else if cc = CC_RP then (1, TK_RP)
      else if cc = CC_SEMI then (1, TK_SEMI)
      else if cc = CC_PLUS then (1, TK_PLUS)
      else if cc = CC_STAR then (1, TK_STAR)
      else if cc = CC_SLASH then tok_slash z
      else if cc = CC_PERCENT then (1, TK_REM)
      else if cc = CC_EQ then (1 + of_bool (zat z 1 = 61), TK_EQ)
      else if cc = CC_LT then tok_lt z
      else if cc = CC_GT then tok_gt z
      else if cc = CC_BANG then tok_bang z
      else if cc = CC_PIPE then tok_pipe z
      else if cc = CC_COMMA then (1, TK_COMMA)
      else if cc = CC_AND then (1, TK_BITAND)
      else if cc = CC_TILDA then (1, TK_BITNOT)
      else if cc = CC_QUOTE then tok_quote z
      else if cc = CC_DOT then tok_dot z
      else if cc = CC_DIGIT then tok_number z
      else if cc = CC_QUOTE2 then tok_quote2 z
      else if cc = CC_VARNUM then tok_varnum z
      else if cc = CC_DOLLAR \<or> cc = CC_VARALPHA then tok_varalpha z
      else if cc = CC_KYWD0 then tok_keyword z
      else if cc = CC_X then tok_x z
      else if cc = CC_KYWD \<or> cc = CC_ID then tok_ident z 1
      else if cc = CC_BOM then tok_bom z
      else if cc = CC_NUL then (0, TK_ILLEGAL)
      else (1, TK_ILLEGAL))"

section \<open>Window keywords\<close>

definition yyFallback :: "nat list" where
  "yyFallback = [
     0, 0, 60, 60, 60, 60, 0, 60, 60, 60, 0, 60, 60, 60, 60, 0, 0, 0, 60, 0, 0, 60, 0, 0, 0, 0,
     60, 60, 60, 60, 60, 60, 60, 60, 60, 60, 60, 60, 60, 60, 60, 60, 60, 0, 0, 0, 0, 60, 60, 0,
     0, 0, 0, 0, 0, 0, 0, 0, 0, 0, 0, 60, 60, 60, 60, 60, 60, 60, 60, 60, 60, 60, 60, 60, 60,
     60, 60, 60, 60, 60, 60, 60, 60, 60, 60, 60, 60, 60, 60, 60, 60, 60, 60, 60, 60, 60, 60,
     60, 60, 60, 60, 60, 0, 0, 0, 0, 0, 0, 0, 0, 0, 0, 0, 0, 0, 0, 0, 0, 0, 0, 0, 0, 0, 0, 0,
     0, 0, 0, 0, 0, 0, 0, 0, 0, 0, 0, 0, 0, 0, 0, 0, 0, 0, 0, 0, 0, 0, 0, 0, 0, 0, 0, 0, 0, 0,
     0, 0, 0, 0, 0, 0, 0, 0, 0, 0, 0, 0, 0, 0, 0, 0, 0, 0, 0, 0, 0, 0, 0, 0, 0, 0, 0, 0, 0, 0,
     0, 0]"

definition sqlite3ParserFallback :: "nat \<Rightarrow> nat" where
  "sqlite3ParserFallback t = yyFallback ! t"

text \<open>\<open>getToken\<close>: the type of the next token that is neither space nor a comment, with the rest of
  the text.\<close>

function getToken :: "cstr \<Rightarrow> nat \<times> cstr" where
  "getToken z =
     (let (n, t) = sqlite3GetToken z; z' = drop n z in
      if (t = TK_SPACE \<or> t = TK_COMMENT) \<and> length z' < length z then getToken z'
      else
        (if t = TK_ID \<or> t = TK_STRING \<or> t = TK_JOIN_KW \<or> t = TK_WINDOW \<or> t = TK_OVER \<or>
            sqlite3ParserFallback t = TK_ID
         then TK_ID else t, z'))"
  by pat_completeness auto
termination
  by (relation "measure length") auto

declare getToken.simps [simp del]

definition analyzeWindowKeyword :: "cstr \<Rightarrow> nat" where
  "analyzeWindowKeyword z =
     (let (t, z) = getToken z in
      if t \<noteq> TK_ID then TK_ID
      else let (t, z) = getToken z in if t \<noteq> TK_AS then TK_ID else TK_WINDOW)"

definition analyzeOverKeyword :: "cstr \<Rightarrow> int \<Rightarrow> nat" where
  "analyzeOverKeyword z lastToken =
     (if lastToken = int TK_RP then
        let t = fst (getToken z) in if t = TK_LP \<or> t = TK_ID then TK_OVER else TK_ID
      else TK_ID)"

definition analyzeFilterKeyword :: "cstr \<Rightarrow> int \<Rightarrow> nat" where
  "analyzeFilterKeyword z lastToken =
     (if lastToken = int TK_RP \<and> fst (getToken z) = TK_LP then TK_FILTER else TK_ID)"

section \<open>Lengths\<close>

lemma scan_le: "i \<le> length z \<Longrightarrow> scan P z i \<le> length z"
  using length_takeWhile_le [of P "drop i z"] by (simp add: scan_def)

lemma scan_ge: "i \<le> scan P z i"
  by (simp add: scan_def)

lemma zat_in: "zat z i \<noteq> 0 \<Longrightarrow> i < length z"
  by (simp add: zat_def split: if_splits)

lemma comment_end_bounds: "comment_end c z i = (d, j) \<Longrightarrow> i \<le> j \<and> j + of_bool (d \<noteq> 0) \<le> i + length z"
proof (induction c z i rule: comment_end.induct)
  case (2 c d' z i)
  show ?case
  proof (cases "c \<noteq> 42 \<or> d' \<noteq> 47")
    case True
    then have "comment_end d' z (i + 1) = (d, j)" using "2.prems" by simp
    from "2.IH" [OF True this] show ?thesis by simp
  qed (use "2.prems" in simp)
qed auto

lemma quote_end_bounds: "quote_end q z i = (d, j) \<Longrightarrow> i \<le> j \<and> j + of_bool (d \<noteq> 0) \<le> i + length z"
proof (induction q z i rule: quote_end.induct)
  case (3 q c d' z i)
  consider "c = q" "d' = q" | "c = q" "d' \<noteq> q" | "c \<noteq> q" by blast
  then show ?case
  proof cases
    case 1
    then have "quote_end q z (i + 2) = (d, j)" using "3.prems" by simp
    from "3.IH"(1) [OF 1 this] show ?thesis by simp
  next
    case 2
    then show ?thesis using "3.prems" by auto
  next
    case 3
    then have "quote_end q (d' # z) (i + 1) = (d, j)" using "3.prems" by simp
    from "3.IH"(2) [OF 3 this] show ?thesis by simp
  qed
qed (auto split: if_splits)

lemma bracket_end_bounds: "bracket_end c z i = (d, j) \<Longrightarrow> i \<le> j \<and> j \<le> i + length z"
proof (induction c z i rule: bracket_end.induct)
  case (2 c d' z i)
  show ?case
  proof (cases "c = 93")
    case False
    then have "bracket_end d' z (i + 1) = (d, j)" using "2.prems" by simp
    from "2.IH" [OF False this] show ?thesis by simp
  qed (use "2.prems" in simp)
qed (auto split: if_splits)

lemma digits_bounds: "digits P z (i, t) = (j, u) \<Longrightarrow> i \<le> length z \<Longrightarrow> i \<le> j \<and> j \<le> length z"
  using scan_ge scan_le by (auto simp: digits_def Let_def)

lemma var_loop_bounds: "var_loop z i n = (j, m, b) \<Longrightarrow> i \<le> j \<and> j \<le> i + length z"
proof (induction z i n rule: var_loop.induct)
  case (2 c z i n)
  let ?k = "length (takeWhile (\<lambda>c. \<not> sqlite3Isspace c \<and> c \<noteq> 41) z)"
  have k: "?k \<le> length z" by (rule length_takeWhile_le)
  have k2: "zat z ?k = 41 \<Longrightarrow> ?k < length z" using zat_in [of z ?k] by simp
  have tl: "zat z 0 = 58 \<Longrightarrow> Suc (length (tl z)) = length z" by (cases z) (simp_all add: zat_def)
  consider "IdChar c" | "\<not> IdChar c" "c = 40" "n > 0" | "\<not> IdChar c" "\<not> (c = 40 \<and> n > 0)" "c = 58" "zat z 0 = 58"
    | "\<not> IdChar c" "\<not> (c = 40 \<and> n > 0)" "\<not> (c = 58 \<and> zat z 0 = 58)" by blast
  then show ?case
  proof cases
    case 1
    then show ?thesis using "2.IH"(1) "2.prems" by fastforce
  next
    case 2
    then show ?thesis using "2.prems" k k2 by (auto simp: Let_def split: if_splits)
  next
    case 3
    then show ?thesis using "2.IH"(2) "2.prems" tl by fastforce
  next
    case 4
    then show ?thesis using "2.prems" by (auto split: if_splits)
  qed
qed auto

section \<open>Every token\<close>

text \<open>
  What the parser's loop asserts of a token: it is not empty and does not run past the text; the
  types at or above \<open>TK_WINDOW\<close> are the seven the loop handles itself, and the window keywords have
  the lengths it assumes.
\<close>

definition good_token :: "cstr \<Rightarrow> nat \<times> nat \<Rightarrow> bool" where
  "good_token z r \<longleftrightarrow> 0 < fst r \<and> fst r \<le> length z \<and> 0 < snd r \<and>
     (snd r < TK_WINDOW \<or> snd r \<in> {TK_QNUMBER, TK_SPACE, TK_COMMENT, TK_ILLEGAL} \<or>
      (snd r, fst r) \<in> {(TK_WINDOW, 6), (TK_OVER, 4), (TK_FILTER, 6)})"

lemma zat_lengths:
  "zat z 0 \<noteq> 0 \<Longrightarrow> 1 \<le> length z" "zat z 1 \<noteq> 0 \<Longrightarrow> 2 \<le> length z" "zat z 2 \<noteq> 0 \<Longrightarrow> 3 \<le> length z"
  using zat_in [of z 0] zat_in [of z 1] zat_in [of z 2] by linarith+

lemma good_ident: "1 \<le> i \<Longrightarrow> i \<le> length z \<Longrightarrow> good_token z (tok_ident z i)"
  using scan_ge [of i IdChar z] scan_le [of i z IdChar] by (simp add: good_token_def tok_ident_def)

lemma good_minus: "zat z 0 \<noteq> 0 \<Longrightarrow> good_token z (tok_minus z)"
  using zat_lengths [of z] scan_ge [of 2 "\<lambda>c. c \<noteq> 0 \<and> c \<noteq> 10" z] scan_le [of 2 z "\<lambda>c. c \<noteq> 0 \<and> c \<noteq> 10"]
  by (auto simp: tok_minus_def good_token_def Suc_le_eq)

lemma good_slash:
  assumes "zat z 0 \<noteq> 0"
  shows "good_token z (tok_slash z)"
proof (cases "zat z 1 \<noteq> 42 \<or> zat z 2 = 0")
  case True
  then show ?thesis using zat_lengths(1) [OF assms] by (simp add: tok_slash_def good_token_def)
next
  case False
  obtain c i where c: "comment_end (zat z 2) (drop 3 z) 3 = (c, i)" by (metis surj_pair)
  have "3 \<le> length z" using False zat_lengths(3) by blast
  with comment_end_bounds [OF c] False show ?thesis
    by (cases "c = 0") (auto simp: tok_slash_def c good_token_def)
qed

lemma good_operators:
  assumes "zat z 0 \<noteq> 0"
  shows "good_token z (tok_lt z)" "good_token z (tok_gt z)" "good_token z (tok_bang z)"
    "good_token z (tok_pipe z)"
  using zat_lengths [of z] assms
  by (auto simp: tok_lt_def tok_gt_def tok_bang_def tok_pipe_def good_token_def Suc_le_eq)

lemma good_quote:
  assumes "zat z 0 \<noteq> 0"
  shows "good_token z (tok_quote z)"
proof -
  obtain c i where c: "quote_end (zat z 0) (drop 1 z) 1 = (c, i)" by (metis surj_pair)
  with quote_end_bounds [OF c] zat_lengths(1) [OF assms] show ?thesis
    by (auto simp: tok_quote_def good_token_def)
qed

lemma good_quote2:
  assumes "zat z 0 \<noteq> 0"
  shows "good_token z (tok_quote2 z)"
proof -
  obtain c i where c: "bracket_end (zat z 0) (drop 1 z) 1 = (c, i)" by (metis surj_pair)
  with bracket_end_bounds [OF c] zat_lengths(1) [OF assms] show ?thesis
    by (auto simp: tok_quote2_def good_token_def)
qed

lemma good_varalpha:
  assumes "zat z 0 \<noteq> 0"
  shows "good_token z (tok_varalpha z)"
proof -
  obtain i n b where c: "var_loop (drop 1 z) 1 0 = (i, n, b)" by (metis surj_pair)
  with var_loop_bounds [OF c] zat_lengths(1) [OF assms] show ?thesis
    by (auto simp: tok_varalpha_def good_token_def)
qed

text \<open>Numbers: the type is that of an integer or a float, or made of digits with separators.\<close>

lemma digits_type: "digits P z (i, t) = (j, u) \<Longrightarrow> u = t \<or> u = TK_QNUMBER"
  by (auto simp: digits_def Let_def)

lemma digits_progress: "digits P z (i, t) = (j, u) \<Longrightarrow> P (zat z i) \<Longrightarrow> i < length z \<Longrightarrow> i < j"
  by (auto simp: digits_def Let_def scan_def zat_def hd_drop_conv_nth takeWhile_eq_Nil_iff)

lemma tok_decimal_bounds:
  assumes "sqlite3Isdigit (zat z 0) \<or> zat z 0 = 46" and "tok_decimal z = (j, u)"
  shows "0 < j \<and> j \<le> length z \<and> u \<in> {TK_INTEGER, TK_FLOAT, TK_QNUMBER}"
proof -
  have z: "0 < length z" using assms(1) zat_in [of z 0] by (auto simp: isdigit_iff)
  obtain i t where d: "digits sqlite3Isdigit z (0, TK_INTEGER) = (i, t)" by (metis surj_pair)
  define r where "r = (if zat z i = 46
    then digits sqlite3Isdigit z (i + 1, if t = TK_INTEGER then TK_FLOAT else t) else (i, t))"
  obtain i' t' where r: "r = (i', t')" by (metis surj_pair)
  have i: "i \<le> length z" "t \<in> {TK_INTEGER, TK_QNUMBER}"
    using digits_bounds [OF d] digits_type [OF d] by auto
  have pos: "0 < i \<or> zat z i = 46"
    using digits_progress [OF d _ z] assms(1) by (cases "i = 0") auto
  have i': "0 < i' \<and> i' \<le> length z \<and> t' \<in> {TK_INTEGER, TK_FLOAT, TK_QNUMBER}"
  proof (cases "zat z i = 46")
    case True
    then have d': "digits sqlite3Isdigit z (i + 1, if t = TK_INTEGER then TK_FLOAT else t) = (i', t')"
      using r by (simp add: r_def)
    have "i + 1 \<le> length z" using True zat_in [of z i] by simp
    with digits_bounds [OF d'] digits_type [OF d'] i show ?thesis by (auto split: if_splits)
  qed (use r pos i in \<open>auto simp: r_def\<close>)
  define e where "e \<longleftrightarrow> (zat z i' = 101 \<or> zat z i' = 69) \<and> (sqlite3Isdigit (zat z (i' + 1)) \<or>
      (zat z (i' + 1) = 43 \<or> zat z (i' + 1) = 45) \<and> sqlite3Isdigit (zat z (i' + 2)))"
  have td: "tok_decimal z = (if e
      then digits sqlite3Isdigit z (i' + 2, if t' = TK_INTEGER then TK_FLOAT else t') else (i', t'))"
    by (simp only: tok_decimal_def d r_def [symmetric] r e_def Let_def prod.case)
  show ?thesis
  proof (cases e)
    case True
    then have d': "digits sqlite3Isdigit z (i' + 2, if t' = TK_INTEGER then TK_FLOAT else t') = (j, u)"
      using assms(2) td by simp
    have "zat z (i' + 1) \<noteq> 0" using True by (auto simp: e_def isdigit_iff)
    then have "i' + 2 \<le> length z" using zat_in [of z "i' + 1"] by simp
    with digits_bounds [OF d'] digits_type [OF d'] i' show ?thesis by (auto split: if_splits)
  next
    case False
    then show ?thesis using assms(2) td i' by simp
  qed
qed

lemma tok_hex_bounds:
  assumes "sqlite3Isxdigit (zat z 2)" and "tok_hex z = (j, u)"
  shows "0 < j \<and> j \<le> length z \<and> u \<in> {TK_INTEGER, TK_QNUMBER}"
proof -
  have "zat z 2 \<noteq> 0" using assms(1) by (auto simp: isxdigit_iff)
  then have "3 \<le> length z" by (rule zat_lengths(3))
  with digits_bounds digits_type assms(2) show ?thesis unfolding tok_hex_def by fastforce
qed

lemma good_number:
  assumes "sqlite3Isdigit (zat z 0) \<or> zat z 0 = 46"
  shows "good_token z (tok_number z)"
proof -
  define r where "r = (if zat z 0 = 48 \<and> (zat z 1 = 120 \<or> zat z 1 = 88) \<and> sqlite3Isxdigit (zat z 2)
    then tok_hex z else tok_decimal z)"
  obtain i t where r: "r = (i, t)" by (metis surj_pair)
  have "0 < i \<and> i \<le> length z \<and> t \<in> {TK_INTEGER, TK_FLOAT, TK_QNUMBER}"
    using r tok_hex_bounds [of z i t] tok_decimal_bounds [OF assms, of i t] by (auto simp: r_def split: if_splits)
  moreover have "tok_number z = (scan IdChar z i, if i < scan IdChar z i then TK_ILLEGAL else t)"
    using r by (simp add: tok_number_def r_def Let_def)
  ultimately show ?thesis
    using scan_le [of i z IdChar] scan_ge [of i IdChar z] by (auto simp: good_token_def)
qed


text \<open>Keywords.\<close>

lemma kw_codes_range:
  "list_all (\<lambda>(w, t). 0 < t \<and> t < TK_WINDOW \<or> (t, length w) \<in> {(TK_WINDOW, 6), (TK_OVER, 4), (TK_FILTER, 6)}) kw_list"
  by (simp add: kw_list_def)

lemma keywordCode_type:
  "keywordCode z t = t \<or> 0 < keywordCode z t \<and> keywordCode z t < TK_WINDOW \<or>
   (keywordCode z t, length z) \<in> {(TK_WINDOW, 6), (TK_OVER, 4), (TK_FILTER, 6)}"
proof (cases "kw_lookup z")
  case None
  then show ?thesis by (simp add: keywordCode_lookup)
next
  case (Some c)
  then obtain w where w: "(w, c) \<in> set kw_list" "fold_case z = ascii w"
    using map_of_SomeD by (fastforce simp: kw_lookup_def)
  then have "length z = length w" using length_fold_case [of z] by (simp add: ascii_def)
  with w(1) kw_codes_range have "0 < c \<and> c < TK_WINDOW \<or> (c, length z) \<in> {(TK_WINDOW, 6), (TK_OVER, 4), (TK_FILTER, 6)}"
    unfolding list_all_iff by fastforce
  with Some show ?thesis by (simp only: keywordCode_lookup option.case) blast
qed

lemma good_keyword:
  assumes "zat z 0 \<noteq> 0"
  shows "good_token z (tok_keyword z)"
proof (cases "cclass (zat z 1) > CC_KYWD")
  case True
  then show ?thesis
    using good_ident [of 1 z] zat_lengths(1) [OF assms] by (simp add: tok_keyword_def)
next
  case False
  define i where "i = scan (\<lambda>c. cclass c \<le> CC_KYWD) z 2"
  have "cclass 0 = CC_NUL" by (simp add: cclass_def aiClass_def)
  then have "zat z 1 \<noteq> 0" using False by auto
  then have z: "2 \<le> length z" by (rule zat_lengths(2))
  then have i: "2 \<le> i" "i \<le> length z" unfolding i_def using scan_ge scan_le by blast+
  show ?thesis
  proof (cases "IdChar (zat z i)")
    case True
    have "\<not> IdChar 0" by (simp add: IdChar_def CtypeMap_def sqlite3CtypeMap_def)
    then have "zat z i \<noteq> 0" using True by metis
    then have "i < length z" by (rule zat_in)
    with True False i show ?thesis
      using good_ident [of "i + 1" z] by (simp add: tok_keyword_def Let_def i_def [symmetric])
  next
    case F: False
    have k: "tok_keyword z = (i, keywordCode (take i z) TK_ID)"
      using False F by (simp add: tok_keyword_def Let_def i_def [symmetric])
    have "length (take i z) = i" using i by simp
    with keywordCode_type [of "take i z" TK_ID] i show ?thesis
      unfolding k good_token_def by auto
  qed
qed

lemma good_x:
  assumes "zat z 0 \<noteq> 0"
  shows "good_token z (tok_x z)"
proof (cases "zat z 1 = 39")
  case True
  define i where "i = scan sqlite3Isxdigit z 2"
  define bad where "bad \<longleftrightarrow> zat z i \<noteq> 39 \<or> i mod 2 \<noteq> 0"
  define j where "j = (if bad then scan (\<lambda>c. c \<noteq> 0 \<and> c \<noteq> 39) z i else i)"
  have "2 \<le> length z" using True zat_lengths(2) by simp
  then have "2 \<le> i" "i \<le> length z" unfolding i_def using scan_ge scan_le by blast+
  then have j: "2 \<le> j" "j \<le> length z"
    using scan_ge [of i "\<lambda>c. c \<noteq> 0 \<and> c \<noteq> 39" z] scan_le [of i z "\<lambda>c. c \<noteq> 0 \<and> c \<noteq> 39"] by (auto simp: j_def)
  have "tok_x z = (if zat z j \<noteq> 0 then j + 1 else j, if bad then TK_ILLEGAL else TK_BLOB)"
    using True by (simp only: tok_x_def Let_def i_def [symmetric] bad_def [symmetric] j_def [symmetric] if_True simp_thms)
  with j zat_in [of z j] show ?thesis by (auto simp: good_token_def)
next
  case False
  then show ?thesis using good_ident [of 1 z] zat_lengths(1) [OF assms] by (simp add: tok_x_def)
qed

lemma good_bom: "zat z 0 \<noteq> 0 \<Longrightarrow> good_token z (tok_bom z)"
  using good_ident [of 1 z] zat_lengths [of z] by (auto simp: tok_bom_def good_token_def)

lemma good_scan: "zat z 0 \<noteq> 0 \<Longrightarrow> 0 < t \<and> t < TK_WINDOW \<or> t = TK_SPACE \<Longrightarrow> good_token z (scan P z 1, t)"
  using zat_lengths(1) [of z] scan_ge [of 1 P z] scan_le [of 1 z P] by (auto simp: good_token_def)

lemma good_one: "zat z 0 \<noteq> 0 \<Longrightarrow> 0 < t \<and> t < TK_WINDOW \<or> t = TK_ILLEGAL \<Longrightarrow> good_token z (1, t)"
  using zat_lengths(1) [of z] by (auto simp: good_token_def)

lemma good_eq: "zat z 0 \<noteq> 0 \<Longrightarrow> good_token z (1 + of_bool (zat z 1 = 61), TK_EQ)"
  using zat_lengths [of z] by (auto simp: good_token_def)

text \<open>The classes of the first byte that matter below.\<close>

lemma class_table:
  "map (\<lambda>c. c = CC_DIGIT) aiClass = map (\<lambda>n. 48 \<le> n \<and> n \<le> 57) [0..<256]"
  "map (\<lambda>c. c = CC_DOT) aiClass = map (\<lambda>n. n = 46) [0..<256]"
  "map (\<lambda>c. c = CC_NUL) aiClass = map (\<lambda>n. n = 0) [0..<256]"
  by code_simp+

lemma class_iff:
  "cclass c = CC_DIGIT \<longleftrightarrow> sqlite3Isdigit c" "cclass c = CC_DOT \<longleftrightarrow> c = 46" "cclass c = CC_NUL \<longleftrightarrow> c = 0"
proof -
  show "cclass c = CC_DIGIT \<longleftrightarrow> sqlite3Isdigit c"
    unfolding cclass_def isdigit_iff by (rule u8_table [OF class_table(1)])
  have "cclass c = CC_DOT \<longleftrightarrow> unat c = 46" unfolding cclass_def by (rule u8_table [OF class_table(2)])
  then show "cclass c = CC_DOT \<longleftrightarrow> c = 46" by (simp add: word_unat_eq_iff)
  have "cclass c = CC_NUL \<longleftrightarrow> unat c = 0" unfolding cclass_def by (rule u8_table [OF class_table(3)])
  then show "cclass c = CC_NUL \<longleftrightarrow> c = 0" by (simp add: unat_eq_zero)
qed

lemma good_if:
  "(b \<Longrightarrow> good_token z x) \<Longrightarrow> (\<not> b \<Longrightarrow> good_token z y) \<Longrightarrow> good_token z (if b then x else y)"
  by simp

lemma getToken_good:
  assumes "zat z 0 \<noteq> 0"
  shows "good_token z (sqlite3GetToken z)"
proof -
  have n: "cclass (zat z 0) \<noteq> CC_NUL" using assms class_iff(3) by blast
  have dot: "cclass (zat z 0) = CC_DOT \<Longrightarrow> good_token z (tok_dot z)"
    using good_number [of z] good_one [OF assms] by (simp add: tok_dot_def class_iff)
  have num: "cclass (zat z 0) = CC_DIGIT \<Longrightarrow> good_token z (tok_number z)"
    using good_number [of z] by (simp add: class_iff)
  note good = good_minus [OF assms] good_slash [OF assms] good_operators [OF assms] good_quote [OF assms]
    good_quote2 [OF assms] good_varalpha [OF assms] good_keyword [OF assms] good_x [OF assms] good_bom [OF assms]
    good_eq [OF assms] good_ident [OF order_refl zat_lengths(1) [OF assms]]
    good_scan [OF assms] good_one [OF assms]
  show ?thesis
    unfolding sqlite3GetToken_def Let_def tok_space_def tok_varnum_def
    by (intro good_if good dot num) (use n in simp_all)
qed

lemma getToken_nul: "zat z 0 = 0 \<Longrightarrow> sqlite3GetToken z = (0, TK_ILLEGAL)"
  using class_iff(3) [of 0] by (simp add: sqlite3GetToken_def Let_def)

text \<open>The loop of \<open>getToken\<close> always advances: its guard is the \<open>while\<close> condition.\<close>

lemma getToken_loop:
  "getToken z =
     (let (n, t) = sqlite3GetToken z in
      if t = TK_SPACE \<or> t = TK_COMMENT then getToken (drop n z)
      else
        (if t = TK_ID \<or> t = TK_STRING \<or> t = TK_JOIN_KW \<or> t = TK_WINDOW \<or> t = TK_OVER \<or>
            sqlite3ParserFallback t = TK_ID
         then TK_ID else t, drop n z))"
proof -
  obtain n t where nt: "sqlite3GetToken z = (n, t)" by (metis surj_pair)
  have "length (drop n z) < length z" if "t = TK_SPACE \<or> t = TK_COMMENT"
  proof -
    have "zat z 0 \<noteq> 0" using getToken_nul [of z] nt that by auto
    then show ?thesis using getToken_good [of z] nt zat_in [of z 0] by (auto simp: good_token_def)
  qed
  then show ?thesis by (subst getToken.simps) (auto simp: nt Let_def)
qed

lemma cstring_head: "z \<noteq> [] \<Longrightarrow> cstring z \<Longrightarrow> zat z 0 \<noteq> 0"
  by (cases z) (auto simp: cstring_def zat_def)

interpretation sqlTok: tokenizer sqlite3GetToken
  using getToken_good cstring_head by unfold_locales (auto simp: good_token_def)

text \<open>Quoted names and strings are one token.\<close>

lemma quote_end_double:
  assumes "zat rest 0 \<noteq> q"
  shows "quote_end q (double_quote q s @ q # rest) i = (q, i + length (double_quote q s))"
proof (induction s arbitrary: i)
  case Nil
  then show ?case using assms by (cases rest) (auto simp: zat_def)
next
  case (Cons c s)
  obtain d y where d: "double_quote q s @ q # rest = d # y" by (cases "double_quote q s @ q # rest") auto
  show ?case using Cons.IH [of "i + 1"] Cons.IH [of "i + 2"] by (cases "c = q") (simp_all add: d)
qed

lemma bracket_end_closed:
  "93 \<notin> set s \<Longrightarrow> c \<noteq> 93 \<Longrightarrow> bracket_end c (s @ 93 # rest) i = (93, i + length s + 1)"
proof (induction s arbitrary: c i)
  case Nil
  then show ?case by (cases rest) auto
next
  case (Cons d s)
  then show ?case by simp
qed

lemma quote_classes:
  "cclass 39 = CC_QUOTE" "cclass 34 = CC_QUOTE" "cclass 96 = CC_QUOTE" "cclass 91 = CC_QUOTE2"
  by (simp_all add: cclass_def aiClass_def)

lemma getToken_class:
  "cclass (zat z 0) = CC_QUOTE \<Longrightarrow> sqlite3GetToken z = tok_quote z"
  "cclass (zat z 0) = CC_QUOTE2 \<Longrightarrow> sqlite3GetToken z = tok_quote2 z"
  by (simp_all add: sqlite3GetToken_def)

lemma getToken_quoted:
  assumes "q \<in> {39, 34, 96}" and "zat rest 0 \<noteq> q"
  shows "sqlite3GetToken (q # double_quote q s @ q # rest) =
    (length (double_quote q s) + 2, if q = 39 then TK_STRING else TK_ID)"
proof -
  let ?z = "q # double_quote q s @ q # rest"
  have "cclass (zat ?z 0) = CC_QUOTE" using assms(1) quote_classes by auto
  then have "sqlite3GetToken ?z = tok_quote ?z" by (rule getToken_class)
  moreover have "q \<noteq> 0" using assms(1) by auto
  ultimately show ?thesis
    using quote_end_double [OF assms(2), of s 1] by (simp add: tok_quote_def)
qed

lemma getToken_bracketed:
  assumes "93 \<notin> set s"
  shows "sqlite3GetToken (91 # s @ 93 # rest) = (length s + 2, TK_ID)"
  using getToken_class(2) [of "91 # s @ 93 # rest"] quote_classes(4)
    bracket_end_closed [OF assms, of 91 rest 1]
  by (simp add: tok_quote2_def)

section \<open>Properties\<close>

text \<open>
  C13: a token never runs past the text and is what the parser's loop asserts.  On a non-empty
  NUL-terminated text, \<open>sqlite3GetToken\<close> consumes at least one byte and none beyond the terminator;
  a type at or above \<open>TK_WINDOW\<close> is one of the seven that \<open>sqlite3RunParser\<close> handles itself, and the
  keywords WINDOW, OVER and FILTER have the lengths 6, 4 and 6 it relies on.
\<close>

theorem getToken_within_text:
  assumes "cstring z" and "z \<noteq> []" and "sqlite3GetToken z = (n, t)"
  shows "0 < n \<and> n \<le> length z \<and>
    (TK_WINDOW \<le> t \<longrightarrow>
      t \<in> {TK_SPACE, TK_COMMENT, TK_ILLEGAL, TK_QNUMBER} \<or>
      (t, n) \<in> {(TK_WINDOW, 6), (TK_OVER, 4), (TK_FILTER, 6)})"
  using getToken_good [OF cstring_head [OF assms(2,1)]] assms(3) by (auto simp: good_token_def)

theorem getToken_within_text_witness:
  "sqlite3GetToken (ascii ''/* c */ x'') = (7, TK_COMMENT) \<and> 7 \<le> length (ascii ''/* c */ x'')"
proof -
  have t: "sqlite3GetToken (ascii ''/* c */ x'') = (7, TK_COMMENT)" by code_simp
  have "cstring (ascii ''/* c */ x'')" "ascii ''/* c */ x'' \<noteq> []" by code_simp+
  from getToken_within_text [OF this t] t show ?thesis by blast
qed

end
