(* ===== verification/Sq_Parse.thy ===== *)
theory Sq_Parse
  imports Sq_Token
begin

text \<open>
  The driver of the parser: the loop of \<open>sqlite3RunParser\<close> in tokenize.c, which chops the SQL text
  into tokens, drops space and comments, resolves the window keywords, ends the input with
  \<open>TK_SEMI\<close> and 0, and enforces the limit on the length of a statement.  The generated parser is a
  parameter: any function that takes its state and one token to the next state.
\<close>

section \<open>Feeding the parser\<close>

datatype run_end = RunDone | RunTooBig | RunInterrupt | RunUnrecognized cstr | RunParserStop
datatype run_action = Stop run_end | Skip | Feed nat nat

text \<open>
  One round of the loop of \<open>sqlite3RunParser\<close> once the token \<open>(n, t)\<close> at \<open>z\<close> is known: stop, skip the
  token, or feed the parser a token of some type and length.  \<open>intr\<close> is the interrupt flag,
  \<open>comments\<close> whether comments are allowed, \<open>lst\<close> is \<open>lastTokenParsed\<close>.
\<close>

definition run_action :: "bool \<Rightarrow> bool \<Rightarrow> cstr \<Rightarrow> nat \<Rightarrow> nat \<Rightarrow> int \<Rightarrow> run_action" where
  "run_action intr comments z n t lst =
     (if t \<ge> TK_WINDOW then
        if intr then Stop RunInterrupt
        else if t = TK_SPACE then Skip
        else if zat z 0 = 0 then
          (if lst = int TK_SEMI then Feed 0 0 else if lst = 0 then Stop RunDone else Feed TK_SEMI 0)
        else if t = TK_WINDOW then Feed (analyzeWindowKeyword (drop 6 z)) n
        else if t = TK_OVER then Feed (analyzeOverKeyword (drop 4 z) lst) n
        else if t = TK_FILTER then Feed (analyzeFilterKeyword (drop 6 z) lst) n
        else if t = TK_COMMENT \<and> comments then Skip
        else if t \<noteq> TK_QNUMBER then Stop (RunUnrecognized (take n z))
        else Feed t n
      else Feed t n)"

lemma run_action_progress:
  assumes "sqlite3GetToken z = (n, t)"
  shows "run_action intr comments z n t lst = Skip \<Longrightarrow> 0 < n \<and> n \<le> length z"
    and "run_action intr comments z n t lst = Feed t' n' \<Longrightarrow>
      n' = n \<and> 0 < n \<and> n \<le> length z \<or>
      n' = 0 \<and> (lst = int TK_SEMI \<and> t' = 0 \<or> lst \<noteq> int TK_SEMI \<and> lst \<noteq> 0 \<and> t' = TK_SEMI)"
proof -
  have pos: "0 < n \<and> n \<le> length z" if "zat z 0 \<noteq> 0"
    using getToken_good [OF that] assms by (simp add: good_token_def)
  have nul: "t = TK_ILLEGAL" if "zat z 0 = 0" using getToken_nul [OF that] assms by simp
  show "run_action intr comments z n t lst = Skip \<Longrightarrow> 0 < n \<and> n \<le> length z"
    using pos nul by (cases "zat z 0 = 0") (auto simp: run_action_def split: if_splits)
  show "run_action intr comments z n t lst = Feed t' n' \<Longrightarrow>
      n' = n \<and> 0 < n \<and> n \<le> length z \<or>
      n' = 0 \<and> (lst = int TK_SEMI \<and> t' = 0 \<or> lst \<noteq> int TK_SEMI \<and> lst \<noteq> 0 \<and> t' = TK_SEMI)"
    using pos nul by (cases "zat z 0 = 0") (auto simp: run_action_def split: if_splits)
qed

text \<open>
  The loop.  \<open>parse\<close> is the generated parser fed one token, \<open>ok\<close> the test of \<open>pParse->rc\<close>, and
  \<open>intr k\<close> the value of the interrupt flag in round \<open>k\<close>; the result is the reason for leaving the
  loop, the parser's state and the rest of the text.
\<close>

definition run_phase :: "int \<Rightarrow> nat" where
  "run_phase lst = (if lst = 0 then 0 else if lst = int TK_SEMI then 1 else 2)"

function run_loop ::
    "('s \<Rightarrow> nat \<Rightarrow> cstr \<Rightarrow> 's) \<Rightarrow> ('s \<Rightarrow> bool) \<Rightarrow> (nat \<Rightarrow> bool) \<Rightarrow> bool \<Rightarrow>
     nat \<Rightarrow> cstr \<Rightarrow> int \<Rightarrow> int \<Rightarrow> 's \<Rightarrow> run_end \<times> 's \<times> cstr" where
  "run_loop parse ok intr comments k z mx lst s =
     (let (n, t) = sqlite3GetToken z; mx = mx - int n in
      if mx < 0 then (RunTooBig, s, z)
      else
        case run_action (intr k) comments z n t lst of
          Stop e \<Rightarrow> (e, s, z)
        | Skip \<Rightarrow> run_loop parse ok intr comments (k + 1) (drop n z) mx lst s
        | Feed t' n' \<Rightarrow>
            let s = parse s t' (take n' z); z = drop n' z
            in if ok s then run_loop parse ok intr comments (k + 1) z mx (int t') s
               else (RunParserStop, s, z))"
  by pat_completeness auto
termination
proof (relation "measure (\<lambda>(parse, ok, intr, comments, k, z, mx, lst, s). 3 * length z + run_phase lst)", goal_cases)
  case (2 parse ok intr comments k z mx lst s x n t y)
  then have "0 < n" "n \<le> length z" using run_action_progress(1) [of z n t] by auto
  then show ?case by simp
next
  case (3 parse ok intr comments k z mx lst s x n t y t' n' s' z')
  have p: "run_phase a \<le> 2" for a by (simp add: run_phase_def)
  from 3 run_action_progress(2) [of z n t "intr k" comments lst t' n'] p [of "int t'"] show ?case
    by (auto simp: run_phase_def)
qed simp

declare run_loop.simps [simp del]

definition sqlite3RunParser ::
    "('s \<Rightarrow> nat \<Rightarrow> cstr \<Rightarrow> 's) \<Rightarrow> ('s \<Rightarrow> bool) \<Rightarrow> (nat \<Rightarrow> bool) \<Rightarrow> bool \<Rightarrow> int \<Rightarrow> 's \<Rightarrow> cstr \<Rightarrow>
     run_end \<times> 's \<times> cstr" where
  "sqlite3RunParser parse ok intr comments mxSqlLen s zSql =
     run_loop parse ok intr comments 0 zSql mxSqlLen (-1) s"


lemma run_loop_skip:
  assumes "sqlite3GetToken z = (n, t)" "int n \<le> mx" "run_action (intr k) comments z n t lst = Skip"
  shows "run_loop parse ok intr comments k z mx lst s =
    run_loop parse ok intr comments (k + 1) (drop n z) (mx - int n) lst s"
  using assms by (subst run_loop.simps) simp

lemma run_loop_feed:
  assumes "sqlite3GetToken z = (n, t)" "int n \<le> mx" "run_action (intr k) comments z n t lst = Feed t' n'"
    and "ok (parse s t' (take n' z))"
  shows "run_loop parse ok intr comments k z mx lst s =
    run_loop parse ok intr comments (k + 1) (drop n' z) (mx - int n) (int t') (parse s t' (take n' z))"
  using assms by (subst run_loop.simps) simp

lemma run_loop_done:
  assumes "sqlite3GetToken z = (n, t)" "int n \<le> mx" "run_action (intr k) comments z n t lst = Stop e"
  shows "run_loop parse ok intr comments k z mx lst s = (e, s, z)"
  using assms by (subst run_loop.simps) simp





text \<open>The loop is done only at the end of a text within the limit.\<close>

lemma run_action_done: "run_action intr comments z n t lst = Stop RunDone \<Longrightarrow> zat z 0 = 0"
  by (auto simp: run_action_def split: if_splits)

lemma run_loop_limit:
  assumes "run_loop parse ok intr comments k z mx lst s = (RunDone, s', rest)" and "cstring z"
  shows "rest = [] \<and> int (length z) \<le> mx"
  using assms
proof (induction parse ok intr comments k z mx lst s rule: run_loop.induct)
  case (1 parse ok intr comments k z mx lst s)
  obtain n t where nt: "sqlite3GetToken z = (n, t)" by (metis surj_pair)
  have mx: "int n \<le> mx" using "1.prems"(1) nt by (subst (asm) run_loop.simps) (auto simp: Let_def split: if_splits)
  show ?case
  proof (cases "run_action (intr k) comments z n t lst")
    case (Stop e)
    then have e: "e = RunDone" "rest = z"
      using run_loop_done [where intr = intr and parse = parse and ok = ok and s = s, OF nt mx Stop] "1.prems"(1) by auto
    then have "z = []" using run_action_done Stop cstring_head "1.prems"(2) by blast
    with e mx nt show ?thesis by simp
  next
    case Skip
    have "run_loop parse ok intr comments (k + 1) (drop n z) (mx - int n) lst s = (RunDone, s', rest)"
      using run_loop_skip [where intr = intr and parse = parse and ok = ok and s = s, OF nt mx Skip] "1.prems"(1) by simp
    from "1.IH"(1) [OF nt [symmetric] refl refl _ Skip this sqlTok.cstring_drop [OF "1.prems"(2)]] mx
    show ?thesis by auto
  next
    case (Feed t' n')
    let ?s = "parse s t' (take n' z)"
    have ok: "ok ?s" using "1.prems"(1) nt mx Feed by (subst (asm) run_loop.simps) (auto simp: Let_def split: if_splits)
    have "run_loop parse ok intr comments (k + 1) (drop n' z) (mx - int n) (int t') ?s = (RunDone, s', rest)"
      using run_loop_feed [where intr = intr and parse = parse and ok = ok and s = s, OF nt mx Feed ok] "1.prems"(1) by simp
    from "1.IH"(2) [OF nt [symmetric] refl refl _ Feed refl refl ok this sqlTok.cstring_drop [OF "1.prems"(2)]]
    have "rest = [] \<and> int (length (drop n' z)) \<le> mx - int n" using mx by simp
    moreover have "n' = n \<or> n' = 0" using run_action_progress(2) [OF nt Feed] by blast
    ultimately show ?thesis by auto
  qed
qed

section \<open>Properties\<close>



text \<open>
  The length limit is enforced.  Whatever the parser and the flags, \<open>sqlite3RunParser\<close> leaves its
  loop normally only at the end of a text that is not longer than \<open>SQLITE_LIMIT_SQL_LENGTH\<close>.
\<close>

theorem runParser_enforces_limit:
  assumes "cstring zSql"
    and "sqlite3RunParser parse ok intr comments mxSqlLen s zSql = (RunDone, s', rest)"
  shows "rest = [] \<and> int (length zSql) \<le> mxSqlLen"
  using run_loop_limit [OF assms(2) [unfolded sqlite3RunParser_def] assms(1)] .

theorem runParser_enforces_limit_witness:
  "sqlite3RunParser (\<lambda>s t w. s @ [t]) (\<lambda>_. True) (\<lambda>_. False) True 3 [] (ascii ''a,b'') =
     (RunDone, [TK_ID, TK_COMMA, TK_ID, TK_SEMI, 0], []) \<and> int (length (ascii ''a,b'')) \<le> 3"
proof -
  have r: "sqlite3RunParser (\<lambda>s t w. s @ [t]) (\<lambda>_. True) (\<lambda>_. False) True 3 [] (ascii ''a,b'') =
     (RunDone, [TK_ID, TK_COMMA, TK_ID, TK_SEMI, 0], [])" by code_simp
  have "cstring (ascii ''a,b'')" by code_simp
  from runParser_enforces_limit [OF this r] r show ?thesis by blast
qed

end
