(* ===== verification/Sq_Complete.thy ===== *)
theory Sq_Complete
  imports Sq_Ctype
begin

text \<open>
  \<open>sqlite3_complete\<close> of complete.c: whether a text ends at the end of a statement.  The text is
  chopped into coarse tokens, and an automaton of eight states follows CREATE TRIGGER statements to
  their \<open>;END;\<close>.

  The specification is the language of complete texts: sequences of statements, each ended by its
  first semicolon, or by its first \<open>;END;\<close> when it begins like a CREATE TRIGGER.
\<close>

section \<open>Model\<close>

abbreviation (input) tkSEMI :: nat where "tkSEMI \<equiv> 0"
abbreviation (input) tkWS :: nat where "tkWS \<equiv> 1"
abbreviation (input) tkOTHER :: nat where "tkOTHER \<equiv> 2"
abbreviation (input) tkEXPLAIN :: nat where "tkEXPLAIN \<equiv> 3"
abbreviation (input) tkCREATE :: nat where "tkCREATE \<equiv> 4"
abbreviation (input) tkTEMP :: nat where "tkTEMP \<equiv> 5"
abbreviation (input) tkTRIGGER :: nat where "tkTRIGGER \<equiv> 6"
abbreviation (input) tkEND :: nat where "tkEND \<equiv> 7"

definition complete_trans :: "nat list list" where
  "complete_trans = [
     [1, 0, 2, 3, 4, 2, 2, 2],
     [1, 1, 2, 3, 4, 2, 2, 2],
     [1, 2, 2, 2, 2, 2, 2, 2],
     [1, 3, 3, 2, 4, 2, 2, 2],
     [1, 4, 2, 2, 2, 4, 5, 2],
     [6, 5, 5, 5, 5, 5, 5, 5],
     [6, 6, 5, 5, 5, 5, 5, 7],
     [1, 7, 5, 5, 5, 5, 5, 5]]"

text \<open>One round of the loop: a token and the bytes it takes, or one of the early returns
  \<open>return 0\<close> and \<open>return state==1\<close>.\<close>

datatype complete_step = CToken nat nat | CReturn0 | CReturnState

text \<open>The number of bytes before \<open>*/\<close>, if there is one.\<close>

fun find_comment_end :: "cstr \<Rightarrow> nat option" where
  "find_comment_end [] = None"
| "find_comment_end (c # z) =
     (if c \<noteq> 42 \<or> zat z 0 \<noteq> 47 then map_option Suc (find_comment_end z) else Some 0)"

definition find_byte :: "u8 \<Rightarrow> cstr \<Rightarrow> nat option" where
  "find_byte c z =
     (let k = length (takeWhile (\<lambda>d. d \<noteq> c) z) in if k < length z then Some k else None)"

definition id_is :: "cstr \<Rightarrow> nat \<Rightarrow> u8 list \<Rightarrow> bool" where
  "id_is z nId w \<longleftrightarrow>
     nId = length w \<and> sqlite3_strnicmp (Some z) (Some w) (int (length w)) = 0"

definition complete_id :: "cstr \<Rightarrow> nat \<Rightarrow> nat" where
  "complete_id z nId =
     (let c = zat z 0 in
      if c = 99 \<or> c = 67 then
        (if id_is z nId [99, 114, 101, 97, 116, 101] then tkCREATE else tkOTHER)
      else if c = 116 \<or> c = 84 then
        (if id_is z nId [116, 114, 105, 103, 103, 101, 114] then tkTRIGGER
         else if id_is z nId [116, 101, 109, 112] then tkTEMP
         else if id_is z nId [116, 101, 109, 112, 111, 114, 97, 114, 121] then tkTEMP
         else tkOTHER)
      else if c = 101 \<or> c = 69 then
        (if id_is z nId [101, 110, 100] then tkEND
         else if id_is z nId [101, 120, 112, 108, 97, 105, 110] then tkEXPLAIN
         else tkOTHER)
      else tkOTHER)"

definition complete_step :: "cstr \<Rightarrow> complete_step" where
  "complete_step z =
     (let c = zat z 0 in
      if c = 59 then CToken tkSEMI 1
      else if c = 32 \<or> c = 13 \<or> c = 9 \<or> c = 10 \<or> c = 12 then CToken tkWS 1
      else if c = 47 then
        (if zat z 1 \<noteq> 42 then CToken tkOTHER 1
         else case find_comment_end (drop 2 z) of
                None \<Rightarrow> CReturn0
              | Some k \<Rightarrow> CToken tkWS (2 + k + 2))
      else if c = 45 then
        (if zat z 1 \<noteq> 45 then CToken tkOTHER 1
         else case find_byte 10 z of None \<Rightarrow> CReturnState | Some k \<Rightarrow> CToken tkWS (k + 1))
      else if c = 91 then
        (case find_byte 93 (drop 1 z) of None \<Rightarrow> CReturn0 | Some k \<Rightarrow> CToken tkOTHER (1 + k + 1))
      else if c = 96 \<or> c = 34 \<or> c = 39 then
        (case find_byte c (drop 1 z) of None \<Rightarrow> CReturn0 | Some k \<Rightarrow> CToken tkOTHER (1 + k + 1))
      else if IdChar c then
        (let nId = 1 + length (takeWhile IdChar (drop 1 z)) in CToken (complete_id z nId) nId)
      else CToken tkOTHER 1)"

function complete_loop :: "nat \<Rightarrow> cstr \<Rightarrow> bool" where
  "complete_loop state z =
     (if zat z 0 = 0 then state = 1
      else
        case complete_step z of
          CReturn0 \<Rightarrow> False
        | CReturnState \<Rightarrow> state = 1
        | CToken token n \<Rightarrow> complete_loop (complete_trans ! state ! token) (drop n z))"
  by pat_completeness auto
termination
  by (relation "measure (\<lambda>(state, z). length z)")
    (auto simp: complete_step_def Let_def zat_def split: if_splits option.splits)

declare complete_loop.simps [simp del]

definition sqlite3_complete :: "cstr \<Rightarrow> bool" where
  "sqlite3_complete zSql = complete_loop 0 zSql"

section \<open>Tokens of a text\<close>

text \<open>The tokenizer of the loop; an unterminated comment, name or string is a token 8 that takes
  the rest of the text.\<close>

definition complete_tok :: "cstr \<Rightarrow> nat \<times> nat" where
  "complete_tok z =
     (case complete_step z of
        CToken t n \<Rightarrow> (n, t) | CReturn0 \<Rightarrow> (length z, 8) | CReturnState \<Rightarrow> (length z, tkWS))"

lemma find_comment_end_bound: "find_comment_end z = Some k \<Longrightarrow> k + 2 \<le> length z"
proof (induction z arbitrary: k)
  case (Cons c z)
  show ?case
  proof (cases "c \<noteq> 42 \<or> zat z 0 \<noteq> 47")
    case True
    then obtain j where "find_comment_end z = Some j" "k = Suc j" using Cons.prems by auto
    with Cons.IH show ?thesis by fastforce
  next
    case False
    then show ?thesis using Cons.prems by (cases z) (auto simp: zat_def)
  qed
qed simp

lemma find_byte_bound: "find_byte c z = Some k \<Longrightarrow> k < length z"
  by (auto simp: find_byte_def Let_def split: if_splits)

lemma complete_id_less: "complete_id z n < 8"
  by (simp add: complete_id_def Let_def)

lemma complete_step_bound:
  assumes "complete_step z = CToken t n" and "zat z 0 \<noteq> 0"
  shows "0 < n \<and> n \<le> length z \<and> t < 8"
proof -
  have z: "z \<noteq> []" using assms(2) by (auto simp: zat_def)
  have l1: "1 + length (takeWhile IdChar (drop 1 z)) \<le> length z"
    using length_takeWhile_le [of IdChar "drop 1 z"] z by (cases z) auto
  have l2: "zat z 1 = 42 \<Longrightarrow> 2 \<le> length z"
    by (cases z) (auto simp: zat_def Suc_le_eq split: if_splits)
  show ?thesis
    using assms z l1 l2 complete_id_less find_comment_end_bound [of "drop 2 z"]
      find_byte_bound [of 10 z] find_byte_bound [of _ "drop 1 z"]
    unfolding complete_step_def Let_def
    by (fastforce split: if_splits option.splits simp: Suc_le_eq)
qed

lemma complete_step_type: "complete_step z = CToken t n \<Longrightarrow> t < 8"
  using complete_id_less by (auto simp: complete_step_def Let_def split: if_splits option.splits)

lemma cstring_not_nul: "z \<noteq> [] \<Longrightarrow> cstring z \<Longrightarrow> zat z 0 \<noteq> 0"
  by (cases z) (auto simp: cstring_def zat_def)

interpretation completeTok: tokenizer complete_tok
proof
  fix z :: cstr
  assume "z \<noteq> []" "cstring z"
  then have "zat z 0 \<noteq> 0" by (rule cstring_not_nul)
  then show "0 < fst (complete_tok z)" "fst (complete_tok z) \<le> length z"
    using complete_step_bound [of z] \<open>z \<noteq> []\<close>
    by (auto simp: complete_tok_def split: complete_step.split)
qed


text \<open>The automaton on a sequence of tokens.\<close>

definition ctrans :: "nat \<Rightarrow> nat \<Rightarrow> nat" where
  "ctrans s t = complete_trans ! s ! t"

definition complete_types :: "cstr \<Rightarrow> nat list" where
  "complete_types z = map fst (chop complete_tok z)"

lemma trans_ws: "s < 8 \<Longrightarrow> ctrans s tkWS = s"
proof -
  have "list_all (\<lambda>s. ctrans s tkWS = s) [0..<8]" by code_simp
  then show "s < 8 \<Longrightarrow> ctrans s tkWS = s" by (auto simp: list_all_iff)
qed

lemma trans_less: "s < 8 \<Longrightarrow> t < 8 \<Longrightarrow> ctrans s t < 8"
proof -
  have "list_all (\<lambda>s. list_all (\<lambda>t. ctrans s t < 8) [0..<8]) [0..<8]" by code_simp
  then show "s < 8 \<Longrightarrow> t < 8 \<Longrightarrow> ctrans s t < 8" by (auto simp: list_all_iff)
qed

lemma complete_loop_tokens:
  assumes "cstring z" "s < 8"
  shows "complete_loop s z \<longleftrightarrow> 8 \<notin> set (complete_types z) \<and> foldl ctrans s (complete_types z) = 1"
  using assms
proof (induction z arbitrary: s rule: measure_induct_rule [where f = length])
  case (less z)
  show ?case
  proof (cases "z = []")
    case True
    then show ?thesis by (subst complete_loop.simps) (simp add: complete_types_def zat_def)
  next
    case False
    have z0: "zat z 0 \<noteq> 0" using cstring_not_nul [OF False less.prems(1)] .
    show ?thesis
    proof (cases "complete_step z")
      case (CToken t n)
      note b = complete_step_bound [OF CToken z0]
      have "complete_types z = t # complete_types (drop n z)"
        using completeTok.chop_step [OF False less.prems(1), of n t] CToken
        by (simp add: complete_types_def complete_tok_def)
      moreover have "complete_loop s z = complete_loop (ctrans s t) (drop n z)"
        using z0 CToken by (subst complete_loop.simps) (simp add: ctrans_def)
      moreover have "length (drop n z) < length z" using b False by simp
      ultimately show ?thesis
        using less.IH [of "drop n z" "ctrans s t"] completeTok.cstring_drop [OF less.prems(1), of n]
          trans_less [OF less.prems(2), of t] b by auto
    next
      case CReturn0
      have "complete_types z = [8]"
        using completeTok.chop_step [OF False less.prems(1), of "length z" 8] CReturn0
        by (simp add: complete_types_def complete_tok_def)
      moreover have "\<not> complete_loop s z" using z0 CReturn0 by (subst complete_loop.simps) simp
      ultimately show ?thesis by simp
    next
      case CReturnState
      have "complete_types z = [tkWS]"
        using completeTok.chop_step [OF False less.prems(1), of "length z" tkWS] CReturnState
        by (simp add: complete_types_def complete_tok_def)
      moreover have "complete_loop s z \<longleftrightarrow> s = 1" using z0 CReturnState by (subst complete_loop.simps) simp
      ultimately show ?thesis using trans_ws [OF less.prems(2)] by simp
    qed
  qed
qed

lemma complete_types_bound: "cstring z \<Longrightarrow> t \<in> set (complete_types z) \<Longrightarrow> t \<le> 8"
proof -
  assume z: "cstring z" "t \<in> set (complete_types z)"
  then obtain w where "(t, w) \<in> set (chop complete_tok z)" by (auto simp: complete_types_def)
  then obtain i n where i: "complete_tok (drop i z) = (n, t)" using completeTok.chop_pieces [OF z(1)] by blast
  show "t \<le> 8"
    using i complete_step_type by (fastforce simp: complete_tok_def split: complete_step.splits)
qed

section \<open>Statements\<close>

text \<open>How a CREATE TRIGGER statement begins, in tokens without white space.\<close>

definition explain_words :: "nat list \<Rightarrow> bool" where
  "explain_words s \<longleftrightarrow> (\<exists>os. s = tkEXPLAIN # os \<and> set os \<subseteq> {tkOTHER})"

definition create_words :: "nat list \<Rightarrow> bool" where
  "create_words s \<longleftrightarrow>
     (\<exists>e ts. s = e @ tkCREATE # ts \<and> (e = [] \<or> explain_words e) \<and> set ts \<subseteq> {tkTEMP})"

definition trigger_head :: "nat list \<Rightarrow> bool" where
  "trigger_head s \<longleftrightarrow> (\<exists>c rest. s = c @ tkTRIGGER # rest \<and> create_words c)"

definition ends_trigger :: "nat list \<Rightarrow> bool" where
  "ends_trigger r \<longleftrightarrow> (\<exists>b. r = b @ [tkSEMI, tkEND, tkSEMI])"

inductive sql_statement :: "nat list \<Rightarrow> bool" where
  simple: "tkSEMI \<notin> set s \<Longrightarrow> \<not> trigger_head s \<Longrightarrow> sql_statement (s @ [tkSEMI])"
| trigger: "tkSEMI \<notin> set s \<Longrightarrow> trigger_head s \<Longrightarrow> ends_trigger (tkSEMI # r) \<Longrightarrow>
    (\<And>p q. tkSEMI # r = p @ q \<Longrightarrow> q \<noteq> [] \<Longrightarrow> \<not> ends_trigger p) \<Longrightarrow> sql_statement (s @ tkSEMI # r)"

lemma explain_words_snoc:
  "explain_words (s @ [x]) \<longleftrightarrow> s = [] \<and> x = tkEXPLAIN \<or> explain_words s \<and> x = tkOTHER"
  by (cases s) (auto simp: explain_words_def)

lemma create_words_snoc:
  "create_words (s @ [x]) \<longleftrightarrow>
     (s = [] \<or> explain_words s) \<and> x = tkCREATE \<or> create_words s \<and> x = tkTEMP"
proof
  assume "create_words (s @ [x])"
  then obtain e ts where e: "s @ [x] = e @ tkCREATE # ts" "e = [] \<or> explain_words e" "set ts \<subseteq> {tkTEMP}"
    by (auto simp: create_words_def)
  show "(s = [] \<or> explain_words s) \<and> x = tkCREATE \<or> create_words s \<and> x = tkTEMP"
    using e by (cases ts rule: rev_cases) (auto simp: create_words_def)
next
  assume "(s = [] \<or> explain_words s) \<and> x = tkCREATE \<or> create_words s \<and> x = tkTEMP"
  then show "create_words (s @ [x])"
  proof
    assume "(s = [] \<or> explain_words s) \<and> x = tkCREATE"
    then show ?thesis unfolding create_words_def by (intro exI [of _ s] exI [of _ "[]"]) auto
  next
    assume "create_words s \<and> x = tkTEMP"
    then obtain e ts where "s = e @ tkCREATE # ts" "e = [] \<or> explain_words e" "set ts \<subseteq> {tkTEMP}" "x = tkTEMP"
      by (auto simp: create_words_def)
    then show ?thesis unfolding create_words_def by (intro exI [of _ e] exI [of _ "ts @ [x]"]) auto
  qed
qed

lemma trigger_head_snoc: "trigger_head (s @ [x]) \<longleftrightarrow> trigger_head s \<or> create_words s \<and> x = tkTRIGGER"
proof
  assume "trigger_head (s @ [x])"
  then obtain c rest where c: "s @ [x] = c @ tkTRIGGER # rest" "create_words c" by (auto simp: trigger_head_def)
  then show "trigger_head s \<or> create_words s \<and> x = tkTRIGGER"
    by (cases rest rule: rev_cases) (auto simp: trigger_head_def)
next
  assume "trigger_head s \<or> create_words s \<and> x = tkTRIGGER"
  then show "trigger_head (s @ [x])"
  proof
    assume "trigger_head s"
    then obtain c rest where "s = c @ tkTRIGGER # rest" "create_words c" by (auto simp: trigger_head_def)
    then show ?thesis unfolding trigger_head_def by (intro exI [of _ c] exI [of _ "rest @ [x]"]) simp
  qed (auto simp: trigger_head_def)
qed

text \<open>The four shapes exclude each other.\<close>

lemma explain_no_create: "explain_words s \<Longrightarrow> tkCREATE \<notin> set s \<and> tkTRIGGER \<notin> set s \<and> s \<noteq> []"
  by (auto simp: explain_words_def)

lemma create_no_trigger: "create_words s \<Longrightarrow> tkTRIGGER \<notin> set s \<and> tkCREATE \<in> set s"
  using explain_no_create by (auto simp: create_words_def)

lemma shapes_exclusive:
  "explain_words s \<Longrightarrow> s \<noteq> [] \<and> \<not> create_words s \<and> \<not> trigger_head s"
  "create_words s \<Longrightarrow> s \<noteq> [] \<and> \<not> trigger_head s"
  "trigger_head s \<Longrightarrow> s \<noteq> []"
  using explain_no_create [of s] create_no_trigger [of s] by (auto simp: trigger_head_def)

definition head_state :: "nat list \<Rightarrow> nat" where
  "head_state s = (if s = [] then 1 else if explain_words s then 3 else if create_words s then 4
     else if trigger_head s then 5 else 2)"

text \<open>The tokens of statements: no white space and nothing unterminated.\<close>

definition plain :: "nat list \<Rightarrow> bool" where
  "plain ts \<longleftrightarrow> set ts \<subseteq> {0, 2, 3, 4, 5, 6, 7}"

lemma head_state_snoc:
  assumes "x \<in> {2, 3, 4, 5, 6, 7}"
  shows "head_state (s @ [x]) = ctrans (head_state s) x"
proof -
  consider "s = []" | "explain_words s" | "create_words s" | "trigger_head s"
    | "s \<noteq> []" "\<not> explain_words s" "\<not> create_words s" "\<not> trigger_head s" by blast
  then show ?thesis
  proof cases
    case 1
    then show ?thesis using assms
      by (auto simp: head_state_def ctrans_def complete_trans_def explain_words_def create_words_def trigger_head_def
        Cons_eq_append_conv)
  next
    case 2
    with shapes_exclusive(1) [OF 2] assms show ?thesis
      by (auto simp: head_state_def ctrans_def complete_trans_def explain_words_snoc create_words_snoc trigger_head_snoc)
  next
    case 3
    with shapes_exclusive(2) [OF 3] shapes_exclusive(1) [of s] assms show ?thesis
      by (auto simp: head_state_def ctrans_def complete_trans_def explain_words_snoc create_words_snoc trigger_head_snoc)
  next
    case 4
    with shapes_exclusive [of s] assms show ?thesis
      by (auto simp: head_state_def ctrans_def complete_trans_def explain_words_snoc create_words_snoc trigger_head_snoc)
  next
    case 5
    with assms show ?thesis
      by (auto simp: head_state_def ctrans_def complete_trans_def explain_words_snoc create_words_snoc trigger_head_snoc)
  qed
qed

lemma head_state_run:
  assumes "plain s" "tkSEMI \<notin> set s"
  shows "foldl ctrans 1 s = head_state s"
  using assms
proof (induction s rule: rev_induct)
  case Nil
  then show ?case by (simp add: head_state_def)
next
  case (snoc x s)
  then have "x \<in> {2, 3, 4, 5, 6, 7}" "plain s" "tkSEMI \<notin> set s" by (auto simp: plain_def)
  with snoc.IH show ?case by (simp add: head_state_snoc)
qed

lemma head_semi:
  assumes "plain s" "tkSEMI \<notin> set s"
  shows "foldl ctrans 1 (s @ [tkSEMI]) = (if trigger_head s then 6 else 1)"
  using head_state_run [OF assms] shapes_exclusive [of s]
  by (auto simp: head_state_def ctrans_def complete_trans_def)


text \<open>Inside a trigger the state remembers the last two tokens.\<close>

definition body_state :: "nat list \<Rightarrow> nat" where
  "body_state r = (if last r = tkSEMI then 6 else if \<exists>b. r = b @ [tkSEMI, tkEND] then 7 else 5)"

lemma body_state_snoc:
  assumes "x \<in> {0, 2, 3, 4, 5, 6, 7}" "r \<noteq> []" "\<not> ends_trigger (r @ [x])"
  shows "body_state (r @ [x]) = ctrans (body_state r) x"
proof (cases "last r = tkSEMI")
  case True
  then obtain b where "r = b @ [tkSEMI]" using assms(2) by (metis append_butlast_last_id)
  then show ?thesis using assms(1) by (auto simp: body_state_def ctrans_def complete_trans_def)
next
  case False
  show ?thesis
  proof (cases "\<exists>b. r = b @ [tkSEMI, tkEND]")
    case True
    then obtain b where b: "r = b @ [tkSEMI, tkEND]" by blast
    then have "x \<noteq> tkSEMI" using assms(3) by (auto simp: ends_trigger_def)
    then show ?thesis using assms(1) b by (auto simp: body_state_def ctrans_def complete_trans_def)
  next
    case F: False
    have n: "\<not> (\<exists>b. r @ [x] = b @ [tkSEMI, tkEND])"
    proof
      assume "\<exists>b. r @ [x] = b @ [tkSEMI, tkEND]"
      then obtain b where "r @ [x] = (b @ [tkSEMI]) @ [tkEND]" by auto
      then have "r = b @ [tkSEMI]" by (simp only: append1_eq_conv)
      then show False using False by simp
    qed
    have "body_state r = 5" using False F by (simp add: body_state_def)
    moreover have "body_state (r @ [x]) = (if x = tkSEMI then 6 else 5)" using n by (simp add: body_state_def)
    ultimately show ?thesis using assms(1) by (auto simp: ctrans_def complete_trans_def)
  qed
qed

lemma body_run:
  assumes "plain r" "\<And>p q. tkSEMI # r = p @ q \<Longrightarrow> \<not> ends_trigger p"
  shows "foldl ctrans 6 r = body_state (tkSEMI # r)"
  using assms
proof (induction r rule: rev_induct)
  case Nil
  then show ?case by (simp add: body_state_def)
next
  case (snoc x r)
  have "plain r" "x \<in> {0, 2, 3, 4, 5, 6, 7}" using snoc.prems(1) by (auto simp: plain_def)
  moreover have "foldl ctrans 6 r = body_state (tkSEMI # r)"
    by (rule snoc.IH [OF \<open>plain r\<close>]) (use snoc.prems(2) in \<open>metis append.assoc append_Cons\<close>)
  moreover have "\<not> ends_trigger ((tkSEMI # r) @ [x])" using snoc.prems(2) [of "tkSEMI # r @ [x]" "[]"] by simp
  ultimately show ?case using body_state_snoc [of x "tkSEMI # r"] by simp
qed

lemma body_state_not_start: "body_state r \<noteq> 1"
  by (simp add: body_state_def)

lemma body_end:
  assumes "plain r" "ends_trigger (tkSEMI # r)" "\<And>p q. tkSEMI # r = p @ q \<Longrightarrow> q \<noteq> [] \<Longrightarrow> \<not> ends_trigger p"
  shows "foldl ctrans 6 r = 1"
proof -
  obtain b where b: "tkSEMI # r = b @ [tkSEMI, tkEND, tkSEMI]" using assms(2) by (auto simp: ends_trigger_def)
  obtain r' where r: "r = r' @ [tkSEMI]" "tkSEMI # r' = b @ [tkSEMI, tkEND]"
    using b by (cases r rule: rev_cases) (auto simp: Cons_eq_append_conv)
  have "foldl ctrans 6 r' = body_state (tkSEMI # r')"
  proof (rule body_run)
    show "plain r'" using assms(1) r(1) by (simp add: plain_def)
    show "\<not> ends_trigger p" if "tkSEMI # r' = p @ q" for p q
      using assms(3) [of p "q @ [tkSEMI]"] that r(1) by simp
  qed
  also have "\<dots> = 7" unfolding r(2) by (simp add: body_state_def)
  finally show ?thesis using r(1) by (simp add: ctrans_def complete_trans_def)
qed

lemma statement_run: "sql_statement s \<Longrightarrow> plain s \<Longrightarrow> foldl ctrans 1 s = 1"
proof (induction rule: sql_statement.induct)
  case (simple s)
  then show ?case using head_semi [of s] by (simp add: plain_def)
next
  case (trigger s r)
  then have "plain s" "plain r" by (auto simp: plain_def)
  then show ?case
    using head_semi [of s] trigger body_end [of r] by simp
qed

text \<open>The first statement of a text that the automaton accepts.\<close>

lemma first_prefix:
  assumes "P xs"
  shows "\<exists>p q. xs = p @ q \<and> P p \<and> (\<forall>p' q'. p = p' @ q' \<longrightarrow> q' \<noteq> [] \<longrightarrow> \<not> P p')"
  using assms
proof (induction xs rule: measure_induct_rule [where f = length])
  case (less xs)
  show ?case
  proof (cases "\<exists>p' q'. xs = p' @ q' \<and> q' \<noteq> [] \<and> P p'")
    case True
    then obtain p' q' where p: "xs = p' @ q'" "q' \<noteq> []" "P p'" by blast
    from less.IH [of p'] p obtain p q where "p' = p @ q" "P p" "\<forall>p' q'. p = p' @ q' \<longrightarrow> q' \<noteq> [] \<longrightarrow> \<not> P p'"
      by auto
    then show ?thesis using p(1) by (intro exI [of _ p] exI [of _ "q @ q'"]) auto
  next
    case False
    then show ?thesis using less.prems by (intro exI [of _ xs] exI [of _ "[]"]) auto
  qed
qed

lemma first_statement:
  assumes "plain ts" "ts \<noteq> []" "foldl ctrans 1 ts = 1"
  shows "\<exists>s rest. ts = s @ rest \<and> sql_statement s"
proof -
  have "tkSEMI \<in> set ts"
  proof (rule ccontr)
    assume n: "tkSEMI \<notin> set ts"
    then have "head_state ts = 1" using head_state_run [OF assms(1)] assms(3) by simp
    then show False using assms(2) by (simp add: head_state_def split: if_splits)
  qed
  then obtain s rest where s: "ts = s @ tkSEMI # rest" "tkSEMI \<notin> set s" by (metis split_list_first)
  have ps: "plain s" "plain rest" using assms(1) s(1) by (auto simp: plain_def)
  show ?thesis
  proof (cases "trigger_head s")
    case False
    then show ?thesis using s sql_statement.simple [OF s(2) False] by (intro exI [of _ "s @ [tkSEMI]"] exI [of _ rest]) simp
  next
    case True
    have run: "foldl ctrans 6 rest = 1" using assms(3) s(1) head_semi [OF ps(1) s(2)] True by simp
    have "\<exists>p q. tkSEMI # rest = p @ q \<and> ends_trigger p"
    proof (rule ccontr)
      assume "\<nexists>p q. tkSEMI # rest = p @ q \<and> ends_trigger p"
      then have "foldl ctrans 6 rest = body_state (tkSEMI # rest)" by (intro body_run [OF ps(2)]) blast
      then show False using run body_state_not_start [of "tkSEMI # rest"] by simp
    qed
    then obtain p0 q0 where p0: "tkSEMI # rest = p0 @ q0" "ends_trigger p0" by blast
    obtain p q where p: "p0 = p @ q" "ends_trigger p"
      "\<And>p' q'. p = p' @ q' \<Longrightarrow> q' \<noteq> [] \<Longrightarrow> \<not> ends_trigger p'"
      using first_prefix [of ends_trigger p0] p0(2) by blast
    have "p \<noteq> []" using p(2) by (auto simp: ends_trigger_def)
    then obtain r where r: "p = tkSEMI # r" using p0(1) p(1) by (cases p) auto
    have "sql_statement (s @ tkSEMI # r)"
      using sql_statement.trigger [OF s(2) True] p(2,3) r by blast
    moreover have "ts = (s @ tkSEMI # r) @ q @ q0" using s(1) p0(1) p(1) r by simp
    ultimately show ?thesis by blast
  qed
qed

lemma statement_nonempty: "sql_statement s \<Longrightarrow> s \<noteq> []"
  by (auto elim: sql_statement.cases)

lemma accepted_statements:
  assumes "plain ts"
  shows "foldl ctrans 1 ts = 1 \<longleftrightarrow> (\<exists>ss. ts = concat ss \<and> (\<forall>s \<in> set ss. sql_statement s))"
proof
  show "\<exists>ss. ts = concat ss \<and> (\<forall>s \<in> set ss. sql_statement s)" if "foldl ctrans 1 ts = 1"
    using assms that
  proof (induction ts rule: measure_induct_rule [where f = length])
    case (less ts)
    show ?case
    proof (cases "ts = []")
      case False
      obtain s rest where s: "ts = s @ rest" "sql_statement s"
        using first_statement [OF less.prems(1) False less.prems(2)] by blast
      have ps: "plain s" "plain rest" using less.prems(1) s(1) by (auto simp: plain_def)
      have "s \<noteq> []" by (rule statement_nonempty [OF s(2)])
      then have "length rest < length ts" using s(1) by simp
      moreover have "foldl ctrans 1 rest = 1" using less.prems(2) s(1) statement_run [OF s(2) ps(1)] by simp
      ultimately obtain ss where "rest = concat ss" "\<forall>s \<in> set ss. sql_statement s"
        using less.IH ps(2) by blast
      then show ?thesis using s by (intro exI [of _ "s # ss"]) auto
    qed (auto intro: exI [of _ "[]"])
  qed
next
  assume "\<exists>ss. ts = concat ss \<and> (\<forall>s \<in> set ss. sql_statement s)"
  then obtain ss where "ts = concat ss" "\<forall>s \<in> set ss. sql_statement s" by blast
  then show "foldl ctrans 1 ts = 1"
    using assms
  proof (induction ss arbitrary: ts)
    case (Cons s ss)
    then have "plain s" "plain (concat ss)" by (auto simp: plain_def)
    then show ?case using Cons statement_run [of s] by simp
  qed simp
qed

lemma start_state: "plain ts \<Longrightarrow> ts \<noteq> [] \<Longrightarrow> foldl ctrans 0 ts = foldl ctrans 1 ts"
  by (cases ts) (auto simp: plain_def ctrans_def complete_trans_def)

lemma foldl_skip_ws: "s < 8 \<Longrightarrow> \<forall>t \<in> set ts. t < 8 \<Longrightarrow> foldl ctrans s ts = foldl ctrans s (filter (\<lambda>t. t \<noteq> tkWS) ts)"
  by (induction ts arbitrary: s) (auto simp: trans_ws [simplified] trans_less)

lemma statements_nonempty:
  "ts \<noteq> [] \<and> (\<exists>ss. ts = concat ss \<and> (\<forall>s \<in> set ss. sql_statement s)) \<longleftrightarrow>
   (\<exists>ss. ss \<noteq> [] \<and> (\<forall>s \<in> set ss. sql_statement s) \<and> ts = concat ss)"
proof
  assume "\<exists>ss. ss \<noteq> [] \<and> (\<forall>s \<in> set ss. sql_statement s) \<and> ts = concat ss"
  then obtain s ss where "sql_statement s" "\<forall>s \<in> set ss. sql_statement s" "ts = s @ concat ss"
    by (metis concat.simps(2) list.exhaust list.set_intros(1,2))
  then show "ts \<noteq> [] \<and> (\<exists>ss. ts = concat ss \<and> (\<forall>s \<in> set ss. sql_statement s))"
    using statement_nonempty by (auto intro!: exI [of _ "s # ss"])
next
  assume "ts \<noteq> [] \<and> (\<exists>ss. ts = concat ss \<and> (\<forall>s \<in> set ss. sql_statement s))"
  then obtain ss where "ts \<noteq> []" "ts = concat ss" "\<forall>s \<in> set ss. sql_statement s" by blast
  then show "\<exists>ss. ss \<noteq> [] \<and> (\<forall>s \<in> set ss. sql_statement s) \<and> ts = concat ss"
    by (intro exI [of _ ss]) auto
qed

section \<open>Properties\<close>

text \<open>
  C9: \<open>sqlite3_complete\<close> decides the documented language.  A text is complete exactly when no
  comment, string or quoted name in it is left open and its tokens, without white space and comments,
  are a non-empty sequence of statements: each ends at its first semicolon, except that one that
  begins with CREATE TRIGGER (after an optional EXPLAIN, with TEMP or TEMPORARY) ends at its first
  \<open>;END;\<close>.
\<close>

theorem complete_iff_statements:
  assumes "cstring zSql"
  shows "sqlite3_complete zSql \<longleftrightarrow>
    8 \<notin> set (complete_types zSql) \<and>
    (\<exists>ss. ss \<noteq> [] \<and> (\<forall>s \<in> set ss. sql_statement s) \<and>
      filter (\<lambda>t. t \<noteq> tkWS) (complete_types zSql) = concat ss)"
proof (cases "8 \<in> set (complete_types zSql)")
  case True
  then show ?thesis using complete_loop_tokens [OF assms, of 0] by (simp add: sqlite3_complete_def)
next
  case False
  let ?ts = "filter (\<lambda>t. t \<noteq> tkWS) (complete_types zSql)"
  have less: "\<forall>t \<in> set (complete_types zSql). t < 8"
    using complete_types_bound [OF assms] False by (metis le_neq_implies_less)
  have "t < 8 \<Longrightarrow> t \<noteq> 1 \<Longrightarrow> t \<in> {0, 2, 3, 4, 5, 6, 7}" for t :: nat
    by (simp only: insert_iff empty_iff) arith
  with less have pl: "plain ?ts" unfolding plain_def by auto
  have "sqlite3_complete zSql \<longleftrightarrow> foldl ctrans 0 ?ts = 1"
    using complete_loop_tokens [OF assms, of 0] False foldl_skip_ws [of 0 "complete_types zSql"] less
    by (simp add: sqlite3_complete_def)
  also have "\<dots> \<longleftrightarrow> ?ts \<noteq> [] \<and> foldl ctrans 1 ?ts = 1"
    using start_state [OF pl] by (cases "?ts = []") auto
  also have "\<dots> \<longleftrightarrow> ?ts \<noteq> [] \<and> (\<exists>ss. ?ts = concat ss \<and> (\<forall>s \<in> set ss. sql_statement s))"
    using accepted_statements [OF pl] by simp
  also have "\<dots> \<longleftrightarrow> (\<exists>ss. ss \<noteq> [] \<and> (\<forall>s \<in> set ss. sql_statement s) \<and> ?ts = concat ss)"
    by (rule statements_nonempty)
  finally show ?thesis using False by simp
qed


theorem complete_iff_statements_witness:
  "sqlite3_complete [59, 91, 59, 93, 59, 32] \<and>
   (\<exists>ss. ss \<noteq> [] \<and> (\<forall>s \<in> set ss. sql_statement s) \<and>
      filter (\<lambda>t. t \<noteq> tkWS) (complete_types [59, 91, 59, 93, 59, 32]) = concat ss)"
proof -
  have c: "cstring [59, 91, 59, 93, 59, 32]" by code_simp
  have "sqlite3_complete [59, 91, 59, 93, 59, 32]" by code_simp
  with complete_iff_statements [OF c] show ?thesis by simp
qed

end
