(* ===== verification/Sq_Bitvec.thy ===== *)
theory Sq_Bitvec
  imports Sq_Prelude "HOL-Library.Monad_Syntax"
begin

text \<open>
  bitvec.c: the sets of page numbers that the pager keeps.  A \<open>Bitvec\<close> is a bitmap while its size
  allows it, a hash table with linear probing of up to 124 slots otherwise, and an array of 62
  sub-bitvecs once the hash table has become too full.

  Sizes are those of a 64-bit build: a structure of 512 bytes of which 496 are the union.  Memory
  failures are an input: a list of the outcomes of the next allocations, which all succeed once the
  list is used up.
\<close>

section \<open>Model\<close>

abbreviation (input) BITVEC_SZ :: nat where "BITVEC_SZ \<equiv> 512"
abbreviation (input) BITVEC_USIZE :: nat where "BITVEC_USIZE \<equiv> 496"
abbreviation (input) BITVEC_SZELEM :: nat where "BITVEC_SZELEM \<equiv> 8"
abbreviation (input) BITVEC_NELEM :: nat where "BITVEC_NELEM \<equiv> 496"
abbreviation (input) BITVEC_NBIT :: nat where "BITVEC_NBIT \<equiv> 3968"
abbreviation (input) BITVEC_NINT :: nat where "BITVEC_NINT \<equiv> 124"
abbreviation (input) BITVEC_MXHASH :: nat where "BITVEC_MXHASH \<equiv> 62"
abbreviation (input) BITVEC_NPTR :: nat where "BITVEC_NPTR \<equiv> 62"

definition BITVEC_HASH :: "nat \<Rightarrow> nat" where
  "BITVEC_HASH x = x mod BITVEC_NINT"

datatype Bitvec = Bitvec (iSize: nat) (nSet: nat) (iDivisor: nat) (un: bitvec_u)
and bitvec_u = aBitmap "u8 list" | aHash "nat list" | apSub "Bitvec option list"

type_synonym allocs = "bool list"

definition alloc :: "allocs \<Rightarrow> bool \<times> allocs" where
  "alloc al = (case al of [] \<Rightarrow> (True, []) | b # al \<Rightarrow> (b, al))"

text \<open>The zeroed structure: its union is read as a bitmap or as a hash table, by its size.\<close>

definition bitvec_new :: "nat \<Rightarrow> Bitvec" where
  "bitvec_new n = Bitvec n 0 0
     (if n \<le> BITVEC_NBIT then aBitmap (replicate BITVEC_NELEM 0) else aHash (replicate BITVEC_NINT 0))"

definition sqlite3BitvecCreate :: "allocs \<Rightarrow> nat \<Rightarrow> Bitvec option \<times> allocs" where
  "sqlite3BitvecCreate al n =
     (let (ok, al) = alloc al in (if ok then Some (bitvec_new n) else None, al))"

text \<open>
  Probing for \<open>v\<close> from slot \<open>h\<close>.  After \<open>BITVEC_NINT\<close> steps every slot has been seen, so \<open>Stuck\<close>
  stands for a loop that never ends.
\<close>

datatype probe_result = Found nat | Free nat | Stuck

fun probe :: "nat \<Rightarrow> nat list \<Rightarrow> nat \<Rightarrow> nat \<Rightarrow> probe_result" where
  "probe 0 H h v = Stuck"
| "probe (Suc k) H h v =
     (if H ! h = 0 then Free h else if H ! h = v then Found h
      else probe k H ((h + 1) mod BITVEC_NINT) v)"

definition hash_probe :: "nat list \<Rightarrow> nat \<Rightarrow> probe_result" where
  "hash_probe H v = probe BITVEC_NINT H (BITVEC_HASH (v - 1)) v"

lemma sub_size: "k < length subs \<Longrightarrow> subs ! k = Some q \<Longrightarrow> size q < size_list (size_option size) subs"
  by (induction subs arbitrary: k) (auto simp: nth_Cons split: nat.splits intro: less_SucI trans_less_add2)

text \<open>
  \<open>sqlite3BitvecTestNotNull\<close> from the point where \<open>i\<close> has been decremented and checked: \<open>None\<close> if the probe
  does not end, or the union is not read as what was stored in it.
\<close>

function test_run :: "Bitvec \<Rightarrow> nat \<Rightarrow> bool option" where
  "test_run p i =
     (if iDivisor p \<noteq> 0 then
        (case un p of
           apSub subs \<Rightarrow>
             (if i div iDivisor p < length subs then
                case subs ! (i div iDivisor p) of
                  None \<Rightarrow> Some False
                | Some q \<Rightarrow> test_run q (i mod iDivisor p)
              else None)
         | _ \<Rightarrow> None)
      else if iSize p \<le> BITVEC_NBIT then
        (case un p of
           aBitmap bs \<Rightarrow> Some (bs ! (i div BITVEC_SZELEM) AND push_bit (i mod BITVEC_SZELEM) 1 \<noteq> 0)
         | _ \<Rightarrow> None)
      else
        (case un p of
           aHash H \<Rightarrow> (case hash_probe H (i + 1) of Found _ \<Rightarrow> Some True | Free _ \<Rightarrow> Some False | Stuck \<Rightarrow> None)
         | _ \<Rightarrow> None))"
  by pat_completeness auto
termination
proof (relation "measure (\<lambda>(p, i). size p)", goal_cases)
  case (2 p i subs q)
  then have "size q < size_list (size_option size) subs" by (intro sub_size) auto
  with 2 show ?case by (cases p) auto
qed simp

declare test_run.simps [simp del]

definition sqlite3BitvecTestNotNull :: "Bitvec \<Rightarrow> u32 \<Rightarrow> bool option" where
  "sqlite3BitvecTestNotNull p i =
     (let i = i - 1 in if unat i \<ge> iSize p then Some False else test_run p (unat i))"

definition sqlite3BitvecTest :: "Bitvec option \<Rightarrow> u32 \<Rightarrow> bool option" where
  "sqlite3BitvecTest p i = (case p of None \<Rightarrow> Some False | Some p \<Rightarrow> sqlite3BitvecTestNotNull p i)"

text \<open>The divisor of a hash table that is split up.\<close>

definition bitvec_divisor :: "nat \<Rightarrow> nat" where
  "bitvec_divisor n =
     (let d = n div BITVEC_NPTR; d = (if n mod BITVEC_NPTR \<noteq> 0 then d + 1 else d)
      in if d < BITVEC_NBIT then BITVEC_NBIT else d)"

text \<open>
  \<open>sqlite3BitvecSet\<close> for \<open>1 \<le> i \<le> iSize\<close>: whether it returned \<open>SQLITE_OK\<close>, the new bitvec and the
  allocations left; \<open>None\<close> if a probe does not end or the fuel \<open>k\<close>, a bound on the depth of the calls,
  is used up.  \<open>set_all\<close> is the loop that re-inserts the values of the old hash table.
\<close>

type_synonym set_result = "(bool \<times> Bitvec \<times> allocs) option"

fun set_all :: "(allocs \<Rightarrow> Bitvec \<Rightarrow> nat \<Rightarrow> set_result) \<Rightarrow> nat list \<Rightarrow> bool \<times> Bitvec \<times> allocs \<Rightarrow> set_result" where
  "set_all f [] r = Some r"
| "set_all f (v # vs) (rc, p, al) =
     (if v = 0 then set_all f vs (rc, p, al)
      else case f al p v of
             None \<Rightarrow> None
           | Some (rc', p, al) \<Rightarrow> set_all f vs (rc \<and> rc', p, al))"

definition bitvec_store :: "Bitvec \<Rightarrow> nat list \<Rightarrow> nat \<Rightarrow> nat \<Rightarrow> Bitvec" where
  "bitvec_store p H h i = Bitvec (iSize p) (nSet p + 1) (iDivisor p) (aHash (H[h := i]))"

definition bitvec_rehash ::
    "(allocs \<Rightarrow> Bitvec \<Rightarrow> nat \<Rightarrow> set_result) \<Rightarrow> allocs \<Rightarrow> Bitvec \<Rightarrow> nat list \<Rightarrow> nat \<Rightarrow> nat \<Rightarrow> set_result" where
  "bitvec_rehash f al p H h i =
     (if nSet p \<ge> BITVEC_MXHASH then
        let (ok, al) = alloc al in
        if \<not> ok then Some (False, p, al)
        else
          let p = Bitvec (iSize p) (nSet p) (bitvec_divisor (iSize p)) (apSub (replicate BITVEC_NPTR None))
          in case f al p i of
               None \<Rightarrow> None
             | Some r \<Rightarrow> set_all f H r
      else Some (True, bitvec_store p H h i, al))"

definition bitvec_set_hash ::
    "(allocs \<Rightarrow> Bitvec \<Rightarrow> nat \<Rightarrow> set_result) \<Rightarrow> allocs \<Rightarrow> Bitvec \<Rightarrow> nat list \<Rightarrow> nat \<Rightarrow> set_result" where
  "bitvec_set_hash f al p H i =
     (let h = BITVEC_HASH (i - 1) in
      if H ! h = 0 then
        (if nSet p < BITVEC_NINT - 1 then Some (True, bitvec_store p H h i, al)
         else bitvec_rehash f al p H h i)
      else
        case hash_probe H i of
          Found _ \<Rightarrow> Some (True, p, al)
        | Stuck \<Rightarrow> None
        | Free h \<Rightarrow> bitvec_rehash f al p H h i)"

primrec bitvec_set :: "nat \<Rightarrow> allocs \<Rightarrow> Bitvec \<Rightarrow> nat \<Rightarrow> set_result" where
  "bitvec_set 0 = (\<lambda>al p i. None)"
| "bitvec_set (Suc k) = (\<lambda>al p i.
     if iSize p > BITVEC_NBIT \<and> iDivisor p \<noteq> 0 then
       (case un p of
          apSub subs \<Rightarrow>
            let bin = (i - 1) div iDivisor p; i = (i - 1) mod iDivisor p;
                (q, al) = (case subs ! bin of
                   None \<Rightarrow> sqlite3BitvecCreate al (iDivisor p) | Some q \<Rightarrow> (Some q, al))
            in (case q of
                  None \<Rightarrow> Some (False, p, al)
                | Some q \<Rightarrow>
                    (case bitvec_set k al q (i + 1) of
                       None \<Rightarrow> None
                     | Some (rc, q, al) \<Rightarrow>
                         Some (rc, Bitvec (iSize p) (nSet p) (iDivisor p) (apSub (subs[bin := Some q])), al)))
        | _ \<Rightarrow> None)
     else if iSize p \<le> BITVEC_NBIT then
       (case un p of
          aBitmap bs \<Rightarrow>
            let k = (i - 1) div BITVEC_SZELEM
            in Some (True, Bitvec (iSize p) (nSet p) (iDivisor p)
                 (aBitmap (bs[k := bs ! k OR push_bit ((i - 1) mod BITVEC_SZELEM) 1])), al)
        | _ \<Rightarrow> None)
     else
       (case un p of aHash H \<Rightarrow> bitvec_set_hash (bitvec_set k) al p H i | _ \<Rightarrow> None))"

definition sqlite3BitvecSet :: "allocs \<Rightarrow> Bitvec option \<Rightarrow> nat \<Rightarrow> (bool \<times> Bitvec option \<times> allocs) option" where
  "sqlite3BitvecSet al p i =
     (case p of
        None \<Rightarrow> Some (True, None, al)
      | Some p \<Rightarrow> map_option (\<lambda>(rc, p, al). (rc, Some p, al)) (bitvec_set 9 al p i))"

text \<open>The hash table that \<open>sqlite3BitvecClear\<close> builds anew from the values \<open>vs\<close> without \<open>i\<close>; \<open>None\<close> if
  the search for a free slot does not end.\<close>

fun hash_rebuild :: "nat \<Rightarrow> nat list \<Rightarrow> nat \<times> nat list \<Rightarrow> (nat \<times> nat list) option" where
  "hash_rebuild i [] nH = Some nH"
| "hash_rebuild i (v # vs) (n, H) =
     (if v \<noteq> 0 \<and> v \<noteq> i then
        (case probe BITVEC_NINT H (BITVEC_HASH (v - 1)) 0 of
           Free h \<Rightarrow> hash_rebuild i vs (n + 1, H[h := v])
         | _ \<Rightarrow> None)
      else hash_rebuild i vs (n, H))"

function clear_bit :: "Bitvec \<Rightarrow> nat \<Rightarrow> Bitvec option" where
  "clear_bit p i =
     (if iDivisor p \<noteq> 0 then
        (case un p of
           apSub subs \<Rightarrow>
             (if i div iDivisor p < length subs then
                case subs ! (i div iDivisor p) of
                  None \<Rightarrow> Some p
                | Some q \<Rightarrow>
                    map_option (\<lambda>q. Bitvec (iSize p) (nSet p) (iDivisor p)
                        (apSub (subs[i div iDivisor p := Some q])))
                      (clear_bit q (i mod iDivisor p))
              else None)
         | _ \<Rightarrow> None)
      else if iSize p \<le> BITVEC_NBIT then
        (case un p of
           aBitmap bs \<Rightarrow>
             let k = i div BITVEC_SZELEM
             in Some (Bitvec (iSize p) (nSet p) (iDivisor p)
                  (aBitmap (bs[k := bs ! k AND NOT (push_bit (i mod BITVEC_SZELEM) 1)])))
         | _ \<Rightarrow> None)
      else
        (case un p of
           aHash H \<Rightarrow>
             map_option (\<lambda>(n, H). Bitvec (iSize p) n (iDivisor p) (aHash H))
               (hash_rebuild (i + 1) H (0, replicate BITVEC_NINT 0))
         | _ \<Rightarrow> None))"
  by pat_completeness auto
termination
proof (relation "measure (\<lambda>(p, i). size p)", goal_cases)
  case (2 p i subs q)
  then have "size q < size_list (size_option size) subs" by (intro sub_size) auto
  with 2 show ?case by (cases p) auto
qed simp

declare clear_bit.simps [simp del]

definition sqlite3BitvecClear :: "Bitvec option \<Rightarrow> nat \<Rightarrow> Bitvec option option" where
  "sqlite3BitvecClear p i =
     (case p of None \<Rightarrow> Some None | Some p \<Rightarrow> map_option Some (clear_bit p (i - 1)))"

definition sqlite3BitvecSize :: "Bitvec \<Rightarrow> nat" where
  "sqlite3BitvecSize p = iSize p"


section \<open>Linear probing\<close>

lemma hash_less: "BITVEC_HASH x < BITVEC_NINT"
  by (simp add: BITVEC_HASH_def)

lemma probe_Found:
  "probe k H h v = Found f \<Longrightarrow> h < BITVEC_NINT \<Longrightarrow> f < BITVEC_NINT \<and> H ! f = v \<and> v \<noteq> 0"
  by (induction k arbitrary: h) (auto split: if_splits)

lemma probe_Free: "probe k H h v = Free f \<Longrightarrow> h < BITVEC_NINT \<Longrightarrow> f < BITVEC_NINT \<and> H ! f = 0"
  by (induction k arbitrary: h) (auto split: if_splits)

lemma probe_reaches:
  "d < k \<Longrightarrow> H ! ((h + d) mod BITVEC_NINT) = 0 \<Longrightarrow> h < BITVEC_NINT \<Longrightarrow> probe k H h v \<noteq> Stuck"
proof (induction k arbitrary: h d)
  case (Suc k)
  show ?case
  proof (cases d)
    case 0
    then show ?thesis using Suc.prems by simp
  next
    case (Suc d')
    have "((h + 1) mod BITVEC_NINT + d') mod BITVEC_NINT = (h + d) mod BITVEC_NINT"
      by (simp add: Suc mod_Suc_eq mod_add_left_eq [of "Suc h"])
    then have "probe k H ((h + 1) mod BITVEC_NINT) v \<noteq> Stuck"
      using Suc.IH [of d' "(h + 1) mod BITVEC_NINT"] Suc.prems Suc by simp
    then show ?thesis by simp
  qed
qed simp

lemma probe_not_stuck:
  assumes "length H = BITVEC_NINT" "0 \<in> set H" "h < BITVEC_NINT"
  shows "probe BITVEC_NINT H h v \<noteq> Stuck"
proof -
  obtain z where z: "z < BITVEC_NINT" "H ! z = 0" using assms(1,2) by (auto simp: in_set_conv_nth)
  define d where "d = (z + BITVEC_NINT - h) mod BITVEC_NINT"
  have "(h + d) mod BITVEC_NINT = z"
  proof -
    have "(h + d) mod BITVEC_NINT = (h + (z + BITVEC_NINT - h)) mod BITVEC_NINT" by (simp add: d_def mod_add_right_eq)
    also have "\<dots> = (z + BITVEC_NINT) mod BITVEC_NINT" using assms(3) by simp
    finally show ?thesis using z(1) by simp
  qed
  then show ?thesis using probe_reaches [of d BITVEC_NINT H h v] z assms(3) by (simp add: d_def)
qed

text \<open>Filling a free slot keeps what could be found, and makes the new value findable.\<close>

lemma probe_keep: "probe k H h w = Found g \<Longrightarrow> H ! f = 0 \<Longrightarrow> probe k (H[f := v]) h w = Found g"
proof (induction k arbitrary: h)
  case (Suc k)
  have "H ! h \<noteq> 0" using Suc.prems by (auto split: if_splits)
  then have "h \<noteq> f" using Suc.prems(2) by auto
  then show ?case using Suc by (auto split: if_splits)
qed simp

lemma probe_new:
  "probe k H h v = Free f \<Longrightarrow> length H = BITVEC_NINT \<Longrightarrow> h < BITVEC_NINT \<Longrightarrow> v \<noteq> 0 \<Longrightarrow>
   probe k (H[f := v]) h v = Found f"
proof (induction k arbitrary: h)
  case (Suc k)
  show ?case
  proof (cases "H ! h = 0")
    case True
    then show ?thesis using Suc.prems by auto
  next
    case False
    then have p: "probe k H ((h + 1) mod BITVEC_NINT) v = Free f" and "H ! h \<noteq> v"
      using Suc.prems(1) by (auto split: if_splits)
    moreover have "h \<noteq> f" using probe_Free [OF p] False by auto
    ultimately show ?thesis using Suc.IH [OF p Suc.prems(2) _ Suc.prems(4)] False by simp
  qed
qed simp

text \<open>Searching for a free slot is searching for a value that is not there.\<close>

lemma probe_absent: "v \<notin> set H \<Longrightarrow> length H = BITVEC_NINT \<Longrightarrow> h < BITVEC_NINT \<Longrightarrow> probe k H h 0 = probe k H h v"
proof (induction k arbitrary: h)
  case (Suc k)
  have "H ! h \<noteq> v" using Suc.prems nth_mem [of h H] by auto
  then show ?case using Suc by auto
qed simp

definition hash_count :: "nat list \<Rightarrow> nat" where
  "hash_count H = length (filter (\<lambda>v. v \<noteq> 0) H)"

definition hash_wf :: "nat list \<Rightarrow> bool" where
  "hash_wf H \<longleftrightarrow> length H = BITVEC_NINT \<and> hash_count H < BITVEC_NINT \<and>
     (\<forall>k < BITVEC_NINT. H ! k \<noteq> 0 \<longrightarrow> hash_probe H (H ! k) = Found k)"

lemma hash_count_free: "hash_count H < length H \<Longrightarrow> 0 \<in> set H"
proof (rule ccontr)
  assume "hash_count H < length H" "0 \<notin> set H"
  moreover have "filter (\<lambda>v. v \<noteq> 0) H = H" using \<open>0 \<notin> set H\<close> by (intro filter_True) metis
  ultimately show False unfolding hash_count_def by (metis less_irrefl)
qed

lemma hash_count_update:
  assumes "f < length H" "H ! f = 0" "v \<noteq> 0"
  shows "hash_count (H[f := v]) = Suc (hash_count H)"
proof -
  have "hash_count H = length (filter (\<lambda>v. v \<noteq> 0) (take f H @ H ! f # drop (Suc f) H))"
    using id_take_nth_drop [OF assms(1)] by (simp add: hash_count_def)
  then show ?thesis using assms by (simp add: hash_count_def upd_conv_take_nth_drop)
qed

lemma hash_probe_mem:
  assumes "hash_wf H" "v \<noteq> 0"
  shows "(\<exists>k. hash_probe H v = Found k) \<longleftrightarrow> v \<in> set H" and "hash_probe H v \<noteq> Stuck"
proof -
  show "hash_probe H v \<noteq> Stuck"
    using assms hash_count_free [of H] probe_not_stuck [of H] by (simp add: hash_wf_def hash_probe_def hash_less)
  show "(\<exists>k. hash_probe H v = Found k) \<longleftrightarrow> v \<in> set H"
  proof
    assume "\<exists>k. hash_probe H v = Found k"
    then show "v \<in> set H"
      using probe_Found [of BITVEC_NINT H "BITVEC_HASH (v - 1)" v] assms(1)
      by (auto simp: hash_probe_def hash_less hash_wf_def intro: nth_mem)
  next
    assume "v \<in> set H"
    then show "\<exists>k. hash_probe H v = Found k" using assms by (auto simp: in_set_conv_nth hash_wf_def)
  qed
qed

lemma set_update_free:
  assumes "f < length H" "H ! f = 0" "v \<noteq> 0" "x \<noteq> 0"
  shows "x \<in> set (H[f := v]) \<longleftrightarrow> x = v \<or> x \<in> set H"
proof
  assume "x \<in> set (H[f := v])"
  then show "x = v \<or> x \<in> set H" using set_update_subset_insert [of H f v] by blast
next
  assume "x = v \<or> x \<in> set H"
  then show "x \<in> set (H[f := v])"
  proof
    assume "x \<in> set H"
    then obtain k where "k < length H" "H ! k = x" by (auto simp: in_set_conv_nth)
    then show ?thesis using assms by (metis length_list_update nth_list_update_neq nth_mem)
  qed (use assms(1) in \<open>simp add: set_update_memI\<close>)
qed

lemma hash_store:
  assumes "hash_wf H" "v \<noteq> 0" "hash_probe H v = Free f" "Suc (hash_count H) < BITVEC_NINT"
  shows "hash_wf (H[f := v])" and "hash_count (H[f := v]) = Suc (hash_count H)"
    and "x \<noteq> 0 \<Longrightarrow> x \<in> set (H[f := v]) \<longleftrightarrow> x = v \<or> x \<in> set H"
proof -
  have len: "length H = BITVEC_NINT" using assms(1) by (simp add: hash_wf_def)
  have f: "f < BITVEC_NINT" "H ! f = 0"
    using probe_Free [OF assms(3) [unfolded hash_probe_def]] hash_less by auto
  show c: "hash_count (H[f := v]) = Suc (hash_count H)" using hash_count_update f len assms(2) by simp
  show "x \<noteq> 0 \<Longrightarrow> x \<in> set (H[f := v]) \<longleftrightarrow> x = v \<or> x \<in> set H"
    using set_update_free [of f H v x] f len assms(2) by simp
  have "hash_probe (H[f := v]) (H[f := v] ! k) = Found k" if "k < BITVEC_NINT" "H[f := v] ! k \<noteq> 0" for k
  proof (cases "k = f")
    case True
    then show ?thesis
      using probe_new [OF assms(3) [unfolded hash_probe_def] len hash_less assms(2)] f len
      by (simp add: hash_probe_def)
  next
    case False
    then have "hash_probe H (H ! k) = Found k" using that assms(1) by (simp add: hash_wf_def)
    then show ?thesis using False probe_keep [of BITVEC_NINT H _ "H ! k" k f v] f by (simp add: hash_probe_def)
  qed
  then show "hash_wf (H[f := v])" using c assms(4) len by (simp add: hash_wf_def)
qed

lemma hash_wf_empty: "hash_wf (replicate BITVEC_NINT 0)" "hash_count (replicate BITVEC_NINT 0) = 0"
  by (simp_all add: hash_wf_def hash_count_def)


section \<open>The invariant\<close>

inductive bitvec_wf :: "Bitvec \<Rightarrow> bool" where
  bitmap: "n \<le> BITVEC_NBIT \<Longrightarrow> length bs = BITVEC_NELEM \<Longrightarrow> bitvec_wf (Bitvec n s 0 (aBitmap bs))"
| hash: "BITVEC_NBIT < n \<Longrightarrow> hash_wf H \<Longrightarrow> s = hash_count H \<Longrightarrow> \<forall>v \<in> set H. v \<le> n \<Longrightarrow>
    bitvec_wf (Bitvec n s 0 (aHash H))"
| sub: "BITVEC_NBIT < n \<Longrightarrow> length subs = BITVEC_NPTR \<Longrightarrow> d = bitvec_divisor n \<Longrightarrow>
    (\<forall>q. Some q \<in> set subs \<longrightarrow> bitvec_wf q \<and> iSize q = d) \<Longrightarrow> bitvec_wf (Bitvec n s d (apSub subs))"

inductive_cases bitvec_wf_cases: "bitvec_wf p"

lemma divisor_bounds:
  assumes "BITVEC_NBIT < n"
  shows "n \<le> BITVEC_NPTR * bitvec_divisor n" "bitvec_divisor n < n" "0 < bitvec_divisor n"
    "n \<le> BITVEC_NPTR * m \<Longrightarrow> BITVEC_NBIT \<le> m \<Longrightarrow> bitvec_divisor n \<le> m"
proof -
  have e: "BITVEC_NPTR * (n div BITVEC_NPTR) + n mod BITVEC_NPTR = n" by simp
  have r: "n mod BITVEC_NPTR < BITVEC_NPTR" by simp
  show "n \<le> BITVEC_NPTR * bitvec_divisor n" "bitvec_divisor n < n" "0 < bitvec_divisor n"
    using e r assms unfolding bitvec_divisor_def Let_def by (auto simp del: mult_div_mod_eq)
  assume m: "n \<le> BITVEC_NPTR * m" "BITVEC_NBIT \<le> m"
  have "n div BITVEC_NPTR \<le> m" "n mod BITVEC_NPTR \<noteq> 0 \<Longrightarrow> n div BITVEC_NPTR + 1 \<le> m"
    using e m(1) by linarith+
  then show "bitvec_divisor n \<le> m" using m(2) unfolding bitvec_divisor_def Let_def by auto
qed

lemma bin_bounds:
  assumes "BITVEC_NBIT < n" "x < n"
  shows "x div bitvec_divisor n < BITVEC_NPTR" "x mod bitvec_divisor n < bitvec_divisor n"
  using divisor_bounds [OF assms(1)] assms(2)
  by (auto simp: less_mult_imp_div_less mult.commute)

lemma bitvec_new_wf: "bitvec_wf (bitvec_new n)" "iSize (bitvec_new n) = n" "iDivisor (bitvec_new n) = 0"
  using hash_wf_empty by (auto simp: bitvec_new_def intro!: bitmap hash)

text \<open>The elements of a bitvec, and what a test reads in each representation.\<close>

definition test_bit :: "Bitvec \<Rightarrow> nat \<Rightarrow> bool" where
  "test_bit p i \<longleftrightarrow> test_run p i = Some True"

lemma bit_test: "(b :: u8) AND push_bit j 1 \<noteq> 0 \<longleftrightarrow> j < 8 \<and> bit b j"
proof -
  have "b AND push_bit j 1 \<noteq> 0 \<longleftrightarrow> (\<exists>k. bit (b AND push_bit j 1) k)"
    by (metis bit_0_eq bit_eq_iff bot_apply bot_bool_def)
  also have "\<dots> \<longleftrightarrow> j < 8 \<and> bit b j" by (auto simp: bit_simps)
  finally show ?thesis .
qed

lemma test_bitmap:
  "x < n \<Longrightarrow> n \<le> BITVEC_NBIT \<Longrightarrow> test_bit (Bitvec n s 0 (aBitmap bs)) x \<longleftrightarrow> bit (bs ! (x div 8)) (x mod 8)"
  unfolding test_bit_def by (subst test_run.simps) (simp add: bit_test del: push_bit_of_1)

lemma test_hash:
  assumes "BITVEC_NBIT < n" "hash_wf H"
  shows "test_bit (Bitvec n s 0 (aHash H)) x \<longleftrightarrow> Suc x \<in> set H"
  using hash_probe_mem [OF assms(2), of "Suc x"] assms(1)
  unfolding test_bit_def by (subst test_run.simps) (auto split: probe_result.split)

lemma test_sub:
  assumes "BITVEC_NBIT < n" "length subs = BITVEC_NPTR" "x < n" "d = bitvec_divisor n"
  shows "test_bit (Bitvec n s d (apSub subs)) x \<longleftrightarrow>
    (\<exists>q. subs ! (x div d) = Some q \<and> test_bit q (x mod d))"
  using bin_bounds [OF assms(1,3)] divisor_bounds(3) [OF assms(1)] assms(2,4)
  unfolding test_bit_def by (subst test_run.simps) (auto split: option.split)

text \<open>On a well-formed bitvec a test ends.\<close>

lemma test_returns: "bitvec_wf p \<Longrightarrow> x < iSize p \<Longrightarrow> test_run p x = Some (test_bit p x)"
proof (induction arbitrary: x rule: bitvec_wf.induct)
  case (bitmap n bs s)
  then show ?case unfolding test_bit_def by (subst (1 2) test_run.simps) simp
next
  case (hash n H s)
  then show ?case
    using hash_probe_mem(2) [OF hash(2), of "Suc x"] unfolding test_bit_def
    by (subst (1 2) test_run.simps) (auto split: probe_result.split)
next
  case (sub n subs d s)
  have x: "x < n" using sub.prems by simp
  have b: "x div d < length subs" "x mod d < d" "d \<noteq> 0"
    using bin_bounds [OF sub(1) x] divisor_bounds(3) [OF sub(1)] sub(2,3) by simp_all
  then have "test_run q (x mod d) = Some (test_bit q (x mod d))" if "subs ! (x div d) = Some q" for q
    using sub(4) that nth_mem [of "x div d" subs] by auto
  then show ?case
    using b unfolding test_bit_def by (subst (1 2) test_run.simps) (auto split: option.split)
qed

lemma test_new: "x < n \<Longrightarrow> \<not> test_bit (bitvec_new n) x"
  using test_bitmap [of x n 0 "replicate BITVEC_NELEM 0"] test_hash [OF _ hash_wf_empty(1), of n 0 x]
  by (auto simp: bitvec_new_def)


section \<open>Setting a bit\<close>

text \<open>
  The contract of setting the bit \<open>i\<close>: the invariant and the size are kept, no bit but \<open>i\<close> is
  added, and after \<open>SQLITE_OK\<close> exactly \<open>i\<close> has been added.  (When memory runs out while a hash
  table is split, bits may be lost.)
\<close>

definition set_spec :: "Bitvec \<Rightarrow> nat \<Rightarrow> bool \<Rightarrow> Bitvec \<Rightarrow> bool" where
  "set_spec p i ok p' \<longleftrightarrow> bitvec_wf p' \<and> iSize p' = iSize p \<and>
     (iDivisor p \<noteq> 0 \<longrightarrow> iDivisor p' \<noteq> 0) \<and>
     (\<forall>x < iSize p. test_bit p' x \<longrightarrow> x = i - 1 \<or> test_bit p x) \<and>
     (ok \<longrightarrow> (\<forall>x < iSize p. x = i - 1 \<or> test_bit p x \<longrightarrow> test_bit p' x))"

definition set_ok :: "Bitvec \<Rightarrow> nat \<Rightarrow> set_result \<Rightarrow> bool" where
  "set_ok p i r \<longleftrightarrow> (\<exists>ok p' al. r = Some (ok, p', al) \<and> set_spec p i ok p')"

lemma set_okI: "set_spec p i ok p' \<Longrightarrow> set_ok p i (Some (ok, p', al))"
  by (auto simp: set_ok_def)

lemma set_spec_refl: "bitvec_wf p \<Longrightarrow> set_spec p i False p"
  by (simp add: set_spec_def)

lemma bit_update:
  "bit ((b :: u8) OR push_bit j 1) k \<longleftrightarrow> bit b k \<or> k = j \<and> j < 8"
  by (auto simp: bit_simps)

lemma div_mod_eq_iff: "0 < d \<Longrightarrow> (x :: nat) div d = y div d \<and> x mod d = y mod d \<longleftrightarrow> x = y"
  by (metis div_mult_mod_eq)

lemma set_bitmap:
  assumes "n \<le> BITVEC_NBIT" "length bs = BITVEC_NELEM" "1 \<le> i" "i \<le> n"
  shows "set_spec (Bitvec n s 0 (aBitmap bs)) i True
    (Bitvec n s 0 (aBitmap (bs[(i - 1) div 8 := bs ! ((i - 1) div 8) OR push_bit ((i - 1) mod 8) 1])))"
proof -
  have k: "(i - 1) div 8 < length bs" using assms by simp
  have "bit (bs[(i - 1) div 8 := bs ! ((i - 1) div 8) OR push_bit ((i - 1) mod 8) 1] ! (x div 8)) (x mod 8) \<longleftrightarrow>
      x = i - 1 \<or> bit (bs ! (x div 8)) (x mod 8)" for x
  proof (cases "x div 8 = (i - 1) div 8")
    case True
    then have "x mod 8 = (i - 1) mod 8 \<longleftrightarrow> x = i - 1" using div_mod_eq_iff [of 8 x "i - 1"] by auto
    then show ?thesis using True k by (auto simp: bit_update simp del: push_bit_of_1)
  next
    case False
    then have "x \<noteq> i - 1" by auto
    then show ?thesis using False by simp
  qed
  then show ?thesis
    using assms by (auto simp: set_spec_def test_bitmap simp del: push_bit_of_1 intro!: bitmap)
qed

lemma store_spec:
  assumes "BITVEC_NBIT < n" "hash_wf H" "\<forall>v \<in> set H. v \<le> n" "1 \<le> i" "i \<le> n"
    and "hash_probe H i = Free h" "Suc (hash_count H) < BITVEC_NINT"
  shows "set_spec (Bitvec n (hash_count H) 0 (aHash H)) i True
    (bitvec_store (Bitvec n (hash_count H) 0 (aHash H)) H h i)"
proof -
  have i: "i \<noteq> 0" using assms(4) by simp
  note st = hash_store [OF assms(2) i assms(6,7)]
  have le: "\<forall>v \<in> set (H[h := i]). v \<le> n"
    using assms(3,5) set_update_subset_insert [of H h i] by auto
  have "bitvec_wf (Bitvec n (Suc (hash_count H)) 0 (aHash (H[h := i])))"
    using assms(1) st le by (intro bitvec_wf.hash) auto
  moreover have "Suc x \<in> set (H[h := i]) \<longleftrightarrow> x = i - 1 \<or> Suc x \<in> set H" for x
    using st(3) [of "Suc x"] i by auto
  ultimately show ?thesis
    using assms(1,2) st(1) by (simp add: set_spec_def bitvec_store_def test_hash)
qed

text \<open>Re-inserting a list of values.\<close>

lemma set_all_spec:
  assumes f: "\<And>al p v. bitvec_wf p \<Longrightarrow> iSize p = n \<Longrightarrow> iDivisor p \<noteq> 0 \<Longrightarrow> 1 \<le> v \<Longrightarrow> v \<le> n \<Longrightarrow>
      set_ok p v (f al p v)"
    and "bitvec_wf p" "iSize p = n" "iDivisor p \<noteq> 0" "\<forall>v \<in> set vs. v \<le> n"
  shows "\<exists>rc' p' al'. set_all f vs (rc, p, al) = Some (rc', p', al') \<and> bitvec_wf p' \<and> iSize p' = n \<and>
    (\<forall>x < n. test_bit p' x \<longrightarrow> test_bit p x \<or> Suc x \<in> set vs) \<and>
    (rc' \<longrightarrow> rc \<and> (\<forall>x < n. test_bit p x \<or> Suc x \<in> set vs \<longrightarrow> test_bit p' x))"
  using assms(2-)
proof (induction vs arbitrary: rc p al)
  case (Cons v vs)
  show ?case
  proof (cases "v = 0")
    case True
    then show ?thesis using Cons.IH [OF Cons.prems(1-3), of rc al] Cons.prems(4) by auto
  next
    case False
    obtain ok q al1 where q: "f al p v = Some (ok, q, al1)" "set_spec p v ok q"
      using f [OF Cons.prems(1-3), of v al] False Cons.prems(4) by (auto simp: set_ok_def)
    have sp: "bitvec_wf q" "iSize q = n" "iDivisor q \<noteq> 0"
      "\<And>x. x < n \<Longrightarrow> test_bit q x \<Longrightarrow> x = v - 1 \<or> test_bit p x"
      "\<And>x. ok \<Longrightarrow> x < n \<Longrightarrow> x = v - 1 \<or> test_bit p x \<Longrightarrow> test_bit q x"
      using q(2) Cons.prems by (auto simp: set_spec_def)
    have v: "Suc x = v \<longleftrightarrow> x = v - 1" for x using False by auto
    have vs: "\<forall>v \<in> set vs. v \<le> n" using Cons.prems(4) by simp
    obtain rc' p' al' where r: "set_all f vs (rc \<and> ok, q, al1) = Some (rc', p', al')" "bitvec_wf p'" "iSize p' = n"
      "\<And>x. x < n \<Longrightarrow> test_bit p' x \<Longrightarrow> test_bit q x \<or> Suc x \<in> set vs"
      "rc' \<Longrightarrow> rc \<and> ok" "\<And>x. rc' \<Longrightarrow> x < n \<Longrightarrow> test_bit q x \<or> Suc x \<in> set vs \<Longrightarrow> test_bit p' x"
      using Cons.IH [OF sp(1-3) vs, of "rc \<and> ok" al1] by blast
    show ?thesis
    proof (intro exI conjI allI impI)
      show "set_all f (v # vs) (rc, p, al) = Some (rc', p', al')" using False q(1) r(1) by simp
      show "test_bit p x \<or> Suc x \<in> set (v # vs)" if "x < n" "test_bit p' x" for x
        using r(4) [OF that] sp(4) [of x] that(1) v by auto
      show "test_bit p' x" if "rc'" "x < n" "test_bit p x \<or> Suc x \<in> set (v # vs)" for x
        using r(5,6) [OF that(1)] sp(5) [of x] that v by auto
    qed (use r in auto)
  qed
qed auto

lemma rehash_spec:
  assumes p: "p = Bitvec n (hash_count H) 0 (aHash H)" "BITVEC_NBIT < n" "hash_wf H" "\<forall>v \<in> set H. v \<le> n"
    and f: "\<And>al p v. bitvec_wf p \<Longrightarrow> iSize p = n \<Longrightarrow> iDivisor p \<noteq> 0 \<Longrightarrow> 1 \<le> v \<Longrightarrow> v \<le> n \<Longrightarrow>
      set_ok p v (f al p v)"
    and i: "1 \<le> i" "i \<le> n" "hash_probe H i = Free h"
  shows "set_ok p i (bitvec_rehash f al p H h i)"
proof (cases "BITVEC_MXHASH \<le> hash_count H")
  case False
  then show ?thesis
    using store_spec [OF p(2-4) i] by (simp add: bitvec_rehash_def p(1) set_okI)
next
  case True
  obtain ok al0 where al: "alloc al = (ok, al0)" by (metis surj_pair)
  have wf: "bitvec_wf p" unfolding p(1) using p(2-4) by (intro bitvec_wf.hash) auto
  show ?thesis
  proof (cases ok)
    case False
    then show ?thesis using True wf al by (simp add: bitvec_rehash_def p(1) set_okI set_spec_refl)
  next
    case ok: True
    define N where "N = replicate BITVEC_NPTR (None :: Bitvec option)"
    have N: "length N = BITVEC_NPTR" "Some q \<notin> set N" "k < BITVEC_NPTR \<Longrightarrow> N ! k = None" for q k
      by (simp_all add: N_def)
    let ?p1 = "Bitvec n (hash_count H) (bitvec_divisor n) (apSub N)"
    have d: "bitvec_divisor n \<noteq> 0" using divisor_bounds(3) [OF p(2)] by simp
    have w1: "bitvec_wf ?p1" using p(2) N by (intro bitvec_wf.sub) auto
    have t1: "\<not> test_bit ?p1 x" if "x < n" for x
      using test_sub [OF p(2) N(1) that refl] N(3) [OF bin_bounds(1) [OF p(2) that]] by simp
    have "set_ok ?p1 i (f al0 ?p1 i)" by (rule f [OF w1 _ _ i(1,2)]) (simp_all add: d)
    then obtain rc q al1 where q: "f al0 ?p1 i = Some (rc, q, al1)" "set_spec ?p1 i rc q"
      by (auto simp only: set_ok_def)
    have sp: "bitvec_wf q" "iSize q = n" "iDivisor q \<noteq> 0"
      "\<And>x. x < n \<Longrightarrow> test_bit q x \<Longrightarrow> x = i - 1" "\<And>x. rc \<Longrightarrow> x < n \<Longrightarrow> x = i - 1 \<Longrightarrow> test_bit q x"
      using q(2) [unfolded set_spec_def] d t1 unfolding Bitvec.sel by blast+
    obtain rc' p' al' where r: "set_all f H (rc, q, al1) = Some (rc', p', al')" "bitvec_wf p'" "iSize p' = n"
      "\<And>x. x < n \<Longrightarrow> test_bit p' x \<Longrightarrow> test_bit q x \<or> Suc x \<in> set H"
      "rc' \<Longrightarrow> rc" "\<And>x. rc' \<Longrightarrow> x < n \<Longrightarrow> test_bit q x \<or> Suc x \<in> set H \<Longrightarrow> test_bit p' x"
      using set_all_spec [where f = f and rc = rc and al = al1, OF f sp(1-3) p(4)] by blast
    have "bitvec_rehash f al p H h i = Some (rc', p', al')"
      using True ok al q(1) r(1) by (simp add: bitvec_rehash_def p(1) N_def [symmetric])
    moreover have "set_spec p i rc' p'"
      unfolding set_spec_def p(1) Bitvec.sel test_hash [OF p(2,3)] using r sp by blast
    ultimately show ?thesis by (simp add: set_okI)
  qed
qed

lemma set_hash_spec:
  assumes p: "p = Bitvec n (hash_count H) 0 (aHash H)" "BITVEC_NBIT < n" "hash_wf H" "\<forall>v \<in> set H. v \<le> n"
    and f: "\<And>al p v. bitvec_wf p \<Longrightarrow> iSize p = n \<Longrightarrow> iDivisor p \<noteq> 0 \<Longrightarrow> 1 \<le> v \<Longrightarrow> v \<le> n \<Longrightarrow>
      set_ok p v (f al p v)"
    and i: "1 \<le> i" "i \<le> n"
  shows "set_ok p i (bitvec_set_hash f al p H i)"
proof (cases "H ! BITVEC_HASH (i - 1) = 0")
  case True
  then have fr: "hash_probe H i = Free (BITVEC_HASH (i - 1))"
    by (simp add: hash_probe_def eval_nat_numeral)
  show ?thesis
    using True store_spec [OF p(2-4) i fr] rehash_spec [where f = f and al = al, OF p f i fr]
    by (auto simp: bitvec_set_hash_def Let_def p(1) set_okI)
next
  case False
  have i0: "i \<noteq> 0" using i by simp
  show ?thesis
  proof (cases "hash_probe H i")
    case (Found h)
    then have "i \<in> set H" using hash_probe_mem(1) [OF p(3) i0] by blast
    then have "test_bit p x" if "x = i - 1" for x using that i test_hash [OF p(2,3)] by (simp add: p(1))
    moreover have "bitvec_wf p" unfolding p(1) using p(2-4) by (intro bitvec_wf.hash) auto
    ultimately have "set_spec p i True p" by (auto simp: set_spec_def)
    then show ?thesis using False Found by (simp add: bitvec_set_hash_def set_okI)
  next
    case (Free h)
    then show ?thesis using False rehash_spec [where f = f and al = al, OF p f i Free] by (simp add: bitvec_set_hash_def)
  next
    case Stuck
    then show ?thesis using hash_probe_mem(2) [OF p(3) i0] by simp
  qed
qed


text \<open>The fuel: \<open>2 j + 1\<close> calls are enough for a hash table or a bitmap of at most
  \<open>3968 * 62 ^ j\<close> bits.\<close>

definition bitvec_cap :: "nat \<Rightarrow> nat" where
  "bitvec_cap j = BITVEC_NBIT * BITVEC_NPTR ^ j"

lemma divisor_cap: "BITVEC_NBIT < n \<Longrightarrow> n \<le> bitvec_cap (Suc j) \<Longrightarrow> bitvec_divisor n \<le> bitvec_cap j"
  using divisor_bounds(4) [of n "bitvec_cap j"] by (simp add: bitvec_cap_def)

lemma sub_spec:
  assumes p: "p = Bitvec n s d (apSub subs)" "BITVEC_NBIT < n" "length subs = BITVEC_NPTR" "d = bitvec_divisor n"
      "\<And>q. Some q \<in> set subs \<Longrightarrow> bitvec_wf q \<and> iSize q = d"
    and i: "1 \<le> i" "i \<le> n"
    and q: "subs ! ((i - 1) div d) = Some q0 \<or> subs ! ((i - 1) div d) = None \<and> q0 = bitvec_new d"
    and sp: "set_spec q0 ((i - 1) mod d + 1) ok q" "iSize q0 = d"
  shows "set_spec p i ok (Bitvec n s d (apSub (subs[(i - 1) div d := Some q])))"
proof -
  let ?b = "(i - 1) div d" and ?subs = "subs[(i - 1) div d := Some q]"
  have d: "0 < d" using divisor_bounds(3) [OF p(2)] p(4) by simp
  have b: "?b < length subs" using bin_bounds(1) [OF p(2), of "i - 1"] i p(3,4) by simp
  have wq: "bitvec_wf q" "iSize q = d" using sp by (simp_all add: set_spec_def)
  have "bitvec_wf r \<and> iSize r = d" if "Some r \<in> set ?subs" for r
    using that p(5) wq set_update_subset_insert [of subs ?b "Some q"] by blast
  then have wf: "bitvec_wf (Bitvec n s d (apSub ?subs))" using p(2-4) by (intro bitvec_wf.sub) auto
  have old: "test_bit p x \<longleftrightarrow> (\<exists>q. subs ! (x div d) = Some q \<and> test_bit q (x mod d))" if "x < n" for x
    unfolding p(1) by (rule test_sub [OF p(2,3) that p(4)])
  have new: "test_bit (Bitvec n s d (apSub ?subs)) x \<longleftrightarrow> (\<exists>q. ?subs ! (x div d) = Some q \<and> test_bit q (x mod d))"
    if "x < n" for x
    by (rule test_sub [OF p(2) _ that p(4)]) (use p(3) in simp)
  have q0: "test_bit p x \<longleftrightarrow> test_bit q0 (x mod d)" if "x < n" "x div d = ?b" for x
    using q old [OF that(1)] that(2) test_new [of "x mod d" d] d by auto
  have same: "x = i - 1 \<longleftrightarrow> x mod d = (i - 1) mod d" if "x div d = ?b" for x
    using div_mod_eq_iff [OF d, of x "i - 1"] that by auto
  have m: "x mod d < iSize q0" for x using d sp(2) by simp
  have fwd: "x = i - 1 \<or> test_bit p x" if x: "x < n" "test_bit (Bitvec n s d (apSub ?subs)) x" for x
  proof (cases "x div d = ?b")
    case True
    then have "test_bit q (x mod d)" using new [OF x(1)] x(2) b by simp
    then have "x mod d = (i - 1) mod d \<or> test_bit q0 (x mod d)" using sp(1) m [of x] by (auto simp: set_spec_def)
    then show ?thesis using same [OF True] q0 [OF x(1) True] by blast
  next
    case False
    then show ?thesis using new [OF x(1)] old [OF x(1)] x(2) by (metis nth_list_update_neq)
  qed
  have bwd: "test_bit (Bitvec n s d (apSub ?subs)) x" if x: "ok" "x < n" "x = i - 1 \<or> test_bit p x" for x
  proof (cases "x div d = ?b")
    case True
    then have "x mod d = (i - 1) mod d \<or> test_bit q0 (x mod d)" using x(3) same [OF True] q0 [OF x(2) True] by blast
    then have "test_bit q (x mod d)" using sp(1) x(1) m [of x] by (auto simp: set_spec_def)
    then show ?thesis using new [OF x(2)] True b by simp
  next
    case False
    then have "x \<noteq> i - 1" by blast
    then show ?thesis using False new [OF x(2)] old [OF x(2)] x(3) by (metis nth_list_update_neq)
  qed
  show ?thesis unfolding set_spec_def using wf fwd bwd p(1) by simp
qed

lemma bitvec_set_correct:
  assumes "bitvec_wf p" "1 \<le> i" "i \<le> iSize p" "iSize p \<le> bitvec_cap j"
    and "2 * j + (if iDivisor p = 0 then 1 else 0) \<le> k"
  shows "set_ok p i (bitvec_set k al p i)"
  using assms
proof (induction k arbitrary: al p i j)
  case 0
  then have "j = 0" "iDivisor p \<noteq> 0" by (auto split: if_splits)
  with "0.prems"(1,4) show ?case
    using divisor_bounds(3) by (auto elim!: bitvec_wf_cases simp: bitvec_cap_def)
next
  case (Suc k)
  show ?case
    using Suc.prems(1)
  proof (cases rule: bitvec_wf.cases)
    case (bitmap n bs s)
    then show ?thesis
      using set_bitmap [of n bs i s] Suc.prems(2,3)
      by (simp add: Let_def set_okI del: push_bit_of_1)
  next
    case (hash n H s)
    have f: "set_ok q v (bitvec_set k al q v)" if "bitvec_wf q" "iSize q = n" "iDivisor q \<noteq> 0" "1 \<le> v" "v \<le> n" for al q v
      using Suc.IH [of q v j al] that Suc.prems(4,5) hash(1) by simp
    have "set_ok p i (bitvec_set_hash (bitvec_set k) al p H i)"
      using set_hash_spec [where f = "bitvec_set k" and al = al, OF _ hash(2,3,5) f Suc.prems(2)] hash Suc.prems(3)
      by simp
    then show ?thesis using hash by simp
  next
    case (sub n subs d s)
    obtain j' where j: "j = Suc j'" using Suc.prems(4) sub by (cases j) (auto simp: bitvec_cap_def)
    have d: "0 < d" "d \<le> bitvec_cap j'"
      using divisor_bounds(3) [OF sub(2)] divisor_cap [OF sub(2)] Suc.prems(4) sub(1,4) j by auto
    let ?b = "(i - 1) div d" and ?i = "(i - 1) mod d"
    define c where "c = (case subs ! ?b of None \<Rightarrow> sqlite3BitvecCreate al d | Some q \<Rightarrow> (Some q, al))"
    obtain q0 al0 where c: "c = (q0, al0)" by (metis surj_pair)
    have set: "bitvec_set (Suc k) al p i = (case q0 of None \<Rightarrow> Some (False, p, al0)
        | Some q \<Rightarrow> (case bitvec_set k al0 q (?i + 1) of None \<Rightarrow> None
           | Some (rc, q, al) \<Rightarrow> Some (rc, Bitvec n s d (apSub (subs[?b := Some q])), al)))"
      using sub(2) d(1)
      by (simp only: bitvec_set.simps sub(1) Bitvec.sel bitvec_u.case Let_def c_def [symmetric] c prod.case
        simp_thms if_True neq0_conv)
    show ?thesis
    proof (cases q0)
      case None
      then show ?thesis using set Suc.prems(1) by (simp add: set_okI set_spec_refl)
    next
      case (Some q)
      have b: "?b < length subs" using bin_bounds(1) [OF sub(2), of "i - 1"] Suc.prems(2,3) sub(1,3,4) by simp
      have q: "subs ! ?b = Some q \<or> subs ! ?b = None \<and> q = bitvec_new d"
        using c Some by (auto simp: c_def sqlite3BitvecCreate_def split: option.splits prod.splits if_splits)
      have wq: "bitvec_wf q" "iSize q = d"
        using q sub(5) nth_mem [OF b] bitvec_new_wf by auto
      have "set_ok q (?i + 1) (bitvec_set k al0 q (?i + 1))"
        using Suc.IH [OF wq(1), of "?i + 1" j' al0] wq(2) d Suc.prems(5) j sub(1) by (simp add: Suc_le_eq)
      then obtain ok q' al' where q': "bitvec_set k al0 q (?i + 1) = Some (ok, q', al')" "set_spec q (?i + 1) ok q'"
        by (auto simp: set_ok_def)
      have "set_spec p i ok (Bitvec n s d (apSub (subs[?b := Some q'])))"
        using sub_spec [OF sub(1-4) _ Suc.prems(2) _ q q'(2) wq(2)] sub(5) Suc.prems(3) sub(1) by simp
      then show ?thesis using set q'(1) Some by (simp add: set_okI)
    qed
  qed
qed


section \<open>Clearing a bit\<close>

text \<open>No value but 0 is twice in a hash table.\<close>

definition nz_distinct :: "nat list \<Rightarrow> bool" where
  "nz_distinct vs \<longleftrightarrow> (\<forall>a < length vs. \<forall>b < length vs. vs ! a = vs ! b \<and> vs ! a \<noteq> 0 \<longrightarrow> a = b)"

lemma nz_distinct_hash: "hash_wf H \<Longrightarrow> nz_distinct H"
  by (auto simp: nz_distinct_def hash_wf_def) (metis probe_result.inject(1))

lemma nz_distinct_Cons: "nz_distinct (v # vs) \<Longrightarrow> nz_distinct vs \<and> (v \<noteq> 0 \<longrightarrow> v \<notin> set vs)"
proof -
  assume d: "nz_distinct (v # vs)"
  have "a = b" if "a < length vs" "b < length vs" "vs ! a = vs ! b" "vs ! a \<noteq> 0" for a b
    using d [unfolded nz_distinct_def, rule_format, of "Suc a" "Suc b"] that by simp
  moreover have "v \<notin> set vs" if "v \<noteq> 0"
  proof
    assume "v \<in> set vs"
    then obtain a where "a < length vs" "vs ! a = v" by (auto simp: in_set_conv_nth)
    then show False using d [unfolded nz_distinct_def, rule_format, of 0 "Suc a"] that by simp
  qed
  ultimately show ?thesis by (simp add: nz_distinct_def)
qed

lemma hash_rebuild_spec:
  assumes "hash_wf H" "n = hash_count H" "nz_distinct vs" "\<forall>v \<in> set vs. v \<noteq> 0 \<longrightarrow> v \<notin> set H"
    and "hash_count H + hash_count vs < BITVEC_NINT"
  shows "\<exists>H'. hash_rebuild i vs (n, H) = Some (hash_count H', H') \<and> hash_wf H' \<and>
    (\<forall>x. x \<noteq> 0 \<longrightarrow> (x \<in> set H' \<longleftrightarrow> x \<in> set H \<or> x \<in> set vs \<and> x \<noteq> i))"
  using assms
proof (induction vs arbitrary: n H)
  case (Cons v vs)
  have d: "nz_distinct vs" "v \<noteq> 0 \<Longrightarrow> v \<notin> set vs" using nz_distinct_Cons [OF Cons.prems(3)] by auto
  show ?case
  proof (cases "v \<noteq> 0 \<and> v \<noteq> i")
    case True
    have len: "length H = BITVEC_NINT" using Cons.prems(1) by (simp add: hash_wf_def)
    have v: "v \<notin> set H" using Cons.prems(4) True by simp
    have pr: "probe BITVEC_NINT H (BITVEC_HASH (v - 1)) 0 = hash_probe H v"
      unfolding hash_probe_def by (rule probe_absent [OF v len hash_less])
    obtain h where h: "hash_probe H v = Free h"
      using hash_probe_mem [OF Cons.prems(1), of v] v True by (cases "hash_probe H v") auto
    have c: "Suc (hash_count H) < BITVEC_NINT" "hash_count (v # vs) = Suc (hash_count vs)"
      using Cons.prems(5) True by (auto simp: hash_count_def)
    note st = hash_store [OF Cons.prems(1) _ h c(1)]
    have "\<forall>w \<in> set vs. w \<noteq> 0 \<longrightarrow> w \<notin> set (H[h := v])" using st(3) True Cons.prems(4) d(2) by auto
    then obtain H' where "hash_rebuild i vs (Suc (hash_count H), H[h := v]) = Some (hash_count H', H')"
      "hash_wf H'" "\<forall>x. x \<noteq> 0 \<longrightarrow> (x \<in> set H' \<longleftrightarrow> x \<in> set (H[h := v]) \<or> x \<in> set vs \<and> x \<noteq> i)"
      using Cons.IH [of "H[h := v]" "Suc (hash_count H)"] st(1,2) True d(1) Cons.prems(5) c(2) by auto
    then show ?thesis using True pr h st(3) Cons.prems(2) by auto
  next
    case False
    have "hash_count H + hash_count vs < BITVEC_NINT"
      using Cons.prems(5) by (auto simp: hash_count_def split: if_splits)
    then obtain H' where "hash_rebuild i vs (n, H) = Some (hash_count H', H')" "hash_wf H'"
      "\<forall>x. x \<noteq> 0 \<longrightarrow> (x \<in> set H' \<longleftrightarrow> x \<in> set H \<or> x \<in> set vs \<and> x \<noteq> i)"
      using Cons.IH [OF Cons.prems(1,2) d(1)] Cons.prems(4) by auto
    then show ?thesis using False by auto
  qed
qed auto

definition clear_spec :: "Bitvec \<Rightarrow> nat \<Rightarrow> Bitvec \<Rightarrow> bool" where
  "clear_spec p i p' \<longleftrightarrow> bitvec_wf p' \<and> iSize p' = iSize p \<and>
     (\<forall>x < iSize p. test_bit p' x \<longleftrightarrow> test_bit p x \<and> x \<noteq> i)"

lemma bit_clear: "j < 8 \<Longrightarrow> bit ((b :: u8) AND NOT (push_bit j 1)) k \<longleftrightarrow> bit b k \<and> k \<noteq> j"
  by (auto simp: bit_simps dest: bit_imp_le_length)

lemma clear_bitmap:
  assumes "n \<le> BITVEC_NBIT" "length bs = BITVEC_NELEM" "i < n"
  shows "clear_spec (Bitvec n s 0 (aBitmap bs)) i
    (Bitvec n s 0 (aBitmap (bs[i div 8 := bs ! (i div 8) AND NOT (push_bit (i mod 8) 1)])))"
proof -
  define c where "c = bs ! (i div 8) AND NOT (push_bit (i mod 8) 1)"
  have k: "i div 8 < length bs" using assms by simp
  have c: "bit c m \<longleftrightarrow> bit (bs ! (i div 8)) m \<and> m \<noteq> i mod 8" for m
    unfolding c_def by (rule bit_clear) simp
  have "bit (bs[i div 8 := c] ! (x div 8)) (x mod 8) \<longleftrightarrow> bit (bs ! (x div 8)) (x mod 8) \<and> x \<noteq> i" for x
  proof (cases "x div 8 = i div 8")
    case True
    then have "x mod 8 = i mod 8 \<longleftrightarrow> x = i" using div_mod_eq_iff [of 8 x i] by auto
    then show ?thesis using True k c by simp
  next
    case False
    then have "x \<noteq> i" by auto
    then show ?thesis using False by simp
  qed
  then show ?thesis
    using assms unfolding c_def [symmetric] by (simp add: clear_spec_def test_bitmap bitmap)
qed

lemma clear_bit_correct:
  "bitvec_wf p \<Longrightarrow> i < iSize p \<Longrightarrow> \<exists>p'. clear_bit p i = Some p' \<and> clear_spec p i p'"
proof (induction arbitrary: i rule: bitvec_wf.induct)
  case (bitmap n bs s)
  then show ?case using clear_bitmap [of n bs i s] by (subst clear_bit.simps) (simp add: Let_def del: push_bit_of_1)
next
  case (hash n H s)
  have "hash_count H < BITVEC_NINT" using hash(2) by (simp add: hash_wf_def)
  then obtain H' where r: "hash_rebuild (i + 1) H (0, replicate BITVEC_NINT 0) = Some (hash_count H', H')"
    "hash_wf H'" "\<forall>x. x \<noteq> 0 \<longrightarrow> (x \<in> set H' \<longleftrightarrow> x \<in> set H \<and> x \<noteq> i + 1)"
    using hash_rebuild_spec [OF hash_wf_empty(1), of 0 H "i + 1"] nz_distinct_hash [OF hash(2)] hash_wf_empty(2)
    by auto
  have "\<forall>v \<in> set H'. v \<le> n" using r(3) hash(4) by (metis zero_le)
  then have "bitvec_wf (Bitvec n (hash_count H') 0 (aHash H'))" using hash(1) r(2) by (intro bitvec_wf.hash) auto
  moreover have "clear_bit (Bitvec n s 0 (aHash H)) i = Some (Bitvec n (hash_count H') 0 (aHash H'))"
    using hash(1) r(1) by (subst clear_bit.simps) simp
  ultimately show ?case using r(3) test_hash [OF hash(1)] hash(2) r(2) by (auto simp: clear_spec_def)
next
  case (sub n subs d s)
  let ?p = "Bitvec n s d (apSub subs)" and ?b = "i div d"
  have i: "i < n" using sub.prems by simp
  have d: "0 < d" using divisor_bounds(3) [OF sub(1)] sub(3) by simp
  have b: "?b < length subs" using bin_bounds(1) [OF sub(1) i] sub(2,3) by simp
  have w: "bitvec_wf ?p" using sub(1-4) by (intro bitvec_wf.sub) auto
  show ?case
  proof (cases "subs ! ?b")
    case None
    then have "clear_bit ?p i = Some ?p" using d b by (subst clear_bit.simps) simp
    moreover have "\<not> test_bit ?p i" using test_sub [OF sub(1,2) i sub(3)] None by simp
    ultimately show ?thesis using w by (auto simp: clear_spec_def)
  next
    case (Some q)
    then have q: "bitvec_wf q" "iSize q = d" using sub(4) nth_mem [OF b] by auto
    have "Some q \<in> set subs" "i mod d < iSize q" using nth_mem [OF b] Some q(2) d by auto
    then obtain q' where q': "clear_bit q (i mod d) = Some q'" "clear_spec q (i mod d) q'"
      using sub(4) by blast
    let ?subs = "subs[?b := Some q']"
    have c: "clear_bit ?p i = Some (Bitvec n s d (apSub ?subs))" using d b Some q'(1) by (subst clear_bit.simps) simp
    have "bitvec_wf r \<and> iSize r = d" if "Some r \<in> set ?subs" for r
      using that sub(4) q'(2) q(2) set_update_subset_insert [of subs ?b "Some q'"] by (auto simp: clear_spec_def)
    then have wf: "bitvec_wf (Bitvec n s d (apSub ?subs))" using sub(1-3) by (intro bitvec_wf.sub) auto
    have "test_bit (Bitvec n s d (apSub ?subs)) x \<longleftrightarrow> test_bit ?p x \<and> x \<noteq> i" if x: "x < n" for x
    proof (cases "x div d = ?b")
      case True
      then have "x = i \<longleftrightarrow> x mod d = i mod d" using div_mod_eq_iff [OF d, of x i] by auto
      moreover have "test_bit q' (x mod d) \<longleftrightarrow> test_bit q (x mod d) \<and> x mod d \<noteq> i mod d"
        using q'(2) q(2) d by (simp add: clear_spec_def)
      ultimately show ?thesis
        using test_sub [OF sub(1,2) x sub(3)] test_sub [OF sub(1) _ x sub(3), of ?subs] True Some b sub(2) by simp
    next
      case False
      then have "x \<noteq> i" by blast
      then show ?thesis
        using test_sub [OF sub(1,2) x sub(3)] test_sub [OF sub(1) _ x sub(3), of ?subs] False sub(2) by simp
    qed
    then show ?thesis using c wf by (auto simp: clear_spec_def)
  qed
qed


section \<open>Without memory failures every operation succeeds\<close>

lemma set_all_no_failure:
  assumes "\<And>p v r. f [] p v = Some r \<Longrightarrow> fst r \<and> snd (snd r) = []"
    and "set_all f vs (True, p, []) = Some r"
  shows "fst r \<and> snd (snd r) = []"
  using assms(2)
proof (induction vs arbitrary: p)
  case (Cons v vs)
  show ?case
  proof (cases "v = 0")
    case False
    then obtain ok q al where q: "f [] p v = Some (ok, q, al)" using Cons.prems by (auto split: option.splits)
    then have "ok" "al = []" using assms(1) [OF q] by auto
    then show ?thesis using Cons.prems Cons.IH False q by simp
  qed (use Cons in simp)
qed auto

lemma bitvec_set_no_failure: "bitvec_set k [] p i = Some r \<Longrightarrow> fst r \<and> snd (snd r) = []"
proof (induction k arbitrary: p i r)
  case (Suc k)
  have rh: "fst r \<and> snd (snd r) = []" if a: "bitvec_rehash (bitvec_set k) [] p H h v = Some r" for H h v
  proof (cases "nSet p \<ge> BITVEC_MXHASH")
    case True
    define p' where "p' = Bitvec (iSize p) (nSet p) (bitvec_divisor (iSize p)) (apSub (replicate BITVEC_NPTR None))"
    have e: "bitvec_rehash (bitvec_set k) [] p H h v =
        (case bitvec_set k [] p' v of None \<Rightarrow> None | Some r \<Rightarrow> set_all (bitvec_set k) H r)"
      unfolding bitvec_rehash_def p'_def using True by (simp only: alloc_def Let_def if_True list.case prod.case not_True_eq_False if_False)
    obtain q where q: "bitvec_set k [] p' v = Some q" "set_all (bitvec_set k) H q = Some r"
      using a unfolding e by (cases "bitvec_set k [] p' v") auto
    obtain q' where "q = (True, q', [])" using Suc.IH [OF q(1)] by (cases q) auto
    with q(2) have "set_all (bitvec_set k) H (True, q', []) = Some r" by simp
    with set_all_no_failure [of "bitvec_set k"] Suc.IH show ?thesis by blast
  qed (use that in \<open>auto simp: bitvec_rehash_def\<close>)
  show ?case
  proof (cases "un p")
    case (aBitmap bs)
    then show ?thesis using Suc.prems by (auto simp: Let_def split: if_splits)
  next
    case (aHash H)
    then show ?thesis
      using Suc.prems rh
      by (auto simp: Let_def bitvec_set_hash_def split: if_splits probe_result.splits)
  next
    case (apSub subs)
    then show ?thesis
      using Suc.prems Suc.IH
      by (fastforce simp: Let_def sqlite3BitvecCreate_def alloc_def split: if_splits option.splits)
  qed
qed simp

section \<open>The interface\<close>

text \<open>Sequences of operations on a set of numbers from 1 to a fixed size, and their meaning.\<close>

datatype set_op = Ins nat | Del nat

fun op_index :: "set_op \<Rightarrow> nat" where
  "op_index (Ins i) = i"
| "op_index (Del i) = i"

fun apply_op :: "nat set \<Rightarrow> set_op \<Rightarrow> nat set" where
  "apply_op S (Ins i) = insert i S"
| "apply_op S (Del i) = S - {i}"

text \<open>
  A run returns the state and, for each insertion, whether it reported success; \<open>None\<close> is an operation that
  does not return.
\<close>

fun run_ops :: "('s \<Rightarrow> nat \<Rightarrow> (bool \<times> 's) option) \<Rightarrow> ('s \<Rightarrow> nat \<Rightarrow> 's option) \<Rightarrow> 's \<Rightarrow> set_op list \<Rightarrow>
    (bool list \<times> 's) option" where
  "run_ops ins del s [] = Some ([], s)"
| "run_ops ins del s (Ins i # ops) =
     do { (ok, s) \<leftarrow> ins s i; (oks, s) \<leftarrow> run_ops ins del s ops; Some (ok # oks, s) }"
| "run_ops ins del s (Del i # ops) = do { s \<leftarrow> del s i; run_ops ins del s ops }"

locale index_set =
  fixes inv :: "'s \<Rightarrow> bool" and sz :: "'s \<Rightarrow> nat" and mem :: "'s \<Rightarrow> nat \<Rightarrow> bool" and ample :: "'s \<Rightarrow> bool"
    and ins :: "'s \<Rightarrow> nat \<Rightarrow> (bool \<times> 's) option" and del :: "'s \<Rightarrow> nat \<Rightarrow> 's option"
  assumes ins_total: "inv s \<Longrightarrow> 1 \<le> i \<Longrightarrow> i \<le> sz s \<Longrightarrow>
      \<exists>ok s'. ins s i = Some (ok, s') \<and> inv s' \<and> sz s' = sz s \<and> (ample s \<longrightarrow> ok \<and> ample s') \<and>
        (\<forall>j. 1 \<le> j \<and> j \<le> sz s \<longrightarrow> (mem s' j \<longrightarrow> j = i \<or> mem s j) \<and> (ok \<and> (j = i \<or> mem s j) \<longrightarrow> mem s' j))"
    and del_total: "inv s \<Longrightarrow> 1 \<le> i \<Longrightarrow> i \<le> sz s \<Longrightarrow>
      \<exists>s'. del s i = Some s' \<and> inv s' \<and> sz s' = sz s \<and> (ample s \<longrightarrow> ample s') \<and>
        (\<forall>j. 1 \<le> j \<and> j \<le> sz s \<longrightarrow> (mem s' j \<longleftrightarrow> mem s j \<and> j \<noteq> i))"
begin

definition elements :: "'s \<Rightarrow> nat set" where
  "elements s = {j. 1 \<le> j \<and> j \<le> sz s \<and> mem s j}"

lemma ins_elements:
  assumes "inv s" "1 \<le> i" "i \<le> sz s"
  obtains ok s' where "ins s i = Some (ok, s')" "inv s'" "sz s' = sz s" "ample s \<Longrightarrow> ok \<and> ample s'"
    "elements s' \<subseteq> insert i (elements s)" "ok \<Longrightarrow> elements s' = insert i (elements s)"
proof -
  obtain ok s' where r: "ins s i = Some (ok, s')" "inv s'" "sz s' = sz s" "ample s \<longrightarrow> ok \<and> ample s'"
    "\<And>j. 1 \<le> j \<and> j \<le> sz s \<Longrightarrow> (mem s' j \<longrightarrow> j = i \<or> mem s j) \<and> (ok \<and> (j = i \<or> mem s j) \<longrightarrow> mem s' j)"
    using ins_total [OF assms] by blast
  have "elements s' \<subseteq> insert i (elements s)" using r(3,5) by (auto simp: elements_def)
  moreover have "insert i (elements s) \<subseteq> elements s'" if ok using r(3,5) that assms(2,3) by (auto simp: elements_def)
  ultimately show thesis using r(1-4) that by blast
qed

lemma del_elements:
  assumes "inv s" "1 \<le> i" "i \<le> sz s"
  obtains s' where "del s i = Some s'" "inv s'" "sz s' = sz s" "ample s \<Longrightarrow> ample s'" "elements s' = elements s - {i}"
proof -
  obtain s' where r: "del s i = Some s'" "inv s'" "sz s' = sz s" "ample s \<longrightarrow> ample s'"
    "\<And>j. 1 \<le> j \<and> j \<le> sz s \<Longrightarrow> mem s' j \<longleftrightarrow> mem s j \<and> j \<noteq> i"
    using del_total [OF assms] by blast
  have "elements s' = elements s - {i}" using r(3,5) by (auto simp: elements_def)
  then show thesis using r(1-4) that by blast
qed

text \<open>
  Any sequence of operations returns; it is the same sequence on the set of elements when every
  insertion reported success, and the elements are among those of the set in any case.
\<close>

lemma run_elements:
  assumes "inv s" "\<forall>op \<in> set ops. 1 \<le> op_index op \<and> op_index op \<le> sz s" "elements s \<subseteq> S"
  shows "\<exists>oks s'. run_ops ins del s ops = Some (oks, s') \<and> inv s' \<and> sz s' = sz s \<and>
    elements s' \<subseteq> foldl apply_op S ops \<and>
    (elements s = S \<and> (\<forall>ok \<in> set oks. ok) \<longrightarrow> elements s' = foldl apply_op S ops) \<and>
    (ample s \<longrightarrow> (\<forall>ok \<in> set oks. ok))"
  using assms
proof (induction ops arbitrary: s S)
  case (Cons op ops)
  show ?case
  proof (cases op)
    case (Ins i)
    have i: "1 \<le> i" "i \<le> sz s" using Cons.prems(2) Ins by auto
    obtain ok t where t: "ins s i = Some (ok, t)" "inv t" "sz t = sz s" "ample s \<Longrightarrow> ok \<and> ample t"
        "elements t \<subseteq> insert i (elements s)" "ok \<Longrightarrow> elements t = insert i (elements s)"
      by (rule ins_elements [OF Cons.prems(1) i]) blast
    have "elements t \<subseteq> insert i S" using t(5) Cons.prems(3) by blast
    from Cons.IH [OF t(2) _ this] obtain oks s' where IH: "run_ops ins del t ops = Some (oks, s')" "inv s'" "sz s' = sz t"
        "elements s' \<subseteq> foldl apply_op (insert i S) ops"
        "elements t = insert i S \<and> (\<forall>ok \<in> set oks. ok) \<longrightarrow> elements s' = foldl apply_op (insert i S) ops"
        "ample t \<longrightarrow> (\<forall>ok \<in> set oks. ok)"
      using Cons.prems(2) t(3) by auto
    have "run_ops ins del s (op # ops) = Some (ok # oks, s')" using Ins t(1) IH(1) by simp
    then show ?thesis using IH(2-6) t(3,4,6) Ins by (intro exI [of _ "ok # oks"] exI [of _ s']) auto
  next
    case (Del i)
    have i: "1 \<le> i" "i \<le> sz s" using Cons.prems(2) Del by auto
    obtain t where t: "del s i = Some t" "inv t" "sz t = sz s" "ample s \<Longrightarrow> ample t" "elements t = elements s - {i}"
      by (rule del_elements [OF Cons.prems(1) i]) blast
    have "elements t \<subseteq> S - {i}" using t(5) Cons.prems(3) by blast
    from Cons.IH [OF t(2) _ this] obtain oks s' where IH: "run_ops ins del t ops = Some (oks, s')" "inv s'" "sz s' = sz t"
        "elements s' \<subseteq> foldl apply_op (S - {i}) ops"
        "elements t = S - {i} \<and> (\<forall>ok \<in> set oks. ok) \<longrightarrow> elements s' = foldl apply_op (S - {i}) ops"
        "ample t \<longrightarrow> (\<forall>ok \<in> set oks. ok)"
      using Cons.prems(2) t(3) by auto
    have "run_ops ins del s (op # ops) = Some (oks, s')" using Del t(1) IH(1) by simp
    then show ?thesis using IH(2-6) t(3-5) Del by (intro exI [of _ oks] exI [of _ s']) auto
  qed
qed simp

end

text \<open>The interface on bitvecs: a state is a bitvec with the outcomes of its future allocations.\<close>

definition bv_inv :: "Bitvec \<times> allocs \<Rightarrow> bool" where
  "bv_inv s \<longleftrightarrow> bitvec_wf (fst s) \<and> iSize (fst s) < 2 ^ 32"

definition bv_mem :: "Bitvec \<times> allocs \<Rightarrow> nat \<Rightarrow> bool" where
  "bv_mem s j \<longleftrightarrow> sqlite3BitvecTest (Some (fst s)) (of_nat j) = Some True"

definition bv_ample :: "Bitvec \<times> allocs \<Rightarrow> bool" where
  "bv_ample s \<longleftrightarrow> snd s = []"

definition bv_ins :: "Bitvec \<times> allocs \<Rightarrow> nat \<Rightarrow> (bool \<times> Bitvec \<times> allocs) option" where
  "bv_ins s i =
     (case sqlite3BitvecSet (snd s) (Some (fst s)) i of
        Some (rc, Some p, al) \<Rightarrow> Some (rc, p, al) | _ \<Rightarrow> None)"

definition bv_del :: "Bitvec \<times> allocs \<Rightarrow> nat \<Rightarrow> (Bitvec \<times> allocs) option" where
  "bv_del s i =
     (case sqlite3BitvecClear (Some (fst s)) i of Some (Some p) \<Rightarrow> Some (p, snd s) | _ \<Rightarrow> None)"

lemma cap_4: "n < 2 ^ 32 \<Longrightarrow> n \<le> bitvec_cap 4"
  by (simp add: bitvec_cap_def)

lemma bitvec_set_9:
  assumes "bitvec_wf p" "iSize p < 2 ^ 32" "1 \<le> i" "i \<le> iSize p"
  shows "set_ok p i (bitvec_set 9 al p i)"
  using bitvec_set_correct [OF assms(1,3,4) cap_4 [OF assms(2)], of 9] by simp

lemma test_index:
  assumes "bitvec_wf p" "iSize p < 2 ^ 32" "1 \<le> j" "j \<le> iSize p"
  shows "sqlite3BitvecTest (Some p) (of_nat j) = Some (test_bit p (j - 1))"
proof -
  have "unat (of_nat j - 1 :: u32) = j - 1"
  proof -
    have "(of_nat j - 1 :: u32) = of_nat (j - 1)" unfolding of_nat_diff [OF assms(3)] by simp
    then have "unat (of_nat j - 1 :: u32) = take_bit 32 (j - 1)" by (simp only: unsigned_of_nat) simp
    then show ?thesis using assms by (simp add: take_bit_nat_eq_self)
  qed
  moreover have "j - 1 < iSize p" using assms by simp
  ultimately show ?thesis
    using test_returns [OF assms(1)] by (simp add: sqlite3BitvecTest_def sqlite3BitvecTestNotNull_def Let_def not_le)
qed

lemma set_total:
  assumes "bitvec_wf p" "iSize p < 2 ^ 32" "1 \<le> i" "i \<le> iSize p"
  obtains rc q al' where "sqlite3BitvecSet al (Some p) i = Some (rc, Some q, al')" "set_spec p i rc q"
    "al = [] \<Longrightarrow> rc \<and> al' = []"
proof -
  obtain rc q al' where r: "bitvec_set 9 al p i = Some (rc, q, al')" "set_spec p i rc q"
    using bitvec_set_9 [OF assms, of al] unfolding set_ok_def by blast
  moreover have "al = [] \<Longrightarrow> rc \<and> al' = []" using bitvec_set_no_failure [of 9 p i] r(1) by auto
  ultimately show thesis by (intro that [of rc q al']) (simp_all add: sqlite3BitvecSet_def)
qed

lemma clear_total:
  assumes "bitvec_wf p" "1 \<le> i" "i \<le> iSize p"
  obtains q where "sqlite3BitvecClear (Some p) i = Some (Some q)" "clear_spec p (i - 1) q"
proof -
  have "i - 1 < iSize p" using assms(2,3) by simp
  then obtain q where "clear_bit p (i - 1) = Some q" "clear_spec p (i - 1) q"
    using clear_bit_correct [OF assms(1)] by blast
  then show thesis by (intro that [of q]) (simp_all add: sqlite3BitvecClear_def)
qed

text \<open>The contracts of setting and clearing, in terms of \<open>sqlite3BitvecTest\<close>.\<close>

lemma set_spec_test:
  assumes "set_spec p i rc q" "bitvec_wf p" "iSize p < 2 ^ 32" "1 \<le> i" "1 \<le> j" "j \<le> iSize p"
  shows "\<exists>b c. sqlite3BitvecTest (Some q) (of_nat j) = Some b \<and> sqlite3BitvecTest (Some p) (of_nat j) = Some c \<and>
    (b \<longrightarrow> j = i \<or> c) \<and> (rc \<and> (j = i \<or> c) \<longrightarrow> b)"
proof -
  have "j - 1 < iSize p" "j - 1 = i - 1 \<longleftrightarrow> j = i" using assms(4-6) by auto
  moreover have "bitvec_wf q" "iSize q = iSize p" using assms(1) by (simp_all add: set_spec_def)
  ultimately show ?thesis
    using assms(1) test_index [of p j] test_index [of q j] assms(2-6) unfolding set_spec_def by (metis (full_types))
qed

lemma clear_spec_test:
  assumes "clear_spec p (i - 1) q" "bitvec_wf p" "iSize p < 2 ^ 32" "1 \<le> i" "1 \<le> j" "j \<le> iSize p"
  shows "\<exists>c. sqlite3BitvecTest (Some p) (of_nat j) = Some c \<and> sqlite3BitvecTest (Some q) (of_nat j) = Some (c \<and> j \<noteq> i)"
proof -
  have "j - 1 < iSize p" "j - 1 = i - 1 \<longleftrightarrow> j = i" using assms(4-6) by auto
  moreover have "bitvec_wf q" "iSize q = iSize p" using assms(1) by (simp_all add: clear_spec_def)
  ultimately show ?thesis
    using assms(1) test_index [of p j] test_index [of q j] assms(2-6) unfolding clear_spec_def by auto
qed

interpretation bitvec: index_set bv_inv "\<lambda>s. iSize (fst s)" bv_mem bv_ample bv_ins bv_del
proof
  fix s :: "Bitvec \<times> allocs" and i :: nat
  assume s: "bv_inv s" "1 \<le> i" "i \<le> iSize (fst s)"
  then have w: "bitvec_wf (fst s)" "iSize (fst s) < 2 ^ 32" by (simp_all add: bv_inv_def)
  obtain rc q al where r: "sqlite3BitvecSet (snd s) (Some (fst s)) i = Some (rc, Some q, al)" "set_spec (fst s) i rc q"
      "snd s = [] \<Longrightarrow> rc \<and> al = []"
    by (rule set_total [OF w s(2,3), of "snd s"]) blast
  have "(bv_mem (q, al) j \<longrightarrow> j = i \<or> bv_mem s j) \<and> (rc \<and> (j = i \<or> bv_mem s j) \<longrightarrow> bv_mem (q, al) j)"
    if "1 \<le> j" "j \<le> iSize (fst s)" for j
    using set_spec_test [OF r(2) w s(2) that] by (auto simp: bv_mem_def)
  moreover have "bv_ins s i = Some (rc, q, al)" using r(1) by (simp add: bv_ins_def)
  moreover have "bv_inv (q, al)" "iSize q = iSize (fst s)" using r(2) w by (simp_all add: bv_inv_def set_spec_def)
  ultimately show "\<exists>ok s'. bv_ins s i = Some (ok, s') \<and> bv_inv s' \<and> iSize (fst s') = iSize (fst s) \<and>
      (bv_ample s \<longrightarrow> ok \<and> bv_ample s') \<and>
      (\<forall>j. 1 \<le> j \<and> j \<le> iSize (fst s) \<longrightarrow>
        (bv_mem s' j \<longrightarrow> j = i \<or> bv_mem s j) \<and> (ok \<and> (j = i \<or> bv_mem s j) \<longrightarrow> bv_mem s' j))"
    using r(3) by (intro exI [of _ rc] exI [of _ "(q, al)"]) (simp add: bv_ample_def)
next
  fix s :: "Bitvec \<times> allocs" and i :: nat
  assume s: "bv_inv s" "1 \<le> i" "i \<le> iSize (fst s)"
  then have w: "bitvec_wf (fst s)" "iSize (fst s) < 2 ^ 32" by (simp_all add: bv_inv_def)
  obtain q where r: "sqlite3BitvecClear (Some (fst s)) i = Some (Some q)" "clear_spec (fst s) (i - 1) q"
    by (rule clear_total [OF w(1) s(2,3)]) blast
  have "bv_mem (q, snd s) j \<longleftrightarrow> bv_mem s j \<and> j \<noteq> i" if "1 \<le> j" "j \<le> iSize (fst s)" for j
    using clear_spec_test [OF r(2) w s(2) that] by (auto simp: bv_mem_def)
  moreover have "bv_del s i = Some (q, snd s)" using r(1) by (simp add: bv_del_def)
  moreover have "bv_inv (q, snd s)" "iSize q = iSize (fst s)" using r(2) w by (simp_all add: bv_inv_def clear_spec_def)
  ultimately show "\<exists>s'. bv_del s i = Some s' \<and> bv_inv s' \<and> iSize (fst s') = iSize (fst s) \<and>
      (bv_ample s \<longrightarrow> bv_ample s') \<and>
      (\<forall>j. 1 \<le> j \<and> j \<le> iSize (fst s) \<longrightarrow> (bv_mem s' j \<longleftrightarrow> bv_mem s j \<and> j \<noteq> i))"
    by (intro exI [of _ "(q, snd s)"]) (simp add: bv_ample_def)
qed

text \<open>
  C8: a bitvec refines a set of numbers.  Take a fresh bitvec of any size below \<open>2 ^ 32\<close> and any
  sequence of insertions (\<open>sqlite3BitvecSet\<close>) and deletions (\<open>sqlite3BitvecClear\<close>) of numbers between 1
  and the size, with any outcomes of the allocations.  Every operation returns, and so does
  \<open>sqlite3BitvecTest\<close> of every number afterwards; it finds only members of the set that the same
  operations give when they are run on the empty set, and exactly these if every insertion reported
  success, across all changes of the representation from a hash table to sub-bitvecs and bitmaps.
  Without failing allocations every insertion does report success.
\<close>

theorem bitvec_refines_set:
  assumes "n < 2 ^ 32" "\<forall>op \<in> set ops. 1 \<le> op_index op \<and> op_index op \<le> n"
  shows "\<exists>oks p al'. run_ops bv_ins bv_del (bitvec_new n, al) ops = Some (oks, p, al') \<and>
    (al = [] \<longrightarrow> (\<forall>ok \<in> set oks. ok)) \<and>
    (\<forall>j. 1 \<le> j \<and> j \<le> n \<longrightarrow>
      (\<exists>b. sqlite3BitvecTest (Some p) (of_nat j) = Some b \<and> (b \<longrightarrow> j \<in> foldl apply_op {} ops) \<and>
        ((\<forall>ok \<in> set oks. ok) \<longrightarrow> (b \<longleftrightarrow> j \<in> foldl apply_op {} ops))))"
proof -
  have i: "bv_inv (bitvec_new n, al)" using assms(1) bitvec_new_wf [of n] by (simp add: bv_inv_def)
  have e: "bitvec.elements (bitvec_new n, al) = {}"
    using test_index [OF bitvec_new_wf(1) [of n]] test_new [of _ n] bitvec_new_wf(2) [of n] assms(1)
    unfolding bitvec.elements_def bv_mem_def by fastforce
  obtain oks p al' where r: "run_ops bv_ins bv_del (bitvec_new n, al) ops = Some (oks, p, al')"
      "bv_inv (p, al')" "iSize p = n" "bitvec.elements (p, al') \<subseteq> foldl apply_op {} ops"
      "\<forall>ok \<in> set oks. ok \<Longrightarrow> bitvec.elements (p, al') = foldl apply_op {} ops" "al = [] \<Longrightarrow> \<forall>ok \<in> set oks. ok"
    using bitvec.run_elements [OF i _ equalityD1 [OF e], of ops] assms(2) bitvec_new_wf(2) [of n] e
    by (simp add: bv_ample_def) blast
  have t: "\<exists>b. sqlite3BitvecTest (Some p) (of_nat j) = Some b \<and> (b \<longleftrightarrow> j \<in> bitvec.elements (p, al'))"
    if "1 \<le> j \<and> j \<le> n" for j
    using test_index [of p j] that r(2,3) unfolding bitvec.elements_def bv_mem_def bv_inv_def by auto
  have "\<exists>b. sqlite3BitvecTest (Some p) (of_nat j) = Some b \<and> (b \<longrightarrow> j \<in> foldl apply_op {} ops) \<and>
      ((\<forall>ok \<in> set oks. ok) \<longrightarrow> (b \<longleftrightarrow> j \<in> foldl apply_op {} ops))" if "1 \<le> j \<and> j \<le> n" for j
    using t [OF that] r(4,5) by blast
  then show ?thesis using r(1,6) by blast
qed

text \<open>99 insertions, which split the hash table, and a deletion.\<close>

theorem bitvec_refines_set_witness:
  "\<exists>oks p al'. run_ops bv_ins bv_del (bitvec_new 5000, []) (map Ins [1..<100] @ [Del 7]) = Some (oks, p, al') \<and>
     sqlite3BitvecTest (Some p) 99 = Some True \<and> sqlite3BitvecTest (Some p) 7 = Some False \<and>
     sqlite3BitvecTest (Some p) 4000 = Some False"
proof -
  let ?ops = "map Ins [1..<100] @ [Del 7]"
  have f: "foldl apply_op S (map Ins xs) = S \<union> set xs" for S xs by (induction xs arbitrary: S) auto
  have S: "foldl apply_op {} ?ops = {1..<100} - {7}" by (simp add: f del: upt_rec_numeral)
  have "(5000 :: nat) < 2 ^ 32" "\<forall>op \<in> set ?ops. 1 \<le> op_index op \<and> op_index op \<le> 5000" by auto
  from bitvec_refines_set [OF this, of "[]"] obtain oks p al' where
    r: "run_ops bv_ins bv_del (bitvec_new 5000, []) ?ops = Some (oks, p, al')"
    and t: "\<And>j. 1 \<le> j \<and> j \<le> 5000 \<Longrightarrow> sqlite3BitvecTest (Some p) (of_nat j) = Some (j \<in> {1..<100} - {7})"
    unfolding S by blast
  show ?thesis using r t [of 99] t [of 7] t [of 4000] by (intro exI [of _ oks] exI [of _ p] exI [of _ al']) simp
qed

text \<open>
  C19: \<open>sqlite3BitvecSet\<close> on a well-formed bitvec and a number in range always returns, whichever
  allocations fail: every probe of a hash table ends and nine levels of calls are enough for any
  32-bit size.  The result is well-formed and of the same size, and \<open>sqlite3BitvecTest\<close> returns on both;
  the result holds nothing but the old numbers and \<open>i\<close>, and if the call reports success it holds all of
  them; and it reports success if no allocation fails.
\<close>

theorem sqlite3BitvecSet_total:
  assumes "bitvec_wf p" "iSize p < 2 ^ 32" "1 \<le> i" "i \<le> iSize p"
  shows "\<exists>rc q al'. sqlite3BitvecSet al (Some p) i = Some (rc, Some q, al') \<and>
    bitvec_wf q \<and> iSize q = iSize p \<and>
    (\<forall>j. 1 \<le> j \<and> j \<le> iSize p \<longrightarrow>
       (\<exists>b c. sqlite3BitvecTest (Some q) (of_nat j) = Some b \<and> sqlite3BitvecTest (Some p) (of_nat j) = Some c \<and>
         (b \<longrightarrow> j = i \<or> c) \<and> (rc \<and> (j = i \<or> c) \<longrightarrow> b))) \<and>
    (al = [] \<longrightarrow> rc)"
proof -
  obtain rc q al' where r: "sqlite3BitvecSet al (Some p) i = Some (rc, Some q, al')" "set_spec p i rc q"
      "al = [] \<Longrightarrow> rc \<and> al' = []"
    by (rule set_total [OF assms, of al]) blast
  then have "bitvec_wf q" "iSize q = iSize p" by (simp_all add: set_spec_def)
  then show ?thesis using r(1,3) set_spec_test [OF r(2) assms(1-3)] by blast
qed

theorem sqlite3BitvecSet_total_witness:
  "\<exists>q al'. sqlite3BitvecSet [] (Some (bitvec_new 5000)) 4000 = Some (True, Some q, al') \<and>
    bitvec_wf q \<and> sqlite3BitvecTest (Some q) 4000 = Some True"
proof -
  have h: "(5000 :: nat) < 2 ^ 32" "1 \<le> (4000 :: nat)" "(4000 :: nat) \<le> 5000" by simp_all
  obtain rc q al' where r: "sqlite3BitvecSet [] (Some (bitvec_new 5000)) 4000 = Some (rc, Some q, al')"
      "bitvec_wf q" "[] = ([] :: allocs) \<longrightarrow> rc"
      "\<exists>b c. sqlite3BitvecTest (Some q) (of_nat 4000) = Some b \<and>
        sqlite3BitvecTest (Some (bitvec_new 5000)) (of_nat 4000) = Some c \<and>
        (b \<longrightarrow> (4000 :: nat) = 4000 \<or> c) \<and> (rc \<and> ((4000 :: nat) = 4000 \<or> c) \<longrightarrow> b)"
    using sqlite3BitvecSet_total [OF bitvec_new_wf(1), unfolded bitvec_new_wf(2), OF h, of "[]"] h(2,3) by blast
  then show ?thesis by auto
qed

text \<open>
  C32: \<open>sqlite3BitvecClear\<close> on a well-formed bitvec returns for every number in range (each search for a
  free slot in the hash table that it builds anew ends), needs no memory, keeps the invariant and the
  size, and removes exactly the number \<open>i\<close>; \<open>sqlite3BitvecTest\<close> returns before and after.
\<close>

theorem sqlite3BitvecClear_exact:
  assumes "bitvec_wf p" "iSize p < 2 ^ 32" "1 \<le> i" "i \<le> iSize p"
  shows "\<exists>q. sqlite3BitvecClear (Some p) i = Some (Some q) \<and> bitvec_wf q \<and> iSize q = iSize p \<and>
    (\<forall>j. 1 \<le> j \<and> j \<le> iSize p \<longrightarrow>
       (\<exists>c. sqlite3BitvecTest (Some p) (of_nat j) = Some c \<and>
         sqlite3BitvecTest (Some q) (of_nat j) = Some (c \<and> j \<noteq> i)))"
proof -
  obtain q where q: "sqlite3BitvecClear (Some p) i = Some (Some q)" "clear_spec p (i - 1) q"
    by (rule clear_total [OF assms(1,3,4)]) blast
  then have "bitvec_wf q" "iSize q = iSize p" by (simp_all add: clear_spec_def)
  then show ?thesis using q(1) clear_spec_test [OF q(2) assms(1-3)] by blast
qed

theorem sqlite3BitvecClear_exact_witness:
  "\<exists>p q. sqlite3BitvecTest (Some p) 4000 = Some True \<and> sqlite3BitvecClear (Some p) 4000 = Some (Some q) \<and>
    bitvec_wf q \<and> sqlite3BitvecTest (Some q) 4000 = Some False"
proof -
  have h: "(5000 :: nat) < 2 ^ 32" "1 \<le> (4000 :: nat)" "(4000 :: nat) \<le> 5000" by simp_all
  obtain p where p: "set_spec (bitvec_new 5000) 4000 True p"
    by (rule set_total [OF bitvec_new_wf(1), unfolded bitvec_new_wf(2), OF h, of "[]"]) simp
  then have w: "bitvec_wf p" "iSize p = 5000" by (simp_all add: set_spec_def bitvec_new_wf(2))
  have m: "sqlite3BitvecTest (Some p) (of_nat 4000) = Some True"
    using set_spec_test [OF p bitvec_new_wf(1), unfolded bitvec_new_wf(2), OF h(1,2,2,3)] by auto
  obtain q where "sqlite3BitvecClear (Some p) 4000 = Some (Some q)" "bitvec_wf q"
      "\<exists>c. sqlite3BitvecTest (Some p) (of_nat 4000) = Some c \<and>
        sqlite3BitvecTest (Some q) (of_nat 4000) = Some (c \<and> (4000 :: nat) \<noteq> 4000)"
    using sqlite3BitvecClear_exact [OF w(1), unfolded w(2), OF h] h(2,3) by blast
  then show ?thesis using m by (intro exI [of _ p] exI [of _ q]) simp
qed

end
