(* ===== verification/Sq_Like.thy ===== *)
theory Sq_Like
  imports Sq_Utf Sq_Ctype
begin

text \<open>
  The LIKE and GLOB operators of func.c: \<open>patternCompare\<close>, \<open>sqlite3_strglob\<close>, \<open>sqlite3_strlike\<close> and
  the SQL function \<open>likeFunc\<close>.

  Pattern and string are the bytes before their NUL terminators.  A read at the terminator returns 0;
  the code never reads again from a string after that.
\<close>

section \<open>Model\<close>

record compareInfo =
  matchAll :: u8
  matchOne :: u8
  matchSet :: u8
  noCase :: u8

definition globInfo :: compareInfo where
  "globInfo = \<lparr>matchAll = 42, matchOne = 63, matchSet = 91, noCase = 0\<rparr>"

definition likeInfoNorm :: compareInfo where
  "likeInfoNorm = \<lparr>matchAll = 37, matchOne = 95, matchSet = 0, noCase = 1\<rparr>"

definition likeInfoAlt :: compareInfo where
  "likeInfoAlt = \<lparr>matchAll = 37, matchOne = 95, matchSet = 0, noCase = 0\<rparr>"

abbreviation (input) SQLITE_MATCH :: int where "SQLITE_MATCH \<equiv> 0"
abbreviation (input) SQLITE_NOMATCH :: int where "SQLITE_NOMATCH \<equiv> 1"
abbreviation (input) SQLITE_NOWILDCARDMATCH :: int where "SQLITE_NOWILDCARDMATCH \<equiv> 2"

definition Utf8Read :: "cstr \<Rightarrow> u32 \<times> cstr" where
  "Utf8Read z =
     (case z of [] \<Rightarrow> (0, []) | b # z' \<Rightarrow> if b < 0x80 then (ucast b, z') else sqlite3Utf8Read z)"

lemma utf8Read_read: "Utf8Read z = READ_UTF8 z"
  by (cases z) (auto simp: Utf8Read_def sqlite3Utf8Read_def word_less_nat_alt word_le_nat_alt unat_ucast_u8 unsigned_ucast_eq)

lemma read_shorter: "length (snd (READ_UTF8 z)) \<le> length z" "z \<noteq> [] \<Longrightarrow> length (snd (READ_UTF8 z)) < length z"
  using read_utf8_length [of z] by (cases z; force)+

lemma read_nonempty: "READ_UTF8 z = (c, z') \<Longrightarrow> c \<noteq> 0 \<Longrightarrow> length z' < length z"
  using read_utf8_length [of z] by (cases z) auto

lemma read_le: "(c, z') = READ_UTF8 z \<Longrightarrow> length z' + (if c = 0 then 0 else 1) \<le> length z"
  using read_nonempty [of z c z'] read_shorter(1) [of z] by (auto simp: eq_fst_iff dest: sym)

text \<open>The wildcards after \<open>matchAll\<close>: the first other character of the pattern and what follows it;
  \<open>None\<close> if the string is too short for the characters that must be skipped.\<close>

function skip_wild :: "compareInfo \<Rightarrow> cstr \<Rightarrow> cstr \<Rightarrow> (u32 \<times> cstr \<times> cstr) option" where
  "skip_wild info zPattern zString =
     (case Utf8Read zPattern of
        (c, zPattern) \<Rightarrow>
          if c \<noteq> 0 \<and> (c = ucast (matchAll info) \<or> c = ucast (matchOne info) \<and> matchOne info \<noteq> 0) then
            if c = ucast (matchOne info) then
              (case sqlite3Utf8Read zString of
                 (d, zString) \<Rightarrow> if d = 0 then None else skip_wild info zPattern zString)
            else skip_wild info zPattern zString
          else Some (c, zPattern, zString))"
  by pat_completeness auto
termination
  by (relation "measure (\<lambda>(info, z, s). length z)") (auto simp: utf8Read_read dest: read_nonempty [OF sym])

declare skip_wild.simps [simp del]

text \<open>The list of characters in brackets, from its current character \<open>c2\<close> on.\<close>

function set_loop :: "u32 \<Rightarrow> u32 \<Rightarrow> bool \<Rightarrow> u32 \<Rightarrow> cstr \<Rightarrow> u32 \<times> bool \<times> cstr" where
  "set_loop c prior_c seen c2 zPattern =
     (if c2 \<noteq> 0 \<and> c2 \<noteq> 93 then
        if c2 = 45 \<and> zat zPattern 0 \<noteq> 93 \<and> zat zPattern 0 \<noteq> 0 \<and> prior_c > 0 then
          (case sqlite3Utf8Read zPattern of
             (c2, zPattern) \<Rightarrow>
               (case sqlite3Utf8Read zPattern of
                  (c2', zPattern) \<Rightarrow> set_loop c 0 (c \<ge> prior_c \<and> c \<le> c2 \<or> seen) c2' zPattern))
        else
          (case sqlite3Utf8Read zPattern of
             (c2', zPattern) \<Rightarrow> set_loop c c2 (c = c2 \<or> seen) c2' zPattern)
      else (c2, seen, zPattern))"
  by pat_completeness auto
termination
proof (relation "measure (\<lambda>(c, prior, seen, c2, z). length z + (if c2 = 0 then 0 else 1))", goal_cases)
  case (2 c prior seen c2 z c2' z' c3 z'')
  then show ?case
    using read_le [of c2' z' z] read_le [of c3 z'' z'] unfolding sqlite3Utf8Read_def in_measure prod.case by auto
next
  case (3 c prior seen c2 z c3 z')
  then show ?case using read_le [of c3 z' z] unfolding sqlite3Utf8Read_def in_measure prod.case by auto
qed simp

declare set_loop.simps [simp del]

definition match_set :: "u32 \<Rightarrow> cstr \<Rightarrow> cstr option" where
  "match_set c zPattern =
     (let (c2, zPattern) = sqlite3Utf8Read zPattern;
          invert = (c2 = 94);
          (c2, zPattern) = (if invert then sqlite3Utf8Read zPattern else (c2, zPattern));
          seen = (c2 = 93 \<and> c = 93);
          (c2, zPattern) = (if c2 = 93 then sqlite3Utf8Read zPattern else (c2, zPattern));
          (c2, seen, zPattern) = set_loop c 0 seen c2 zPattern
      in if c2 = 0 \<or> seen = invert then None else Some zPattern)"

definition zStop :: "compareInfo \<Rightarrow> u32 \<Rightarrow> u8 list" where
  "zStop info c =
     (if noCase info \<noteq> 0 then [sqlite3Toupper (ucast c), UpperToLower (ucast c)] else [ucast c])"

definition char_matches :: "compareInfo \<Rightarrow> bool \<Rightarrow> u32 \<Rightarrow> u32 \<Rightarrow> bool" where
  "char_matches info escaped c c2 \<longleftrightarrow>
     c = c2 \<or>
     noCase info \<noteq> 0 \<and> UpperToLower (ucast c) = UpperToLower (ucast c2) \<and> c < 0x80 \<and> c2 < 0x80 \<or>
     c = ucast (matchOne info) \<and> \<not> escaped \<and> c2 \<noteq> 0"

lemma set_loop_length: "length (snd (snd (set_loop c prior seen c2 z))) \<le> length z"
proof (induction c prior seen c2 z rule: set_loop.induct)
  case (1 c prior seen c2 z)
  then show ?case
    using read_shorter(1) [of z] read_shorter(1) [of "snd (READ_UTF8 z)"]
    by (subst set_loop.simps) (fastforce simp: sqlite3Utf8Read_def split: prod.splits)
qed

lemma match_set_length: "match_set c z = Some z' \<Longrightarrow> length z' \<le> length z"
proof -
  define f where "f z = (if fst z = 94 then READ_UTF8 (snd z) else z)" for z :: "u32 \<times> cstr"
  define g where "g z = (if fst z = 93 then READ_UTF8 (snd z) else z)" for z :: "u32 \<times> cstr"
  define h where "h z = set_loop c 0 (fst (f (READ_UTF8 z)) = 93 \<and> c = 93) (fst (g (f (READ_UTF8 z)))) (snd (g (f (READ_UTF8 z))))" for z
  have "match_set c z = (if fst (h z) = 0 \<or> fst (snd (h z)) = (fst (READ_UTF8 z) = 94) then None else Some (snd (snd (h z))))"
    by (simp add: match_set_def h_def f_def g_def sqlite3Utf8Read_def Let_def split_beta)
  moreover have "length (snd (snd (h z))) \<le> length z"
    unfolding h_def by (rule order_trans [OF set_loop_length]) (auto simp: f_def g_def intro: order_trans [OF read_shorter(1)] read_shorter)
  ultimately show "match_set c z = Some z' \<Longrightarrow> length z' \<le> length z" by (auto split: if_splits)
qed

lemma skip_wild_length:
  "skip_wild info p s = Some (c, p', s') \<Longrightarrow> c \<noteq> 0 \<Longrightarrow> length p' < length p"
proof (induction info p s rule: skip_wild.induct)
  case (1 info p s)
  then show ?case
    using read_nonempty [of p] less_trans
    by (subst (asm) (3) skip_wild.simps) (fastforce simp: utf8Read_read split: prod.splits if_splits)
qed

lemma read_length:
  "(c, z') = Utf8Read z \<Longrightarrow> c \<noteq> 0 \<Longrightarrow> length z' < length z"
  "(c, z') = sqlite3Utf8Read z \<Longrightarrow> length z' \<le> length z"
  by (auto simp: utf8Read_read sqlite3Utf8Read_def dest: read_le)

lemma read_or_keep_length:
  "(c', z') = (if b then sqlite3Utf8Read z else (c, z)) \<Longrightarrow> length z' \<le> length z"
  using read_length(2) by (auto split: if_splits)

lemma dropWhile_shorter: "dropWhile P z = b # z' \<Longrightarrow> length z' < length z"
  using length_dropWhile_le [of P z] by simp

lemma zat_0: "zat z 0 \<noteq> 0 \<Longrightarrow> z \<noteq> []"
  by (auto simp: zat_def)

lemmas pattern_lengths = read_length read_or_keep_length skip_wild_length match_set_length dropWhile_shorter
  skip_utf8_length zat_0

text \<open>
  \<open>patternCompare\<close>.  \<open>star_set\<close>, \<open>star_ascii\<close> and \<open>star_char\<close> are the three loops that look for the
  place after \<open>matchAll\<close> where the rest of the pattern matches.  The pattern that starts one byte before
  the one after \<open>[\<close> is that byte followed by it.
\<close>

function patternCompare :: "cstr \<Rightarrow> cstr \<Rightarrow> compareInfo \<Rightarrow> u32 \<Rightarrow> int"
  and star_set :: "cstr \<Rightarrow> cstr \<Rightarrow> compareInfo \<Rightarrow> u32 \<Rightarrow> int"
  and star_ascii :: "u8 list \<Rightarrow> cstr \<Rightarrow> cstr \<Rightarrow> compareInfo \<Rightarrow> u32 \<Rightarrow> int"
  and star_char :: "u32 \<Rightarrow> cstr \<Rightarrow> cstr \<Rightarrow> compareInfo \<Rightarrow> u32 \<Rightarrow> int" where
  "patternCompare zPattern zString info matchOther =
     (case Utf8Read zPattern of
        (c, zPattern) \<Rightarrow>
          if c = 0 then (if zat zString 0 = 0 then SQLITE_MATCH else SQLITE_NOMATCH)
          else if c = ucast (matchAll info) then
            (case skip_wild info zPattern zString of
               None \<Rightarrow> SQLITE_NOWILDCARDMATCH
             | Some (c, zPattern, zString) \<Rightarrow>
                 if c = 0 then SQLITE_MATCH
                 else if c = matchOther \<and> matchSet info \<noteq> 0 then
                   star_set (ucast matchOther # zPattern) zString info matchOther
                 else
                   (case (if c = matchOther then sqlite3Utf8Read zPattern else (c, zPattern)) of
                      (c, zPattern) \<Rightarrow>
                        if c = 0 then SQLITE_NOWILDCARDMATCH
                        else if c < 0x80 then star_ascii (zStop info c) zPattern zString info matchOther
                        else star_char c zPattern zString info matchOther))
          else if c = matchOther \<and> matchSet info \<noteq> 0 then
            (case sqlite3Utf8Read zString of
               (c, zString) \<Rightarrow>
                 if c = 0 then SQLITE_NOMATCH
                 else
                   (case match_set c zPattern of
                      None \<Rightarrow> SQLITE_NOMATCH
                    | Some zPattern \<Rightarrow> patternCompare zPattern zString info matchOther))
          else
            (case (if c = matchOther then sqlite3Utf8Read zPattern else (c, zPattern)) of
               (c', zPattern) \<Rightarrow>
                 if c' = 0 then SQLITE_NOMATCH
                 else
                   (case Utf8Read zString of
                      (c2, zString) \<Rightarrow>
                        if char_matches info (c = matchOther) c' c2
                        then patternCompare zPattern zString info matchOther
                        else SQLITE_NOMATCH)))"
| "star_set zPattern zString info matchOther =
     (if zat zString 0 \<noteq> 0 then
        let bMatch = patternCompare zPattern zString info matchOther
        in if bMatch \<noteq> SQLITE_NOMATCH then bMatch
           else star_set zPattern (SQLITE_SKIP_UTF8 zString) info matchOther
      else SQLITE_NOWILDCARDMATCH)"
| "star_ascii stop zPattern zString info matchOther =
     (case dropWhile (\<lambda>b. b \<notin> set stop) zString of
        [] \<Rightarrow> SQLITE_NOWILDCARDMATCH
      | _ # zString \<Rightarrow>
          let bMatch = patternCompare zPattern zString info matchOther
          in if bMatch \<noteq> SQLITE_NOMATCH then bMatch
             else star_ascii stop zPattern zString info matchOther)"
| "star_char c zPattern zString info matchOther =
     (case Utf8Read zString of
        (c2, zString) \<Rightarrow>
          if c2 = 0 then SQLITE_NOWILDCARDMATCH
          else if c2 \<noteq> c then star_char c zPattern zString info matchOther
          else
            let bMatch = patternCompare zPattern zString info matchOther
            in if bMatch \<noteq> SQLITE_NOMATCH then bMatch
               else star_char c zPattern zString info matchOther)"
  by pat_completeness auto
termination
proof (relation "inv_image (less_than <*lex*> less_than <*lex*> less_than)
    (\<lambda>x. case x of
       Inl (Inl (p, s, info, mo)) \<Rightarrow> (length p, 0, length s)
     | Inl (Inr (p, s, info, mo)) \<Rightarrow> (length p, 1, length s)
     | Inr (Inl (stop, p, s, info, mo)) \<Rightarrow> (length p, 1, length s)
     | Inr (Inr (c, p, s, info, mo)) \<Rightarrow> (length p, 1, length s))", goal_cases)
qed (force dest: pattern_lengths)+

declare patternCompare.simps [simp del] star_set.simps [simp del] star_ascii.simps [simp del] star_char.simps [simp del]

definition sqlite3_strglob :: "cstr option \<Rightarrow> cstr option \<Rightarrow> int" where
  "sqlite3_strglob zGlobPattern zString =
     (case zString of
        None \<Rightarrow> (if zGlobPattern \<noteq> None then 1 else 0)
      | Some zString \<Rightarrow>
          (case zGlobPattern of None \<Rightarrow> 1 | Some zGlobPattern \<Rightarrow> patternCompare zGlobPattern zString globInfo 91))"

definition sqlite3_strlike :: "cstr option \<Rightarrow> cstr option \<Rightarrow> u32 \<Rightarrow> int" where
  "sqlite3_strlike zPattern zStr esc =
     (case zStr of
        None \<Rightarrow> (if zPattern \<noteq> None then 1 else 0)
      | Some zStr \<Rightarrow>
          (case zPattern of None \<Rightarrow> 1 | Some zPattern \<Rightarrow> patternCompare zPattern zStr likeInfoNorm esc))"

text \<open>
  \<open>likeFunc\<close>, built with \<open>SQLITE_LIKE_DOESNT_MATCH_BLOBS\<close>: \<open>blob0\<close> and \<open>blob1\<close> say whether the first two
  arguments are blobs, \<open>nPat\<close> is \<open>sqlite3_value_bytes(argv[0])\<close>, \<open>limit\<close> the limit on the length of a pattern,
  \<open>argv2\<close> the third argument if there is one, and each text is \<open>None\<close> where \<open>sqlite3_value_text\<close>
  returns a null pointer.  The result is what the function sets: nothing, an error or an integer.
\<close>

datatype like_result = LikeUnset | LikeError string | LikeInt int

definition escapeInfo :: "compareInfo \<Rightarrow> u32 \<Rightarrow> compareInfo" where
  "escapeInfo info escape =
     (if escape = ucast (matchAll info) \<or> escape = ucast (matchOne info) then
        let info = (if escape = ucast (matchAll info) then info\<lparr>matchAll := 0\<rparr> else info)
        in (if escape = ucast (matchOne info) then info\<lparr>matchOne := 0\<rparr> else info)
      else info)"

definition like_compare :: "cstr option \<Rightarrow> cstr option \<Rightarrow> compareInfo \<Rightarrow> u32 \<Rightarrow> like_result" where
  "like_compare zB zA info escape =
     (case (zA, zB) of
        (Some zA, Some zB) \<Rightarrow> LikeInt (if patternCompare zB zA info escape = SQLITE_MATCH then 1 else 0)
      | _ \<Rightarrow> LikeUnset)"

definition likeFunc ::
    "compareInfo \<Rightarrow> nat \<Rightarrow> bool \<Rightarrow> bool \<Rightarrow> nat \<Rightarrow> cstr option \<Rightarrow> cstr option \<Rightarrow> cstr option option \<Rightarrow>
     like_result" where
  "likeFunc info limit blob0 blob1 nPat argv0 argv1 argv2 =
     (if blob0 \<or> blob1 then LikeInt 0
      else if nPat > limit then LikeError ''LIKE or GLOB pattern too complex''
      else
        case argv2 of
          Some None \<Rightarrow> LikeUnset
        | Some (Some zEsc) \<Rightarrow>
            (if sqlite3Utf8CharLen zEsc (- 1) \<noteq> 1 then
               LikeError ''ESCAPE expression must be a single character''
             else
               let escape = fst (sqlite3Utf8Read zEsc)
               in like_compare argv0 argv1 (escapeInfo info escape) escape)
        | None \<Rightarrow> like_compare argv0 argv1 info (ucast (matchSet info)))"

section \<open>What a pattern matches\<close>

text \<open>The characters of a text.\<close>

function chars :: "cstr \<Rightarrow> u32 list" where
  "chars z = (if z = [] then [] else case READ_UTF8 z of (c, z) \<Rightarrow> c # chars z)"
  by pat_completeness auto
termination
  by (relation "measure length") (simp, metis in_measure read_shorter(2) snd_conv)

declare chars.simps [simp del]

text \<open>A list of characters in brackets, after the opening bracket: whether it is negated, its ranges
  and what follows it; \<open>None\<close> if it is not closed.\<close>

function set_items :: "u32 \<Rightarrow> u32 list \<Rightarrow> ((u32 \<times> u32) list \<times> u32 list) option" where
  "set_items prior [] = None"
| "set_items prior (c # cs) =
     (if c = 93 then Some ([], cs)
      else if c = 45 \<and> cs \<noteq> [] \<and> hd cs \<noteq> 93 \<and> prior \<noteq> 0 then
        map_option (\<lambda>(rs, rest). ((prior, hd cs) # rs, rest)) (set_items 0 (tl cs))
      else map_option (\<lambda>(rs, rest). ((c, c) # rs, rest)) (set_items c cs))"
  by pat_completeness auto
termination by (relation "measure (\<lambda>(p, cs). length cs)") auto

definition parse_set :: "u32 list \<Rightarrow> (bool \<times> (u32 \<times> u32) list \<times> u32 list) option" where
  "parse_set cs =
     (let invert = (cs \<noteq> [] \<and> hd cs = 94);
          cs = (if invert then tl cs else cs)
      in map_option (Pair invert)
           (if cs \<noteq> [] \<and> hd cs = 93
            then map_option (\<lambda>(rs, rest). ((93, 93) # rs, rest)) (set_items 0 (tl cs))
            else set_items 0 cs))"

definition in_set :: "bool \<Rightarrow> (u32 \<times> u32) list \<Rightarrow> u32 \<Rightarrow> bool" where
  "in_set invert rs c \<longleftrightarrow> (\<exists>(a, b) \<in> set rs. a \<le> c \<and> c \<le> b) \<noteq> invert"

lemma set_items_length: "set_items prior cs = Some (rs, rest) \<Longrightarrow> length rest < length cs"
proof (induction prior cs arbitrary: rs rule: set_items.induct)
  case (2 prior c cs)
  then show ?case by (cases cs) (fastforce split: if_splits)+
qed simp

lemma parse_set_length: "parse_set cs = Some (invert, rs, rest) \<Longrightarrow> length rest < length cs"
  using set_items_length [of 0 cs] set_items_length [of 0 "tl cs"] set_items_length [of 0 "tl (tl cs)"]
  by (cases cs; cases "tl cs") (fastforce simp: parse_set_def Let_def split: if_splits)+

text \<open>The definition of matching: every wildcard may take any number of characters.\<close>

definition same_char :: "compareInfo \<Rightarrow> u32 \<Rightarrow> u32 \<Rightarrow> bool" where
  "same_char info c d \<longleftrightarrow>
     c = d \<or> noCase info \<noteq> 0 \<and> c < 0x80 \<and> d < 0x80 \<and> UpperToLower (ucast c) = UpperToLower (ucast d)"

function pattern_spec :: "compareInfo \<Rightarrow> u32 \<Rightarrow> u32 list \<Rightarrow> u32 list \<Rightarrow> bool" where
  "pattern_spec info mo [] s \<longleftrightarrow> s = []"
| "pattern_spec info mo (c # p) s \<longleftrightarrow>
     (if c = ucast (matchAll info) then \<exists>k \<le> length s. pattern_spec info mo p (drop k s)
      else if c = mo then
        if matchSet info \<noteq> 0 then
          (case parse_set p of
             None \<Rightarrow> False
           | Some (invert, rs, rest) \<Rightarrow> s \<noteq> [] \<and> in_set invert rs (hd s) \<and> pattern_spec info mo rest (tl s))
        else p \<noteq> [] \<and> s \<noteq> [] \<and> same_char info (hd p) (hd s) \<and> pattern_spec info mo (tl p) (tl s)
      else s \<noteq> [] \<and> (c = ucast (matchOne info) \<or> same_char info c (hd s)) \<and> pattern_spec info mo p (tl s))"
  by pat_completeness auto
termination
  by (relation "measure (\<lambda>(info, mo, p, s). length p)") (auto dest: parse_set_length)

section \<open>Characters and bytes\<close>

lemma chars_Nil [simp]: "chars [] = []"
  by (simp add: chars.simps [of "[]"])

lemma read_Nil [simp]: "READ_UTF8 [] = (0, [])"
  by simp

lemma chars_read: "z \<noteq> [] \<Longrightarrow> chars z = fst (READ_UTF8 z) # chars (snd (READ_UTF8 z))"
  by (subst chars.simps) (simp add: split_beta)

lemma utf8_continue_bytes: "set (snd (utf8_continue c z)) \<subseteq> set z"
  by (induction c z rule: utf8_continue.induct) auto

lemma read_bytes: "set (snd (READ_UTF8 z)) \<subseteq> set z"
  using utf8_continue_bytes by (cases z) (auto simp: split_beta Let_def)

lemma cstring_read [simp]: "cstring z \<Longrightarrow> cstring (snd (READ_UTF8 z))"
  using read_bytes [of z] unfolding cstring_def by blast

lemma read_ascii: "b < 0x80 \<Longrightarrow> READ_UTF8 (b # z) = (ucast b, z)"
  by (simp add: word_less_nat_alt word_le_nat_alt unat_ucast_u8 unsigned_ucast_eq)

lemma read_multibyte:
  assumes "\<not> b < 0x80"
  shows "\<not> fst (READ_UTF8 (b # z)) < 0x80"
proof (cases "ucast b \<ge> (0xc0 :: u32)")
  case True
  then show ?thesis by (auto simp: split_beta Let_def utf8_reject_def)
next
  case False
  then show ?thesis using assms by (simp add: word_less_nat_alt unat_ucast_u8)
qed

declare READ_UTF8.simps(2) [simp del]

lemma ucast_u32_u8 [simp]: "ucast (ucast (b :: u8) :: u32) = b"
  by (rule bit_word_eqI) (simp add: bit_simps)

lemma ucast_u8_u32: "(c :: u32) < 0x80 \<Longrightarrow> ucast (ucast c :: u8) = c"
  unfolding u32_less_bits by (simp add: u32_eq_bits bitblast bit_simps)

lemma ucast_less: "ucast (b :: u8) < (0x80 :: u32) \<longleftrightarrow> b < 0x80"
  by (simp add: word_less_nat_alt unat_ucast_u8)

lemma ucast_less': "(c :: u32) < 0x80 \<Longrightarrow> (ucast c :: u8) < 0x80"
  using ucast_u8_u32 ucast_less by metis

lemma read_small: "fst (READ_UTF8 (b # z)) < 0x80 \<longleftrightarrow> b < 0x80"
  using read_multibyte [of b z] read_ascii [of b z] by (cases "b < 0x80") (auto simp: ucast_less)

lemma read_byte: "c < 0x80 \<Longrightarrow> fst (READ_UTF8 (b # z)) = c \<longleftrightarrow> b = ucast c"
  using read_multibyte [of b z] read_ascii [of b z] ucast_u8_u32 [of c] ucast_less' [of c]
  by (cases "b < 0x80") auto

lemma read_zero: "cstring z \<Longrightarrow> fst (READ_UTF8 z) = 0 \<longleftrightarrow> z = []"
  using read_byte [of 0] by (cases z) (auto simp: cstring_def)

lemma chars_eq_Nil [simp]: "chars z = [] \<longleftrightarrow> z = []"
  using chars_read [of z] by (cases "z = []") auto

lemma zat_hd: "cstring z \<Longrightarrow> zat z 0 = 0 \<longleftrightarrow> z = []" "z \<noteq> [] \<Longrightarrow> zat z 0 = hd z"
  by (cases z; auto simp: zat_def cstring_def)+

lemma hd_chars: "z \<noteq> [] \<Longrightarrow> c < 0x80 \<Longrightarrow> hd (chars z) = c \<longleftrightarrow> hd z = ucast c"
  using read_byte [of c] by (cases z) (auto simp: chars_read simp del: READ_UTF8.simps)

section \<open>Lists of characters in brackets\<close>

definition stream :: "u32 \<Rightarrow> cstr \<Rightarrow> u32 list" where
  "stream c z = (if c = 0 then [] else c # chars z)"

lemma stream_read: "cstring z \<Longrightarrow> READ_UTF8 z = (c, z') \<Longrightarrow> stream c z' = chars z \<and> cstring z'"
  using read_zero [of z] chars_read [of z] cstring_read [of z] by (auto simp: stream_def)

definition covered :: "(u32 \<times> u32) list \<Rightarrow> u32 \<Rightarrow> bool" where
  "covered rs c \<longleftrightarrow> (\<exists>(a, b) \<in> set rs. a \<le> c \<and> c \<le> b)"

lemma covered_simps [simp]: "covered [] c = False" "covered ((a, b) # rs) c \<longleftrightarrow> a \<le> c \<and> c \<le> b \<or> covered rs c"
  by (auto simp: covered_def)

definition set_result_ok :: "bool \<Rightarrow> u32 \<Rightarrow> ((u32 \<times> u32) list \<times> u32 list) option \<Rightarrow> u32 \<times> bool \<times> cstr \<Rightarrow> bool" where
  "set_result_ok seen c items r \<longleftrightarrow> cstring (snd (snd r)) \<and>
     (case items of
        None \<Rightarrow> fst r = 0
      | Some (rs, rest) \<Rightarrow> fst r = 93 \<and> chars (snd (snd r)) = rest \<and> (fst (snd r) \<longleftrightarrow> seen \<or> covered rs c))"

lemma set_result_step:
  assumes "set_result_ok (a \<le> c \<and> c \<le> b \<or> seen) c items r"
  shows "set_result_ok seen c (map_option (\<lambda>(rs, rest). ((a, b) # rs, rest)) items) r"
  using assms by (cases items) (auto simp: set_result_ok_def)

lemma set_loop_spec:
  "cstring z \<Longrightarrow> set_result_ok seen c (set_items prior (stream c2 z)) (set_loop c prior seen c2 z)"
proof (induction c prior seen c2 z rule: set_loop.induct)
  case (1 c prior seen c2 z)
  obtain d z1 where d: "READ_UTF8 z = (d, z1)" by fastforce
  obtain e z2 where e: "READ_UTF8 z1 = (e, z2)" by fastforce
  note ds = stream_read [OF "1.prems" d]
  note es = stream_read [OF ds [THEN conjunct2] e]
  consider "c2 = 0" | "c2 = 93"
    | "c2 \<noteq> 0" "c2 \<noteq> 93" "c2 = 45 \<and> zat z 0 \<noteq> 93 \<and> zat z 0 \<noteq> 0 \<and> prior > 0"
    | "c2 \<noteq> 0" "c2 \<noteq> 93" "\<not> (c2 = 45 \<and> zat z 0 \<noteq> 93 \<and> zat z 0 \<noteq> 0 \<and> prior > 0)" by blast
  then show ?case
  proof cases
    case 3
    have z1: "z \<noteq> []" using 3(3) by (auto simp: zat_def)
    then have z: "z \<noteq> []" "hd (chars z) \<noteq> 93" using 3(3) hd_chars [of z 93] zat_hd(2) [of z] by auto
    have "chars z = d # chars z1" using chars_read [OF z(1)] d by simp
    then have s: "stream c2 z = 45 # d # stream e z2" "d \<noteq> 93" using 3 es z(2) by (auto simp: stream_def)
    have "set_result_ok (prior \<le> c \<and> c \<le> d \<or> seen) c (set_items 0 (stream e z2))
        (set_loop c 0 (prior \<le> c \<and> c \<le> d \<or> seen) e z2)"
      using 3 d e es by (intro "1.IH"(1)) (auto simp: sqlite3Utf8Read_def)
    then show ?thesis
      using 3 s d e by (subst set_loop.simps) (simp add: set_result_step sqlite3Utf8Read_def word_gt_0)
  next
    case 4
    have "set_result_ok (c2 \<le> c \<and> c \<le> c2 \<or> seen) c (set_items c2 (stream d z1)) (set_loop c c2 (c = c2 \<or> seen) d z1)"
    proof -
      have "c2 \<le> c \<and> c \<le> c2 \<longleftrightarrow> c = c2" by auto
      then show ?thesis using "1.IH"(2) [OF _ 4(3), of d z1] 4 d ds by (simp add: sqlite3Utf8Read_def)
    qed
    moreover
    have "\<not> (c2 = 45 \<and> chars z \<noteq> [] \<and> hd (chars z) \<noteq> 93 \<and> prior \<noteq> 0)"
      using 4(3) hd_chars [of z 93] zat_hd "1.prems" by (auto simp: word_gt_0)
    then have "set_items prior (stream c2 z) =
        map_option (\<lambda>(rs, rest). ((c2, c2) # rs, rest)) (set_items c2 (stream d z1))"
      using 4(1,2) ds by (auto simp: stream_def)
    moreover have "set_loop c prior seen c2 z = set_loop c c2 (c = c2 \<or> seen) d z1"
      using 4 d by (subst set_loop.simps) (auto simp: sqlite3Utf8Read_def)
    ultimately show ?thesis using set_result_step by simp
  qed (use "1.prems" in \<open>simp_all add: set_loop.simps [of c prior seen 0 z] set_loop.simps [of c prior seen 93 z] set_result_ok_def stream_def\<close>)
qed

lemma match_set_spec:
  assumes "cstring z"
  shows "case parse_set (chars z) of
      None \<Rightarrow> match_set c z = None
    | Some (invert, rs, rest) \<Rightarrow>
        if in_set invert rs c then \<exists>z'. match_set c z = Some z' \<and> cstring z' \<and> chars z' = rest
        else match_set c z = None"
proof -
  define s1 where "s1 = READ_UTF8 z"
  define s2 where "s2 = (if fst s1 = 94 then READ_UTF8 (snd s1) else s1)"
  define s3 where "s3 = (if fst s2 = 93 then READ_UTF8 (snd s2) else s2)"
  define seen where "seen \<longleftrightarrow> fst s2 = 93 \<and> c = 93"
  define r where "r = set_loop c 0 seen (fst s3) (snd s3)"
  have m: "match_set c z = (if fst r = 0 \<or> fst (snd r) = (fst s1 = 94) then None else Some (snd (snd r)))"
    by (simp add: match_set_def r_def seen_def s3_def s2_def s1_def sqlite3Utf8Read_def Let_def split_beta)
  have t1: "stream (fst s1) (snd s1) = chars z" "cstring (snd s1)" 
    using stream_read [OF assms, of "fst s1" "snd s1"] by (simp_all add: s1_def)
  have t2: "stream (fst s2) (snd s2) = (if fst s1 = 94 then tl (chars z) else chars z)" "cstring (snd s2)"
    using stream_read [OF t1(2), of "fst s2" "snd s2"] t1
    by (auto simp: s2_def stream_def split: if_splits dest: arg_cong [of _ _ tl])
  have t3: "stream (fst s3) (snd s3) = (if fst s2 = 93 then tl (stream (fst s2) (snd s2)) else stream (fst s2) (snd s2))"
      "cstring (snd s3)"
    using stream_read [OF t2(2), of "fst s3" "snd s3"] t2 by (auto simp: s3_def stream_def split: if_splits dest: arg_cong [of _ _ tl])
  have hd94: "fst s1 = 94 \<longleftrightarrow> chars z \<noteq> [] \<and> hd (chars z) = 94"
    unfolding t1(1) [symmetric] by (auto simp: stream_def)
  define cs where "cs = stream (fst s2) (snd s2)"
  have hd93: "fst s2 = 93 \<longleftrightarrow> cs \<noteq> [] \<and> hd cs = 93" by (auto simp: stream_def cs_def)
  have p: "parse_set (chars z) = map_option (Pair (fst s1 = 94))
      (if fst s2 = 93 then map_option (\<lambda>(rs, rest). ((93, 93) # rs, rest)) (set_items 0 (tl cs)) else set_items 0 cs)"
    using t2(1) unfolding parse_set_def Let_def hd94 [symmetric] cs_def [symmetric] hd93 by simp
  define items where "items = (if fst s2 = 93 then map_option (\<lambda>(rs, rest). ((93, 93) # rs, rest)) (set_items 0 (tl cs)) else set_items 0 cs)"
  have "set_result_ok seen c (set_items 0 (stream (fst s3) (snd s3))) r"
    unfolding r_def by (rule set_loop_spec [OF t3(2)])
  moreover have "seen = (fst s2 = 93 \<and> (93 \<le> c \<and> c \<le> 93 \<or> False))" unfolding seen_def by auto
  ultimately have "set_result_ok False c items r"
    using set_result_step [of 93 c 93 False "set_items 0 (tl cs)" r] t3(1) unfolding items_def cs_def
    by (cases "fst s2 = 93") simp_all
  then show ?thesis
    unfolding m p items_def [symmetric]
    by (cases items) (auto simp: set_result_ok_def in_set_def covered_def)
qed

section \<open>Searching for the rest of a pattern\<close>

text \<open>\<open>somewhere Q s\<close>: \<open>Q\<close> holds of a suffix of \<open>s\<close>; \<open>later Q s\<close>: of a suffix that is not empty.\<close>

definition somewhere :: "('a list \<Rightarrow> bool) \<Rightarrow> 'a list \<Rightarrow> bool" where
  "somewhere Q s \<longleftrightarrow> (\<exists>k \<le> length s. Q (drop k s))"

definition later :: "('a list \<Rightarrow> bool) \<Rightarrow> 'a list \<Rightarrow> bool" where
  "later Q s \<longleftrightarrow> (\<exists>k < length s. Q (drop k s))"

lemma somewhere_simps [simp]:
  "somewhere Q [] \<longleftrightarrow> Q []"
  "somewhere Q (x # s) \<longleftrightarrow> Q (x # s) \<or> somewhere Q s"
  by (auto simp: somewhere_def Suc_le_eq intro: exI [of _ 0] exI [of _ "Suc _"])
     (metis Suc_le_mono drop0 drop_Suc_Cons not0_implies_Suc)

lemma later_simps [simp]:
  "\<not> later Q []"
  "later Q (x # s) \<longleftrightarrow> Q (x # s) \<or> later Q s"
  by (auto simp: later_def intro: exI [of _ 0] exI [of _ "Suc _"])
     (metis Suc_less_eq drop0 drop_Suc_Cons not0_implies_Suc)

lemma somewhere_later: "\<not> Q [] \<Longrightarrow> somewhere Q s \<longleftrightarrow> later Q s"
  by (induction s) auto

lemma somewhere_somewhere [simp]: "somewhere (somewhere Q) s \<longleftrightarrow> somewhere Q s"
  by (induction s) auto

lemma somewhere_drop: "somewhere Q (drop k s) \<Longrightarrow> somewhere Q s"
  by (induction s arbitrary: k) (auto simp: drop_Cons split: nat.splits)

lemma somewhere_I: "Q (drop k s) \<Longrightarrow> somewhere Q s"
  by (induction s arbitrary: k) (auto simp: drop_Cons split: nat.splits)

lemma somewhere_tl: "somewhere (\<lambda>t. t \<noteq> [] \<and> Q (tl t)) s \<longleftrightarrow> s \<noteq> [] \<and> somewhere Q (tl s)"
  by (induction s) (auto, (case_tac s; auto)+)

lemma later_drop: "\<forall>k. \<not> Q (drop k s) \<Longrightarrow> \<not> later Q s"
  by (auto simp: later_def)

lemma later_dropWhile: "(\<And>t. Q t \<Longrightarrow> hd t \<in> A) \<Longrightarrow> later Q (dropWhile (\<lambda>x. x \<notin> A) s) \<longleftrightarrow> later Q s"
  by (induction s) (auto, metis list.sel(1))

section \<open>The reference definition\<close>

definition info_ok :: "compareInfo \<Rightarrow> u32 \<Rightarrow> bool" where
  "info_ok info mo \<longleftrightarrow>
     (matchSet info \<noteq> 0 \<longrightarrow> mo = ucast (matchSet info) \<and> matchSet info < 0x80) \<and>
     (mo \<noteq> 0 \<longrightarrow> mo \<noteq> ucast (matchAll info) \<and> mo \<noteq> ucast (matchOne info)) \<and>
     (matchOne info \<noteq> 0 \<longrightarrow> matchOne info \<noteq> matchAll info)"

lemma spec_all: "pattern_spec info mo (ucast (matchAll info) # p) s \<longleftrightarrow> somewhere (pattern_spec info mo p) s"
  by (simp add: somewhere_def)

lemma ucast_u8_eq [simp]: "ucast (a :: u8) = (ucast b :: u32) \<longleftrightarrow> a = b" "ucast (a :: u8) = (0 :: u32) \<longleftrightarrow> a = 0"
  by (metis ucast_u32_u8, metis ucast_u32_u8 ucast_0)

lemma spec_one:
  assumes "info_ok info mo" "matchOne info \<noteq> 0"
  shows "pattern_spec info mo (ucast (matchOne info) # p) s \<longleftrightarrow> s \<noteq> [] \<and> pattern_spec info mo p (tl s)"
  using assms by (auto simp: info_ok_def)

lemma skip_wild_spec:
  assumes "info_ok info mo" "cstring zP" "cstring zS"
  shows "case skip_wild info zP zS of
      None \<Rightarrow> \<not> somewhere (pattern_spec info mo (chars zP)) (chars zS)
    | Some (c, zP', zS') \<Rightarrow> cstring zP' \<and> cstring zS' \<and>
        (somewhere (pattern_spec info mo (chars zP)) (chars zS) \<longleftrightarrow>
         somewhere (pattern_spec info mo (stream c zP')) (chars zS')) \<and>
        (c \<noteq> 0 \<longrightarrow> c \<noteq> ucast (matchAll info) \<and> c \<noteq> ucast (matchOne info))"
  using assms
proof (induction info zP zS rule: skip_wild.induct)
  case (1 info zP zS)
  obtain c z1 where c: "READ_UTF8 zP = (c, z1)" by fastforce
  obtain d s1 where d: "READ_UTF8 zS = (d, s1)" by fastforce
  note cs = stream_read [OF "1.prems"(2) c] and ds = stream_read [OF "1.prems"(3) d]
  consider "c = 0 \<or> \<not> (c = ucast (matchAll info) \<or> c = ucast (matchOne info) \<and> matchOne info \<noteq> 0)"
    | "c \<noteq> 0" "c = ucast (matchOne info)" "d = 0" | "c \<noteq> 0" "c = ucast (matchOne info)" "d \<noteq> 0"
    | "c \<noteq> 0" "c = ucast (matchAll info)" "c \<noteq> ucast (matchOne info)"
    by blast
  then show ?case
  proof cases
    case 1
    then have e: "skip_wild info zP zS = Some (c, z1, zS)" using c by (subst skip_wild.simps) (auto simp: utf8Read_read)
    show ?thesis unfolding e using 1 cs "1.prems"(3) by auto
  next
    case 2
    then have e: "skip_wild info zP zS = None"
      using c d by (subst skip_wild.simps) (auto simp: utf8Read_read sqlite3Utf8Read_def)
    have "chars zS = []" using ds 2(3) by (simp add: stream_def)
    moreover have "chars zP = ucast (matchOne info) # chars z1" using cs 2 by (simp add: stream_def)
    ultimately show ?thesis unfolding e using spec_one [OF "1.prems"(1)] 2 by simp
  next
    case 3
    have e: "skip_wild info zP zS = skip_wild info z1 s1"
      using c d 3 by (subst skip_wild.simps) (auto simp: utf8Read_read sqlite3Utf8Read_def)
    have "chars zS = d # chars s1" "chars zP = ucast (matchOne info) # chars z1"
      using cs ds 3 by (simp_all add: stream_def)
    moreover have "pattern_spec info mo (ucast (matchOne info) # chars z1) =
        (\<lambda>t. t \<noteq> [] \<and> pattern_spec info mo (chars z1) (tl t))"
      using 3 by (intro ext spec_one [OF "1.prems"(1)]) auto
    ultimately have q: "somewhere (pattern_spec info mo (chars zP)) (chars zS) \<longleftrightarrow>
        somewhere (pattern_spec info mo (chars z1)) (chars s1)"
      by (simp only: somewhere_tl) simp
    show ?thesis unfolding e q
      using "1.IH"(1) [of c z1 d s1] 3 c d cs ds "1.prems"(1) by (simp add: utf8Read_read sqlite3Utf8Read_def)
  next
    case 4
    have e: "skip_wild info zP zS = skip_wild info z1 zS"
      using c 4 by (subst skip_wild.simps) (auto simp: utf8Read_read)
    have "chars zP = ucast (matchAll info) # chars z1" using cs 4 by (simp add: stream_def)
    then have q: "somewhere (pattern_spec info mo (chars zP)) (chars zS) \<longleftrightarrow>
        somewhere (pattern_spec info mo (chars z1)) (chars zS)"
      by (simp only: spec_all [abs_def] somewhere_somewhere)
    show ?thesis unfolding e q
      using "1.IH"(2) [of c z1] 4 c cs "1.prems"(1,3) by (simp add: utf8Read_read)
  qed
qed

section \<open>Single characters\<close>

lemma toupper_table: "map (\<lambda>n. unat (sqlite3Toupper (of_nat n))) [0..<128] =
    map (\<lambda>n. if 97 \<le> n \<and> n \<le> 122 then n - 32 else n) [0..<128]"
  by code_simp

lemma unat_toupper: "(c :: u8) < 0x80 \<Longrightarrow> unat (sqlite3Toupper c) = (if 97 \<le> unat c \<and> unat c \<le> 122 then unat c - 32 else unat c)"
  using arg_cong [OF toupper_table, of "\<lambda>xs. xs ! unat c"] by (simp add: word_less_nat_alt del: upt_rec_numeral)

lemma case_pair:
  assumes "(c :: u8) < 0x80"
  shows "d < 0x80 \<and> UpperToLower c = UpperToLower d \<longleftrightarrow> d = sqlite3Toupper c \<or> d = UpperToLower c"
  using assms unat_toupper [OF assms]
  by (auto simp: word_less_nat_alt word_unat_eq_iff unat_UpperToLower split: if_splits)

lemma zStop_ascii: "c < 0x80 \<Longrightarrow> b \<in> set (zStop info c) \<Longrightarrow> b < 0x80"
  using case_pair [OF ucast_less', of c b] by (auto simp: zStop_def ucast_less' split: if_splits)

lemma zStop_same:
  assumes "c < 0x80"
  shows "(\<exists>b \<in> set (zStop info c). d = ucast b) \<longleftrightarrow> same_char info c d"
proof (cases "d < 0x80")
  case True
  have e: "d = ucast b \<longleftrightarrow> ucast d = b" for b :: u8 using ucast_u8_u32 [OF True] by (metis ucast_u32_u8)
  show ?thesis
  proof (cases "noCase info = 0")
    case True
    then show ?thesis using ucast_u8_u32 [OF assms] by (auto simp: zStop_def same_char_def)
  next
    case False
    then have "(\<exists>b \<in> set (zStop info c). d = ucast b) \<longleftrightarrow> UpperToLower (ucast c) = UpperToLower (ucast d)"
      using case_pair [OF ucast_less' [OF assms], of "ucast d"] ucast_less' [OF True]
      unfolding zStop_def e by simp
    then show ?thesis using False True assms unfolding same_char_def by blast
  qed
next
  case False
  then show ?thesis using zStop_ascii [OF assms] assms by (auto simp: same_char_def ucast_less)
qed

lemma char_matches_same:
  assumes "c \<noteq> 0" "d \<noteq> 0"
  shows "char_matches info esc c d \<longleftrightarrow> same_char info c d \<or> c = ucast (matchOne info) \<and> \<not> esc"
  using assms by (auto simp: char_matches_def same_char_def)

lemma char_matches_end:
  assumes "c \<noteq> 0"
  shows "\<not> char_matches info esc c 0"
proof -
  have "UpperToLower (ucast c) \<noteq> 0" if "c < 0x80"
    using assms ucast_u8_u32 [OF that] by (auto simp: UpperToLower_zero)
  then show ?thesis using assms by (auto simp: char_matches_def)
qed

lemma dropWhile_mono: "(\<And>x. Q x \<Longrightarrow> P x) \<Longrightarrow> dropWhile P (dropWhile Q xs) = dropWhile P xs"
  by (induction xs) auto

lemma continuation_large: "b AND 0xc0 = (0x80 :: u8) \<Longrightarrow> \<not> b < 0x80"
  by (auto simp: u8_lt_80 u8_eq_bits bitblast bit_simps)

lemma chars_dropWhile:
  assumes "\<forall>b \<in> set stop. b < 0x80"
  shows "chars (dropWhile (\<lambda>b. b \<notin> set stop) z) = dropWhile (\<lambda>d. d \<notin> ucast ` set stop) (chars z)"
proof (induction z rule: length_induct)
  case (1 z)
  show ?case
  proof (cases z)
    case (Cons b z')
    note ch = chars_read [of z, unfolded Cons, simplified]
    show ?thesis
    proof (cases "b < 0x80")
      case True
      then have r: "READ_UTF8 (b # z') = (ucast b, z')" by (rule read_ascii)
      have "ucast b \<in> (ucast ` set stop :: u32 set) \<longleftrightarrow> b \<in> set stop" by auto
      then show ?thesis using 1 Cons r ch by simp
    next
      case False
      have "fst (READ_UTF8 (b # z')) \<notin> ucast ` set stop"
        using read_small [of b z'] False assms by (auto simp: ucast_less)
      moreover have "dropWhile (\<lambda>b. b \<notin> set stop) z' = dropWhile (\<lambda>b. b \<notin> set stop) (snd (READ_UTF8 (b # z')))"
        unfolding skip_is_read [symmetric] using assms continuation_large
        by (auto intro!: dropWhile_mono [symmetric])
      moreover have "chars (dropWhile (\<lambda>b. b \<notin> set stop) (snd (READ_UTF8 (b # z')))) =
          dropWhile (\<lambda>d. d \<notin> ucast ` set stop) (chars (snd (READ_UTF8 (b # z'))))"
        using 1 read_shorter(2) [of z] Cons by simp
      ultimately show ?thesis using Cons ch False assms by auto
    qed
  qed simp
qed

section \<open>The results of \<open>patternCompare\<close>\<close>

definition compare_ok :: "(u32 list \<Rightarrow> bool) \<Rightarrow> u32 list \<Rightarrow> int \<Rightarrow> bool" where
  "compare_ok Q s r \<longleftrightarrow> (r = 0 \<or> r = 1 \<or> r = 2) \<and> (r = 0 \<longleftrightarrow> Q s) \<and> (r = 2 \<longrightarrow> \<not> somewhere Q s)"

definition search_ok :: "(u32 list \<Rightarrow> bool) \<Rightarrow> u32 list \<Rightarrow> int \<Rightarrow> bool" where
  "search_ok Q s r \<longleftrightarrow> (r = 0 \<or> r = 2) \<and> (r = 0 \<longleftrightarrow> later Q s)"

lemma later_somewhere: "later Q s \<Longrightarrow> somewhere Q s"
  by (induction s) auto

lemma somewhere_mono: "(\<And>t. P t \<Longrightarrow> Q t) \<Longrightarrow> somewhere P s \<Longrightarrow> somewhere Q s"
  by (auto simp: somewhere_def)

lemma search_here:
  assumes "compare_ok Q (x # s) r" "search_ok Q s r'"
  shows "search_ok Q (x # s) (if r \<noteq> 1 then r else r')"
  using assms later_somewhere [of Q s] by (auto simp: compare_ok_def search_ok_def)

lemma search_next:
  assumes "compare_ok Q s r" "search_ok (\<lambda>t. A (hd t) \<and> Q (tl t)) s r'" "A x"
  shows "search_ok (\<lambda>t. A (hd t) \<and> Q (tl t)) (x # s) (if r \<noteq> 1 then r else r')"
proof -
  have "somewhere (\<lambda>t. t \<noteq> [] \<and> Q (tl t)) s" if "later (\<lambda>t. A (hd t) \<and> Q (tl t)) s"
    using that by (auto simp: later_def somewhere_def intro: less_imp_le)
  then have "\<not> somewhere Q s \<Longrightarrow> \<not> later (\<lambda>t. A (hd t) \<and> Q (tl t)) s"
    unfolding somewhere_tl by (cases s) auto
  then show ?thesis using assms by (auto simp: compare_ok_def search_ok_def)
qed

lemma compare_star:
  assumes "search_ok Q s' r" "later Q s' \<longleftrightarrow> somewhere P s"
  shows "compare_ok (somewhere P) s r"
  using assms by (auto simp: search_ok_def compare_ok_def)

lemma compare_step:
  assumes "compare_ok Q s r" "P (x # s) \<longleftrightarrow> Q s" "\<And>t. P t \<Longrightarrow> t \<noteq> [] \<and> Q (tl t)"
  shows "compare_ok P (x # s) r"
proof -
  have "somewhere P (x # s) \<Longrightarrow> somewhere Q s"
    using somewhere_tl [of Q "x # s"] somewhere_mono [of P "\<lambda>t. t \<noteq> [] \<and> Q (tl t)" "x # s"] assms(3) by auto
  then show ?thesis using assms(1,2) unfolding compare_ok_def by blast
qed

lemma compare_no: "\<not> P s \<Longrightarrow> compare_ok P s 1"
  by (simp add: compare_ok_def)

lemma spec_set:
  assumes "info_ok info mo" "matchSet info \<noteq> 0"
  shows "pattern_spec info mo (mo # p) s \<longleftrightarrow>
    (case parse_set p of None \<Rightarrow> False
     | Some (invert, rs, rest) \<Rightarrow> s \<noteq> [] \<and> in_set invert rs (hd s) \<and> pattern_spec info mo rest (tl s))"
  using assms by (auto simp: info_ok_def)

lemma spec_char:
  assumes "info_ok info mo" "c \<noteq> 0" "c \<noteq> ucast (matchAll info)" "c \<noteq> mo"
  shows "pattern_spec info mo (c # p) s \<longleftrightarrow>
    s \<noteq> [] \<and> (c = ucast (matchOne info) \<or> same_char info c (hd s)) \<and> pattern_spec info mo p (tl s)"
  using assms by simp

lemma spec_escape:
  assumes "info_ok info mo" "mo \<noteq> 0" "matchSet info = 0"
  shows "pattern_spec info mo (mo # c # p) s \<longleftrightarrow> s \<noteq> [] \<and> same_char info c (hd s) \<and> pattern_spec info mo p (tl s)"
    "\<not> pattern_spec info mo [mo] s"
  using assms by (auto simp: info_ok_def)

declare pattern_spec.simps(2) [simp del]

definition compares :: "compareInfo \<Rightarrow> u32 \<Rightarrow> cstr \<Rightarrow> cstr \<Rightarrow> bool" where
  "compares info mo zP zS \<longleftrightarrow>
     compare_ok (pattern_spec info mo (chars zP)) (chars zS) (patternCompare zP zS info mo)"

text \<open>One lemma for each loop, from what the calls it makes return.\<close>

lemma star_set_ok:
  assumes "cstring zS" "\<And>s. cstring s \<Longrightarrow> length s \<le> length zS \<Longrightarrow> compares info mo zP s"
  shows "search_ok (pattern_spec info mo (chars zP)) (chars zS) (star_set zP zS info mo)"
  using assms
proof (induction zS rule: length_induct)
  case (1 s)
  show ?case
  proof (cases "s = []")
    case True
    then show ?thesis by (subst star_set.simps) (simp add: search_ok_def zat_def)
  next
    case False
    have s: "chars s = fst (READ_UTF8 s) # chars (snd (READ_UTF8 s))" using False by (rule chars_read)
    have "search_ok (pattern_spec info mo (chars zP)) (chars (snd (READ_UTF8 s))) (star_set zP (snd (READ_UTF8 s)) info mo)"
      using 1 read_shorter(2) [OF False] by (auto intro: order_trans)
    with "1.prems"(2) [of s] "1.prems"(1) show ?thesis
      using False zat_hd(1) [of s] unfolding compares_def
      by (subst star_set.simps) (simp add: s search_here Let_def skip_is_read)
  qed
qed

lemma star_char_ok:
  assumes "cstring zS" "\<And>s. cstring s \<Longrightarrow> length s \<le> length zS \<Longrightarrow> compares info mo zP s"
  shows "search_ok (\<lambda>t. hd t = c \<and> pattern_spec info mo (chars zP) (tl t)) (chars zS) (star_char c zP zS info mo)"
  using assms
proof (induction zS rule: length_induct)
  case (1 s)
  show ?case
  proof (cases "s = []")
    case True
    then show ?thesis by (subst star_char.simps) (simp add: search_ok_def utf8Read_read)
  next
    case False
    obtain d s' where d: "READ_UTF8 s = (d, s')" by fastforce
    have s: "chars s = d # chars s'" "d \<noteq> 0" "cstring s'" "length s' < length s"
      using chars_read [OF False] read_zero [of s] read_shorter(2) [OF False] cstring_read [of s] "1.prems"(1) False d by auto
    have ih: "search_ok (\<lambda>t. hd t = c \<and> pattern_spec info mo (chars zP) (tl t)) (chars s') (star_char c zP s' info mo)"
      using 1 s by (auto intro: order_trans)
    have "compares info mo zP s'" using "1.prems"(2) s by simp
    then have "search_ok (\<lambda>t. hd t = c \<and> pattern_spec info mo (chars zP) (tl t)) (d # chars s')
        (if patternCompare zP s' info mo \<noteq> 1 then patternCompare zP s' info mo else star_char c zP s' info mo)"
      if "d = c"
      using search_next [where A = "\<lambda>d. d = c"] ih that unfolding compares_def by blast
    moreover have "search_ok (\<lambda>t. hd t = c \<and> pattern_spec info mo (chars zP) (tl t)) (d # chars s')
        (star_char c zP s' info mo)" if "d \<noteq> c"
      using ih that by (auto simp: search_ok_def)
    ultimately show ?thesis using s(1,2) d by (subst star_char.simps) (simp add: utf8Read_read Let_def)
  qed
qed

lemma star_ascii_ok:
  assumes "cstring zS" "\<And>s. cstring s \<Longrightarrow> length s \<le> length zS \<Longrightarrow> compares info mo zP s"
    and "\<forall>b \<in> set stop. b < 0x80"
  shows "search_ok (\<lambda>t. hd t \<in> ucast ` set stop \<and> pattern_spec info mo (chars zP) (tl t)) (chars zS)
    (star_ascii stop zP zS info mo)"
  using assms(1,2)
proof (induction zS rule: length_induct)
  case (1 s)
  define Q where "Q = (\<lambda>t. hd t \<in> ucast ` set stop \<and> pattern_spec info mo (chars zP) (tl t))"
  have l: "later Q (chars s) \<longleftrightarrow> later Q (chars (dropWhile (\<lambda>b. b \<notin> set stop) s))"
    unfolding chars_dropWhile [OF assms(3)] by (rule later_dropWhile [symmetric]) (simp add: Q_def)
  show ?case
  proof (cases "dropWhile (\<lambda>b. b \<notin> set stop) s")
    case Nil
    have "star_ascii stop zP s info mo = 2" by (subst star_ascii.simps) (simp only: Nil list.case)
    moreover have "\<not> later Q (chars s)" unfolding l Nil by simp
    ultimately show ?thesis unfolding Q_def [symmetric] search_ok_def by simp
  next
    case (Cons b s')
    have b: "b \<in> set stop" "length s' < length s" "cstring s'"
      using hd_dropWhile [of "\<lambda>b. b \<notin> set stop" s] dropWhile_shorter [OF Cons] "1.prems"(1) Cons set_dropWhileD [of _ "\<lambda>b. b \<notin> set stop" s]
      by (auto simp: cstring_def)
    then have ch: "chars (dropWhile (\<lambda>b. b \<notin> set stop) s) = ucast b # chars s'"
      using Cons assms(3) read_ascii [of b s'] chars_read [of "b # s'"] by simp
    have ih: "search_ok Q (chars s') (star_ascii stop zP s' info mo)"
      using 1 b unfolding Q_def by (auto intro: order_trans)
    have "compares info mo zP s'" using "1.prems"(2) b by simp
    with ih have "search_ok Q (ucast b # chars s') (star_ascii stop zP s info mo)"
      using b Cons search_next [where A = "\<lambda>d. d \<in> ucast ` set stop", of "pattern_spec info mo (chars zP)" "chars s'"]
      unfolding compares_def Q_def by (subst star_ascii.simps) (simp add: Let_def)
    then show ?thesis using l unfolding ch Q_def [symmetric] search_ok_def by auto
  qed
qed

section \<open>Equivalence with the reference definition\<close>

text \<open>The loop after \<open>matchAll\<close> looks for a literal character.\<close>

lemma literal_search:
  assumes "cstring zS" "\<And>s. cstring s \<Longrightarrow> compares info mo zP s" "c \<noteq> 0"
  shows "search_ok (\<lambda>t. same_char info c (hd t) \<and> pattern_spec info mo (chars zP) (tl t)) (chars zS)
    (if c < 0x80 then star_ascii (zStop info c) zP zS info mo else star_char c zP zS info mo)"
proof (cases "c < 0x80")
  case True
  have "d \<in> ucast ` set (zStop info c) \<longleftrightarrow> same_char info c d" for d using zStop_same [OF True] by blast
  then show ?thesis
    using True star_ascii_ok [OF assms(1,2), of "zStop info c"] zStop_ascii [OF True] by auto
next
  case False
  then have "d = c \<longleftrightarrow> same_char info c d" for d by (auto simp: same_char_def)
  then show ?thesis using False star_char_ok [OF assms(1,2), of c] by simp
qed

lemma somewhere_literal:
  assumes "\<And>t. pattern_spec info mo P t \<longleftrightarrow> t \<noteq> [] \<and> same_char info c (hd t) \<and> pattern_spec info mo p (tl t)"
  shows "later (\<lambda>t. same_char info c (hd t) \<and> pattern_spec info mo p (tl t)) s \<longleftrightarrow> somewhere (pattern_spec info mo P) s"
  by (induction s) (simp_all add: assms)

lemma star_ok:
  assumes ok: "info_ok info mo" and z: "cstring zP" "cstring zS"
    and ih: "\<And>p s. length p \<le> length zP \<Longrightarrow> cstring p \<Longrightarrow> cstring s \<Longrightarrow> compares info mo p s"
    and e: "READ_UTF8 zP' = (ucast (matchAll info), zP)" "matchAll info \<noteq> 0"
  shows "compare_ok (somewhere (pattern_spec info mo (chars zP))) (chars zS) (patternCompare zP' zS info mo)"
proof -
  note sk = skip_wild_spec [OF ok z]
  show ?thesis
  proof (cases "skip_wild info zP zS")
    case None
    then have "patternCompare zP' zS info mo = 2"
      using e by (subst patternCompare.simps) (simp add: utf8Read_read)
    then show ?thesis using sk None by (simp add: compare_ok_def)
  next
    case (Some r)
    obtain c p s where r: "skip_wild info zP zS = Some (c, p, s)" using Some by (cases r) auto
    have ps: "cstring p" "cstring s"
        "somewhere (pattern_spec info mo (stream c p)) (chars s) \<longleftrightarrow> somewhere (pattern_spec info mo (chars zP)) (chars zS)"
        "c \<noteq> 0 \<Longrightarrow> c \<noteq> ucast (matchAll info) \<and> c \<noteq> ucast (matchOne info)"
      using sk unfolding r by simp_all
    obtain c' p' where c': "READ_UTF8 p = (c', p')" by fastforce
    note cp = stream_read [OF ps(1) c']
    have l: "c \<noteq> 0 \<Longrightarrow> length p < length zP" using skip_wild_length [OF r] .
    consider (e) "c = 0" | (set) "c \<noteq> 0" "c = mo" "matchSet info \<noteq> 0"
      | (esc) "c \<noteq> 0" "c = mo" "matchSet info = 0" | (char) "c \<noteq> 0" "c \<noteq> mo" by blast
    then show ?thesis
    proof cases
      case e': e
      have "patternCompare zP' zS info mo = 0"
        using e r e' by (subst patternCompare.simps) (simp add: utf8Read_read)
      moreover have "somewhere (pattern_spec info mo []) (chars s)" by (auto simp: somewhere_def)
      ultimately show ?thesis using ps(3) e' by (simp add: compare_ok_def stream_def)
    next
      case set
      define q where "q = ucast mo # p"
      have mo: "mo = ucast (matchSet info)" "matchSet info < 0x80" using ok set(3) by (auto simp: info_ok_def)
      have q: "chars q = mo # chars p" "cstring q" "length q \<le> length zP"
        using chars_read [of q] read_ascii [OF mo(2), of p] ps(1) l set(1,3) mo by (auto simp: q_def cstring_def)
      have "patternCompare zP' zS info mo = star_set q s info mo"
        using e r set by (subst patternCompare.simps) (simp add: utf8Read_read q_def)
      moreover have "search_ok (pattern_spec info mo (chars q)) (chars s) (star_set q s info mo)"
        using star_set_ok [OF ps(2), of info mo q] ih q(2,3) by blast
      moreover have "\<not> pattern_spec info mo (chars q) []"
        unfolding q(1) by (auto simp: spec_set [OF ok set(3)] split: option.splits)
      moreover have "stream c p = chars q" using q(1) set by (simp add: stream_def)
      ultimately show ?thesis
        using somewhere_later [of "pattern_spec info mo (chars q)" "chars s"] ps(3)
        by (intro compare_star [where Q = "pattern_spec info mo (chars q)" and s' = "chars s"]) simp_all
    next
      case esc
      have pc: "patternCompare zP' zS info mo =
          (if c' = 0 then 2 else if c' < 0x80 then star_ascii (zStop info c') p' s info mo else star_char c' p' s info mo)"
        using e r esc c' by (subst patternCompare.simps) (simp add: utf8Read_read sqlite3Utf8Read_def)
      show ?thesis
      proof (cases "c' = 0")
        case True
        then have "chars p = []" using cp by (simp add: stream_def)
        then have "\<not> somewhere (pattern_spec info mo (stream c p)) (chars s)"
          using spec_escape(2) [OF ok] esc by (simp add: stream_def somewhere_def)
        then show ?thesis unfolding pc using True ps(3) by (simp add: compare_ok_def)
      next
        case False
        have st: "stream c p = mo # c' # chars p'" using cp False esc by (simp add: stream_def)
        have "length p' \<le> length zP" using l esc(1) read_nonempty [OF c' False] by simp
        then have "search_ok (\<lambda>t. same_char info c' (hd t) \<and> pattern_spec info mo (chars p') (tl t)) (chars s) (patternCompare zP' zS info mo)"
          using literal_search [OF ps(2), of info mo p' c'] ih cp False by (simp add: pc)
        moreover have "later (\<lambda>t. same_char info c' (hd t) \<and> pattern_spec info mo (chars p') (tl t)) (chars s) \<longleftrightarrow>
            somewhere (pattern_spec info mo (stream c p)) (chars s)"
          unfolding st using spec_escape(1) [OF ok] esc by (intro somewhere_literal) simp
        ultimately show ?thesis using ps(3) by (intro compare_star) simp_all
      qed
    next
      case char
      have pc: "patternCompare zP' zS info mo =
          (if c < 0x80 then star_ascii (zStop info c) p s info mo else star_char c p s info mo)"
        using e r char by (subst patternCompare.simps) (simp add: utf8Read_read)
      have st: "stream c p = c # chars p" using char by (simp add: stream_def)
      have "search_ok (\<lambda>t. same_char info c (hd t) \<and> pattern_spec info mo (chars p) (tl t)) (chars s) (patternCompare zP' zS info mo)"
        unfolding pc using l char(1) by (intro literal_search [OF ps(2)] ih ps(1)) simp_all
      moreover have "later (\<lambda>t. same_char info c (hd t) \<and> pattern_spec info mo (chars p) (tl t)) (chars s) \<longleftrightarrow>
          somewhere (pattern_spec info mo (stream c p)) (chars s)"
        unfolding st using spec_char [OF ok char(1) _ char(2)] ps(4) [OF char(1)] by (intro somewhere_literal) simp
      ultimately show ?thesis using ps(3) by (intro compare_star) simp_all
    qed
  qed
qed

text \<open>A character of the pattern that is compared with the next one of the string.\<close>

lemma char_ok:
  assumes "READ_UTF8 zS = (d, s)" "cstring zS" "c \<noteq> 0" "compares info mo p s"
    and "\<And>t. pattern_spec info mo P t \<longleftrightarrow>
      t \<noteq> [] \<and> (c = ucast (matchOne info) \<and> \<not> esc \<or> same_char info c (hd t)) \<and> pattern_spec info mo (chars p) (tl t)"
  shows "compare_ok (pattern_spec info mo P) (chars zS)
    (if char_matches info esc c d then patternCompare p s info mo else 1)"
proof (cases "d = 0")
  case True
  then have "chars zS = []" using stream_read [OF assms(2,1)] by (simp add: stream_def)
  then show ?thesis using char_matches_end [OF assms(3)] True assms(5) by (simp add: compare_no)
next
  case False
  then have s: "chars zS = d # chars s" using stream_read [OF assms(2,1)] by (simp add: stream_def)
  show ?thesis
  proof (cases "char_matches info esc c d")
    case True
    then have "compare_ok (pattern_spec info mo P) (d # chars s) (patternCompare p s info mo)"
      using char_matches_same [OF assms(3) False]
      by (intro compare_step [OF assms(4) [unfolded compares_def]]) (auto simp: assms(5))
    with True s show ?thesis by simp
  qed (use s in \<open>auto simp: char_matches_same [OF assms(3) False] assms(5) intro: compare_no\<close>)
qed

lemma patternCompare_ok:
  assumes "info_ok info mo"
  shows "cstring zP \<Longrightarrow> cstring zS \<Longrightarrow> compares info mo zP zS"
proof (induction zP arbitrary: zS rule: length_induct)
  case (1 zP)
  then have ih: "compares info mo p s" if "length p < length zP" "cstring p" "cstring s" for p s
    using that by blast
  obtain c z where c: "READ_UTF8 zP = (c, z)" by fastforce
  obtain d s where d: "READ_UTF8 zS = (d, s)" by fastforce
  note cz = stream_read [OF "1.prems"(1) c] and ds = stream_read [OF "1.prems"(2) d]
  have l: "c \<noteq> 0 \<Longrightarrow> length z < length zP" using read_nonempty [OF c] .
  consider (e) "c = 0" | (all) "c \<noteq> 0" "c = ucast (matchAll info)"
    | (set) "c \<noteq> 0" "c \<noteq> ucast (matchAll info)" "c = mo" "matchSet info \<noteq> 0"
    | (esc) "c \<noteq> 0" "c \<noteq> ucast (matchAll info)" "c = mo" "matchSet info = 0"
    | (char) "c \<noteq> 0" "c \<noteq> ucast (matchAll info)" "c \<noteq> mo" by blast
  then show ?case
  proof cases
    case e
    then have "chars zP = []" using cz by (simp add: stream_def)
    moreover from this have "zP = []" by simp
    moreover have "patternCompare zP zS info mo = (if zS = [] then 0 else 1)"
      using zat_hd(1) [OF "1.prems"(2)] \<open>zP = []\<close> by (subst patternCompare.simps) (simp add: utf8Read_read)
    ultimately show ?thesis unfolding compares_def compare_ok_def by simp
  next
    case all
    then have "chars zP = ucast (matchAll info) # chars z" using cz by (simp add: stream_def)
    then show ?thesis
      using star_ok [OF assms _ "1.prems"(2), of z zP] ih all c cz l unfolding compares_def
      by (simp add: spec_all [abs_def])
  next
    case set
    then have p: "chars zP = mo # chars z" using cz by (simp add: stream_def)
    show ?thesis
    proof (cases "d = 0")
      case True
      then have "chars zS = []" using ds by (simp add: stream_def)
      moreover have "patternCompare zP zS info mo = 1"
        using set c d True by (subst patternCompare.simps) (simp add: utf8Read_read sqlite3Utf8Read_def)
      ultimately show ?thesis
        unfolding compares_def p by (auto intro!: compare_no simp: spec_set [OF assms set(4)] split: option.splits)
    next
      case False
      then have s: "chars zS = d # chars s" using ds by (simp add: stream_def)
      have pc: "patternCompare zP zS info mo =
          (case match_set d z of None \<Rightarrow> 1 | Some z' \<Rightarrow> patternCompare z' s info mo)"
        using set c d False by (subst patternCompare.simps) (simp add: utf8Read_read sqlite3Utf8Read_def)
      note m = match_set_spec [of z d] and sp = spec_set [OF assms set(4), of "chars z"]
      show ?thesis
      proof (cases "match_set d z")
        case None
        then have "\<not> pattern_spec info mo (chars zP) (chars zS)"
          using m cz unfolding p s sp by (auto split: option.splits if_splits)
        then show ?thesis unfolding compares_def pc None by (auto intro: compare_no)
      next
        case (Some z')
        then obtain invert rs rest where r: "parse_set (chars z) = Some (invert, rs, rest)" "in_set invert rs d"
            "cstring z'" "chars z' = rest"
          using m cz by (auto split: option.splits if_splits)
        have "compares info mo z' s" using match_set_length [OF Some] l set r ds by (intro ih) auto
        then show ?thesis
          unfolding compares_def pc Some option.case p s
          by (rule compare_step) (use sp r in \<open>simp_all add: r\<close>)
      qed
    qed
  next
    case esc
    obtain c' z' where c': "READ_UTF8 z = (c', z')" by fastforce
    note cz' = stream_read [OF cz [THEN conjunct2] c']
    have p: "chars zP = mo # stream c' z'" using cz cz' esc by (simp add: stream_def)
    show ?thesis
    proof (cases "c' = 0")
      case True
      then have "patternCompare zP zS info mo = 1"
        using esc c c' by (subst patternCompare.simps) (simp add: utf8Read_read sqlite3Utf8Read_def)
      then show ?thesis
        using spec_escape(2) [OF assms, of "chars zS"] esc True unfolding compares_def p
        by (auto intro!: compare_no simp: stream_def)
    next
      case False
      have pc: "patternCompare zP zS info mo = (if char_matches info True c' d then patternCompare z' s info mo else 1)"
        using esc c c' d False by (subst patternCompare.simps) (simp add: utf8Read_read sqlite3Utf8Read_def)
      have "compares info mo z' s" using l esc(1) read_nonempty [OF c' False] cz' ds by (intro ih) auto
      then show ?thesis
        unfolding compares_def [of info mo zP zS] pc p using False spec_escape(1) [OF assms] esc
        by (intro char_ok [OF d "1.prems"(2)]) (auto simp: stream_def)
    qed
  next
    case char
    then have p: "chars zP = c # chars z" using cz by (simp add: stream_def)
    have pc: "patternCompare zP zS info mo = (if char_matches info False c d then patternCompare z s info mo else 1)"
      using char c d by (subst patternCompare.simps) (simp add: utf8Read_read)
    have "compares info mo z s" using l char(1) cz ds by (intro ih) auto
    then show ?thesis
      unfolding compares_def [of info mo zP zS] pc p using char spec_char [OF assms]
      by (intro char_ok [OF d "1.prems"(2)]) auto
  qed
qed

section \<open>The LIKE operator\<close>

text \<open>What the documentation says of \<open>X LIKE P\<close> with or without \<open>ESCAPE E\<close>: the escape character comes
  before the wildcards.\<close>

function like_spec :: "compareInfo \<Rightarrow> u32 option \<Rightarrow> u32 list \<Rightarrow> u32 list \<Rightarrow> bool" where
  "like_spec info esc [] s \<longleftrightarrow> s = []"
| "like_spec info esc (c # p) s \<longleftrightarrow>
     (if esc = Some c then
        p \<noteq> [] \<and> s \<noteq> [] \<and> same_char info (hd p) (hd s) \<and> like_spec info esc (tl p) (tl s)
      else if c = ucast (matchAll info) then \<exists>k \<le> length s. like_spec info esc p (drop k s)
      else s \<noteq> [] \<and> (c = ucast (matchOne info) \<or> same_char info c (hd s)) \<and> like_spec info esc p (tl s))"
  by pat_completeness auto
termination
  by (relation "measure (\<lambda>(info, esc, p, s). length p)") auto

definition like_info :: "compareInfo \<Rightarrow> bool" where
  "like_info info \<longleftrightarrow> matchSet info = 0 \<and> matchAll info \<noteq> 0 \<and> matchOne info \<noteq> 0 \<and> matchOne info \<noteq> matchAll info"

lemma escapeInfo_ok: "like_info info \<Longrightarrow> info_ok (escapeInfo info e) e"
  by (auto simp: like_info_def info_ok_def escapeInfo_def Let_def)

lemma like_info_ok: "like_info info \<Longrightarrow> info_ok info 0"
  by (auto simp: like_info_def info_ok_def)

lemma escapeInfo_simps:
  "matchSet (escapeInfo info e) = matchSet info"
  "same_char (escapeInfo info e) = same_char info"
  "matchAll (escapeInfo info e) = (if e = ucast (matchAll info) then 0 else matchAll info)"
  "like_info info \<Longrightarrow> matchOne (escapeInfo info e) = (if e = ucast (matchOne info) then 0 else matchOne info)"
  by (auto simp: escapeInfo_def Let_def same_char_def fun_eq_iff like_info_def)

lemma escape_spec:
  assumes "like_info info" "e \<noteq> 0"
  shows "0 \<notin> set p \<Longrightarrow> pattern_spec (escapeInfo info e) e p s \<longleftrightarrow> like_spec info (Some e) p s"
proof (induction p arbitrary: s rule: length_induct)
  case (1 p)
  show ?case
  proof (cases p)
    case (Cons c q)
    have ih: "pattern_spec (escapeInfo info e) e r s \<longleftrightarrow> like_spec info (Some e) r s" if "r = q \<or> r = tl q" for r s
      using 1 that Cons by (cases q) auto
    have "c \<noteq> 0" using 1 Cons by auto
    then show ?thesis
      using assms ih [of q] ih [of "tl q" "tl s"]
      by (simp add: Cons pattern_spec.simps(2) escapeInfo_simps) (auto simp: like_info_def)
  qed simp
qed

lemma no_escape_spec:
  assumes "like_info info"
  shows "0 \<notin> set p \<Longrightarrow> pattern_spec info 0 p s \<longleftrightarrow> like_spec info None p s"
  using assms by (induction p arbitrary: s) (auto simp: pattern_spec.simps(2))

lemma chars_nonzero: "cstring z \<Longrightarrow> 0 \<notin> set (chars z)"
proof (induction z rule: length_induct)
  case (1 z)
  then show ?case
    using chars_read [of z] read_zero [of z] read_shorter(2) [of z] cstring_read [of z]
    by (cases "z = []") auto
qed

lemma charLen_chars: "cstring z \<Longrightarrow> sqlite3Utf8CharLen z (- 1) = length (chars z)"
  unfolding sqlite3Utf8CharLen_def
proof (induction z rule: length_induct)
  case (1 z)
  then show ?case
    using chars_read [of z] read_shorter(2) [of z] cstring_read [of z]
    by (subst utf8CharLen_from.simps) (cases z; auto simp: skip_is_read cstring_def Let_def)
qed

text \<open>
  C7: \<open>patternCompare\<close> decides matching as it is defined: \<open>SQLITE_MATCH\<close> exactly if the characters of the
  string can be divided so that every \<open>*\<close> or \<open>%\<close> takes some of them, every \<open>?\<close> or \<open>_\<close> one, every list in
  brackets one that is in it, and every other character itself, up to ASCII case if case is ignored.
  So the cut of the search at \<open>SQLITE_NOWILDCARDMATCH\<close> loses no match, the byte-wise search for an ASCII
  character never stops inside a character, and the recursion always ends.
\<close>

theorem patternCompare_iff_spec:
  assumes "info_ok info matchOther" "cstring zPattern" "cstring zString"
  shows "patternCompare zPattern zString info matchOther = SQLITE_MATCH \<longleftrightarrow>
    pattern_spec info matchOther (chars zPattern) (chars zString)"
  using patternCompare_ok [OF assms] by (simp add: compares_def compare_ok_def)

theorem patternCompare_iff_spec_witness:
  "patternCompare [42, 91, 97, 45, 99, 93, 42, 120] [195, 169, 98, 120, 99, 121, 120] globInfo 91 = 0 \<and>
   pattern_spec globInfo 91 (chars [42, 91, 97, 45, 99, 93, 42, 120]) (chars [195, 169, 98, 120, 99, 121, 120])"
proof -
  have "patternCompare [42, 91, 97, 45, 99, 93, 42, 120] [195, 169, 98, 120, 99, 121, 120] globInfo 91 = 0" by code_simp
  then show ?thesis
    using patternCompare_iff_spec [of globInfo 91 "[42, 91, 97, 45, 99, 93, 42, 120]" "[195, 169, 98, 120, 99, 121, 120]"]
    by (simp add: info_ok_def globInfo_def cstring_def)
qed

text \<open>
  C23: the SQL function behind \<open>X LIKE P ESCAPE E\<close>, on every pattern, string and escape text: 0 if one of the first
  two is a blob, else an error if the pattern is longer than the limit, else an error unless the escape text is a single character, else
  1 or 0 as \<open>X\<close> matches \<open>P\<close> or not, where the character after the escape character stands for itself, also
  if the escape character is itself \<open>%\<close> or \<open>_\<close>.
\<close>

theorem likeFunc_escape:
  assumes "like_info info" "cstring zP" "cstring zX" "cstring zE"
  shows "likeFunc info limit blob0 blob1 nPat (Some zP) (Some zX) (Some (Some zE)) =
    (if blob0 \<or> blob1 then LikeInt 0
     else if limit < nPat then LikeError ''LIKE or GLOB pattern too complex''
     else if length (chars zE) \<noteq> 1 then LikeError ''ESCAPE expression must be a single character''
     else LikeInt (if like_spec info (Some (hd (chars zE))) (chars zP) (chars zX) then 1 else 0))"
proof (cases "length (chars zE) = 1")
  case True
  define e where "e = hd (chars zE)"
  have z: "zE \<noteq> []" using True by auto
  have e: "fst (sqlite3Utf8Read zE) = e" "e \<noteq> 0"
    using chars_read [OF z] read_zero [OF assms(4)] z by (simp_all add: e_def sqlite3Utf8Read_def)
  have "patternCompare zP zX (escapeInfo info e) e = 0 \<longleftrightarrow> like_spec info (Some e) (chars zP) (chars zX)"
    using patternCompare_ok [OF escapeInfo_ok [OF assms(1)] assms(2,3)] escape_spec [OF assms(1) e(2) chars_nonzero [OF assms(2)]]
    by (simp add: compares_def compare_ok_def)
  then show ?thesis
    using True charLen_chars [OF assms(4)] by (simp add: likeFunc_def like_compare_def e e_def [symmetric] Let_def)
next
  case False
  then show ?thesis using charLen_chars [OF assms(4)] by (simp add: likeFunc_def)
qed

theorem likeFunc_escape_witness:
  "likeFunc likeInfoNorm 9 False False 3 (Some [37, 37, 66]) (Some [37, 98]) (Some (Some [37])) = LikeInt 1 \<and>
   like_spec likeInfoNorm (Some 37) [37, 37, 66] [37, 98]"
proof -
  have e: "chars [37] = [37]" "chars [37, 37, 66] = [37, 37, 66]" "chars [37, 98] = [37, 98]" by code_simp+
  have "like_spec likeInfoNorm (Some 37) [37, 37, 66] [37, 98]" by code_simp
  then show ?thesis
    using likeFunc_escape [of likeInfoNorm "[37, 37, 66]" "[37, 98]" "[37]" 9 False False 3]
    by (simp add: like_info_def likeInfoNorm_def cstring_def e)
qed

text \<open>
  The same escape character in \<open>sqlite3_strlike\<close> is not recognized: it still takes \<open>%\<close> for a wildcard, and
  accepts what the operator refuses.
\<close>

lemma strlike_ignores_wildcard_escape:
  "sqlite3_strlike (Some [37, 37]) (Some [97]) 37 = 0 \<and>
   likeFunc likeInfoNorm 9 False False 2 (Some [37, 37]) (Some [97]) (Some (Some [37])) = LikeInt 0"
  by code_simp

end
