(* ===== verification/Sq_Hash.thy ===== *)
theory Sq_Hash
  imports Sq_Ctype "HOL-Library.Monad_Syntax"
begin

text \<open>
  hash.c: the symbol tables of the schema, keyed by names without regard to case.

  All elements are on one doubly linked list; a bucket is a count and a pointer to the first of its
  elements, which stand next to each other on that list.  Elements live in a store from addresses to
  values, with 0 as the null pointer; reading or writing through a pointer to no element makes the
  whole operation \<open>None\<close>, so that a result shows that every access was to a live element.
  Counts are natural numbers: tables of \<open>2 ^ 32 / 3\<close> elements, whose 32-bit counts could wrap, are left out.

  What the allocator returns is an input: the address of the new element (0 on failure) and the
  number of buckets that the new array has room for, which \<open>sqlite3MallocSize\<close> reports (\<open>None\<close> on
  failure).
\<close>

section \<open>Model\<close>

record HashElem =
  next_elem :: nat
  prev_elem :: nat
  data :: nat
  pKey :: cstr
  hkey :: u32

type_synonym bucket = "nat \<times> nat"

record Hash =
  htsize :: nat
  count :: nat
  first :: nat
  ht :: "bucket list option"
  store :: "nat \<rightharpoonup> HashElem"

definition sqlite3HashInit :: Hash where
  "sqlite3HashInit = \<lparr>htsize = 0, count = 0, first = 0, ht = None, store = (\<lambda>_. None)\<rparr>"

definition deref :: "Hash \<Rightarrow> nat \<Rightarrow> HashElem option" where
  "deref pH p = store pH p"

definition assign :: "Hash \<Rightarrow> nat \<Rightarrow> (HashElem \<Rightarrow> HashElem) \<Rightarrow> Hash option" where
  "assign pH p f = do { e \<leftarrow> deref pH p; Some (pH\<lparr>store := (store pH)(p \<mapsto> f e)\<rparr>) }"

definition free :: "Hash \<Rightarrow> nat \<Rightarrow> Hash option" where
  "free pH p = do { e \<leftarrow> deref pH p; Some (pH\<lparr>store := (store pH)(p := None)\<rparr>) }"

text \<open>The loop of \<open>sqlite3HashClear\<close> that frees the elements; its fuel is the number of elements.\<close>

fun free_all :: "nat \<Rightarrow> Hash \<Rightarrow> nat \<Rightarrow> Hash option" where
  "free_all n pH elem =
     (if elem = 0 then Some pH
      else
        case n of
          0 \<Rightarrow> None
        | Suc n \<Rightarrow> do { e \<leftarrow> deref pH elem; pH \<leftarrow> free pH elem; free_all n pH (next_elem e) })"

definition sqlite3HashClear :: "Hash \<Rightarrow> Hash option" where
  "sqlite3HashClear pH =
     (let elem = first pH;
          n = count pH;
          pH = pH\<lparr>first := 0, ht := None, htsize := 0\<rparr>
      in do { pH \<leftarrow> free_all n pH elem; Some (pH\<lparr>count := 0\<rparr>) })"

definition strHash :: "cstr \<Rightarrow> u32" where
  "strHash z = foldl (\<lambda>h c. (h + (0xdf AND ucast c)) * 0x9e3779b1) 0 z"

definition insertElement :: "Hash \<Rightarrow> nat option \<Rightarrow> nat \<Rightarrow> Hash option" where
  "insertElement pH pEntry pNew =
     do {
       (pHead, pH) \<leftarrow>
         (case pEntry of
            None \<Rightarrow> Some (0, pH)
          | Some i \<Rightarrow>
              (case ht pH of
                 None \<Rightarrow> None
               | Some T \<Rightarrow>
                   if i < length T
                   then Some (if fst (T ! i) \<noteq> 0 then snd (T ! i) else 0,
                              pH\<lparr>ht := Some (T[i := (fst (T ! i) + 1, pNew)])\<rparr>)
                   else None));
       if pHead \<noteq> 0 then
         do {
           h \<leftarrow> deref pH pHead;
           pH \<leftarrow> assign pH pNew (\<lambda>e. e\<lparr>next_elem := pHead\<rparr>);
           pH \<leftarrow> assign pH pNew (\<lambda>e. e\<lparr>prev_elem := prev_elem h\<rparr>);
           pH \<leftarrow> (if prev_elem h \<noteq> 0 then assign pH (prev_elem h) (\<lambda>e. e\<lparr>next_elem := pNew\<rparr>)
                 else Some (pH\<lparr>first := pNew\<rparr>));
           assign pH pHead (\<lambda>e. e\<lparr>prev_elem := pNew\<rparr>)
         }
       else
         do {
           pH \<leftarrow> assign pH pNew (\<lambda>e. e\<lparr>next_elem := first pH\<rparr>);
           pH \<leftarrow> (if first pH \<noteq> 0 then assign pH (first pH) (\<lambda>e. e\<lparr>prev_elem := pNew\<rparr>) else Some pH);
           pH \<leftarrow> assign pH pNew (\<lambda>e. e\<lparr>prev_elem := 0\<rparr>);
           Some (pH\<lparr>first := pNew\<rparr>)
         }
     }"

text \<open>\<open>rehash\<close>: the number of buckets asked for is bounded by \<open>SQLITE_MALLOC_SOFT_LIMIT\<close> of 1024 bytes,
  16 for a bucket; the elements are taken from the old list one by one.\<close>

abbreviation (input) SQLITE_MALLOC_SOFT_LIMIT :: nat where "SQLITE_MALLOC_SOFT_LIMIT \<equiv> 1024"

fun rehash_loop :: "nat \<Rightarrow> Hash \<Rightarrow> nat \<Rightarrow> Hash option" where
  "rehash_loop n pH elem =
     (if elem = 0 then Some pH
      else
        case n of
          0 \<Rightarrow> None
        | Suc n \<Rightarrow>
            do {
              e \<leftarrow> deref pH elem;
              pH \<leftarrow> insertElement pH (Some (unat (hkey e) mod htsize pH)) elem;
              rehash_loop n pH (next_elem e)
            })"

definition rehash_size :: "nat \<Rightarrow> nat" where
  "rehash_size new_size = (if new_size * 16 > SQLITE_MALLOC_SOFT_LIMIT then SQLITE_MALLOC_SOFT_LIMIT div 16 else new_size)"

definition rehash :: "(nat \<Rightarrow> nat option) \<Rightarrow> Hash \<Rightarrow> nat \<Rightarrow> (bool \<times> Hash) option" where
  "rehash newHt pH new_size =
     (let new_size = rehash_size new_size in
      if new_size = htsize pH then Some (False, pH)
      else
        case newHt new_size of
          None \<Rightarrow> Some (False, pH)
        | Some n \<Rightarrow>
            do {
              pH' \<leftarrow> rehash_loop (count pH) (pH\<lparr>ht := Some (replicate n (0, 0)), htsize := n, first := 0\<rparr>) (first pH);
              Some (True, pH')
            })"

fun find_loop :: "Hash \<Rightarrow> u32 \<Rightarrow> cstr \<Rightarrow> nat \<Rightarrow> nat \<Rightarrow> nat option" where
  "find_loop pH h key 0 elem = Some 0"
| "find_loop pH h key (Suc n) elem =
     do {
       e \<leftarrow> deref pH elem;
       if h = hkey e \<and> sqlite3StrICmp (pKey e) key = 0 then Some elem
       else find_loop pH h key n (next_elem e)
     }"

text \<open>\<open>findElementWithHash\<close> with the hash of the key; \<open>nullElement\<close> is the address 0.\<close>

definition findElementWithHash :: "Hash \<Rightarrow> cstr \<Rightarrow> (nat \<times> u32) option" where
  "findElementWithHash pH key =
     (let h = strHash key in
      map_option (\<lambda>elem. (elem, h))
        (case ht pH of
           None \<Rightarrow> find_loop pH h key (count pH) (first pH)
         | Some T \<Rightarrow>
             (if unat h mod htsize pH < length T
              then case T ! (unat h mod htsize pH) of (n, chain) \<Rightarrow> find_loop pH h key n chain
              else None)))"

definition removeElement :: "Hash \<Rightarrow> nat \<Rightarrow> Hash option" where
  "removeElement pH elem =
     do {
       e \<leftarrow> deref pH elem;
       pH \<leftarrow> (if prev_elem e \<noteq> 0 then assign pH (prev_elem e) (\<lambda>p. p\<lparr>next_elem := next_elem e\<rparr>)
             else Some (pH\<lparr>first := next_elem e\<rparr>));
       pH \<leftarrow> (if next_elem e \<noteq> 0 then assign pH (next_elem e) (\<lambda>n. n\<lparr>prev_elem := prev_elem e\<rparr>) else Some pH);
       pH \<leftarrow>
         (case ht pH of
            None \<Rightarrow> Some pH
          | Some T \<Rightarrow>
              let i = unat (hkey e) mod htsize pH in
              if i < length T \<and> fst (T ! i) > 0
              then Some (pH\<lparr>ht := Some (T[i := (fst (T ! i) - 1,
                     if snd (T ! i) = elem then next_elem e else snd (T ! i))])\<rparr>)
              else None);
       pH \<leftarrow> free pH elem;
       let pH = pH\<lparr>count := count pH - 1\<rparr> in
       if count pH = 0 then sqlite3HashClear pH else Some pH
     }"

definition data_of :: "Hash \<Rightarrow> nat \<Rightarrow> nat option" where
  "data_of pH elem = (if elem = 0 then Some 0 else map_option data (deref pH elem))"

definition sqlite3HashFind :: "Hash \<Rightarrow> cstr \<Rightarrow> nat option" where
  "sqlite3HashFind pH key = do { (elem, _) \<leftarrow> findElementWithHash pH key; data_of pH elem }"

definition sqlite3HashInsert :: "nat \<Rightarrow> (nat \<Rightarrow> nat option) \<Rightarrow> Hash \<Rightarrow> cstr \<Rightarrow> nat \<Rightarrow> (nat \<times> Hash) option" where
  "sqlite3HashInsert newElem newHt pH key dat =
     do {
       (elem, h) \<leftarrow> findElementWithHash pH key;
       old_data \<leftarrow> data_of pH elem;
       if old_data \<noteq> 0 then
         if dat = 0 then do { pH \<leftarrow> removeElement pH elem; Some (old_data, pH) }
         else do { pH \<leftarrow> assign pH elem (\<lambda>e. e\<lparr>data := dat, pKey := key\<rparr>); Some (old_data, pH) }
       else if dat = 0 then Some (0, pH)
       else if newElem = 0 then Some (dat, pH)
       else
         let pH = pH\<lparr>store := (store pH)(newElem \<mapsto> \<lparr>next_elem = 0, prev_elem = 0, data = dat, pKey = key, hkey = h\<rparr>),
                     count := count pH + 1\<rparr>
         in do {
              pH \<leftarrow> (if count pH \<ge> 5 \<and> count pH > 2 * htsize pH
                    then map_option snd (rehash newHt pH (count pH * 3)) else Some pH);
              pH \<leftarrow> insertElement pH (if ht pH \<noteq> None then Some (unat h mod htsize pH) else None) newElem;
              Some (0, pH)
            }
     }"

section \<open>Lists in the store\<close>

definition hd_or :: "nat list \<Rightarrow> nat \<Rightarrow> nat" where
  "hd_or xs n = (case xs of [] \<Rightarrow> n | x # _ \<Rightarrow> x)"

definition last_or :: "nat \<Rightarrow> nat list \<Rightarrow> nat" where
  "last_or p xs = (if xs = [] then p else last xs)"

lemma hd_or_simps [simp]: "hd_or [] n = n" "hd_or (x # xs) n = x" "hd_or (xs @ x # ys) n = hd_or xs x"
  by (simp_all add: hd_or_def split: list.split)

lemma last_or_simps [simp]: "last_or p [] = p" "last_or p (x # xs) = last_or x xs" "last_or p (xs @ [x]) = x"
  by (simp_all add: last_or_def)

text \<open>\<open>linked m p xs n\<close>: \<open>xs\<close> is a doubly linked segment of the store \<open>m\<close> between \<open>p\<close> and \<open>n\<close>.\<close>

fun linked :: "(nat \<rightharpoonup> HashElem) \<Rightarrow> nat \<Rightarrow> nat list \<Rightarrow> nat \<Rightarrow> bool" where
  "linked m p [] n \<longleftrightarrow> True"
| "linked m p (x # xs) n \<longleftrightarrow>
     (\<exists>e. m x = Some e \<and> prev_elem e = p \<and> next_elem e = hd_or xs n) \<and> linked m x xs n"

lemma linked_append [simp]:
  "linked m p (xs @ ys) n \<longleftrightarrow> linked m p xs (hd_or ys n) \<and> linked m (last_or p xs) ys n"
  by (induction xs arbitrary: p) (auto simp: hd_or_def split: list.splits)

lemma linked_frame: "(\<And>x. x \<in> set xs \<Longrightarrow> m' x = m x) \<Longrightarrow> linked m' p xs n = linked m p xs n"
  by (induction xs arbitrary: p) auto

lemma linked_upd [simp]: "a \<notin> set xs \<Longrightarrow> linked (m(a := v)) p xs n = linked m p xs n"
  by (rule linked_frame) auto

lemma linked_dom: "linked m p xs n \<Longrightarrow> x \<in> set xs \<Longrightarrow> \<exists>e. m x = Some e"
  by (induction xs arbitrary: p) auto

text \<open>Linking \<open>x\<close> between \<open>A\<close> and \<open>B\<close>, and unlinking it.\<close>

lemma linked_last:
  assumes "linked m p xs n" "distinct xs" "xs \<noteq> []" "m (last xs) = Some e"
  shows "linked (m(last xs \<mapsto> e\<lparr>next_elem := n'\<rparr>)) p xs n'"
  using assms
proof (induction xs arbitrary: p)
  case (Cons x xs)
  then show ?case by (cases xs) auto
qed simp

lemma linked_first:
  assumes "linked m p (x # xs) n" "x \<notin> set xs" "m x = Some e"
  shows "linked (m(x \<mapsto> e\<lparr>prev_elem := p'\<rparr>)) p' (x # xs) n"
  using assms by auto

definition relink :: "(nat \<rightharpoonup> HashElem) \<Rightarrow> nat \<Rightarrow> (HashElem \<Rightarrow> HashElem) \<Rightarrow> nat \<rightharpoonup> HashElem" where
  "relink m a f = (if a = 0 then m else m(a := map_option f (m a)))"

definition join :: "(nat \<rightharpoonup> HashElem) \<Rightarrow> nat \<Rightarrow> nat \<Rightarrow> nat \<rightharpoonup> HashElem" where
  "join m a b = relink (relink m a (\<lambda>e. e\<lparr>next_elem := b\<rparr>)) b (\<lambda>e. e\<lparr>prev_elem := a\<rparr>)"

lemma relink_other: "y \<noteq> a \<Longrightarrow> relink m a f y = m y"
  by (simp add: relink_def)

lemma join_other: "y \<noteq> a \<Longrightarrow> y \<noteq> b \<Longrightarrow> join m a b y = m y"
  by (simp add: join_def relink_other)

text \<open>Joining the end of one segment with the start of the next.\<close>

lemma linked_join:
  assumes "linked m p' A n" "linked m p B n'" "distinct (A @ B)" "m 0 = None"
    and "A = [] \<Longrightarrow> p' = 0" "B = [] \<Longrightarrow> n' = 0"
  shows "linked (join m (last_or 0 A) (hd_or B 0)) p' (A @ B) n'"
proof -
  define a where "a = last_or 0 A"
  define b where "b = hd_or B 0"
  define m1 where "m1 = relink m a (\<lambda>e. e\<lparr>next_elem := b\<rparr>)"
  have aA: "A \<noteq> [] \<Longrightarrow> a \<in> set A" and bB: "B \<noteq> [] \<Longrightarrow> b \<in> set B"
    by (auto simp: a_def last_or_def b_def hd_or_def split: list.splits)
  have a0: "a = 0 \<longleftrightarrow> A = []"
    using linked_dom [OF assms(1) aA] assms(4) by (cases "A = []") (auto simp: a_def intro: ccontr)
  have b0: "b = 0 \<longleftrightarrow> B = []"
    using linked_dom [OF assms(2) bB] assms(4) by (cases "B = []") (auto simp: b_def intro: ccontr)
  have A1: "linked m1 p' A b"
  proof (cases "A = []")
    case False
    then obtain e where e: "m (last A) = Some e" using linked_dom [OF assms(1)] last_in_set by blast
    have "linked (m(last A \<mapsto> e\<lparr>next_elem := b\<rparr>)) p' A b"
      using assms(1,3) False e by (intro linked_last) auto
    then show ?thesis using False a0 e by (simp add: m1_def relink_def a_def last_or_def)
  qed simp
  have B1: "linked m1 p B n'"
    using assms(2,3) aA a0 by (subst linked_frame [where m = m]) (auto simp: m1_def relink_def)
  have j: "join m a b = relink m1 b (\<lambda>e. e\<lparr>prev_elem := a\<rparr>)" by (simp add: join_def m1_def)
  have "linked (join m a b) p' A b"
    using A1 assms(3) bB b0 by (subst linked_frame [where m = m1]) (auto simp: j relink_def)
  moreover have "linked (join m a b) a B n'"
  proof (cases B)
    case (Cons y ys)
    then obtain e where "m1 y = Some e" using linked_dom [OF B1, of y] by auto
    moreover from this have "linked (m1(y \<mapsto> e\<lparr>prev_elem := a\<rparr>)) a B n'"
      using linked_first [of m1 p y ys n' e a] B1 assms(3) Cons by simp
    moreover have "b = y" "y \<noteq> 0" using Cons b0 by (auto simp: b_def)
    ultimately show ?thesis unfolding j by (simp add: relink_def)
  qed simp
  moreover have "hd_or B n' = b" using assms(6) by (cases B) (simp_all add: b_def)
  moreover have "last_or p' A = a" using assms(5) by (cases "A = []") (simp_all add: a_def last_or_def)
  ultimately show ?thesis by (simp add: a_def b_def)
qed

section \<open>Buckets\<close>

text \<open>\<open>grouped f xs\<close>: elements with the same value of \<open>f\<close> stand next to each other.\<close>

fun grouped :: "('a \<Rightarrow> 'b) \<Rightarrow> 'a list \<Rightarrow> bool" where
  "grouped f [] \<longleftrightarrow> True"
| "grouped f (x # xs) \<longleftrightarrow> grouped f xs \<and> (f x \<in> f ` set xs \<longrightarrow> f (hd xs) = f x)"

lemma grouped_cong: "(\<And>x. x \<in> set xs \<Longrightarrow> f x = g x) \<Longrightarrow> grouped f xs = grouped g xs"
  by (induction xs) (auto simp: image_iff, (metis hd_in_set empty_iff list.set(1))+)

lemma grouped_insert:
  assumes "grouped f (A @ B)" "B \<noteq> []" "f (hd B) = f x" "f x \<notin> f ` set A"
  shows "grouped f (A @ x # B)"
  using assms(1,4)
proof (induction A)
  case Nil
  then show ?case using assms(2,3) by (simp add: image_iff)
next
  case (Cons a A)
  then show ?case using assms(2,3) by (cases A) (auto simp: image_iff)
qed

lemma grouped_remove: "grouped f (A @ x # B) \<Longrightarrow> grouped f (A @ B)"
proof (induction A)
  case (Cons a A)
  then have g: "grouped f (A @ B)" and a: "f a \<in> f ` set (A @ x # B) \<longrightarrow> f (hd (A @ x # B)) = f a"
    by simp_all
  have "f (hd (A @ B)) = f a" if i: "f a \<in> f ` set (A @ B)"
  proof (cases A)
    case Nil
    then have "f x = f a" using a i by auto
    moreover have "f x \<in> f ` set B \<longrightarrow> f (hd B) = f x" using Cons.prems Nil by simp
    ultimately show ?thesis using i Nil by simp
  qed (use a i in auto)
  with g show ?case by simp
qed simp

lemma grouped_split:
  assumes "grouped f xs"
  shows "\<exists>A C. xs = A @ filter (\<lambda>x. f x = v) xs @ C \<and> v \<notin> f ` set A \<and> v \<notin> f ` set C"
  using assms
proof (induction xs)
  case (Cons x xs)
  then obtain A C where xs: "xs = A @ filter (\<lambda>x. f x = v) xs @ C" "v \<notin> f ` set A" "v \<notin> f ` set C" by auto
  show ?case
  proof (cases "f x = v")
    case False
    then show ?thesis using xs by (intro exI [of _ "x # A"] exI [of _ C]) auto
  next
    case True
    show ?thesis
    proof (cases "v \<in> f ` set xs")
      case False
      then have "filter (\<lambda>x. f x = v) xs = []" by (auto simp: filter_empty_conv)
      then show ?thesis using True False by (intro exI [of _ "[]"] exI [of _ xs]) simp
    next
      case True': True
      then have h: "f (hd xs) = v" using Cons.prems True by auto
      have "A = []"
      proof (rule ccontr)
        assume "A \<noteq> []"
        then have "hd xs = hd A" using xs(1) by (metis hd_append2)
        then show False using h xs(2) \<open>A \<noteq> []\<close> by auto
      qed
      then show ?thesis using True xs by (intro exI [of _ "[]"] exI [of _ C]) simp
    qed
  qed
qed simp

section \<open>The list and the table\<close>

text \<open>The list \<open>es\<close> of a table, and its buckets.\<close>

definition list_inv :: "Hash \<Rightarrow> nat list \<Rightarrow> bool" where
  "list_inv H es \<longleftrightarrow> store H 0 = None \<and> linked (store H) 0 es 0 \<and> distinct es \<and> first H = hd_or es 0"

definition bucket_of :: "Hash \<Rightarrow> nat \<Rightarrow> nat" where
  "bucket_of H x = unat (hkey (the (store H x))) mod htsize H"

definition bucket_ok :: "bucket \<Rightarrow> nat list \<Rightarrow> bool" where
  "bucket_ok b S \<longleftrightarrow> fst b = length S \<and> (S \<noteq> [] \<longrightarrow> snd b = hd S)"

definition table_inv :: "Hash \<Rightarrow> nat list \<Rightarrow> bool" where
  "table_inv H es \<longleftrightarrow>
     (case ht H of
        None \<Rightarrow> True
      | Some T \<Rightarrow> length T = htsize H \<and> 0 < htsize H \<and> grouped (bucket_of H) es \<and>
          (\<forall>i < htsize H. bucket_ok (T ! i) (filter (\<lambda>x. bucket_of H x = i) es)))"

definition info :: "HashElem \<Rightarrow> nat \<times> cstr \<times> u32" where
  "info e = (data e, pKey e, hkey e)"

definition same_info :: "(nat \<rightharpoonup> HashElem) \<Rightarrow> (nat \<rightharpoonup> HashElem) \<Rightarrow> bool" where
  "same_info m m' \<longleftrightarrow> (\<forall>x. map_option info (m x) = map_option info (m' x))"

lemma same_info_refl [simp]: "same_info m m"
  by (simp add: same_info_def)

lemma same_info_trans: "same_info m m' \<Longrightarrow> same_info m' m'' \<Longrightarrow> same_info m m''"
  by (simp add: same_info_def)

lemma same_info_relink: "(\<And>e. info (f e) = info e) \<Longrightarrow> same_info m (relink m a f)"
  by (auto simp: same_info_def relink_def option.map_comp comp_def)

lemma same_info_join [simp]: "same_info m (join m a b)"
  unfolding join_def by (intro same_info_trans [OF same_info_relink same_info_relink]) (auto simp: info_def)

lemma same_info_SomeD:
  assumes "same_info m m'" "m x = Some e"
  shows "\<exists>e'. m' x = Some e' \<and> info e' = info e"
  using assms by (auto simp: same_info_def) (metis map_option_eq_Some)

lemma same_info_None: "same_info m m' \<Longrightarrow> m x = None \<longleftrightarrow> m' x = None"
  by (auto simp: same_info_def) (metis option.map_disc_iff)+

lemma same_info_bucket:
  assumes "same_info (store H) (store H')" "htsize H' = htsize H" "store H x \<noteq> None"
  shows "bucket_of H' x = bucket_of H x"
  using assms same_info_SomeD [of "store H" "store H'" x] by (auto simp: bucket_of_def info_def)

lemma assign_eq: "store H p = Some e \<Longrightarrow> assign H p f = Some (H\<lparr>store := (store H)(p \<mapsto> f e)\<rparr>)"
  by (simp add: assign_def deref_def)

lemma update_order:
  "(e :: HashElem)\<lparr>next_elem := a, prev_elem := b\<rparr> = e\<lparr>prev_elem := b, next_elem := a\<rparr>"
  "(H :: Hash)\<lparr>first := c, store := m\<rparr> = H\<lparr>store := m, first := c\<rparr>"
  "(H :: Hash)\<lparr>store := m, ht := t\<rparr> = H\<lparr>ht := t, store := m\<rparr>"
  by simp_all

text \<open>What the two branches of \<open>insertElement\<close> do to the store: the new element joins \<open>A\<close> and \<open>B\<close>.\<close>

definition insert_between :: "Hash \<Rightarrow> nat list \<Rightarrow> nat \<Rightarrow> nat list \<Rightarrow> Hash" where
  "insert_between H A x B =
     H\<lparr>store := join (join (store H) (last_or 0 A) x) x (hd_or B 0), first := hd_or A x\<rparr>"

lemma link_before:
  assumes "linked (store H) 0 (A @ b # B) 0" "distinct (x # A @ b # B)" "store H 0 = None" "store H x = Some e0"
    and "first H = hd_or A b" "store H b = Some eb"
  shows "do {
      H \<leftarrow> assign H x (\<lambda>e. e\<lparr>next_elem := b\<rparr>);
      H \<leftarrow> assign H x (\<lambda>e. e\<lparr>prev_elem := prev_elem eb\<rparr>);
      H \<leftarrow> (if prev_elem eb \<noteq> 0 then assign H (prev_elem eb) (\<lambda>e. e\<lparr>next_elem := x\<rparr>) else Some (H\<lparr>first := x\<rparr>));
      assign H b (\<lambda>e. e\<lparr>prev_elem := x\<rparr>)
    } = Some (insert_between H A x (b # B))"
proof -
  have p: "prev_elem eb = last_or 0 A" using assms(1,6) by simp
  have nz: "x \<noteq> 0" "b \<noteq> 0" using assms by auto
  show ?thesis
  proof (cases "A = []")
    case True
    then show ?thesis
      using assms(2,4,6) nz p
      by (simp add: assign_eq insert_between_def join_def relink_def fun_upd_twist update_order)
  next
    case False
    then obtain ea where a: "store H (last A) = Some ea"
      using linked_dom [of "store H" 0 A b "last A"] assms(1) by auto
    have ne: "last A \<noteq> x" "last A \<noteq> b" "last A \<noteq> 0" using assms(2,3) False a by (auto dest: last_in_set)
    have f: "hd_or A x = hd_or A b" using False by (cases A) auto
    show ?thesis
      using assms(2,4,5,6) nz p False a ne f
      by (cases H) (simp add: assign_eq insert_between_def join_def relink_def last_or_def fun_upd_twist update_order)
  qed
qed

lemma link_front:
  assumes "linked (store H) 0 es 0" "distinct (x # es)" "store H 0 = None" "store H x = Some e0"
    and "first H = hd_or es 0"
  shows "do {
      H \<leftarrow> assign H x (\<lambda>e. e\<lparr>next_elem := first H\<rparr>);
      H \<leftarrow> (if first H \<noteq> 0 then assign H (first H) (\<lambda>e. e\<lparr>prev_elem := x\<rparr>) else Some H);
      H \<leftarrow> assign H x (\<lambda>e. e\<lparr>prev_elem := 0\<rparr>);
      Some (H\<lparr>first := x\<rparr>)
    } = Some (insert_between H [] x es)"
proof (cases es)
  case Nil
  then show ?thesis
    using assms(3,4,5) by (auto simp: assign_eq insert_between_def join_def relink_def update_order)
next
  case (Cons b B)
  then obtain eb where "store H b = Some eb" using assms(1) by auto
  then show ?thesis
    using assms(2-5) Cons
    by (auto simp: assign_eq insert_between_def join_def relink_def update_order fun_upd_twist)
qed

lemma insert_between_list:
  assumes "list_inv H (A @ B)" "x \<notin> set (A @ B)" "store H x = Some e0"
  shows "list_inv (insert_between H A x B) (A @ x # B)"
proof -
  define m where "m = store H"
  define m1 where "m1 = join m (last_or 0 A) x"
  have i: "m 0 = None" "linked m 0 A (hd_or B 0)" "linked m (last_or 0 A) B 0" "distinct (A @ B)"
    using assms(1) by (auto simp: list_inv_def m_def)
  have "linked m1 0 (A @ [x]) (next_elem e0)"
    unfolding m1_def using linked_join [OF i(2), of "prev_elem e0" "[x]" "next_elem e0"] assms(2,3) i(1,4) m_def by auto
  moreover have "m1 y = m y" if "y \<in> set B" for y
  proof -
    have "last_or 0 A = 0 \<or> last_or 0 A \<in> set A" by (auto simp: last_or_def)
    moreover have "y \<noteq> 0" using linked_dom [OF i(3) that] i(1) by (cases "y = 0") simp_all
    ultimately show ?thesis using that assms(2) i(4) unfolding m1_def by (auto intro!: join_other)
  qed
  then have "linked m1 (last_or 0 A) B 0" using i(3) by (subst linked_frame [of B m1 m]) auto
  moreover have "m1 0 = None" using same_info_None [OF same_info_join, of m 0] i(1) by (simp add: m1_def)
  ultimately have "linked (join m1 x (hd_or B 0)) 0 ((A @ [x]) @ B) 0"
    using linked_join [of m1 0 "A @ [x]" "next_elem e0" "last_or 0 A" B 0] i(4) assms(2) by auto
  moreover have "join m1 x (hd_or B 0) 0 = None"
    using same_info_None [OF same_info_join, of m1 0] \<open>m1 0 = None\<close> by simp
  ultimately show ?thesis
    using i(4) assms(2) unfolding list_inv_def insert_between_def m1_def m_def by simp
qed

lemma insert_between_same:
  "same_info (store H) (store (insert_between H A x B))"
  "\<lbrakk>y \<notin> set (A @ x # B); y \<noteq> 0\<rbrakk> \<Longrightarrow> store (insert_between H A x B) y = store H y"
  "ht (insert_between H A x B) = ht H" "htsize (insert_between H A x B) = htsize H"
  "count (insert_between H A x B) = count H"
proof -
  show "same_info (store H) (store (insert_between H A x B))"
    unfolding insert_between_def using same_info_trans [OF same_info_join same_info_join] by simp
  assume y: "y \<notin> set (A @ x # B)" "y \<noteq> 0"
  have "last_or 0 A = 0 \<or> last_or 0 A \<in> set A" "hd_or B 0 = 0 \<or> hd_or B 0 \<in> set B"
    by (auto simp: last_or_def hd_or_def split: list.split)
  then have "y \<noteq> last_or 0 A" "y \<noteq> hd_or B 0" "y \<noteq> x" using y by auto
  then show "store (insert_between H A x B) y = store H y"
    unfolding insert_between_def by (simp add: join_other)
qed (simp_all add: insert_between_def)

text \<open>The table after an insertion.\<close>

lemma insert_table:
  assumes "ht H = Some T" "table_inv H (A @ B)" "x \<notin> set (A @ B)" "bucket_of H x = i"
    and B: "B \<noteq> [] \<and> bucket_of H (hd B) = i \<and> i \<notin> bucket_of H ` set A \<or> A = [] \<and> i \<notin> bucket_of H ` set B"
    and H': "ht H' = Some (T[i := (fst (T ! i) + 1, x)])" "htsize H' = htsize H"
    and same: "\<And>y. y \<in> set (A @ x # B) \<Longrightarrow> bucket_of H' y = bucket_of H y"
  shows "table_inv H' (A @ x # B)"
proof -
  have t: "length T = htsize H" "0 < htsize H" "grouped (bucket_of H) (A @ B)"
      "\<And>j. j < htsize H \<Longrightarrow> bucket_ok (T ! j) (filter (\<lambda>x. bucket_of H x = j) (A @ B))"
    using assms(1,2) by (auto simp: table_inv_def)
  have i: "i < htsize H" using assms(4) t(2) by (auto simp: bucket_of_def)
  have "grouped (bucket_of H) (A @ x # B)"
    using B grouped_insert [OF t(3), of x] t(3) assms(4) by auto
  then have g: "grouped (bucket_of H') (A @ x # B)" using grouped_cong [of "A @ x # B" "bucket_of H'" "bucket_of H"] same by blast
  have f: "filter (\<lambda>y. bucket_of H' y = j) (A @ x # B) = filter (\<lambda>y. bucket_of H y = j) (A @ x # B)" for j
    using same by (intro filter_cong) auto
  have "filter (\<lambda>y. bucket_of H y = i) A = []" using B by (auto simp: filter_empty_conv)
  then have "filter (\<lambda>y. bucket_of H y = i) (A @ x # B) = x # filter (\<lambda>y. bucket_of H y = i) (A @ B)"
    using assms(4) by simp
  moreover have "filter (\<lambda>y. bucket_of H y = j) (A @ x # B) = filter (\<lambda>y. bucket_of H y = j) (A @ B)" if "j \<noteq> i" for j
    using that assms(4) by simp
  ultimately have "bucket_ok (T[i := (fst (T ! i) + 1, x)] ! j) (filter (\<lambda>y. bucket_of H' y = j) (A @ x # B))"
    if "j < htsize H" for j
    unfolding f using t(1) t(4) [OF that] t(4) [OF i] that by (cases "j = i") (simp_all add: bucket_ok_def)
  then show ?thesis unfolding table_inv_def H' using g t(1,2) by simp
qed

section \<open>Inserting an element\<close>

definition inserted :: "Hash \<Rightarrow> nat list \<Rightarrow> nat \<Rightarrow> Hash \<Rightarrow> nat list \<Rightarrow> bool" where
  "inserted H es x H' es' \<longleftrightarrow> list_inv H' es' \<and> table_inv H' es' \<and> set es' = insert x (set es) \<and>
     same_info (store H) (store H') \<and> (\<forall>y. y \<notin> set es' \<longrightarrow> y \<noteq> 0 \<longrightarrow> store H' y = store H y) \<and>
     htsize H' = htsize H \<and> count H' = count H \<and> (ht H' = None \<longleftrightarrow> ht H = None)"

lemma insertElement_front:
  assumes "list_inv H es" "x \<notin> set es" "store H x = Some e0"
    and "(pEntry = None \<and> H1 = H) \<or>
      (\<exists>i T. pEntry = Some i \<and> ht H = Some T \<and> i < length T \<and> (fst (T ! i) = 0 \<or> snd (T ! i) = 0) \<and>
        H1 = H\<lparr>ht := Some (T[i := (fst (T ! i) + 1, x)])\<rparr>)"
  shows "insertElement H pEntry x = Some (insert_between H1 [] x es)"
proof -
  have "linked (store H1) 0 es 0" "distinct (x # es)" "store H1 0 = None" "store H1 x = Some e0" "first H1 = hd_or es 0"
    using assms by (auto simp: list_inv_def)
  note f = link_front [OF this]
  from assms(4) show ?thesis
  proof
    assume "pEntry = None \<and> H1 = H"
    then show ?thesis using f by (simp add: insertElement_def)
  next
    assume "\<exists>i T. pEntry = Some i \<and> ht H = Some T \<and> i < length T \<and> (fst (T ! i) = 0 \<or> snd (T ! i) = 0) \<and>
        H1 = H\<lparr>ht := Some (T[i := (fst (T ! i) + 1, x)])\<rparr>"
    then obtain i T where c: "pEntry = Some i" "ht H = Some T" "i < length T" "fst (T ! i) = 0 \<or> snd (T ! i) = 0"
        "H1 = H\<lparr>ht := Some (T[i := (fst (T ! i) + 1, x)])\<rparr>" by blast
    have "(if fst (T ! i) \<noteq> 0 then snd (T ! i) else 0) = 0" using c(4) by auto
    then show ?thesis using f c(1,2,3) unfolding c(5) by (simp add: insertElement_def)
  qed
qed

lemma insertElement_before:
  assumes "list_inv H (A @ b # B)" "x \<notin> set (A @ b # B)" "store H x = Some e0"
    and "ht H = Some T" "i < length T" "fst (T ! i) \<noteq> 0" "snd (T ! i) = b"
  shows "insertElement H (Some i) x =
    Some (insert_between (H\<lparr>ht := Some (T[i := (fst (T ! i) + 1, x)])\<rparr>) A x (b # B))"
proof -
  let ?H = "H\<lparr>ht := Some (T[i := (fst (T ! i) + 1, x)])\<rparr>"
  obtain eb where eb: "store H b = Some eb" using assms(1) by (auto simp: list_inv_def)
  have b: "b \<noteq> 0" using assms(1) eb by (auto simp: list_inv_def)
  have "linked (store ?H) 0 (A @ b # B) 0" "distinct (x # A @ b # B)" "store ?H 0 = None" "store ?H x = Some e0"
      "first ?H = hd_or A b" "store ?H b = Some eb"
    using assms(1-3) eb by (auto simp: list_inv_def)
  note f = link_before [OF this]
  show ?thesis using f assms(4-7) b eb by (simp add: insertElement_def deref_def)
qed

lemma insertElement_spec:
  assumes "list_inv H es" "table_inv H es" "x \<notin> set es" "store H x = Some e0"
  shows "\<exists>H' es'. insertElement H (if ht H \<noteq> None then Some (bucket_of H x) else None) x = Some H' \<and> inserted H es x H' es'"
proof (cases "ht H")
  case None
  have "inserted H es x (insert_between H [] x es) (x # es)"
    using insert_between_list [of H "[]" es x e0] assms(1,3,4) insert_between_same(1,3,4,5) [of H "[]" x es]
      insert_between_same(2) [of _ "[]" x es H] None
    by (simp add: inserted_def table_inv_def)
  then show ?thesis using insertElement_front [OF assms(1,3,4)] None by auto
next
  case (Some T)
  define i where "i = bucket_of H x"
  define S where "S = filter (\<lambda>y. bucket_of H y = i) es"
  define H1 where "H1 = H\<lparr>ht := Some (T[i := (fst (T ! i) + 1, x)])\<rparr>"
  have t: "length T = htsize H" "0 < htsize H" "grouped (bucket_of H) es" "i < length T" "bucket_ok (T ! i) S"
    using assms(2) Some by (auto simp: table_inv_def i_def S_def bucket_of_def)
  have fin: "\<exists>H' es'. insertElement H (Some i) x = Some H' \<and> inserted H es x H' es'"
    if ab: "es = A @ B" "insertElement H (Some i) x = Some (insert_between H1 A x B)"
      "B \<noteq> [] \<and> bucket_of H (hd B) = i \<and> i \<notin> bucket_of H ` set A \<or> A = [] \<and> i \<notin> bucket_of H ` set B" for A B
  proof -
    let ?H' = "insert_between H1 A x B"
    have s: "same_info (store H) (store ?H')" using insert_between_same(1) [of H1 A x B] by (simp add: H1_def)
    have "list_inv H1 (A @ B)" using assms(1) ab(1) by (simp add: H1_def list_inv_def)
    then have "list_inv ?H' (A @ x # B)" using insert_between_list [of H1 A B x e0] assms(3,4) ab(1) by (simp add: H1_def)
    moreover have "table_inv ?H' (A @ x # B)"
    proof (rule insert_table [OF Some, of A B x i])
      show "bucket_of ?H' y = bucket_of H y" if "y \<in> set (A @ x # B)" for y
      proof -
        have "store H y \<noteq> None"
          using that assms(1,4) ab(1) linked_dom [of "store H" 0 es 0 y] by (auto simp: list_inv_def)
        then show ?thesis using s by (intro same_info_bucket) (simp_all add: insert_between_same H1_def)
      qed
    qed (use assms(2,3) ab in \<open>simp_all add: i_def insert_between_same H1_def\<close>)
    ultimately have "inserted H es x ?H' (A @ x # B)"
      using s insert_between_same(2) [of _ A x B H1] ab(1) Some unfolding inserted_def
      by (auto simp: insert_between_same(3-5) H1_def)
    with ab(2) show ?thesis by blast
  qed
  show ?thesis
  proof (cases S)
    case Nil
    then have "fst (T ! i) = 0" "i \<notin> bucket_of H ` set es"
      using t(5) by (auto simp: bucket_ok_def S_def filter_empty_conv)
    then show ?thesis
      using fin [of "[]" es] insertElement_front [OF assms(1,3,4), of "Some i" H1] Some t(4) by (simp add: H1_def i_def)
  next
    case (Cons b S')
    obtain A C where es: "es = A @ S @ C" "i \<notin> bucket_of H ` set A"
      using grouped_split [OF t(3), of i] unfolding S_def by auto
    have "b \<in> set S" using Cons by simp
    then have "bucket_of H b = i" by (simp add: S_def)
    with t(5) Cons have b: "fst (T ! i) \<noteq> 0" "snd (T ! i) = b" "bucket_of H b = i"
      by (auto simp: bucket_ok_def)
    have "insertElement H (Some i) x = Some (insert_between H1 A x (b # S' @ C))"
      unfolding H1_def using insertElement_before [of H A b "S' @ C" x e0 T i] assms(1,3,4) es(1) Cons Some t(4) b by simp
    then show ?thesis using fin [of A "b # S' @ C"] es Cons b(3) Some by (simp add: i_def)
  qed
qed

section \<open>Rehashing\<close>

text \<open>\<open>path m a xs\<close>: from \<open>a\<close> the next pointers run through \<open>xs\<close> to the null pointer.\<close>

fun path :: "(nat \<rightharpoonup> HashElem) \<Rightarrow> nat \<Rightarrow> nat list \<Rightarrow> bool" where
  "path m a [] \<longleftrightarrow> a = 0"
| "path m a (x # xs) \<longleftrightarrow> a = x \<and> x \<noteq> 0 \<and> (\<exists>e. m x = Some e \<and> path m (next_elem e) xs)"

lemma path_frame: "(\<And>x. x \<in> set xs \<Longrightarrow> m' x = m x) \<Longrightarrow> path m' a xs = path m a xs"
  by (induction xs arbitrary: a) auto

lemma linked_path: "linked m p xs 0 \<Longrightarrow> m 0 = None \<Longrightarrow> path m (hd_or xs 0) xs"
proof (induction xs arbitrary: p)
  case (Cons x xs)
  then show ?case by (auto intro: ccontr)
qed simp

declare rehash_loop.simps [simp del] free_all.simps [simp del]

lemma rehash_loop_0 [simp]: "rehash_loop n H 0 = Some H"
  by (simp add: rehash_loop.simps)

lemma rehash_loop_Suc: "a \<noteq> 0 \<Longrightarrow> store H a = Some e \<Longrightarrow> rehash_loop (Suc n) H a =
    Option.bind (insertElement H (Some (bucket_of H a)) a) (\<lambda>H. rehash_loop n H (next_elem e))"
  by (simp add: rehash_loop.simps deref_def bucket_of_def)

lemma rehash_loop_spec:
  assumes "list_inv H ns" "table_inv H ns" "ht H \<noteq> None" "path (store H) a rs" "distinct rs" "set ns \<inter> set rs = {}"
    and "length rs \<le> n"
  shows "\<exists>H' es. rehash_loop n H a = Some H' \<and> list_inv H' es \<and> table_inv H' es \<and> set es = set ns \<union> set rs \<and>
    same_info (store H) (store H') \<and> (\<forall>y. y \<notin> set ns \<union> set rs \<longrightarrow> y \<noteq> 0 \<longrightarrow> store H' y = store H y) \<and>
    htsize H' = htsize H \<and> count H' = count H \<and> ht H' \<noteq> None"
  using assms
proof (induction n arbitrary: H ns a rs)
  case 0
  then show ?case by (cases rs) auto
next
  case (Suc n)
  show ?case
  proof (cases rs)
    case Nil
    then show ?thesis using Suc.prems by (intro exI [of _ H] exI [of _ ns]) auto
  next
    case (Cons x xs)
    then obtain e where e: "a = x" "x \<noteq> 0" "store H x = Some e" "path (store H) (next_elem e) xs"
      using Suc.prems(4) by auto
    have "x \<notin> set ns" using Suc.prems(6) Cons by auto
    from insertElement_spec [OF Suc.prems(1,2) this e(3)] Suc.prems(3)
    obtain H1 es1 where i: "insertElement H (Some (bucket_of H x)) x = Some H1" "inserted H ns x H1 es1"
      by auto
    have p: "path (store H1) (next_elem e) xs"
    proof -
      have "store H1 y = store H y" if "y \<in> set xs" for y
      proof -
        have "y \<noteq> 0"
          using that e(4) by (induction xs arbitrary: e) auto
        then show ?thesis using that i(2) Suc.prems(5,6) Cons by (auto simp: inserted_def)
      qed
      then show ?thesis using e(4) path_frame [of xs "store H1" "store H"] by blast
    qed
    obtain H' es where r: "rehash_loop n H1 (next_elem e) = Some H'" "list_inv H' es" "table_inv H' es"
        "set es = set es1 \<union> set xs" "same_info (store H1) (store H')"
        "\<forall>y. y \<notin> set es1 \<union> set xs \<longrightarrow> y \<noteq> 0 \<longrightarrow> store H' y = store H1 y"
        "htsize H' = htsize H1" "count H' = count H1" "ht H' \<noteq> None"
      using Suc.IH [of H1 es1 "next_elem e" xs] i(2) p Suc.prems(3,5,6,7) Cons by (auto simp: inserted_def)
    have "rehash_loop (Suc n) H a = Some H'" using e i(1) r(1) by (simp add: rehash_loop_Suc)
    moreover have "set es1 = insert x (set ns)" "same_info (store H) (store H1)" "htsize H1 = htsize H" "count H1 = count H"
        "\<forall>y. y \<notin> set es1 \<longrightarrow> y \<noteq> 0 \<longrightarrow> store H1 y = store H y"
      using i(2) by (auto simp: inserted_def)
    ultimately show ?thesis
      using r same_info_trans [of "store H" "store H1" "store H'"] Cons
      by (intro exI [of _ H'] exI [of _ es]) simp
  qed
qed

text \<open>A table that is asked for \<open>n\<close> buckets gets at least one.\<close>

definition alloc_ok :: "(nat \<Rightarrow> nat option) \<Rightarrow> bool" where
  "alloc_ok newHt \<longleftrightarrow> (\<forall>n m. newHt n = Some m \<longrightarrow> n \<le> m)"

lemma hash_rehash_spec:
  assumes "list_inv H es" "table_inv H es" "alloc_ok newHt" "0 < k" "length es \<le> count H"
  shows "\<exists>b H' es'. rehash newHt H k = Some (b, H') \<and> list_inv H' es' \<and> table_inv H' es' \<and> set es' = set es \<and>
    same_info (store H) (store H') \<and> (\<forall>y. y \<notin> set es \<longrightarrow> y \<noteq> 0 \<longrightarrow> store H' y = store H y) \<and> count H' = count H"
proof -
  have k: "0 < rehash_size k" using assms(4) by (simp add: rehash_size_def)
  have same: ?thesis if "rehash newHt H k = Some (False, H)"
    using that assms(1,2) by auto
  show ?thesis
  proof (cases "rehash_size k = htsize H \<or> newHt (rehash_size k) = None")
    case True
    then show ?thesis by (intro same) (auto simp: rehash_def Let_def)
  next
    case False
    then obtain n where n: "newHt (rehash_size k) = Some n" by auto
    have n0: "0 < n" using n k assms(3) unfolding alloc_ok_def by (metis less_le_trans)
    let ?H = "H\<lparr>ht := Some (replicate n (0, 0)), htsize := n, first := 0\<rparr>"
    have "list_inv ?H []" using assms(1) by (simp add: list_inv_def)
    moreover have "table_inv ?H []" using n0 by (simp add: table_inv_def bucket_ok_def)
    moreover have "path (store ?H) (first H) es" "distinct es"
      using assms(1) linked_path [of "store H" 0 es] by (auto simp: list_inv_def)
    ultimately obtain H' es' where r: "rehash_loop (count H) ?H (first H) = Some H'" "list_inv H' es'" "table_inv H' es'"
        "set es' = set es" "same_info (store ?H) (store H')" "\<forall>y. y \<notin> set es \<longrightarrow> y \<noteq> 0 \<longrightarrow> store H' y = store ?H y"
        "count H' = count ?H"
      using rehash_loop_spec [of ?H "[]" "first H" es "count H"] assms(5) by auto
    have "rehash newHt H k = Some (True, H')" using False n r(1) by (simp add: rehash_def Let_def)
    then show ?thesis using r by auto
  qed
qed

section \<open>Names and hashes\<close>

definition fold_name :: "cstr \<Rightarrow> cstr" where
  "fold_name z = map UpperToLower z"

lemma fold_bits_table:
  "map (\<lambda>n. 0xdf AND UpperToLower (of_nat n)) [0..<256] = map (\<lambda>n. 0xdf AND (of_nat n :: u8)) [0..<256]"
  by code_simp

lemma fold_bits: "0xdf AND UpperToLower c = 0xdf AND (c :: u8)"
proof -
  have "unat c < 256" using unsigned_less [of c, where 'a = nat] by simp
  then show ?thesis
    using arg_cong [OF fold_bits_table, of "\<lambda>xs. xs ! unat c"] by (simp del: upt_rec_numeral)
qed

lemma fold_bits_u32: "UpperToLower c = UpperToLower d \<Longrightarrow> 0xdf AND (ucast c :: u32) = 0xdf AND ucast d"
proof -
  assume "UpperToLower c = UpperToLower d"
  then have "0xdf AND c = 0xdf AND d" using fold_bits by metis
  then have "(ucast (0xdf AND c) :: u32) = ucast (0xdf AND d)" by simp
  moreover have "(ucast (0xdf AND c) :: u32) = 0xdf AND ucast c" for c :: u8
    by (simp add: u32_eq_bits bitblast bit_simps)
  ultimately show ?thesis by simp
qed

lemma foldl_fold:
  assumes "\<And>h c d. UpperToLower c = UpperToLower d \<Longrightarrow> f h c = f h d"
  shows "map UpperToLower a = map UpperToLower b \<Longrightarrow> foldl f h a = foldl f h b"
proof (induction a b arbitrary: h rule: list_induct2')
  case (4 c a d b)
  then show ?case using assms [of c d h] by simp
qed simp_all

lemma strHash_fold: "fold_name a = fold_name b \<Longrightarrow> strHash a = strHash b"
  unfolding strHash_def fold_name_def
proof (rule foldl_fold)
  fix h :: u32 and c d
  assume "UpperToLower c = UpperToLower d"
  from fold_bits_u32 [OF this]
  show "(h + (0xdf AND ucast c)) * 0x9e3779b1 = (h + (0xdf AND ucast d)) * 0x9e3779b1" by (simp only:)
qed

section \<open>The invariant\<close>

definition elem_ok :: "HashElem \<Rightarrow> bool" where
  "elem_ok e \<longleftrightarrow> hkey e = strHash (pKey e) \<and> data e \<noteq> 0 \<and> cstring (pKey e)"

definition hash_inv :: "Hash \<Rightarrow> nat list \<Rightarrow> bool" where
  "hash_inv H es \<longleftrightarrow> list_inv H es \<and> table_inv H es \<and> dom (store H) = set es \<and> count H = length es \<and>
     (\<forall>x e. store H x = Some e \<longrightarrow> elem_ok e) \<and>
     (\<forall>x y e e'. store H x = Some e \<longrightarrow> store H y = Some e' \<longrightarrow> fold_name (pKey e) = fold_name (pKey e') \<longrightarrow> x = y)"

text \<open>The map that a table stands for: from folded names to data.\<close>

definition hash_abs :: "Hash \<Rightarrow> (cstr \<rightharpoonup> nat) \<Rightarrow> bool" where
  "hash_abs H M \<longleftrightarrow> (\<exists>es. hash_inv H es) \<and>
     (\<forall>k d. M k = Some d \<longleftrightarrow> (\<exists>x e. store H x = Some e \<and> fold_name (pKey e) = k \<and> data e = d))"

section \<open>Finding an element\<close>

definition hits :: "Hash \<Rightarrow> cstr \<Rightarrow> nat \<Rightarrow> bool" where
  "hits H key x \<longleftrightarrow> strHash key = hkey (the (store H x)) \<and> sqlite3StrICmp (pKey (the (store H x))) key = 0"

lemma find_loop_segment:
  assumes "linked (store H) p (S @ C) 0" "S \<noteq> [] \<Longrightarrow> a = hd S"
  shows "find_loop H (strHash key) key (length S) a = Some (case find (hits H key) S of None \<Rightarrow> 0 | Some x \<Rightarrow> x)"
  using assms
proof (induction S arbitrary: p a)
  case (Cons x S)
  then obtain e where e: "a = x" "store H x = Some e" "next_elem e = hd_or (S @ C) 0" by auto
  have "find_loop H (strHash key) key (length S) (next_elem e) =
      Some (case find (hits H key) S of None \<Rightarrow> 0 | Some x \<Rightarrow> x)"
  proof (rule Cons.IH)
    show "linked (store H) x (S @ C) 0" using Cons.prems(1) by simp
    show "S \<noteq> [] \<Longrightarrow> next_elem e = hd S" using e(3) by (cases S) simp_all
  qed
  then show ?case using e(1,2) by (simp add: deref_def hits_def [of H key x])
qed simp

lemma hits_iff:
  assumes "hash_inv H es" "cstring key" "store H x = Some e"
  shows "hits H key x \<longleftrightarrow> fold_name (pKey e) = fold_name key"
proof -
  have "elem_ok e" using assms(1,3) by (auto simp: hash_inv_def)
  then show ?thesis
    using stricmp_zero_iff [of "pKey e" key] assms(2,3) strHash_fold [of "pKey e" key]
    by (auto simp: hits_def elem_ok_def same_name_def fold_name_def)
qed

lemma find_in_bucket:
  assumes "hash_inv H es"
  shows "\<exists>S. set S \<subseteq> set es \<and> (\<forall>x \<in> set es. hits H key x \<longrightarrow> x \<in> set S) \<and>
    findElementWithHash H key = Some (case find (hits H key) S of None \<Rightarrow> 0 | Some x \<Rightarrow> x, strHash key)"
proof (cases "ht H")
  case None
  have "linked (store H) 0 (es @ []) 0" "es \<noteq> [] \<Longrightarrow> first H = hd es"
    using assms by (auto simp: hash_inv_def list_inv_def hd_or_def split: list.splits)
  from find_loop_segment [OF this] show ?thesis
    using None assms by (intro exI [of _ es]) (simp add: findElementWithHash_def Let_def hash_inv_def)
next
  case (Some T)
  define i where "i = unat (strHash key) mod htsize H"
  define S where "S = filter (\<lambda>x. bucket_of H x = i) es"
  have t: "length T = htsize H" "0 < htsize H" "grouped (bucket_of H) es" "i < length T" "bucket_ok (T ! i) S"
    using assms Some by (auto simp: hash_inv_def table_inv_def S_def i_def)
  obtain A C where es: "es = A @ S @ C" using grouped_split [OF t(3), of i] unfolding S_def by blast
  have "linked (store H) 0 es 0" using assms by (simp add: hash_inv_def list_inv_def)
  then have "linked (store H) (last_or 0 A) (S @ C) 0" unfolding es by (simp del: append_assoc)
  from find_loop_segment [OF this] t(5)
  have "find_loop H (strHash key) key (fst (T ! i)) (snd (T ! i)) = Some (case find (hits H key) S of None \<Rightarrow> 0 | Some x \<Rightarrow> x)"
    by (simp add: bucket_ok_def)
  then have "findElementWithHash H key = Some (case find (hits H key) S of None \<Rightarrow> 0 | Some x \<Rightarrow> x, strHash key)"
    using Some t(4) by (simp add: findElementWithHash_def Let_def i_def split_beta)
  moreover have "\<forall>x \<in> set es. hits H key x \<longrightarrow> x \<in> set S" by (auto simp: S_def hits_def bucket_of_def i_def)
  ultimately show ?thesis by (intro exI [of _ S]) (auto simp: S_def)
qed

lemma findElement_spec:
  assumes "hash_inv H es" "cstring key"
  shows "\<exists>r. findElementWithHash H key = Some (r, strHash key) \<and>
    (r = 0 \<and> (\<forall>x e. store H x = Some e \<longrightarrow> fold_name (pKey e) \<noteq> fold_name key) \<or>
     (\<exists>e. store H r = Some e \<and> fold_name (pKey e) = fold_name key))"
proof -
  obtain S where S: "set S \<subseteq> set es" "\<forall>x \<in> set es. hits H key x \<longrightarrow> x \<in> set S"
      "findElementWithHash H key = Some (case find (hits H key) S of None \<Rightarrow> 0 | Some x \<Rightarrow> x, strHash key)"
    using find_in_bucket [OF assms(1)] by blast
  have d: "dom (store H) = set es" using assms(1) by (simp add: hash_inv_def)
  show ?thesis
  proof (cases "find (hits H key) S")
    case None
    then have "\<not> hits H key x" if "store H x = Some e" for x e
      using that S(2) d by (auto simp: find_None_iff)
    then show ?thesis using S(3) None hits_iff [OF assms] by auto
  next
    case (Some r)
    then have r: "hits H key r" "r \<in> set es" using S(1) by (auto simp: find_Some_iff)
    then obtain e where "store H r = Some e" using d by blast
    then show ?thesis using S(3) Some hits_iff [OF assms] r(1) by auto
  qed
qed

section \<open>Removing an element\<close>

lemma grouped_suffix: "grouped f (A @ B) \<Longrightarrow> grouped f B"
  by (induction A) auto

lemma unlink_store:
  assumes "list_inv H (A @ x # B)" "store H x = Some e"
  shows "do {
      H \<leftarrow> (if prev_elem e \<noteq> 0 then assign H (prev_elem e) (\<lambda>p. p\<lparr>next_elem := next_elem e\<rparr>)
            else Some (H\<lparr>first := next_elem e\<rparr>));
      (if next_elem e \<noteq> 0 then assign H (next_elem e) (\<lambda>n. n\<lparr>prev_elem := prev_elem e\<rparr>) else Some H)
    } = Some (H\<lparr>store := join (store H) (last_or 0 A) (hd_or B 0), first := hd_or (A @ B) 0\<rparr>)"
proof -
  have l: "linked (store H) 0 A x" "linked (store H) x B 0" "prev_elem e = last_or 0 A" "next_elem e = hd_or B 0"
      "distinct (A @ x # B)" "first H = hd_or A x" "store H 0 = None"
    using assms by (auto simp: list_inv_def)
  have b: "(if next_elem e \<noteq> 0 then assign H' (next_elem e) (\<lambda>n. n\<lparr>prev_elem := prev_elem e\<rparr>) else Some H') =
      Some (H'\<lparr>store := relink (store H') (hd_or B 0) (\<lambda>n. n\<lparr>prev_elem := last_or 0 A\<rparr>)\<rparr>)"
    if si: "same_info (store H) (store H')" for H'
  proof (cases B)
    case Nil
    then show ?thesis using l(4) by (simp add: relink_def)
  next
    case (Cons y B')
    then obtain ey where "store H y = Some ey" "y \<noteq> 0" using l(2,7) by (cases "y = 0") auto
    moreover obtain ey' where "store H' y = Some ey'" using same_info_SomeD [OF si] calculation(1) by blast
    ultimately show ?thesis using l(3,4) Cons by (simp add: relink_def assign_eq)
  qed
  show ?thesis
  proof (cases "A = []")
    case True
    then show ?thesis using b [of "H\<lparr>first := hd_or B 0\<rparr>"] l(3,4) by (simp add: join_def relink_def update_order)
  next
    case False
    then obtain ea where "store H (last A) = Some ea" using linked_dom [OF l(1) last_in_set] by blast
    with l(7) have ea: "store H (last A) = Some ea" "last A \<noteq> 0" by (auto intro: ccontr)
    let ?m = "relink (store H) (last_or 0 A) (\<lambda>p. p\<lparr>next_elem := hd_or B 0\<rparr>)"
    have "assign H (prev_elem e) (\<lambda>p. p\<lparr>next_elem := next_elem e\<rparr>) = Some (H\<lparr>store := ?m\<rparr>)"
      using ea l(3,4) False by (simp add: assign_eq relink_def last_or_def)
    moreover have "same_info (store H) ?m" by (rule same_info_relink) (simp add: info_def)
    moreover have "prev_elem e \<noteq> 0" using l(3) ea(2) False by (simp add: last_or_def)
    moreover have "H\<lparr>store := join (store H) (last_or 0 A) (hd_or B 0)\<rparr> =
        H\<lparr>store := join (store H) (last_or 0 A) (hd_or B 0), first := hd_or (A @ B) 0\<rparr>"
      using l(6) False by (cases H; cases A) simp_all
    ultimately show ?thesis using b [of "H\<lparr>store := ?m\<rparr>"] by (simp add: join_def)
  qed
qed

lemma remove_list:
  assumes "list_inv H (A @ x # B)" "store H' = (join (store H) (last_or 0 A) (hd_or B 0))(x := None)"
    and "first H' = hd_or (A @ B) 0"
  shows "list_inv H' (A @ B)"
proof -
  have l: "linked (store H) 0 A x" "linked (store H) x B 0" "distinct (A @ x # B)" "store H 0 = None"
    using assms(1) by (auto simp: list_inv_def)
  have "linked (join (store H) (last_or 0 A) (hd_or B 0)) 0 (A @ B) 0"
    using l by (intro linked_join [OF l(1,2)]) auto
  moreover have "join (store H) (last_or 0 A) (hd_or B 0) 0 = None"
    using same_info_None [OF same_info_join, of "store H" 0] l(4) by simp
  moreover have "x \<notin> set (A @ B)" using l(3) by auto
  ultimately show ?thesis using l(3) assms(2,3) unfolding list_inv_def by (auto simp del: linked_append)
qed

lemma remove_table:
  assumes "ht H = Some T" "table_inv H (A @ x # B)" "distinct (A @ x # B)" "bucket_of H x = i"
    and H': "ht H' = Some (T[i := (fst (T ! i) - 1, if snd (T ! i) = x then hd_or B 0 else snd (T ! i))])" "htsize H' = htsize H"
    and same: "\<And>y. y \<in> set (A @ B) \<Longrightarrow> bucket_of H' y = bucket_of H y"
  shows "table_inv H' (A @ B)" "i < length T" "0 < fst (T ! i)"
proof -
  have t: "length T = htsize H" "0 < htsize H" "grouped (bucket_of H) (A @ x # B)"
      "\<And>j. j < htsize H \<Longrightarrow> bucket_ok (T ! j) (filter (\<lambda>x. bucket_of H x = j) (A @ x # B))"
    using assms(1,2) by (auto simp: table_inv_def)
  have i: "i < htsize H" using assms(4) t(2) by (auto simp: bucket_of_def)
  define SA SB where "SA = filter (\<lambda>y. bucket_of H y = i) A" and "SB = filter (\<lambda>y. bucket_of H y = i) B"
  have b: "fst (T ! i) = length SA + Suc (length SB)" "snd (T ! i) = hd (SA @ x # SB)"
    using t(4) [OF i] assms(4) by (simp_all add: bucket_ok_def SA_def SB_def)
  show "i < length T" "0 < fst (T ! i)" using i t(1) b(1) by simp_all
  have g: "grouped (bucket_of H') (A @ B)"
    using grouped_remove [OF t(3)] grouped_cong [of "A @ B" "bucket_of H'" "bucket_of H"] same by blast
  have f: "filter (\<lambda>y. bucket_of H' y = j) (A @ B) = filter (\<lambda>y. bucket_of H y = j) (A @ B)" for j
    using same by (intro filter_cong) auto
  have x: "snd (T ! i) = x \<longleftrightarrow> SA = []"
  proof (cases SA)
    case (Cons y ys)
    then have "y \<in> set A" unfolding SA_def by (metis filter_is_subset list.set_intros(1) subsetD)
    then show ?thesis using b(2) Cons assms(3) by auto
  qed (use b in simp)
  have "hd_or B 0 = hd SB" if "SB \<noteq> []"
  proof -
    have "B \<noteq> []" using that by (auto simp: SB_def)
    then obtain y B' where B: "B = y # B'" by (cases B) auto
    have "bucket_of H x \<in> bucket_of H ` set B" using that assms(4) by (auto simp: SB_def filter_empty_conv) (metis imageI)
    then have "bucket_of H (hd B) = i" using grouped_suffix [OF t(3)] assms(4) by simp
    then show ?thesis using B by (simp add: SB_def)
  qed
  then have "bucket_ok (T[i := (fst (T ! i) - 1, if snd (T ! i) = x then hd_or B 0 else snd (T ! i))] ! i) (SA @ SB)"
    using i t(1) b x by (cases SA) (auto simp: bucket_ok_def)
  moreover have "filter (\<lambda>y. bucket_of H y = j) (A @ x # B) = filter (\<lambda>y. bucket_of H y = j) (A @ B)" if "j \<noteq> i" for j
    using that assms(4) by simp
  ultimately have "bucket_ok (T[i := (fst (T ! i) - 1, if snd (T ! i) = x then hd_or B 0 else snd (T ! i))] ! j)
      (filter (\<lambda>y. bucket_of H' y = j) (A @ B))" if "j < htsize H" for j
    unfolding f using t(4) [OF that] that by (cases "j = i") (simp_all add: SA_def SB_def)
  then show "table_inv H' (A @ B)" unfolding table_inv_def H' using g t(1,2) by simp
qed

text \<open>The contents of the store without its pointers.\<close>

definition infos :: "Hash \<Rightarrow> nat \<rightharpoonup> nat \<times> cstr \<times> u32" where
  "infos H y = map_option info (store H y)"

definition infos_ok :: "(nat \<rightharpoonup> nat \<times> cstr \<times> u32) \<Rightarrow> bool" where
  "infos_ok I \<longleftrightarrow>
     (\<forall>x d k h. I x = Some (d, k, h) \<longrightarrow> h = strHash k \<and> d \<noteq> 0 \<and> cstring k) \<and>
     (\<forall>x y d k h d' k' h'. I x = Some (d, k, h) \<longrightarrow> I y = Some (d', k', h') \<longrightarrow> fold_name k = fold_name k' \<longrightarrow> x = y)"

lemma infos_Some: "infos H x = Some (d, k, h) \<longleftrightarrow> (\<exists>e. store H x = Some e \<and> data e = d \<and> pKey e = k \<and> hkey e = h)"
  by (auto simp: infos_def info_def)

lemma infos_dom: "dom (infos H) = dom (store H)"
  by (auto simp: infos_def)

lemma same_info_infos: "same_info (store H) (store H') \<longleftrightarrow> infos H' = infos H"
  by (auto simp: same_info_def infos_def fun_eq_iff)

lemma hash_inv_alt:
  "hash_inv H es \<longleftrightarrow> list_inv H es \<and> table_inv H es \<and> dom (infos H) = set es \<and> count H = length es \<and> infos_ok (infos H)"
proof -
  have f1: "(\<forall>x e. store H x = Some e \<longrightarrow> elem_ok e) \<longleftrightarrow> (\<forall>x d k h. infos H x = Some (d, k, h) \<longrightarrow> h = strHash k \<and> d \<noteq> 0 \<and> cstring k)"
    unfolding infos_Some elem_ok_def by blast
  have f2: "(\<forall>x y e e'. store H x = Some e \<longrightarrow> store H y = Some e' \<longrightarrow> fold_name (pKey e) = fold_name (pKey e') \<longrightarrow> x = y) \<longleftrightarrow>
      (\<forall>x y d k h d' k' h'. infos H x = Some (d, k, h) \<longrightarrow> infos H y = Some (d', k', h') \<longrightarrow> fold_name k = fold_name k' \<longrightarrow> x = y)"
    unfolding infos_Some by blast
  show ?thesis unfolding hash_inv_def infos_ok_def infos_dom f1 f2 ..
qed

lemma hash_abs_alt:
  "hash_abs H M \<longleftrightarrow> (\<exists>es. hash_inv H es) \<and> (\<forall>k d. M k = Some d \<longleftrightarrow> (\<exists>x n h. infos H x = Some (d, n, h) \<and> fold_name n = k))"
  unfolding hash_abs_def infos_Some by blast

lemma infos_ok_remove: "infos_ok I \<Longrightarrow> infos_ok (I(x := None))"
  unfolding infos_ok_def by (auto split: if_splits)

lemma infos_ok_upd:
  assumes "infos_ok I" "d \<noteq> 0" "cstring k" "\<And>y d' k' h'. I y = Some (d', k', h') \<Longrightarrow> fold_name k' = fold_name k \<Longrightarrow> y = x"
  shows "infos_ok (I(x \<mapsto> (d, k, strHash k)))"
  using assms unfolding infos_ok_def by (auto split: if_splits)

lemma clear_empty: "first H = 0 \<Longrightarrow> sqlite3HashClear H = Some (H\<lparr>first := 0, ht := None, htsize := 0, count := 0\<rparr>)"
  by (simp add: sqlite3HashClear_def free_all.simps)

text \<open>The table without the element \<open>x\<close> between \<open>A\<close> and \<open>B\<close>.\<close>

definition removed :: "Hash \<Rightarrow> nat list \<Rightarrow> nat \<Rightarrow> nat list \<Rightarrow> Hash" where
  "removed H A x B =
     (let i = bucket_of H x in
      H\<lparr>ht := map_option (\<lambda>T. T[i := (fst (T ! i) - 1, if snd (T ! i) = x then hd_or B 0 else snd (T ! i))]) (ht H),
        store := (join (store H) (last_or 0 A) (hd_or B 0))(x := None),
        first := hd_or (A @ B) 0, count := count H - 1\<rparr>)"

lemma removeElement_eq:
  assumes "list_inv H (A @ x # B)" "store H x = Some e"
    and tab: "\<And>T. ht H = Some T \<Longrightarrow> bucket_of H x < length T \<and> 0 < fst (T ! bucket_of H x)"
  shows "removeElement H x =
    (let H' = removed H A x B in if count H' = 0 then sqlite3HashClear H' else Some H')"
proof -
  define m where "m = join (store H) (last_or 0 A) (hd_or B 0)"
  define H1 where "H1 = H\<lparr>store := m, first := hd_or (A @ B) 0\<rparr>"
  define H2 where "H2 = H1\<lparr>ht := ht (removed H A x B)\<rparr>"
  have bx: "bucket_of H x = unat (hkey e) mod htsize H" by (simp add: bucket_of_def assms(2))
  have n: "next_elem e = hd_or B 0" using assms(1,2) by (simp add: list_inv_def)
  have mx: "\<exists>e'. m x = Some e'"
    using same_info_SomeD [OF same_info_join [of "store H" "last_or 0 A" "hd_or B 0"] assms(2)] by (auto simp: m_def)
  define rest where "rest = (\<lambda>pH. do {
       pH \<leftarrow>
         (case ht pH of
            None \<Rightarrow> Some pH
          | Some T \<Rightarrow>
              let i = unat (hkey e) mod htsize pH in
              if i < length T \<and> fst (T ! i) > 0
              then Some (pH\<lparr>ht := Some (T[i := (fst (T ! i) - 1,
                     if snd (T ! i) = x then next_elem e else snd (T ! i))])\<rparr>)
              else None);
       pH \<leftarrow> free pH x;
       let pH = pH\<lparr>count := count pH - 1\<rparr> in
       if count pH = 0 then sqlite3HashClear pH else Some pH
     })"
  have "removeElement H x = Option.bind (do {
      H \<leftarrow> (if prev_elem e \<noteq> 0 then assign H (prev_elem e) (\<lambda>p. p\<lparr>next_elem := next_elem e\<rparr>)
            else Some (H\<lparr>first := next_elem e\<rparr>));
      (if next_elem e \<noteq> 0 then assign H (next_elem e) (\<lambda>n. n\<lparr>prev_elem := prev_elem e\<rparr>) else Some H)
    }) rest"
    by (simp add: removeElement_def deref_def assms(2) rest_def)
  also have "\<dots> = rest H1"
    unfolding unlink_store [OF assms(1,2)] m_def [symmetric] H1_def [symmetric] by simp
  also have "rest H1 = Option.bind (free H2 x) (\<lambda>pH. let pH = pH\<lparr>count := count pH - 1\<rparr> in
      if count pH = 0 then sqlite3HashClear pH else Some pH)"
    using tab n bx by (cases H; cases "ht H") (auto simp: rest_def H1_def H2_def removed_def Let_def)
  also have "free H2 x = Some (H2\<lparr>store := m(x := None)\<rparr>)" using mx by (auto simp: free_def deref_def H2_def H1_def)
  finally show ?thesis by (cases H) (simp add: H2_def H1_def removed_def Let_def m_def)
qed

lemma removed_inv:
  assumes "hash_inv H (A @ x # B)"
  shows "infos (removed H A x B) = (infos H)(x := None)"
    and "hash_inv (removed H A x B) (A @ B)"
    and "ht H = Some T \<Longrightarrow> bucket_of H x < length T \<and> 0 < fst (T ! bucket_of H x)"
proof -
  let ?H = "removed H A x B"
  have inv: "list_inv H (A @ x # B)" "table_inv H (A @ x # B)" "dom (infos H) = set (A @ x # B)"
      "count H = Suc (length (A @ B))" "infos_ok (infos H)"
    using assms unfolding hash_inv_alt by simp_all
  have d: "distinct (A @ x # B)" using inv(1) by (simp add: list_inv_def)
  show i: "infos ?H = (infos H)(x := None)"
    using same_info_join [of "store H" "last_or 0 A" "hd_or B 0"]
    by (auto simp: infos_def removed_def Let_def same_info_def fun_eq_iff)
  have b: "bucket_of ?H y = bucket_of H y" if "y \<in> set (A @ B)" for y
  proof -
    have "store H y \<noteq> None" using that inv(3) by (auto simp: infos_dom)
    moreover have "y \<noteq> x" using that d by auto
    ultimately show ?thesis
      using same_info_SomeD [OF same_info_join [of "store H" "last_or 0 A" "hd_or B 0"], of y]
      by (auto simp: bucket_of_def removed_def Let_def info_def)
  qed
  note tab = remove_table [OF _ inv(2) d refl, of _ ?H, OF _ _ _ b]
  show "bucket_of H x < length T \<and> 0 < fst (T ! bucket_of H x)" if "ht H = Some T" for T
    using tab(2,3) [OF that] that by (simp add: removed_def Let_def)
  have "table_inv ?H (A @ B)"
  proof (cases "ht H")
    case None
    then show ?thesis by (simp add: table_inv_def removed_def Let_def)
  next
    case (Some T)
    then show ?thesis using tab(1) [OF Some] by (simp add: removed_def Let_def)
  qed
  moreover have "list_inv ?H (A @ B)" by (rule remove_list [OF inv(1)]) (simp_all add: removed_def Let_def)
  moreover have "infos_ok (infos ?H)" "dom (infos ?H) = set (A @ B)" "count ?H = length (A @ B)"
    using infos_ok_remove [OF inv(5)] inv(3,4) d unfolding i by (auto simp: removed_def Let_def)
  ultimately show "hash_inv ?H (A @ B)" unfolding hash_inv_alt by simp
qed

lemma removeElement_spec:
  assumes "hash_inv H es" "store H x = Some e"
  shows "\<exists>H' es'. removeElement H x = Some H' \<and> hash_inv H' es' \<and> infos H' = (infos H)(x := None)"
proof -
  have "x \<in> set es" using assms by (auto simp: hash_inv_def)
  then obtain A B where es: "es = A @ x # B" by (metis split_list)
  note inv = removed_inv [OF assms(1) [unfolded es]]
  have "list_inv H (A @ x # B)" using assms(1) es by (simp add: hash_inv_def)
  note r = removeElement_eq [OF this assms(2) inv(3)]
  let ?H = "removed H A x B"
  show ?thesis
  proof (cases "count ?H = 0")
    case False
    then show ?thesis using r inv(1,2) by (auto simp: Let_def)
  next
    case True
    define H4 where "H4 = ?H\<lparr>first := 0, ht := None, htsize := 0, count := 0\<rparr>"
    have AB: "A @ B = []" using True inv(2) by (simp add: hash_inv_def)
    then have "removeElement H x = Some H4"
      using r True clear_empty [of ?H] inv(2) by (simp add: Let_def hash_inv_def list_inv_def H4_def)
    moreover have i4: "infos H4 = infos ?H" by (simp add: infos_def H4_def fun_eq_iff)
    moreover have "store ?H 0 = None" "dom (infos ?H) = {}" "infos_ok (infos ?H)"
      using inv(2) unfolding hash_inv_alt list_inv_def AB by (simp_all del: dom_eq_empty_conv)
    then have "hash_inv H4 []"
      unfolding hash_inv_alt i4 by (simp add: H4_def list_inv_def table_inv_def del: dom_eq_empty_conv)
    ultimately show ?thesis using inv(1) by auto
  qed
qed

section \<open>The operations\<close>

lemma hash_abs_lookup:
  assumes "hash_abs H M" "store H x = Some e"
  shows "M (fold_name (pKey e)) = Some (data e)"
  using assms unfolding hash_abs_def by blast

lemma hash_abs_absent:
  assumes "hash_abs H M" "\<forall>x e. store H x = Some e \<longrightarrow> fold_name (pKey e) \<noteq> k"
  shows "M k = None"
  using assms unfolding hash_abs_def by (metis not_Some_eq)

lemma find_spec:
  assumes "hash_abs H M" "cstring key"
  shows "\<exists>r. findElementWithHash H key = Some (r, strHash key) \<and>
    (r = 0 \<and> store H 0 = None \<and> M (fold_name key) = None \<or>
     (\<exists>e. r \<noteq> 0 \<and> store H r = Some e \<and> fold_name (pKey e) = fold_name key \<and> M (fold_name key) = Some (data e) \<and> data e \<noteq> 0))"
proof -
  obtain es where es: "hash_inv H es" using assms(1) by (auto simp: hash_abs_def)
  have z: "store H 0 = None" using es by (simp add: hash_inv_def list_inv_def)
  obtain r where r: "findElementWithHash H key = Some (r, strHash key)"
      "r = 0 \<and> (\<forall>x e. store H x = Some e \<longrightarrow> fold_name (pKey e) \<noteq> fold_name key) \<or>
       (\<exists>e. store H r = Some e \<and> fold_name (pKey e) = fold_name key)"
    using findElement_spec [OF es assms(2)] by blast
  from r(2) show ?thesis
  proof
    assume "r = 0 \<and> (\<forall>x e. store H x = Some e \<longrightarrow> fold_name (pKey e) \<noteq> fold_name key)"
    then show ?thesis using r(1) z hash_abs_absent [OF assms(1)] by blast
  next
    assume "\<exists>e. store H r = Some e \<and> fold_name (pKey e) = fold_name key"
    then obtain e where e: "store H r = Some e" "fold_name (pKey e) = fold_name key" by blast
    have "r \<noteq> 0" using e(1) z by (auto intro: ccontr)
    moreover have "data e \<noteq> 0" using es e(1) by (auto simp: hash_inv_def elem_ok_def)
    ultimately show ?thesis using r(1) e hash_abs_lookup [OF assms(1) e(1)] by auto
  qed
qed

lemma hashFind_spec:
  assumes "hash_abs H M" "cstring key"
  shows "sqlite3HashFind H key = Some (case M (fold_name key) of None \<Rightarrow> 0 | Some d \<Rightarrow> d)"
  using find_spec [OF assms] by (auto simp: sqlite3HashFind_def data_of_def deref_def)

text \<open>How a change at one address changes the map.\<close>

lemma hash_abs_upd:
  assumes "hash_abs H M" "hash_inv H' es'" "infos H' = (infos H)(x := w)"
    and only: "\<And>y d n h. infos H y = Some (d, n, h) \<Longrightarrow> fold_name n = k \<Longrightarrow> y = x"
    and old: "\<And>d n h. infos H x = Some (d, n, h) \<Longrightarrow> fold_name n = k"
    and new: "\<And>d n h. w = Some (d, n, h) \<Longrightarrow> fold_name n = k"
  shows "hash_abs H' (M(k := map_option fst w))"
proof -
  have m: "M j = Some d \<longleftrightarrow> (\<exists>y n h. infos H y = Some (d, n, h) \<and> fold_name n = j)" for j d
    using assms(1) unfolding hash_abs_alt by blast
  have "(M(k := map_option fst w)) j = Some d \<longleftrightarrow> (\<exists>y n h. infos H' y = Some (d, n, h) \<and> fold_name n = j)" for j d
  proof (cases "j = k")
    case True
    have "(\<exists>y n h. infos H' y = Some (d, n, h) \<and> fold_name n = k) \<longleftrightarrow> (\<exists>n h. w = Some (d, n, h))"
      unfolding assms(3) fun_upd_apply using only new by (metis option.inject)
    then show ?thesis using True by (cases w) auto
  next
    case False
    have "(\<exists>y n h. infos H' y = Some (d, n, h) \<and> fold_name n = j) \<longleftrightarrow> (\<exists>y n h. infos H y = Some (d, n, h) \<and> fold_name n = j)"
      unfolding assms(3) fun_upd_apply using old new False by metis
    then show ?thesis using False m by simp
  qed
  then show ?thesis using assms(2) unfolding hash_abs_alt by blast
qed

lemma table_inv_cong:
  assumes "ht H' = ht H" "htsize H' = htsize H" "\<And>y. y \<in> set es \<Longrightarrow> bucket_of H' y = bucket_of H y"
  shows "table_inv H' es = table_inv H es"
proof -
  have "filter (\<lambda>y. bucket_of H' y = i) es = filter (\<lambda>y. bucket_of H y = i) es" for i
    using assms(3) by (intro filter_cong) auto
  moreover have "grouped (bucket_of H') es = grouped (bucket_of H) es" using assms(3) by (rule grouped_cong)
  ultimately show ?thesis unfolding table_inv_def assms(1,2) by (simp only:)
qed

lemma unique_address:
  assumes "hash_inv H es" "infos H x = Some (d, n, h)" "infos H y = Some (d', n', h')" "fold_name n = fold_name n'"
  shows "y = x"
  using assms unfolding hash_inv_alt infos_ok_def by blast

lemma remove_abs:
  assumes "hash_abs H M" "store H x = Some e" "fold_name (pKey e) = fold_name key"
  shows "\<exists>H'. removeElement H x = Some H' \<and> hash_abs H' (M(fold_name key := None))"
proof -
  obtain es where es: "hash_inv H es" using assms(1) by (auto simp: hash_abs_def)
  obtain H' es' where r: "removeElement H x = Some H'" "hash_inv H' es'" "infos H' = (infos H)(x := None)"
    using removeElement_spec [OF es assms(2)] by blast
  have x: "infos H x = Some (data e, pKey e, hkey e)" using assms(2) by (simp add: infos_Some)
  have "hash_abs H' (M(fold_name key := map_option fst (None :: (nat \<times> cstr \<times> u32) option)))"
    using unique_address [OF es x] x assms(3) by (intro hash_abs_upd [OF assms(1) r(2,3)]) simp_all
  with r(1) show ?thesis by auto
qed

lemma replace_abs:
  assumes "hash_abs H M" "store H x = Some e" "fold_name (pKey e) = fold_name key" "d \<noteq> 0" "cstring key"
  shows "\<exists>H'. assign H x (\<lambda>e. e\<lparr>data := d, pKey := key\<rparr>) = Some H' \<and> hash_abs H' (M(fold_name key \<mapsto> d))"
proof -
  obtain es where es: "hash_inv H es" using assms(1) by (auto simp: hash_abs_def)
  define H' where "H' = H\<lparr>store := (store H)(x \<mapsto> e\<lparr>data := d, pKey := key\<rparr>)\<rparr>"
  have a: "assign H x (\<lambda>e. e\<lparr>data := d, pKey := key\<rparr>) = Some H'" using assms(2) by (simp add: assign_eq H'_def)
  have x: "infos H x = Some (data e, pKey e, hkey e)" using assms(2) by (simp add: infos_Some)
  have u: "y = x" if "infos H y = Some (d, n, h)" "fold_name n = fold_name key" for y d n h
    using unique_address [OF es x that(1)] that(2) assms(3) by simp
  have h: "hkey e = strHash key"
    using es assms(2) strHash_fold [OF assms(3)] by (auto simp: hash_inv_def elem_ok_def)
  have i: "infos H' = (infos H)(x \<mapsto> (d, key, strHash key))" by (auto simp: H'_def infos_def info_def fun_eq_iff h)
  have ptr: "linked (store H') p xs n = linked (store H) p xs n" for p xs n
    using assms(2) by (induction xs arbitrary: p) (auto simp: H'_def)
  have "x \<noteq> 0" using es assms(2) by (auto simp: hash_inv_def list_inv_def intro: ccontr)
  then have "list_inv H' es" using es ptr unfolding hash_inv_def list_inv_def by (simp add: H'_def)
  moreover have "table_inv H' es = table_inv H es"
    by (rule table_inv_cong) (use assms(2) in \<open>auto simp: H'_def bucket_of_def\<close>)
  then have "table_inv H' es" using es by (simp add: hash_inv_def)
  moreover have "infos_ok (infos H')"
    unfolding i using es assms(4,5) u by (intro infos_ok_upd) (auto simp: hash_inv_alt)
  moreover have "dom (infos H') = set es" "count H' = length es"
    using es x i by (auto simp: hash_inv_alt H'_def)
  ultimately have "hash_inv H' es" by (simp add: hash_inv_alt)
  then have "hash_abs H' (M(fold_name key := map_option fst (Some (d, key, strHash key))))"
    using u x assms(3) by (intro hash_abs_upd [OF assms(1) _ i]) auto
  with a show ?thesis by auto
qed

text \<open>A new element: the store with it, its bucket after a possible rehash, and its place in the list.\<close>

lemma insert_new:
  assumes "list_inv H es" "table_inv H es" "x \<notin> set es" "store H x = Some e0" "count H = Suc (length es)" "alloc_ok newHt"
    and "dom (infos H) = insert x (set es)" "infos_ok (infos H)"
  shows "\<exists>H' es'. do {
      H1 \<leftarrow> (if count H \<ge> 5 \<and> count H > 2 * htsize H then map_option snd (rehash newHt H (count H * 3)) else Some H);
      insertElement H1 (if ht H1 \<noteq> None then Some (unat (hkey e0) mod htsize H1) else None) x
    } = Some H' \<and> hash_inv H' es' \<and> infos H' = infos H"
proof -
  obtain H1 es1 where r: "(if count H \<ge> 5 \<and> count H > 2 * htsize H then map_option snd (rehash newHt H (count H * 3)) else Some H) = Some H1"
      "list_inv H1 es1" "table_inv H1 es1" "set es1 = set es" "infos H1 = infos H" "count H1 = count H"
  proof (cases "count H \<ge> 5 \<and> count H > 2 * htsize H")
    case True
    then obtain b H1 es1 where "rehash newHt H (count H * 3) = Some (b, H1)" "list_inv H1 es1" "table_inv H1 es1"
        "set es1 = set es" "same_info (store H) (store H1)" "count H1 = count H"
      using hash_rehash_spec [OF assms(1,2,6), of "count H * 3"] assms(5) by auto
    then show ?thesis using that [of H1 es1] True by (simp add: same_info_infos)
  next
    case False
    then show ?thesis using that [of H es] assms(1,2) by auto
  qed
  have "infos H1 x = Some (data e0, pKey e0, hkey e0)" using assms(4) r(5) by (simp add: infos_Some)
  then obtain e1 where e1: "store H1 x = Some e1" "hkey e1 = hkey e0" unfolding infos_Some by blast
  have bq: "bucket_of H1 x = unat (hkey e0) mod htsize H1" using e1 by (simp add: bucket_of_def)
  obtain H' es' where i: "insertElement H1 (if ht H1 \<noteq> None then Some (unat (hkey e0) mod htsize H1) else None) x = Some H'"
      "inserted H1 es1 x H' es'"
    using insertElement_spec [OF r(2,3) _ e1(1)] assms(3) r(4) unfolding bq by blast
  have "infos H' = infos H" using i(2) r(5) by (simp add: inserted_def same_info_infos)
  moreover have "length es' = Suc (length es)"
  proof -
    have "distinct es'" "distinct es" "set es' = insert x (set es)"
      using i(2) assms(1) r(4) by (auto simp: inserted_def list_inv_def)
    then show ?thesis using assms(3) by (metis distinct_card card_insert_disjoint List.finite_set)
  qed
  ultimately have "hash_inv H' es'"
    using i(2) r(4,6) assms(5,7,8) by (simp add: hash_inv_alt inserted_def)
  then show ?thesis using r(1) i(1) \<open>infos H' = infos H\<close> by auto
qed

lemma add_abs:
  assumes "hash_abs H M" "M (fold_name key) = None" "d \<noteq> 0" "cstring key" "store H x = None" "x \<noteq> 0" "alloc_ok newHt"
    and "H0 = H\<lparr>store := (store H)(x \<mapsto> \<lparr>next_elem = 0, prev_elem = 0, data = d, pKey = key, hkey = strHash key\<rparr>), count := count H + 1\<rparr>"
  shows "\<exists>H'. do {
      H1 \<leftarrow> (if count H0 \<ge> 5 \<and> count H0 > 2 * htsize H0 then map_option snd (rehash newHt H0 (count H0 * 3)) else Some H0);
      insertElement H1 (if ht H1 \<noteq> None then Some (unat (strHash key) mod htsize H1) else None) x
    } = Some H' \<and> hash_abs H' (M(fold_name key \<mapsto> d))"
proof -
  obtain es where es: "hash_inv H es" using assms(1) by (auto simp: hash_abs_def)
  define e0 where "e0 = \<lparr>next_elem = 0, prev_elem = 0, data = d, pKey = key, hkey = strHash key\<rparr>"
  have H0: "store H0 x = Some e0" "hkey e0 = strHash key" "count H0 = Suc (length es)"
    using es assms(8) by (auto simp: hash_inv_def e0_def)
  have x: "x \<notin> set es" using es assms(5) by (auto simp: hash_inv_def)
  have i: "infos H0 = (infos H)(x \<mapsto> (d, key, strHash key))" by (auto simp: assms(8) infos_def info_def fun_eq_iff)
  have n: "fold_name k' \<noteq> fold_name key" if "infos H y = Some (d', k', h')" for y d' k' h'
    using assms(1,2) that unfolding hash_abs_alt by (metis option.distinct(1))
  have l: "list_inv H0 es" using es x assms(6) by (auto simp: hash_inv_def list_inv_def assms(8))
  have "table_inv H0 es = table_inv H es"
    by (rule table_inv_cong) (use x in \<open>auto simp: assms(8) bucket_of_def\<close>)
  then have t: "table_inv H0 es" using es by (simp add: hash_inv_def)
  have "infos_ok (infos H0)" unfolding i using es assms(3,4) n by (intro infos_ok_upd) (auto simp: hash_inv_alt)
  moreover have "dom (infos H0) = insert x (set es)" using es i by (auto simp: hash_inv_alt)
  ultimately obtain H' es' where H': "do {
      H1 \<leftarrow> (if count H0 \<ge> 5 \<and> count H0 > 2 * htsize H0 then map_option snd (rehash newHt H0 (count H0 * 3)) else Some H0);
      insertElement H1 (if ht H1 \<noteq> None then Some (unat (hkey e0) mod htsize H1) else None) x
    } = Some H'" "hash_inv H' es'" "infos H' = infos H0"
    using insert_new [OF l t x H0(1,3) assms(7)] by blast
  have "infos H x = None" using assms(5) by (simp add: infos_def)
  then have "hash_abs H' (M(fold_name key := map_option fst (Some (d, key, strHash key))))"
    using n H'(3) unfolding i by (intro hash_abs_upd [OF assms(1) H'(2)]) auto
  then have "hash_abs H' (M(fold_name key \<mapsto> d))" by simp
  with H'(1) show ?thesis unfolding H0(2) by blast
qed

text \<open>The map operation behind \<open>sqlite3HashInsert\<close>: what it returns and the new map, with memory for a
  new element or without.\<close>

definition insert_map :: "bool \<Rightarrow> (cstr \<rightharpoonup> nat) \<Rightarrow> cstr \<Rightarrow> nat \<Rightarrow> nat \<times> (cstr \<rightharpoonup> nat)" where
  "insert_map mem M k d =
     (case M k of
        Some old \<Rightarrow> (old, M(k := if d = 0 then None else Some d))
      | None \<Rightarrow> if d = 0 then (0, M) else if mem then (0, M(k \<mapsto> d)) else (d, M))"

lemma hashInsert_spec:
  assumes "hash_abs H M" "cstring key" "newElem = 0 \<or> store H newElem = None" "alloc_ok newHt"
  shows "\<exists>H'. sqlite3HashInsert newElem newHt H key d = Some (fst (insert_map (newElem \<noteq> 0) M (fold_name key) d), H') \<and>
    hash_abs H' (snd (insert_map (newElem \<noteq> 0) M (fold_name key) d))"
proof -
  obtain r where r: "findElementWithHash H key = Some (r, strHash key)"
      "r = 0 \<and> store H 0 = None \<and> M (fold_name key) = None \<or>
       (\<exists>e. r \<noteq> 0 \<and> store H r = Some e \<and> fold_name (pKey e) = fold_name key \<and> M (fold_name key) = Some (data e) \<and> data e \<noteq> 0)"
    using find_spec [OF assms(1,2)] by blast
  from r(2) show ?thesis
  proof
    assume "\<exists>e. r \<noteq> 0 \<and> store H r = Some e \<and> fold_name (pKey e) = fold_name key \<and> M (fold_name key) = Some (data e) \<and> data e \<noteq> 0"
    then obtain e where e: "r \<noteq> 0" "store H r = Some e" "fold_name (pKey e) = fold_name key" "M (fold_name key) = Some (data e)" "data e \<noteq> 0"
      by blast
    have dd: "data_of H r = Some (data e)" using e(1,2) by (simp add: data_of_def deref_def)
    show ?thesis
    proof (cases "d = 0")
      case True
      then show ?thesis
        using remove_abs [OF assms(1) e(2,3)] e(4,5) r(1) dd by (auto simp: sqlite3HashInsert_def insert_map_def)
    next
      case False
      then show ?thesis
        using replace_abs [OF assms(1) e(2,3) False assms(2)] e(4,5) r(1) dd by (auto simp: sqlite3HashInsert_def insert_map_def)
    qed
  next
    assume n: "r = 0 \<and> store H 0 = None \<and> M (fold_name key) = None"
    then have dd: "data_of H r = Some 0" by (simp add: data_of_def)
    show ?thesis
    proof (cases "d = 0 \<or> newElem = 0")
      case True
      then show ?thesis using n r(1) dd assms(1) by (auto simp: sqlite3HashInsert_def insert_map_def)
    next
      case False
      define H0 where "H0 = H\<lparr>store := (store H)(newElem \<mapsto> \<lparr>next_elem = 0, prev_elem = 0, data = d, pKey = key, hkey = strHash key\<rparr>), count := count H + 1\<rparr>"
      have h: "M (fold_name key) = None" "d \<noteq> 0" "store H newElem = None" "newElem \<noteq> 0" using n False assms(3) by auto
      obtain H' where H': "do {
          H1 \<leftarrow> (if count H0 \<ge> 5 \<and> count H0 > 2 * htsize H0 then map_option snd (rehash newHt H0 (count H0 * 3)) else Some H0);
          insertElement H1 (if ht H1 \<noteq> None then Some (unat (strHash key) mod htsize H1) else None) newElem
        } = Some H'" "hash_abs H' (M(fold_name key \<mapsto> d))"
        using add_abs [OF assms(1) h(1,2) assms(2) h(3,4) assms(4) H0_def] by blast
      have "sqlite3HashInsert newElem newHt H key d =
          Option.bind (do {
            H1 \<leftarrow> (if count H0 \<ge> 5 \<and> count H0 > 2 * htsize H0 then map_option snd (rehash newHt H0 (count H0 * 3)) else Some H0);
            insertElement H1 (if ht H1 \<noteq> None then Some (unat (strHash key) mod htsize H1) else None) newElem
          }) (\<lambda>H. Some (0, H))"
        using False r(1) dd unfolding sqlite3HashInsert_def H0_def by (simp add: Let_def)
      then have "sqlite3HashInsert newElem newHt H key d = Some (0, H')" unfolding H'(1) by simp
      then show ?thesis using H'(2) n False by (simp add: insert_map_def)
    qed
  qed
qed

lemma hashInit_abs: "hash_abs sqlite3HashInit Map.empty"
proof -
  have "hash_inv sqlite3HashInit []"
    by (simp add: hash_inv_def list_inv_def table_inv_def sqlite3HashInit_def)
  then show ?thesis by (auto simp: hash_abs_def) (simp_all add: sqlite3HashInit_def)
qed

lemma free_all_path:
  "path (store H) a xs \<Longrightarrow> distinct xs \<Longrightarrow> length xs \<le> n \<Longrightarrow> free_all n H a = Some (H\<lparr>store := (store H) |` (- set xs)\<rparr>)"
proof (induction xs arbitrary: H a n)
  case Nil
  then show ?case by (simp add: free_all.simps)
next
  case (Cons x xs)
  then obtain e k where e: "a = x" "x \<noteq> 0" "store H x = Some e" "path (store H) (next_elem e) xs" "n = Suc k" "length xs \<le> k"
    by (cases n) auto
  let ?H = "H\<lparr>store := (store H)(x := None)\<rparr>"
  have p: "path (store ?H) (next_elem e) xs" using e(4) Cons.prems(2) by (subst path_frame [of _ _ "store H"]) auto
  have "free_all k ?H (next_elem e) = Some (?H\<lparr>store := (store ?H) |` (- set xs)\<rparr>)"
    by (rule Cons.IH [OF p]) (use Cons.prems(2) e(6) in simp_all)
  moreover have "((store H)(x := None)) |` (- set xs) = (store H) |` (- set (x # xs))"
    by (auto simp: restrict_map_def fun_eq_iff)
  moreover have "free_all (Suc k) H x = free_all k ?H (next_elem e)"
    using e by (subst free_all.simps) (simp add: free_def deref_def)
  ultimately show ?case using e(1,5) by simp
qed

lemma hashClear_spec:
  assumes "hash_abs H M"
  shows "sqlite3HashClear H = Some sqlite3HashInit"
proof -
  obtain es where es: "hash_inv H es" using assms by (auto simp: hash_abs_def)
  then have p: "path (store H) (first H) es" "distinct es" "count H = length es" "dom (store H) = set es"
    using linked_path [of "store H" 0 es] by (auto simp: hash_inv_def list_inv_def)
  let ?H = "H\<lparr>first := 0, ht := None, htsize := 0\<rparr>"
  have "free_all (count H) ?H (first H) = Some (?H\<lparr>store := (store H) |` (- set es)\<rparr>)"
    using free_all_path [of ?H "first H" es "count H"] p by simp
  moreover have "(store H) |` (- set es) = Map.empty" using p(4) by (auto simp: restrict_map_def fun_eq_iff dom_def)
  ultimately show ?thesis by (simp add: sqlite3HashClear_def sqlite3HashInit_def)
qed

section \<open>The interface\<close>

text \<open>
  A table of names as its clients see it: \<open>rep s M\<close> says that the state \<open>s\<close> stands for the map \<open>M\<close>;
  an insertion takes what the allocator returns as its first argument.
\<close>

fun run_inserts :: "('ev \<Rightarrow> 's \<Rightarrow> cstr \<Rightarrow> nat \<Rightarrow> (nat \<times> 's) option) \<Rightarrow>
    's \<Rightarrow> ('ev \<times> cstr \<times> nat) list \<Rightarrow> (nat list \<times> 's) option" where
  "run_inserts ins s [] = Some ([], s)"
| "run_inserts ins s ((ev, k, d) # cs) =
     do { (r, s) \<leftarrow> ins ev s k d; (rs, s) \<leftarrow> run_inserts ins s cs; Some (r # rs, s) }"

text \<open>
  What the allocator does in a run of insertions is possible: each event satisfies \<open>ok\<close> in the state it meets.
\<close>

fun ok_run :: "('ev \<Rightarrow> 's \<Rightarrow> bool) \<Rightarrow> ('ev \<Rightarrow> 's \<Rightarrow> cstr \<Rightarrow> nat \<Rightarrow> (nat \<times> 's) option) \<Rightarrow>
    's \<Rightarrow> ('ev \<times> cstr \<times> nat) list \<Rightarrow> bool" where
  "ok_run ok ins s [] \<longleftrightarrow> True"
| "ok_run ok ins s ((ev, k, d) # cs) \<longleftrightarrow>
     ok ev s \<and> (case ins ev s k d of None \<Rightarrow> True | Some (r, s) \<Rightarrow> ok_run ok ins s cs)"

fun map_inserts :: "('ev \<Rightarrow> bool) \<Rightarrow> (cstr \<rightharpoonup> nat) \<Rightarrow> ('ev \<times> cstr \<times> nat) list \<Rightarrow> nat list \<times> (cstr \<rightharpoonup> nat)" where
  "map_inserts mem M [] = ([], M)"
| "map_inserts mem M ((ev, k, d) # cs) =
     (case insert_map (mem ev) M (fold_name k) d of
        (r, M) \<Rightarrow> (case map_inserts mem M cs of (rs, M) \<Rightarrow> (r # rs, M)))"

locale name_table =
  fixes rep :: "'s \<Rightarrow> (cstr \<rightharpoonup> nat) \<Rightarrow> bool"
    and lookup :: "'s \<Rightarrow> cstr \<Rightarrow> nat option"
    and good :: "'ev \<Rightarrow> bool" and ok :: "'ev \<Rightarrow> 's \<Rightarrow> bool" and mem :: "'ev \<Rightarrow> bool"
    and ins :: "'ev \<Rightarrow> 's \<Rightarrow> cstr \<Rightarrow> nat \<Rightarrow> (nat \<times> 's) option"
  assumes lookup_rep: "rep s M \<Longrightarrow> cstring k \<Longrightarrow> lookup s k = Some (case M (fold_name k) of None \<Rightarrow> 0 | Some d \<Rightarrow> d)"
    and ins_rep: "rep s M \<Longrightarrow> cstring k \<Longrightarrow> good ev \<Longrightarrow> ok ev s \<Longrightarrow>
      \<exists>s'. ins ev s k d = Some (fst (insert_map (mem ev) M (fold_name k) d), s') \<and>
        rep s' (snd (insert_map (mem ev) M (fold_name k) d))"
begin

lemma run_rep:
  assumes "rep s M" "\<forall>(ev, k, d) \<in> set cs. good ev \<and> cstring k" "ok_run ok ins s cs"
  shows "\<exists>s'. run_inserts ins s cs = Some (fst (map_inserts mem M cs), s') \<and> rep s' (snd (map_inserts mem M cs))"
  using assms
proof (induction cs arbitrary: s M)
  case (Cons c cs)
  obtain ev k d where c: "c = (ev, k, d)" by (cases c)
  then have o: "ok ev s" "cstring k" "good ev" using Cons.prems by auto
  obtain t where t: "ins ev s k d = Some (fst (insert_map (mem ev) M (fold_name k) d), t)"
      "rep t (snd (insert_map (mem ev) M (fold_name k) d))"
    using ins_rep [OF Cons.prems(1) o(2,3,1)] by blast
  have "ok_run ok ins t cs" using Cons.prems(3) c t(1) by simp
  from Cons.IH [OF t(2) _ this] Cons.prems(2) show ?case by (auto simp: c t(1) split_beta)
qed simp

lemma lookup_after_runs:
  assumes "rep s M" "\<forall>(ev, k, d) \<in> set cs. good ev \<and> cstring k" "ok_run ok ins s cs"
  shows "\<exists>s'. run_inserts ins s cs = Some (fst (map_inserts mem M cs), s') \<and>
    (\<forall>key. cstring key \<longrightarrow>
      lookup s' key = Some (case snd (map_inserts mem M cs) (fold_name key) of None \<Rightarrow> 0 | Some d \<Rightarrow> d))"
  using run_rep [OF assms] lookup_rep by blast

end

definition fresh :: "nat \<times> (nat \<Rightarrow> nat option) \<Rightarrow> Hash \<Rightarrow> bool" where
  "fresh ev H \<longleftrightarrow> (fst ev = 0 \<or> store H (fst ev) = None)"

definition hash_ins :: "nat \<times> (nat \<Rightarrow> nat option) \<Rightarrow> Hash \<Rightarrow> cstr \<Rightarrow> nat \<Rightarrow> (nat \<times> Hash) option" where
  "hash_ins ev H k d = sqlite3HashInsert (fst ev) (snd ev) H k d"

interpretation hash: name_table hash_abs sqlite3HashFind "\<lambda>ev. alloc_ok (snd ev)" fresh "\<lambda>ev. fst ev \<noteq> 0" hash_ins
proof
  fix H M key
  assume "hash_abs H M" "cstring key"
  then show "sqlite3HashFind H key = Some (case M (fold_name key) of None \<Rightarrow> 0 | Some d \<Rightarrow> d)" by (rule hashFind_spec)
next
  fix H M key and ev :: "nat \<times> (nat \<Rightarrow> nat option)" and d
  assume "hash_abs H M" "cstring key" "alloc_ok (snd ev)" "fresh ev H"
  then show "\<exists>H'. hash_ins ev H key d = Some (fst (insert_map (fst ev \<noteq> 0) M (fold_name key) d), H') \<and>
      hash_abs H' (snd (insert_map (fst ev \<noteq> 0) M (fold_name key) d))"
    unfolding hash_ins_def fresh_def by (intro hashInsert_spec)
qed

text \<open>Seven calls, of which the fifth builds the bucket array, the sixth replaces and the seventh deletes.\<close>

definition seven_calls :: "((nat \<times> (nat \<Rightarrow> nat option)) \<times> cstr \<times> nat) list" where
  "seven_calls =
      [((1, Some), [121, 99, 113, 108, 120, 108], 5), ((2, Some), [32], 7), ((3, Some), [111, 116, 120, 116, 107, 118], 8),
       ((4, Some), [32, 32], 9), ((5, Some), [106, 109, 107, 117, 101, 122], 3),
       ((6, Some), [89, 67, 81, 76, 88, 76], 6), ((0, Some), [32], 0)]"

lemma seven_calls_ok:
  "\<forall>(ev, k, d) \<in> set seven_calls. alloc_ok (snd ev) \<and> cstring k" "ok_run fresh hash_ins sqlite3HashInit seven_calls"
  by (simp add: seven_calls_def alloc_ok_def cstring_def) code_simp

section \<open>Properties\<close>

text \<open>
  C4: a hash table is a map from names without regard to case.  Run any sequence of insertions,
  replacements and deletions (data 0) on a fresh table, with any of the allocations failing and any
  size of the bucket arrays: if each new element gets an address that is not in use, every call returns,
  and returns the data that the same operations on a map from folded names return, and
  \<open>sqlite3HashFind\<close> finds afterwards exactly what the map holds.
\<close>

theorem hash_refines_map:
  assumes "\<forall>(ev, k, d) \<in> set cs. alloc_ok (snd ev) \<and> cstring k"
    and "ok_run fresh hash_ins sqlite3HashInit cs"
  shows "\<exists>H. run_inserts hash_ins sqlite3HashInit cs = Some (fst (map_inserts (\<lambda>ev. fst ev \<noteq> 0) Map.empty cs), H) \<and>
    (\<forall>key. cstring key \<longrightarrow> sqlite3HashFind H key =
      Some (case snd (map_inserts (\<lambda>ev. fst ev \<noteq> 0) Map.empty cs) (fold_name key) of None \<Rightarrow> 0 | Some d \<Rightarrow> d))"
  using hash.lookup_after_runs [OF hashInit_abs assms] .

theorem hash_refines_map_witness:
  "\<exists>H. run_inserts hash_ins sqlite3HashInit seven_calls = Some ([0, 0, 0, 0, 0, 5, 7], H) \<and>
    sqlite3HashFind H [121, 99, 113, 108, 120, 108] = Some 6 \<and> sqlite3HashFind H [32] = Some 0 \<and>
    sqlite3HashFind H [74, 77, 75, 85, 69, 90] = Some 3"
proof -
  let ?m = "map_inserts (\<lambda>ev. fst ev \<noteq> 0) Map.empty seven_calls"
  have f: "fst ?m = [0, 0, 0, 0, 0, 5, 7]" "snd ?m (fold_name [121, 99, 113, 108, 120, 108]) = Some 6"
      "snd ?m (fold_name [32]) = None" "snd ?m (fold_name [74, 77, 75, 85, 69, 90]) = Some 3" by code_simp+
  obtain H where H: "run_inserts hash_ins sqlite3HashInit seven_calls = Some (fst ?m, H)"
      "\<And>key. cstring key \<Longrightarrow> sqlite3HashFind H key = Some (case snd ?m (fold_name key) of None \<Rightarrow> 0 | Some d \<Rightarrow> d)"
    using hash_refines_map [OF seven_calls_ok] by auto
  have "cstring [121, 99, 113, 108, 120, 108]" "cstring [32]" "cstring [74, 77, 75, 85, 69, 90]" by (simp_all add: cstring_def)
  from this [THEN H(2)] H(1) show ?thesis unfolding f by (intro exI [of _ H]) simp
qed

text \<open>
  C18: \<open>sqlite3HashInsert\<close> on a table that stands for the map \<open>M\<close> never follows a dangling or null pointer:
  it returns, whether the element is replaced, removed or linked in, the table grows or not, and
  whichever allocation fails.  The result again satisfies the invariant (one doubly linked list, the
  buckets as adjacent parts of it) and stands for \<open>M\<close> with the change; without memory for a new element
  it returns the new data and changes nothing.
\<close>

theorem sqlite3HashInsert_safe:
  assumes "hash_abs H M" "cstring key" "newElem = 0 \<or> store H newElem = None" "alloc_ok newHt"
  shows "\<exists>r H' M'. sqlite3HashInsert newElem newHt H key d = Some (r, H') \<and> hash_abs H' M' \<and>
    (r, M') = insert_map (newElem \<noteq> 0) M (fold_name key) d"
  using hashInsert_spec [OF assms, of d] by (metis prod.collapse)

theorem sqlite3HashInsert_safe_witness:
  "\<exists>H' M'. sqlite3HashInsert 1 Some sqlite3HashInit [65] 5 = Some (0, H') \<and> hash_abs H' M' \<and> M' [97] = Some 5"
proof -
  have k: "fold_name [65] = [97]" by code_simp
  have i: "insert_map True Map.empty [97] 5 = (0, Map.empty([97] \<mapsto> 5))" by (simp add: insert_map_def)
  have "cstring [65]" "alloc_ok Some" by (simp_all add: cstring_def alloc_ok_def)
  with sqlite3HashInsert_safe [OF hashInit_abs, of "[65]" 1 Some 5]
  obtain H' where "sqlite3HashInsert 1 Some sqlite3HashInit [65] 5 = Some (0, H')" "hash_abs H' (Map.empty([97] \<mapsto> 5))"
    unfolding k by (auto simp: sqlite3HashInit_def i)
  then show ?thesis by (intro exI [of _ H'] exI [of _ "Map.empty([97] \<mapsto> 5)"]) simp
qed

text \<open>
  C33: \<open>sqlite3HashClear\<close> on any table that satisfies the invariant ends, frees every element exactly once
  and leaves the empty table of \<open>sqlite3HashInit\<close>.
\<close>

theorem sqlite3HashClear_frees:
  assumes "hash_abs H M"
  shows "sqlite3HashClear H = Some sqlite3HashInit"
  using assms by (rule hashClear_spec)

theorem sqlite3HashClear_frees_witness:
  "\<exists>rs H. run_inserts hash_ins sqlite3HashInit seven_calls = Some (rs, H) \<and> sqlite3HashClear H = Some sqlite3HashInit"
  using hash.run_rep [OF hashInit_abs seven_calls_ok] sqlite3HashClear_frees by blast

end
