(* ===== verification/Sq_Rowset.thy ===== *)
theory Sq_Rowset
  imports Sq_Prelude "HOL-Library.Monad_Syntax" "HOL-Library.Tree"
begin

text \<open>
  rowset.c: the sets of rowids that the virtual machine collects.

  Entries live in a store from addresses to values, with 0 as the null pointer; an entry takes 24 bytes.
  Reading or writing through a pointer to no entry, freeing a chunk that is not allocated and storing
  past the 40 buckets of the sort make the whole operation \<open>None\<close>, as does a loop that does not end, so that
  a result shows that none of this happens.

  What the allocator returns is an input: the address of a new chunk (0 on failure) with the bytes it
  happens to hold.  Rowids are 64-bit integers that are only compared, here integers.
\<close>

section \<open>Model\<close>

record RowSetEntry =
  rowid_v :: int
  pRight :: nat
  pLeft :: nat

type_synonym entries = "nat \<rightharpoonup> RowSetEntry"

record RowSet =
  pChunk :: nat
  pEntry :: nat
  pLast :: nat
  pFresh :: nat
  pForest :: nat
  nFresh :: nat
  rsFlags :: u16
  iBatch :: int
  own_entries :: "nat list"
  entry_store :: entries
  chunk_store :: "nat \<rightharpoonup> nat"

type_synonym new_chunk = "nat \<times> (nat \<Rightarrow> RowSetEntry)"

abbreviation (input) ROWSET_ALLOCATION_SIZE :: nat where "ROWSET_ALLOCATION_SIZE \<equiv> 1024"

abbreviation (input) ENTRY_SIZE :: nat where "ENTRY_SIZE \<equiv> 24"

definition ROWSET_ENTRY_PER_CHUNK :: nat where
  "ROWSET_ENTRY_PER_CHUNK = (ROWSET_ALLOCATION_SIZE - 8) div ENTRY_SIZE"

definition ROWSET_SORTED :: u16 where "ROWSET_SORTED = 1"

definition ROWSET_NEXT :: u16 where "ROWSET_NEXT = 2"

definition entry_addrs :: "nat \<Rightarrow> nat \<Rightarrow> nat list" where
  "entry_addrs a n = map (\<lambda>i. a + ENTRY_SIZE * i) [0..<n]"

definition raw_entries :: "nat list \<Rightarrow> (nat \<Rightarrow> RowSetEntry) \<Rightarrow> entries" where
  "raw_entries as junk = (\<lambda>x. if x \<in> set as then Some (junk x) else None)"

text \<open>\<open>sqlite3RowSetInit\<close>: the object at address \<open>a\<close> was given \<open>N\<close> bytes, and what follows its 56 bytes is the
  first pool of entries; they are freed with the object.\<close>

definition sqlite3RowSetInit :: "new_chunk \<Rightarrow> nat \<Rightarrow> RowSet option" where
  "sqlite3RowSetInit mem N =
     (if fst mem = 0 then None
      else
        let n = unat (of_nat ((N - 56) div ENTRY_SIZE) :: u16) in
        let own = entry_addrs (fst mem + 56) n in
        Some \<lparr>pChunk = 0, pEntry = 0, pLast = 0, pFresh = fst mem + 56, pForest = 0, nFresh = n,
          rsFlags = ROWSET_SORTED, iBatch = 0, own_entries = own,
          entry_store = raw_entries own (snd mem), chunk_store = (\<lambda>_. None)\<rparr>)"

definition rs_assign :: "entries \<Rightarrow> nat \<Rightarrow> (RowSetEntry \<Rightarrow> RowSetEntry) \<Rightarrow> entries option" where
  "rs_assign m p f = do { e \<leftarrow> m p; Some (m(p \<mapsto> f e)) }"

partial_function (option) free_chunks :: "entries \<Rightarrow> (nat \<rightharpoonup> nat) \<Rightarrow> nat \<Rightarrow> (entries \<times> (nat \<rightharpoonup> nat)) option" where
  "free_chunks m cm pC =
     (if pC = 0 then Some (m, cm)
      else
        do {
          pNext \<leftarrow> cm pC;
          free_chunks (m |` (- set (entry_addrs (pC + 8) ROWSET_ENTRY_PER_CHUNK))) (cm(pC := None)) pNext
        })"

definition sqlite3RowSetClear :: "RowSet \<Rightarrow> RowSet option" where
  "sqlite3RowSetClear p =
     do {
       (m, cm) \<leftarrow> free_chunks (entry_store p) (chunk_store p) (pChunk p);
       Some (p\<lparr>pChunk := 0, nFresh := 0, pEntry := 0, pLast := 0, pForest := 0, rsFlags := ROWSET_SORTED,
               entry_store := m, chunk_store := cm\<rparr>)
     }"

text \<open>\<open>sqlite3RowSetDelete\<close> returns what is still allocated.\<close>

definition sqlite3RowSetDelete :: "RowSet \<Rightarrow> (entries \<times> (nat \<rightharpoonup> nat)) option" where
  "sqlite3RowSetDelete p = do { p \<leftarrow> sqlite3RowSetClear p; Some (entry_store p |` (- set (own_entries p)), chunk_store p) }"

definition rowSetEntryAlloc :: "new_chunk \<Rightarrow> RowSet \<Rightarrow> nat \<times> RowSet" where
  "rowSetEntryAlloc pNew p =
     (if nFresh p = 0 \<and> fst pNew = 0 then (0, p)
      else
        let p =
          (if nFresh p = 0 then
             p\<lparr>chunk_store := (chunk_store p)(fst pNew \<mapsto> pChunk p),
               pChunk := fst pNew, pFresh := fst pNew + 8, nFresh := ROWSET_ENTRY_PER_CHUNK,
               entry_store := entry_store p ++ raw_entries (entry_addrs (fst pNew + 8) ROWSET_ENTRY_PER_CHUNK) (snd pNew)\<rparr>
           else p)
        in (pFresh p, p\<lparr>nFresh := nFresh p - 1, pFresh := pFresh p + ENTRY_SIZE\<rparr>))"

definition sqlite3RowSetInsert :: "new_chunk \<Rightarrow> RowSet \<Rightarrow> int \<Rightarrow> RowSet option" where
  "sqlite3RowSetInsert pNew p rowid =
     (case rowSetEntryAlloc pNew p of
        (e, p) \<Rightarrow>
          if e = 0 then Some p
          else
            do {
              m \<leftarrow> rs_assign (entry_store p) e (\<lambda>x. x\<lparr>rowid_v := rowid, pRight := 0\<rparr>);
              p \<leftarrow>
                (if pLast p \<noteq> 0 then
                   do {
                     l \<leftarrow> m (pLast p);
                     m \<leftarrow> rs_assign m (pLast p) (\<lambda>x. x\<lparr>pRight := e\<rparr>);
                     Some (p\<lparr>rsFlags := (if rowid \<le> rowid_v l then rsFlags p AND NOT ROWSET_SORTED else rsFlags p),
                             entry_store := m\<rparr>)
                   }
                 else Some (p\<lparr>pEntry := e, entry_store := m\<rparr>));
              Some (p\<lparr>pLast := e\<rparr>)
            })"

text \<open>\<open>rowSetEntryMerge\<close>: \<open>pTail\<close> is \<open>None\<close> while it points to the local \<open>head\<close>, of which only \<open>pRight\<close> is used.\<close>

definition set_right :: "entries \<Rightarrow> nat \<Rightarrow> nat option \<Rightarrow> nat \<Rightarrow> (entries \<times> nat) option" where
  "set_right m head pTail p =
     (case pTail of
        None \<Rightarrow> Some (m, p)
      | Some t \<Rightarrow> do { m \<leftarrow> rs_assign m t (\<lambda>e. e\<lparr>pRight := p\<rparr>); Some (m, head) })"

partial_function (option) merge_loop ::
  "entries \<Rightarrow> nat \<Rightarrow> nat option \<Rightarrow> nat \<Rightarrow> nat \<Rightarrow> (entries \<times> nat) option" where
  "merge_loop m head pTail pA pB =
     do {
       a \<leftarrow> m pA;
       b \<leftarrow> m pB;
       if rowid_v a \<le> rowid_v b then
         do {
           (m, head) \<leftarrow> (if rowid_v a < rowid_v b then set_right m head pTail pA else Some (m, head));
           let pTail = (if rowid_v a < rowid_v b then Some pA else pTail) in
           do {
             a \<leftarrow> m pA;
             if pRight a = 0 then set_right m head pTail pB else merge_loop m head pTail (pRight a) pB
           }
         }
       else
         do {
           (m, head) \<leftarrow> set_right m head pTail pB;
           b \<leftarrow> m pB;
           if pRight b = 0 then set_right m head (Some pB) pA else merge_loop m head (Some pB) pA (pRight b)
         }
     }"

definition rowSetEntryMerge :: "entries \<Rightarrow> nat \<Rightarrow> nat \<Rightarrow> (entries \<times> nat) option" where
  "rowSetEntryMerge m pA pB = merge_loop m 0 None pA pB"

text \<open>\<open>rowSetEntrySort\<close>: the loop over \<open>i\<close> walks down the list of the buckets from \<open>aBucket[0]\<close>.\<close>

fun sort_bucket :: "entries \<Rightarrow> nat list \<Rightarrow> nat \<Rightarrow> (entries \<times> nat list) option" where
  "sort_bucket m [] pIn = None"
| "sort_bucket m (b # bs) pIn =
     (if b = 0 then Some (m, pIn # bs)
      else
        do {
          (m, pIn) \<leftarrow> rowSetEntryMerge m b pIn;
          (m, bs) \<leftarrow> sort_bucket m bs pIn;
          Some (m, 0 # bs)
        })"

partial_function (option) sort_loop :: "entries \<Rightarrow> nat list \<Rightarrow> nat \<Rightarrow> (entries \<times> nat list) option" where
  "sort_loop m aBucket pIn =
     (if pIn = 0 then Some (m, aBucket)
      else
        do {
          e \<leftarrow> m pIn;
          m \<leftarrow> rs_assign m pIn (\<lambda>e. e\<lparr>pRight := 0\<rparr>);
          (m, aBucket) \<leftarrow> sort_bucket m aBucket pIn;
          sort_loop m aBucket (pRight e)
        })"

fun sort_collect :: "entries \<Rightarrow> nat list \<Rightarrow> nat \<Rightarrow> (entries \<times> nat) option" where
  "sort_collect m [] pIn = Some (m, pIn)"
| "sort_collect m (b # bs) pIn =
     (if b = 0 then sort_collect m bs pIn
      else if pIn \<noteq> 0 then do { (m, pIn) \<leftarrow> rowSetEntryMerge m pIn b; sort_collect m bs pIn }
      else sort_collect m bs b)"

definition rowSetEntrySort :: "entries \<Rightarrow> nat \<Rightarrow> (entries \<times> nat) option" where
  "rowSetEntrySort m pIn =
     do {
       (m, aBucket) \<leftarrow> sort_loop m (replicate 40 0) pIn;
       sort_collect m (tl aBucket) (hd aBucket)
     }"

text \<open>\<open>rowSetTreeToList\<close> returns the head and the tail of the list.\<close>

partial_function (option) rowSetTreeToList :: "entries \<Rightarrow> nat \<Rightarrow> (entries \<times> nat \<times> nat) option" where
  "rowSetTreeToList m pIn =
     do {
       e \<leftarrow> m pIn;
       (m, pFirst) \<leftarrow>
         (if pLeft e \<noteq> 0 then
            do {
              (m, pFirst, p) \<leftarrow> rowSetTreeToList m (pLeft e);
              m \<leftarrow> rs_assign m p (\<lambda>e. e\<lparr>pRight := pIn\<rparr>);
              Some (m, pFirst)
            }
          else Some (m, pIn));
       e \<leftarrow> m pIn;
       if pRight e \<noteq> 0 then
         do {
           (m, r, pLast) \<leftarrow> rowSetTreeToList m (pRight e);
           m \<leftarrow> rs_assign m pIn (\<lambda>e. e\<lparr>pRight := r\<rparr>);
           Some (m, pFirst, pLast)
         }
       else Some (m, pFirst, pIn)
     }"

text \<open>\<open>rowSetNDeepTree\<close> returns the tree and the rest of the list.\<close>

fun rowSetNDeepTree :: "entries \<Rightarrow> nat \<Rightarrow> nat \<Rightarrow> (entries \<times> nat \<times> nat) option" where
  "rowSetNDeepTree m pList iDepth =
     (if pList = 0 then Some (m, 0, 0)
      else if iDepth > 1 then
        do {
          (m, l, p) \<leftarrow> rowSetNDeepTree m pList (iDepth - 1);
          if p = 0 then Some (m, l, 0)
          else
            do {
              m \<leftarrow> rs_assign m p (\<lambda>e. e\<lparr>pLeft := l\<rparr>);
              e \<leftarrow> m p;
              (m, r, pList) \<leftarrow> rowSetNDeepTree m (pRight e) (iDepth - 1);
              m \<leftarrow> rs_assign m p (\<lambda>e. e\<lparr>pRight := r\<rparr>);
              Some (m, p, pList)
            }
        }
      else
        do {
          e \<leftarrow> m pList;
          m \<leftarrow> rs_assign m pList (\<lambda>e. e\<lparr>pLeft := 0, pRight := 0\<rparr>);
          Some (m, pList, pRight e)
        })"

partial_function (option) list_tree_loop :: "entries \<Rightarrow> nat \<Rightarrow> nat \<Rightarrow> nat \<Rightarrow> (entries \<times> nat) option" where
  "list_tree_loop m p pList iDepth =
     (if pList = 0 then Some (m, p)
      else
        do {
          e \<leftarrow> m pList;
          m \<leftarrow> rs_assign m pList (\<lambda>e. e\<lparr>pLeft := p\<rparr>);
          (m, r, rest) \<leftarrow> rowSetNDeepTree m (pRight e) iDepth;
          m \<leftarrow> rs_assign m pList (\<lambda>e. e\<lparr>pRight := r\<rparr>);
          list_tree_loop m pList rest (iDepth + 1)
        })"

definition rowSetListToTree :: "entries \<Rightarrow> nat \<Rightarrow> (entries \<times> nat) option" where
  "rowSetListToTree m pList =
     do {
       e \<leftarrow> m pList;
       m \<leftarrow> rs_assign m pList (\<lambda>e. e\<lparr>pLeft := 0, pRight := 0\<rparr>);
       list_tree_loop m pList (pRight e) 1
     }"

text \<open>\<open>sqlite3RowSetNext\<close> returns the rowid if there is one.\<close>

definition sqlite3RowSetNext :: "RowSet \<Rightarrow> (int option \<times> RowSet) option" where
  "sqlite3RowSetNext p =
     do {
       p \<leftarrow>
         (if rsFlags p AND ROWSET_NEXT = 0 then
            do {
              p \<leftarrow> (if rsFlags p AND ROWSET_SORTED = 0 then
                     do { (m, e) \<leftarrow> rowSetEntrySort (entry_store p) (pEntry p); Some (p\<lparr>pEntry := e, entry_store := m\<rparr>) }
                   else Some p);
              Some (p\<lparr>rsFlags := rsFlags p OR (ROWSET_SORTED OR ROWSET_NEXT)\<rparr>)
            }
          else Some p);
       if pEntry p \<noteq> 0 then
         do {
           e \<leftarrow> entry_store p (pEntry p);
           p \<leftarrow> Some (p\<lparr>pEntry := pRight e\<rparr>);
           p \<leftarrow> (if pEntry p = 0 then sqlite3RowSetClear p else Some p);
           Some (Some (rowid_v e), p)
         }
       else Some (None, p)
     }"

text \<open>\<open>sqlite3RowSetTest\<close>: the loop that puts the list \<open>p\<close> into the forest.  \<open>ppPrevTree\<close> is \<open>None\<close> while it points to
  the field \<open>pForest\<close> and \<open>Some t\<close> when it points to \<open>pRight\<close> of the entry \<open>t\<close>.\<close>

partial_function (option) forest_put ::
  "entries \<Rightarrow> nat option \<Rightarrow> nat \<Rightarrow> nat \<Rightarrow> (entries \<times> nat option \<times> nat \<times> nat) option" where
  "forest_put m ppPrevTree pTree p =
     (if pTree = 0 then Some (m, ppPrevTree, pTree, p)
      else
        do {
          t \<leftarrow> m pTree;
          if pLeft t = 0 then
            do {
              (m, r) \<leftarrow> rowSetListToTree m p;
              m \<leftarrow> rs_assign m pTree (\<lambda>e. e\<lparr>pLeft := r\<rparr>);
              Some (m, Some pTree, pTree, p)
            }
          else
            do {
              (m, pAux, pTail) \<leftarrow> rowSetTreeToList m (pLeft t);
              m \<leftarrow> rs_assign m pTree (\<lambda>e. e\<lparr>pLeft := 0\<rparr>);
              (m, p) \<leftarrow> rowSetEntryMerge m pAux p;
              t \<leftarrow> m pTree;
              forest_put m (Some pTree) (pRight t) p
            }
        })"

definition set_prev :: "RowSet \<Rightarrow> nat option \<Rightarrow> nat \<Rightarrow> RowSet option" where
  "set_prev r ppPrevTree a =
     (case ppPrevTree of
        None \<Rightarrow> Some (r\<lparr>pForest := a\<rparr>)
      | Some t \<Rightarrow> do { m \<leftarrow> rs_assign (entry_store r) t (\<lambda>e. e\<lparr>pRight := a\<rparr>); Some (r\<lparr>entry_store := m\<rparr>) })"

text \<open>The new tree at the end of the forest, at the address \<open>a\<close> that \<open>rowSetEntryAlloc\<close> returned.\<close>

definition forest_grow :: "nat \<Rightarrow> nat option \<Rightarrow> nat \<Rightarrow> RowSet \<Rightarrow> RowSet option" where
  "forest_grow p prev a r =
     do {
       r \<leftarrow> set_prev r prev a;
       if a \<noteq> 0 then
         do {
           m \<leftarrow> rs_assign (entry_store r) a (\<lambda>e. e\<lparr>rowid_v := 0, pRight := 0\<rparr>);
           (m, t) \<leftarrow> rowSetListToTree m p;
           m \<leftarrow> rs_assign m a (\<lambda>e. e\<lparr>pLeft := t\<rparr>);
           Some (r\<lparr>entry_store := m\<rparr>)
         }
       else Some r
     }"

definition rs_new_batch :: "new_chunk \<Rightarrow> RowSet \<Rightarrow> RowSet option" where
  "rs_new_batch pNew r =
     (if pEntry r = 0 then Some r
      else
        do {
          (m, p) \<leftarrow> (if rsFlags r AND ROWSET_SORTED = 0 then rowSetEntrySort (entry_store r) (pEntry r)
                     else Some (entry_store r, pEntry r));
          (m, ppPrevTree, pTree, p) \<leftarrow> forest_put m None (pForest r) p;
          r \<leftarrow> Some (r\<lparr>entry_store := m\<rparr>);
          r \<leftarrow>
            (if pTree = 0 then
               case rowSetEntryAlloc pNew r of (a, r) \<Rightarrow> forest_grow p ppPrevTree a r
             else Some r);
          Some (r\<lparr>pEntry := 0, pLast := 0, rsFlags := rsFlags r OR ROWSET_SORTED\<rparr>)
        })"

partial_function (option) tree_search :: "entries \<Rightarrow> nat \<Rightarrow> int \<Rightarrow> bool option" where
  "tree_search m p iRowid =
     (if p = 0 then Some False
      else
        do {
          e \<leftarrow> m p;
          if rowid_v e < iRowid then tree_search m (pRight e) iRowid
          else if rowid_v e > iRowid then tree_search m (pLeft e) iRowid
          else Some True
        })"

partial_function (option) forest_search :: "entries \<Rightarrow> nat \<Rightarrow> int \<Rightarrow> bool option" where
  "forest_search m pTree iRowid =
     (if pTree = 0 then Some False
      else
        do {
          t \<leftarrow> m pTree;
          found \<leftarrow> tree_search m (pLeft t) iRowid;
          if found then Some True else forest_search m (pRight t) iRowid
        })"

definition sqlite3RowSetTest :: "new_chunk \<Rightarrow> RowSet \<Rightarrow> int \<Rightarrow> int \<Rightarrow> (bool \<times> RowSet) option" where
  "sqlite3RowSetTest pNew r b iRowid =
     do {
       r \<leftarrow> (if b \<noteq> iBatch r then do { r \<leftarrow> rs_new_batch pNew r; Some (r\<lparr>iBatch := b\<rparr>) } else Some r);
       found \<leftarrow> forest_search (entry_store r) (pForest r) iRowid;
       Some (found, r)
     }"

lemmas rowset_code [code] = free_chunks.simps merge_loop.simps sort_loop.simps rowSetTreeToList.simps list_tree_loop.simps
  forest_put.simps tree_search.simps forest_search.simps

declare rowSetNDeepTree.simps [simp del]

section \<open>Lists in the store\<close>

fun rs_list :: "entries \<Rightarrow> nat \<Rightarrow> nat list \<Rightarrow> bool" where
  "rs_list m p [] \<longleftrightarrow> p = 0"
| "rs_list m p (x # xs) \<longleftrightarrow> p = x \<and> x \<noteq> 0 \<and> (\<exists>e. m x = Some e \<and> rs_list m (pRight e) xs)"

definition rkey :: "entries \<Rightarrow> nat \<Rightarrow> int" where
  "rkey m x = rowid_v (the (m x))"

text \<open>\<open>changes S m m'\<close>: from \<open>m\<close> to \<open>m'\<close> only pointers of entries in \<open>S\<close> change.\<close>

definition changes :: "nat set \<Rightarrow> entries \<Rightarrow> entries \<Rightarrow> bool" where
  "changes S m m' \<longleftrightarrow> (\<forall>x. map_option rowid_v (m' x) = map_option rowid_v (m x)) \<and> (\<forall>x. x \<notin> S \<longrightarrow> m' x = m x)"

lemma changes_refl [simp]: "changes S m m"
  by (simp add: changes_def)

lemma changes_trans: "changes S m m' \<Longrightarrow> changes T m' m'' \<Longrightarrow> S \<union> T \<subseteq> U \<Longrightarrow> changes U m m''"
  unfolding changes_def by (metis UnCI subset_iff)

lemma changes_mono: "changes S m m' \<Longrightarrow> S \<subseteq> T \<Longrightarrow> changes T m m'"
  unfolding changes_def by blast

lemma changes_other: "changes S m m' \<Longrightarrow> x \<notin> S \<Longrightarrow> m' x = m x"
  by (simp add: changes_def)

lemma changes_upd: "m x = Some e \<Longrightarrow> rowid_v e' = rowid_v e \<Longrightarrow> x \<in> S \<Longrightarrow> changes S m (m(x \<mapsto> e'))"
  by (simp add: changes_def)

lemma changes_rkey: "changes S m m' \<Longrightarrow> rkey m' = rkey m"
proof
  fix x
  assume "changes S m m'"
  then have "map_option rowid_v (m' x) = map_option rowid_v (m x)" by (simp add: changes_def)
  then show "rkey m' x = rkey m x" by (cases "m x"; cases "m' x") (simp_all add: rkey_def)
qed

lemma changes_live: "changes S m m' \<Longrightarrow> m' x = None \<longleftrightarrow> m x = None"
  unfolding changes_def by (metis option.map_disc_iff)

lemma changes_dom: "changes S m m' \<Longrightarrow> dom m' = dom m"
  using changes_live [of S m m'] by (auto simp: dom_def)

lemma rs_list_frame: "(\<And>x. x \<in> set xs \<Longrightarrow> m' x = m x) \<Longrightarrow> rs_list m' p xs = rs_list m p xs"
  by (induction xs arbitrary: p) auto

lemma rs_list_changes: "changes S m m' \<Longrightarrow> S \<inter> set xs = {} \<Longrightarrow> rs_list m' p xs = rs_list m p xs"
  by (rule rs_list_frame) (auto simp: changes_def)

lemma rs_list_upd [simp]: "a \<notin> set xs \<Longrightarrow> rs_list (m(a := v)) p xs = rs_list m p xs"
  by (rule rs_list_frame) auto

lemma rs_list_live: "rs_list m p xs \<Longrightarrow> x \<in> set xs \<Longrightarrow> x \<noteq> 0 \<and> (\<exists>e. m x = Some e)"
  by (induction xs arbitrary: p) auto

lemma rs_list_null [simp]: "rs_list m 0 xs \<longleftrightarrow> xs = []"
  by (cases xs) auto

lemma rs_list_zero: "rs_list m p xs \<Longrightarrow> p = 0 \<longleftrightarrow> xs = []"
  by (cases xs) auto

lemma rs_assign_eq: "m p = Some e \<Longrightarrow> rs_assign m p f = Some (m(p \<mapsto> f e))"
  by (simp add: rs_assign_def)

section \<open>Merging\<close>

fun amerge :: "(nat \<Rightarrow> int) \<Rightarrow> nat list \<Rightarrow> nat list \<Rightarrow> nat list" where
  "amerge k [] bs = bs"
| "amerge k (a # as) [] = a # as"
| "amerge k (a # as) (b # bs) =
     (if k a \<le> k b then if k a < k b then a # amerge k as (b # bs) else amerge k as (b # bs)
      else b # amerge k (a # as) bs)"

abbreviation strict :: "(nat \<Rightarrow> int) \<Rightarrow> nat list \<Rightarrow> bool" where
  "strict k xs \<equiv> sorted_wrt (<) (map k xs)"

lemma amerge_set: "set (amerge k as bs) \<subseteq> set as \<union> set bs"
  by (induction k as bs rule: amerge.induct) auto

lemma amerge_keys: "k ` set (amerge k as bs) = k ` set as \<union> k ` set bs"
  by (induction k as bs rule: amerge.induct) (auto simp: image_iff)

lemma amerge_Nil2 [simp]: "amerge k as [] = as"
  by (cases as) auto

lemma amerge_nonempty: "as \<noteq> [] \<or> bs \<noteq> [] \<Longrightarrow> amerge k as bs \<noteq> []"
  by (induction k as bs rule: amerge.induct) auto

lemma amerge_distinct: "distinct (as @ bs) \<Longrightarrow> distinct (amerge k as bs)"
proof (induction k as bs rule: amerge.induct)
  case (3 k a as b bs)
  then show ?case using amerge_set [of k as "b # bs"] amerge_set [of k "a # as" bs] by auto
qed auto

lemma amerge_cong: "(\<And>x. x \<in> set as \<union> set bs \<Longrightarrow> k x = k' x) \<Longrightarrow> amerge k as bs = amerge k' as bs"
  by (induction k as bs rule: amerge.induct) auto

lemma strict_iff: "strict k (x # xs) \<longleftrightarrow> (\<forall>y \<in> k ` set xs. k x < y) \<and> strict k xs"
  by auto

lemma amerge_strict: "strict k as \<Longrightarrow> strict k bs \<Longrightarrow> strict k (amerge k as bs)"
proof (induction k as bs rule: amerge.induct)
  case (3 k a as b bs)
  have "\<forall>y \<in> k ` set (amerge k as (b # bs)). k a < y" if "k a < k b"
    unfolding amerge_keys using 3(4,5) that by auto
  moreover have "\<forall>y \<in> k ` set (amerge k (a # as) bs). k b < y" if "k b < k a"
    unfolding amerge_keys using 3(4,5) that by auto
  ultimately show ?case using 3 by auto
qed auto

definition tail_of :: "entries \<Rightarrow> nat \<Rightarrow> nat option \<Rightarrow> nat" where
  "tail_of m h pTail = (case pTail of None \<Rightarrow> h | Some t \<Rightarrow> pRight (the (m t)))"

definition tail_ok :: "entries \<Rightarrow> nat option \<Rightarrow> nat set \<Rightarrow> bool" where
  "tail_ok m pTail S \<longleftrightarrow> (\<forall>t. pTail = Some t \<longrightarrow> t \<notin> S \<and> m t \<noteq> None)"

lemma set_right_spec:
  assumes "tail_ok m pTail S"
  shows "\<exists>m' h'. set_right m h pTail p = Some (m', h') \<and> changes (set_option pTail) m m' \<and> tail_of m' h' pTail = p \<and>
    (pTail \<noteq> None \<longrightarrow> h' = h)"
proof (cases pTail)
  case (Some t)
  then obtain e where "m t = Some e" using assms by (auto simp: tail_ok_def)
  then show ?thesis using Some by (simp add: set_right_def rs_assign_eq tail_of_def changes_upd)
qed (simp add: set_right_def tail_of_def)

lemma tail_of_changes: "changes S m m' \<Longrightarrow> (\<And>t. pTail = Some t \<Longrightarrow> t \<notin> S) \<Longrightarrow> tail_of m' h pTail = tail_of m h pTail"
  by (auto simp: tail_of_def changes_def split: option.split)

definition merged :: "(nat \<Rightarrow> int) \<Rightarrow> entries \<Rightarrow> nat \<Rightarrow> nat option \<Rightarrow> nat list \<Rightarrow> nat list \<Rightarrow> entries \<times> nat \<Rightarrow> bool" where
  "merged k m h pTail as bs r \<longleftrightarrow>
     changes (set as \<union> set bs \<union> set_option pTail) m (fst r) \<and>
     rs_list (fst r) (tail_of (fst r) (snd r) pTail) (amerge k as bs) \<and> (pTail \<noteq> None \<longrightarrow> snd r = h)"

text \<open>Linking \<open>x\<close> after the tail and going on with \<open>x\<close> as the tail.\<close>

lemma merged_link:
  assumes s: "changes (set_option pTail) m m1" "tail_of m1 h1 pTail = x" "pTail \<noteq> None \<longrightarrow> h1 = h"
    and r: "merged k m1 h1 (Some x) as bs r"
    and x: "m x \<noteq> None" "x \<noteq> 0" "tail_ok m pTail (insert x (set as \<union> set bs))" "x \<notin> set as \<union> set bs"
    and c: "amerge k as' bs' = x # amerge k as bs" "set as' \<union> set bs' = insert x (set as \<union> set bs)"
  shows "merged k m h pTail as' bs' r"
proof -
  obtain m' h' where rr: "r = (m', h')" by (cases r)
  have r': "changes (insert x (set as \<union> set bs)) m1 m'" "rs_list m' (pRight (the (m' x))) (amerge k as bs)" "h' = h1"
    using r by (auto simp: merged_def rr tail_of_def)
  have "changes (set as' \<union> set bs' \<union> set_option pTail) m m'"
    by (rule changes_trans [OF s(1) r'(1)]) (use c(2) in auto)
  moreover have "tail_of m' h' pTail = x"
    using tail_of_changes [OF r'(1), of pTail h1] x(3) s(2) r'(3) by (auto simp: tail_ok_def)
  moreover have "m' x \<noteq> None" using changes_live [OF s(1)] changes_live [OF r'(1)] x(1) by simp
  ultimately show ?thesis using r'(2,3) s(3) x(2) by (auto simp: merged_def rr c(1))
qed

lemma link_step:
  assumes "tail_ok m pTail (insert x (set as \<union> set bs))" "m x = Some e" "x \<noteq> 0" "x \<notin> set as \<union> set bs"
    and c: "amerge k as' bs' = x # amerge k as bs" "set as' \<union> set bs' = insert x (set as \<union> set bs)"
    and go: "\<And>m1 h1. changes (set_option pTail) m m1 \<Longrightarrow> m1 x = Some e \<Longrightarrow>
      \<exists>r. G m1 h1 e = Some r \<and> merged k m1 h1 (Some x) as bs r"
  shows "\<exists>r. do { (m1, h1) \<leftarrow> set_right m h pTail x; e \<leftarrow> m1 x; G m1 h1 e } = Some r \<and> merged k m h pTail as' bs' r"
proof -
  obtain m1 h1 where s: "set_right m h pTail x = Some (m1, h1)" "changes (set_option pTail) m m1" "tail_of m1 h1 pTail = x"
      "pTail \<noteq> None \<longrightarrow> h1 = h"
    using set_right_spec [OF assms(1), of h x] by blast
  have o: "m1 x = Some e" using s(2) assms(1,2) by (auto simp: tail_ok_def changes_def)
  obtain r where r: "G m1 h1 e = Some r" "merged k m1 h1 (Some x) as bs r" using go [OF s(2) o] by blast
  have "merged k m h pTail as' bs' r"
    by (rule merged_link [OF s(2-4) r(2)]) (use assms(1-4) c in auto)
  then show ?thesis using s(1) o r(1) by simp
qed

lemma merge_end:
  assumes "tail_ok m pTail (set ds)" "rs_list m p ds" "amerge k as bs = ds" "set ds \<subseteq> set as \<union> set bs"
  shows "\<exists>r. set_right m h pTail p = Some r \<and> merged k m h pTail as bs r"
proof -
  obtain m' h' where s: "set_right m h pTail p = Some (m', h')" "changes (set_option pTail) m m'" "tail_of m' h' pTail = p"
      "pTail \<noteq> None \<longrightarrow> h' = h"
    using set_right_spec [OF assms(1)] by blast
  have "rs_list m' p ds" using rs_list_changes [OF s(2), of ds p] assms(1,2) by (auto simp: tail_ok_def)
  then show ?thesis using s assms(3,4) by (auto simp: merged_def intro: changes_mono)
qed

text \<open>The end of a round: one list is at its end, or the loop goes on.\<close>

lemma merge_go:
  assumes "rs_list m p xs" "rs_list m q ys" "tail_ok m pTail (set xs \<union> set ys)" "amerge k as bs = amerge k xs ys \<or> amerge k as bs = amerge k ys xs"
    and "set xs \<union> set ys \<subseteq> set as \<union> set bs"
    and "xs \<noteq> [] \<Longrightarrow> \<exists>r. R = Some r \<and> merged k m h pTail as bs r"
  shows "\<exists>r. (if p = 0 then set_right m h pTail q else R) = Some r \<and> merged k m h pTail as bs r"
proof (cases xs)
  case Nil
  then show ?thesis using merge_end [of m pTail ys q k as bs h] assms(1-5) by auto
next
  case (Cons x xs')
  then show ?thesis using assms(1,6) by auto
qed

definition mergeable :: "entries \<Rightarrow> nat option \<Rightarrow> nat \<Rightarrow> nat \<Rightarrow> (nat \<Rightarrow> int) \<Rightarrow> nat list \<Rightarrow> nat list \<Rightarrow> bool" where
  "mergeable m pTail pA pB k as bs \<longleftrightarrow> rs_list m pA as \<and> rs_list m pB bs \<and> distinct (as @ bs) \<and>
     (\<forall>x \<in> set as \<union> set bs. rkey m x = k x) \<and> tail_ok m pTail (set as \<union> set bs)"

lemma mergeable_changes:
  assumes "rs_list m pA as" "rs_list m pB bs" "distinct (as @ bs)" "\<forall>x \<in> set as \<union> set bs. rkey m x = k x"
    and "changes S m m1" "S \<inter> (set as \<union> set bs) = {}" "m1 x \<noteq> None" "x \<notin> set as \<union> set bs"
  shows "mergeable m1 (Some x) pA pB k as bs"
proof -
  have "\<forall>y \<in> set as \<union> set bs. rkey m1 y = k y" using assms(4) changes_rkey [OF assms(5)] by simp
  moreover have "S \<inter> set as = {}" "S \<inter> set bs = {}" using assms(6) by auto
  ultimately show ?thesis
    using assms rs_list_changes [OF assms(5)] unfolding mergeable_def tail_ok_def by auto
qed

lemma merge_loop_spec:
  assumes "mergeable m pTail pA pB k as bs" "as \<noteq> []" "bs \<noteq> []"
  shows "\<exists>r. merge_loop m h pTail pA pB = Some r \<and> merged k m h pTail as bs r"
  using assms
proof (induction k as bs arbitrary: m pA pB pTail h rule: amerge.induct)
  case (3 k a as b bs)
  obtain ea eb where e: "m a = Some ea" "m b = Some eb" "pA = a" "pB = b" "a \<noteq> 0" "b \<noteq> 0"
      "rs_list m (pRight ea) as" "rs_list m (pRight eb) bs" using 3(4) by (auto simp: mergeable_def)
  have l: "rs_list m pA (a # as)" "rs_list m pB (b # bs)" using 3(4) by (auto simp: mergeable_def)
  have k: "rowid_v ea = k a" "rowid_v eb = k b" using 3(4) e(1,2) by (auto simp: mergeable_def rkey_def)
  have kk: "\<forall>x \<in> set (a # as) \<union> set (b # bs). rkey m x = k x" and t: "tail_ok m pTail (set (a # as) \<union> set (b # bs))"
    using 3(4) by (auto simp: mergeable_def)
  have d: "a \<noteq> b" "a \<notin> set as \<union> set bs" "b \<notin> set as \<union> set bs" "distinct (as @ b # bs)" "distinct ((a # as) @ bs)"
    using 3(4) by (auto simp: mergeable_def)
  have t': "set_option pTail \<inter> (set (a # as) \<union> set (b # bs)) = {}" using t by (auto simp: tail_ok_def)
  consider (eq) "k a = k b" | (less) "k a < k b" | (gr) "k b < k a" by linarith
  then show ?case
  proof cases
    case eq
    have "mergeable m pTail (pRight ea) pB k as (b # bs)"
      using e(7) l(2) d(4) kk t by (auto simp: mergeable_def tail_ok_def)
    from 3(2) [OF _ _ this] have "\<exists>r. merge_loop m h pTail (pRight ea) pB = Some r \<and> merged k m h pTail (a # as) (b # bs) r" if "as \<noteq> []"
      using that eq by (fastforce simp: merged_def intro: changes_mono)
    then have "\<exists>r. (if pRight ea = 0 then set_right m h pTail pB else merge_loop m h pTail (pRight ea) pB) = Some r \<and>
        merged k m h pTail (a # as) (b # bs) r"
      using eq t by (intro merge_go [OF e(7) l(2)]) (auto simp: tail_ok_def)
    then show ?thesis using e(1-4) eq k by (subst merge_loop.simps) simp
  next
    case less
    have "\<exists>r. do { (m1, h1) \<leftarrow> set_right m h pTail a; e \<leftarrow> m1 a;
        if pRight e = 0 then set_right m1 h1 (Some a) pB else merge_loop m1 h1 (Some a) (pRight e) pB } = Some r \<and>
        merged k m h pTail (a # as) (b # bs) r"
    proof (rule link_step)
      fix m1 h1
      assume m1: "changes (set_option pTail) m m1" "m1 a = Some ea"
      have "mergeable m1 (Some a) (pRight ea) pB k as (b # bs)"
        by (rule mergeable_changes [OF e(7) l(2) d(4) _ m1(1)]) (use kk t' m1(2) d in auto)
      with 3(1) [OF _ _ this] show "\<exists>r. (if pRight ea = 0 then set_right m1 h1 (Some a) pB
          else merge_loop m1 h1 (Some a) (pRight ea) pB) = Some r \<and> merged k m1 h1 (Some a) as (b # bs) r"
        using less by (intro merge_go [of m1 _ as _ "b # bs"]) (auto simp: mergeable_def)
    qed (use e t d less in \<open>auto simp: insert_commute\<close>)
    then show ?thesis using e(1-4) less k by (subst merge_loop.simps) (simp add: Let_def)
  next
    case gr
    have "\<exists>r. do { (m1, h1) \<leftarrow> set_right m h pTail b; e \<leftarrow> m1 b;
        if pRight e = 0 then set_right m1 h1 (Some b) pA else merge_loop m1 h1 (Some b) pA (pRight e) } = Some r \<and>
        merged k m h pTail (a # as) (b # bs) r"
    proof (rule link_step)
      fix m1 h1
      assume m1: "changes (set_option pTail) m m1" "m1 b = Some eb"
      have "mergeable m1 (Some b) pA (pRight eb) k (a # as) bs"
        by (rule mergeable_changes [OF l(1) e(8) d(5) _ m1(1)]) (use kk t' m1(2) d in auto)
      with 3(3) [OF _ this] show "\<exists>r. (if pRight eb = 0 then set_right m1 h1 (Some b) pA
          else merge_loop m1 h1 (Some b) pA (pRight eb)) = Some r \<and> merged k m1 h1 (Some b) (a # as) bs r"
        using gr by (intro merge_go [of m1 _ bs _ "a # as"]) (auto simp: mergeable_def Un_commute)
    qed (use e t d gr in auto)
    then show ?thesis unfolding e(3,4) using e(1,2) gr k by (subst merge_loop.simps) simp
  qed
qed auto

lemma merge_spec:
  assumes "rs_list m pA as" "rs_list m pB bs" "as \<noteq> []" "bs \<noteq> []" "distinct (as @ bs)"
  shows "\<exists>m' p. rowSetEntryMerge m pA pB = Some (m', p) \<and> changes (set as \<union> set bs) m m' \<and> rs_list m' p (amerge (rkey m) as bs)"
proof -
  have "mergeable m None pA pB (rkey m) as bs" using assms by (simp add: mergeable_def tail_ok_def)
  from merge_loop_spec [OF this assms(3,4), of 0] show ?thesis
    by (auto simp: rowSetEntryMerge_def merged_def tail_of_def)
qed

section \<open>Sorting\<close>

text \<open>The buckets of the sort: lists of which each is sorted.  The \<open>i\<close>-th is in use exactly if the number of
  entries so far has its bit \<open>i\<close> set.\<close>

fun weight :: "nat list list \<Rightarrow> nat" where
  "weight [] = 0"
| "weight (L # Ls) = (if L = [] then 0 else 1) + 2 * weight Ls"

fun bput :: "(nat \<Rightarrow> int) \<Rightarrow> nat list list \<Rightarrow> nat list \<Rightarrow> nat list list" where
  "bput k [] xs = []"
| "bput k (L # Ls) xs = (if L = [] then xs # Ls else [] # bput k Ls (amerge k L xs))"

lemma weight_room: "Suc (weight Ls) < 2 ^ length Ls \<Longrightarrow> [] \<in> set Ls"
  by (induction Ls) (auto split: if_splits)

lemma weight_bput: "[] \<in> set Ls \<Longrightarrow> xs \<noteq> [] \<Longrightarrow> weight (bput k Ls xs) = Suc (weight Ls)"
  by (induction k Ls xs rule: bput.induct) (auto simp: amerge_nonempty)

lemma bput_length [simp]: "length (bput k Ls xs) = length Ls"
  by (induction k Ls xs rule: bput.induct) auto

lemma bput_set: "set (concat (bput k Ls xs)) \<subseteq> set (concat Ls) \<union> set xs"
proof (induction k Ls xs rule: bput.induct)
  case (2 k L Ls xs)
  then show ?case using amerge_set [of k L xs] by auto
qed simp

lemma bput_keys: "[] \<in> set Ls \<Longrightarrow> k ` set (concat (bput k Ls xs)) = k ` set (concat Ls) \<union> k ` set xs"
proof (induction k Ls xs rule: bput.induct)
  case (2 k L Ls xs)
  then show ?case using amerge_keys [of k L xs] by (cases "L = []") (simp_all add: image_Un Un_ac)
qed simp

lemma bput_distinct: "distinct (concat Ls @ xs) \<Longrightarrow> distinct (concat (bput k Ls xs))"
proof (induction k Ls xs rule: bput.induct)
  case (2 k L Ls xs)
  then show ?case using amerge_set [of k L xs] amerge_distinct [of L xs k] by fastforce
qed simp

lemma bput_strict: "\<forall>L \<in> set Ls. strict k L \<Longrightarrow> strict k xs \<Longrightarrow> \<forall>L \<in> set (bput k Ls xs). strict k L"
proof (induction k Ls xs rule: bput.induct)
  case (2 k L Ls xs)
  then show ?case using amerge_strict [of k L xs] by auto
qed simp

abbreviation rs_lists :: "entries \<Rightarrow> nat list \<Rightarrow> nat list list \<Rightarrow> bool" where
  "rs_lists m \<equiv> list_all2 (rs_list m)"

lemma rs_lists_changes:
  "changes S m m' \<Longrightarrow> S \<inter> set (concat Ls) = {} \<Longrightarrow> rs_lists m' B Ls = rs_lists m B Ls"
proof (induction Ls arbitrary: B)
  case (Cons L Ls)
  then have "S \<inter> set L = {}" by auto
  with Cons show ?case using rs_list_changes [OF Cons.prems(1), of L] by (cases B) auto
qed simp

lemma sort_bucket_spec:
  assumes "rs_lists m B Ls" "rs_list m p xs" "xs \<noteq> []" "distinct (concat Ls @ xs)" "[] \<in> set Ls"
  shows "\<exists>m' B'. sort_bucket m B p = Some (m', B') \<and> rs_lists m' B' (bput (rkey m) Ls xs) \<and>
    changes (set (concat Ls) \<union> set xs) m m'"
  using assms
proof (induction Ls arbitrary: m B p xs rule: list.induct)
  case (Cons L Ls)
  then obtain b bs where B: "B = b # bs" "rs_list m b L" "rs_lists m bs Ls" by (cases B) auto
  show ?case
  proof (cases "L = []")
    case True
    then show ?thesis using B Cons.prems(2) by auto
  next
    case False
    have "distinct (L @ xs)" using Cons.prems(4) by auto
    then obtain m1 q where g: "rowSetEntryMerge m b p = Some (m1, q)" "changes (set L \<union> set xs) m m1"
        "rs_list m1 q (amerge (rkey m) L xs)"
      using merge_spec [OF B(2) Cons.prems(2) False Cons.prems(3)] by blast
    have "rs_lists m1 bs Ls" using rs_lists_changes [OF g(2), of Ls bs] B(3) Cons.prems(4) by auto
    moreover have "distinct (concat Ls @ amerge (rkey m) L xs)"
      using Cons.prems(4) amerge_set [of "rkey m" L xs] amerge_distinct [of L xs "rkey m"] by auto
    ultimately obtain m' B' where i: "sort_bucket m1 bs q = Some (m', B')"
        "rs_lists m' B' (bput (rkey m1) Ls (amerge (rkey m) L xs))" "changes (set (concat Ls) \<union> set (amerge (rkey m) L xs)) m1 m'"
      using Cons.IH [of m1 bs q "amerge (rkey m) L xs"] g(3) amerge_nonempty [of L xs "rkey m"] False Cons.prems(5) by auto
    have "changes (set (concat (L # Ls)) \<union> set xs) m m'"
      by (rule changes_trans [OF g(2) i(3)]) (use amerge_set [of "rkey m" L xs] in auto)
    moreover have "b \<noteq> 0" using rs_list_zero [OF B(2)] False by simp
    ultimately show ?thesis using i(1,2) g(1) False B(1) changes_rkey [OF g(2)] by simp
  qed
qed simp

definition buckets :: "entries \<Rightarrow> nat list \<Rightarrow> nat list list \<Rightarrow> bool" where
  "buckets m B Ls \<longleftrightarrow> rs_lists m B Ls \<and> distinct (concat Ls) \<and> (\<forall>L \<in> set Ls. strict (rkey m) L)"

lemma sort_loop_spec:
  assumes "buckets m B Ls" "rs_list m p xs" "distinct xs" "set xs \<inter> set (concat Ls) = {}" "weight Ls + length xs < 2 ^ length Ls"
  shows "\<exists>m' B' Ls'. sort_loop m B p = Some (m', B') \<and> buckets m' B' Ls' \<and> length Ls' = length Ls \<and>
    set (concat Ls') \<subseteq> set (concat Ls) \<union> set xs \<and>
    rkey m ` set (concat Ls') = rkey m ` (set (concat Ls) \<union> set xs) \<and> changes (set (concat Ls) \<union> set xs) m m'"
  using assms
proof (induction xs arbitrary: m B Ls p)
  case Nil
  then show ?case by (subst sort_loop.simps) auto
next
  case (Cons x xs)
  then obtain e where e: "p = x" "x \<noteq> 0" "m x = Some e" "rs_list m (pRight e) xs" by auto
  define m0 where "m0 = m(x \<mapsto> e\<lparr>pRight := 0\<rparr>)"
  let ?k = "rkey m"
  have c0: "changes {x} m m0" using e(3) by (simp add: m0_def changes_upd)
  have l0: "rs_lists m0 B Ls" "rs_list m0 x [x]" "rs_list m0 (pRight e) xs"
    using rs_lists_changes [OF c0] Cons.prems e(2,4) by (auto simp: buckets_def m0_def)
  have room: "[] \<in> set Ls" using weight_room [of Ls] Cons.prems(5) by simp
  obtain m1 B1 where b: "sort_bucket m0 B x = Some (m1, B1)" "rs_lists m1 B1 (bput ?k Ls [x])" "changes (set (concat Ls) \<union> {x}) m0 m1"
    using sort_bucket_spec [OF l0(1,2) _ _ room] Cons.prems(1,4) changes_rkey [OF c0] by (auto simp: buckets_def)
  have k1: "rkey m1 = ?k" using changes_rkey [OF b(3)] changes_rkey [OF c0] by simp
  have "buckets m1 B1 (bput ?k Ls [x])"
    using b(2) bput_distinct [of Ls "[x]" ?k] bput_strict [of Ls ?k "[x]"] Cons.prems(1,4) k1 by (auto simp: buckets_def)
  moreover have "rs_list m1 (pRight e) xs" using rs_list_changes [OF b(3), of xs] l0(3) Cons.prems(3,4) by auto
  moreover have "set xs \<inter> set (concat (bput ?k Ls [x])) = {}" using bput_set [of ?k Ls "[x]"] Cons.prems(3,4) by auto
  ultimately obtain m' B' Ls' where i: "sort_loop m1 B1 (pRight e) = Some (m', B')" "buckets m' B' Ls'" "length Ls' = length Ls"
      "set (concat Ls') \<subseteq> set (concat (bput ?k Ls [x])) \<union> set xs"
      "?k ` set (concat Ls') = ?k ` (set (concat (bput ?k Ls [x])) \<union> set xs)"
      "changes (set (concat (bput ?k Ls [x])) \<union> set xs) m1 m'"
    using Cons.IH [of m1 B1 "bput ?k Ls [x]" "pRight e"] Cons.prems(3,5) weight_bput [OF room, of "[x]" ?k] k1 by auto
  have "sort_loop m B p = Some (m', B')"
    using e i(1) b(1) by (subst sort_loop.simps) (simp add: rs_assign_eq m0_def)
  moreover have "changes (set (concat Ls) \<union> set (x # xs)) m m'"
    by (rule changes_trans [OF changes_trans [OF c0 b(3) subset_refl] i(6)]) (use bput_set [of ?k Ls "[x]"] in auto)
  moreover have "?k ` set (concat Ls') = ?k ` (set (concat Ls) \<union> set (x # xs))"
    using i(5) bput_keys [OF room, of ?k "[x]"] by (auto simp: image_Un)
  ultimately show ?case using i(2,3,4) bput_set [of ?k Ls "[x]"] by fastforce
qed

lemma sort_collect_spec:
  assumes "buckets m B Ls" "rs_list m p xs" "distinct xs" "strict (rkey m) xs" "set xs \<inter> set (concat Ls) = {}"
  shows "\<exists>m' q ys. sort_collect m B p = Some (m', q) \<and> rs_list m' q ys \<and> distinct ys \<and> strict (rkey m) ys \<and>
    set ys \<subseteq> set (concat Ls) \<union> set xs \<and> rkey m ` set ys = rkey m ` (set (concat Ls) \<union> set xs) \<and>
    changes (set (concat Ls) \<union> set xs) m m'"
  using assms
proof (induction Ls arbitrary: m B p xs)
  case Nil
  then show ?case by (auto simp: buckets_def)
next
  case (Cons L Ls)
  then obtain b bs where B: "B = b # bs" "rs_list m b L" "buckets m bs Ls" "strict (rkey m) L" "distinct L"
      "set L \<inter> set (concat Ls) = {}"
    by (cases B) (auto simp: buckets_def)
  let ?k = "rkey m"
  consider "L = []" | "L \<noteq> []" "xs = []" | "L \<noteq> []" "xs \<noteq> []" by blast
  then show ?case
  proof cases
    case 1
    then show ?thesis using Cons.IH [OF B(3) Cons.prems(2-4)] Cons.prems(5) B(1,2) by auto
  next
    case 2
    then have "sort_collect m B p = sort_collect m bs b" using Cons.prems(2) B(1,2) by auto
    then show ?thesis using Cons.IH [OF B(3,2,5,4,6)] 2 by (simp add: Un_commute)
  next
    case 3
    obtain m1 q where g: "rowSetEntryMerge m p b = Some (m1, q)" "changes (set xs \<union> set L) m m1" "rs_list m1 q (amerge ?k xs L)"
      using merge_spec [OF Cons.prems(2) B(2) 3(2,1)] Cons.prems(3,5) B(5) by auto
    have k1: "rkey m1 = ?k" by (rule changes_rkey [OF g(2)])
    have "buckets m1 bs Ls"
      using B(3,6) rs_lists_changes [OF g(2), of Ls bs] Cons.prems(5) k1 by (auto simp: buckets_def)
    moreover have "distinct (amerge ?k xs L)" using amerge_distinct [of xs L ?k] Cons.prems(3,5) B(5) by auto
    moreover have "strict ?k (amerge ?k xs L)" using amerge_strict Cons.prems(4) B(4) by blast
    moreover have "set (amerge ?k xs L) \<inter> set (concat Ls) = {}" using amerge_set [of ?k xs L] Cons.prems(5) B(6) by auto
    ultimately obtain m' q' ys where i: "sort_collect m1 bs q = Some (m', q')" "rs_list m' q' ys" "distinct ys" "strict ?k ys"
        "set ys \<subseteq> set (concat Ls) \<union> set (amerge ?k xs L)" "?k ` set ys = ?k ` (set (concat Ls) \<union> set (amerge ?k xs L))"
        "changes (set (concat Ls) \<union> set (amerge ?k xs L)) m1 m'"
      using Cons.IH [of m1 bs q "amerge ?k xs L"] g(3) unfolding k1 by blast
    have "b \<noteq> 0" "p \<noteq> 0" using rs_list_zero [OF B(2)] rs_list_zero [OF Cons.prems(2)] 3 by auto
    then have "sort_collect m B p = Some (m', q')" using i(1) g(1) B(1) by simp
    moreover have "changes (set (concat (L # Ls)) \<union> set xs) m m'"
      by (rule changes_trans [OF g(2) i(7)]) (use amerge_set [of ?k xs L] in auto)
    moreover have "?k ` set ys = ?k ` (set (concat (L # Ls)) \<union> set xs)"
      using i(6) amerge_keys [of ?k xs L] by (auto simp: image_Un)
    ultimately show ?thesis using i(2,3,4,5) amerge_set [of ?k xs L] by fastforce
  qed
qed

lemma sort_spec:
  assumes "rs_list m p xs" "distinct xs" "length xs < 2 ^ 40"
  shows "\<exists>m' q ys. rowSetEntrySort m p = Some (m', q) \<and> rs_list m' q ys \<and> distinct ys \<and> strict (rkey m) ys \<and>
    set ys \<subseteq> set xs \<and> rkey m ` set ys = rkey m ` set xs \<and> changes (set xs) m m'"
proof -
  let ?k = "rkey m"
  have "weight (replicate n []) = 0" for n by (induction n) auto
  moreover have "buckets m (replicate 40 0) (replicate 40 [])"
    by (auto simp: buckets_def list_all2_conv_all_nth)
  ultimately obtain m1 B1 Ls where l: "sort_loop m (replicate 40 0) p = Some (m1, B1)" "buckets m1 B1 Ls" "length Ls = 40"
      "set (concat Ls) \<subseteq> set xs" "?k ` set (concat Ls) = ?k ` set xs" "changes (set xs) m m1"
    using sort_loop_spec [of m "replicate 40 0" "replicate 40 []" p xs] assms by auto
  then obtain L Ls' b bs where L: "Ls = L # Ls'" "B1 = b # bs" by (cases Ls; cases B1) (auto simp: buckets_def)
  have k1: "rkey m1 = ?k" by (rule changes_rkey [OF l(6)])
  have "buckets m1 bs Ls'" "rs_list m1 b L" "distinct L" "strict (rkey m1) L" "set L \<inter> set (concat Ls') = {}"
    using l(2) L by (auto simp: buckets_def)
  from sort_collect_spec [OF this] obtain m' q ys where c: "sort_collect m1 bs b = Some (m', q)" "rs_list m' q ys" "distinct ys"
      "strict ?k ys" "set ys \<subseteq> set (concat Ls') \<union> set L" "?k ` set ys = ?k ` (set (concat Ls') \<union> set L)"
      "changes (set (concat Ls') \<union> set L) m1 m'" unfolding k1 by blast
  have "changes (set xs) m m'" by (rule changes_trans [OF l(6) c(7)]) (use l(4) L in auto)
  moreover have "?k ` set ys = ?k ` set xs" using c(6) l(5) L by (simp add: image_Un Un_commute)
  moreover have "set ys \<subseteq> set xs" using c(5) l(4) L by auto
  ultimately show ?thesis using c(1-4) l(1) L
    by (intro exI [of _ m'] exI [of _ q] exI [of _ ys]) (auto simp: rowSetEntrySort_def)
qed

section \<open>Trees in the store\<close>

fun rs_tree :: "entries \<Rightarrow> nat \<Rightarrow> nat tree \<Rightarrow> bool" where
  "rs_tree m p Leaf \<longleftrightarrow> p = 0"
| "rs_tree m p (Node l a r) \<longleftrightarrow>
     p = a \<and> a \<noteq> 0 \<and> (\<exists>e. m a = Some e \<and> rs_tree m (pLeft e) l \<and> rs_tree m (pRight e) r)"

lemma rs_tree_frame: "(\<And>x. x \<in> set_tree t \<Longrightarrow> m' x = m x) \<Longrightarrow> rs_tree m' p t = rs_tree m p t"
  by (induction t arbitrary: p) auto

lemma rs_tree_changes: "changes S m m' \<Longrightarrow> S \<inter> set_tree t = {} \<Longrightarrow> rs_tree m' p t = rs_tree m p t"
  by (rule rs_tree_frame) (auto simp: changes_def)

lemma rs_tree_upd [simp]: "a \<notin> set_tree t \<Longrightarrow> rs_tree (m(a := v)) p t = rs_tree m p t"
  by (rule rs_tree_frame) auto

lemma rs_tree_zero: "rs_tree m p t \<Longrightarrow> p = 0 \<longleftrightarrow> t = Leaf"
  by (cases t) auto

lemma rs_tree_live: "rs_tree m p t \<Longrightarrow> x \<in> set_tree t \<Longrightarrow> x \<noteq> 0 \<and> (\<exists>e. m x = Some e)"
  by (induction t arbitrary: p) auto

text \<open>Segments of lists, that end in a pointer to the next entry.\<close>

fun rs_seg :: "entries \<Rightarrow> nat \<Rightarrow> nat list \<Rightarrow> nat \<Rightarrow> bool" where
  "rs_seg m p [] q \<longleftrightarrow> p = q"
| "rs_seg m p (x # xs) q \<longleftrightarrow> p = x \<and> x \<noteq> 0 \<and> (\<exists>e. m x = Some e \<and> rs_seg m (pRight e) xs q)"

lemma rs_list_append: "rs_list m p (xs @ ys) \<longleftrightarrow> (\<exists>s. rs_seg m p xs s \<and> rs_list m s ys)"
  by (induction xs arbitrary: p) auto

lemma rs_seg_frame: "(\<And>x. x \<in> set xs \<Longrightarrow> m' x = m x) \<Longrightarrow> rs_seg m' p xs q = rs_seg m p xs q"
  by (induction xs arbitrary: p) auto

lemma rs_seg_relink:
  "rs_list m p xs \<Longrightarrow> xs \<noteq> [] \<Longrightarrow> distinct xs \<Longrightarrow> m (last xs) = Some e \<Longrightarrow> rs_seg (m(last xs \<mapsto> e\<lparr>pRight := q\<rparr>)) p xs q"
proof (induction xs arbitrary: p)
  case (Cons x xs)
  show ?case
  proof (cases "xs = []")
    case True
    then show ?thesis using Cons.prems by auto
  next
    case False
    then have "last xs \<noteq> x" using Cons.prems(3) last_in_set [of xs] by auto
    then show ?thesis using Cons False by auto
  qed
qed simp

lemma inorder_nonempty: "t \<noteq> Leaf \<Longrightarrow> inorder t \<noteq> []"
  by (cases t) auto

section \<open>From trees to lists\<close>

definition flattened :: "entries \<Rightarrow> nat \<Rightarrow> nat tree \<Rightarrow> bool" where
  "flattened m p t \<longleftrightarrow> (\<exists>m' f. rowSetTreeToList m p = Some (m', f, last (inorder t)) \<and> rs_list m' f (inorder t) \<and> changes (set_tree t) m m')"

lemma flatten_left:
  assumes "t \<noteq> Leaf \<Longrightarrow> flattened m p t" "rs_tree m p t" "distinct (inorder t)"
  shows "\<exists>m1 f. (if p \<noteq> 0 then do { (m, pFirst, p) \<leftarrow> rowSetTreeToList m p;
        m \<leftarrow> rs_assign m p (\<lambda>e. e\<lparr>pRight := a\<rparr>); Some (m, pFirst) } else Some (m, a)) = Some (m1, f) \<and>
      rs_seg m1 f (inorder t) a \<and> changes (set_tree t) m m1"
proof (cases "t = Leaf")
  case True
  then show ?thesis using assms(2) by simp
next
  case False
  obtain m0 f where l: "rowSetTreeToList m p = Some (m0, f, last (inorder t))" "rs_list m0 f (inorder t)" "changes (set_tree t) m m0"
    using assms(1) [OF False] unfolding flattened_def by blast
  define z where "z = last (inorder t)"
  have z: "z \<in> set_tree t" using last_in_set [OF inorder_nonempty [OF False]] by (simp add: z_def)
  then obtain y where y: "m0 z = Some y" using rs_list_live [OF l(2)] by auto
  let ?m = "m0(z \<mapsto> y\<lparr>pRight := a\<rparr>)"
  have "changes (set_tree t) m ?m"
    by (rule changes_trans [OF l(3) changes_upd [of m0 z, OF y _ z]]) auto
  moreover have "rs_seg ?m f (inorder t) a"
    using rs_seg_relink [OF l(2) inorder_nonempty [OF False] assms(3), of y a] y unfolding z_def by simp
  moreover have "p \<noteq> 0" using rs_tree_zero [OF assms(2)] False by simp
  ultimately show ?thesis using l(1) y unfolding z_def [symmetric] by (intro exI [of _ ?m] exI [of _ f]) (simp add: rs_assign_eq)
qed

lemma flatten_right:
  assumes "t \<noteq> Leaf \<Longrightarrow> flattened m (pRight e) t" "rs_tree m (pRight e) t" "m a = Some e" "a \<noteq> 0" "a \<notin> set_tree t"
  shows "\<exists>m'. (if pRight e \<noteq> 0 then do { (m, r, pLast) \<leftarrow> rowSetTreeToList m (pRight e);
        m \<leftarrow> rs_assign m a (\<lambda>e. e\<lparr>pRight := r\<rparr>); Some (m, f, pLast) } else Some (m, f, a)) = Some (m', f, last (a # inorder t)) \<and>
      rs_list m' a (a # inorder t) \<and> changes (insert a (set_tree t)) m m'"
proof (cases "t = Leaf")
  case True
  then show ?thesis using assms by simp
next
  case False
  obtain m2 g where g: "rowSetTreeToList m (pRight e) = Some (m2, g, last (inorder t))" "rs_list m2 g (inorder t)"
      "changes (set_tree t) m m2"
    using assms(1) [OF False] unfolding flattened_def by blast
  have a2: "m2 a = Some e" using changes_other [OF g(3) assms(5)] assms(3) by simp
  let ?m = "m2(a \<mapsto> e\<lparr>pRight := g\<rparr>)"
  have "changes (insert a (set_tree t)) m ?m"
    by (rule changes_trans [OF g(3) changes_upd [of m2 a, OF a2 _ singletonI]]) auto
  moreover have "rs_list ?m a (a # inorder t)" using g(2) assms(4,5) by simp
  moreover have "pRight e \<noteq> 0" using rs_tree_zero [OF assms(2)] False by simp
  ultimately show ?thesis using g(1) a2 inorder_nonempty [OF False] by (intro exI [of _ ?m]) (simp add: rs_assign_eq)
qed

lemma tree_to_list_spec:
  "rs_tree m p t \<Longrightarrow> t \<noteq> Leaf \<Longrightarrow> distinct (inorder t) \<Longrightarrow> flattened m p t"
proof (induction t arbitrary: m p)
  case (Node l a r)
  then obtain e where e: "p = a" "a \<noteq> 0" "m a = Some e" "rs_tree m (pLeft e) l" "rs_tree m (pRight e) r" by auto
  have d: "a \<notin> set_tree l" "a \<notin> set_tree r" "set_tree l \<inter> set_tree r = {}" "distinct (inorder l)" "distinct (inorder r)"
    using Node.prems(3) by auto
  obtain m1 f where l: "(if pLeft e \<noteq> 0 then do { (m, pFirst, p) \<leftarrow> rowSetTreeToList m (pLeft e);
        m \<leftarrow> rs_assign m p (\<lambda>e. e\<lparr>pRight := a\<rparr>); Some (m, pFirst) } else Some (m, a)) = Some (m1, f)"
      "rs_seg m1 f (inorder l) a" "changes (set_tree l) m m1"
    using flatten_left [OF Node.IH(1) [OF e(4) _ d(4)] e(4) d(4)] by blast
  have a: "m1 a = Some e" using changes_other [OF l(3) d(1)] e(3) by simp
  have r: "rs_tree m1 (pRight e) r" using rs_tree_changes [OF l(3), of r] d(3) e(5) by simp
  obtain m' where m': "(if pRight e \<noteq> 0 then do { (m, r, pLast) \<leftarrow> rowSetTreeToList m1 (pRight e);
        m \<leftarrow> rs_assign m a (\<lambda>e. e\<lparr>pRight := r\<rparr>); Some (m, f, pLast) } else Some (m1, f, a)) = Some (m', f, last (a # inorder r))"
      "rs_list m' a (a # inorder r)" "changes (insert a (set_tree r)) m1 m'"
    using flatten_right [OF Node.IH(2) [OF r _ d(5)] r a e(2) d(2), of f] by blast
  have "rowSetTreeToList m a = Some (m', f, last (inorder (Node l a r)))"
    using m'(1) by (subst rowSetTreeToList.simps, unfold e(3) Option.bind.simps(2) l(1) prod.case a) simp
  moreover have "rs_seg m' f (inorder l) a"
  proof (subst rs_seg_frame)
    show "rs_seg m1 f (inorder l) a" by (rule l(2))
    show "m' x = m1 x" if "x \<in> set (inorder l)" for x
      using that d by (intro changes_other [OF m'(3)]) auto
  qed
  then have "rs_list m' f (inorder (Node l a r))" using m'(2) by (auto simp: rs_list_append)
  moreover have "changes (set_tree (Node l a r)) m m'" by (rule changes_trans [OF l(3) m'(3)]) auto
  ultimately show ?case unfolding e(1) flattened_def by blast
qed simp

section \<open>From lists to trees\<close>

definition deep_tree :: "entries \<Rightarrow> nat list \<Rightarrow> nat \<Rightarrow> entries \<Rightarrow> nat \<Rightarrow> nat \<Rightarrow> nat tree \<Rightarrow> nat list \<Rightarrow> bool" where
  "deep_tree m xs d m' q rest t ys \<longleftrightarrow> rs_tree m' q t \<and> rs_list m' rest ys \<and> xs = inorder t @ ys \<and>
     changes (set_tree t) m m' \<and> height t \<le> d \<and> (ys \<noteq> [] \<longrightarrow> size t = 2 ^ d - 1)"

lemma deep_tree_node:
  assumes l: "deep_tree m xs d m1 p1 a t1 (a # ys)" and e: "m1 a = Some e"
    and r: "deep_tree (m1(a \<mapsto> e\<lparr>pLeft := p1\<rparr>)) ys d m2 p2 rest t2 zs"
    and d: "distinct xs"
  shows "m2 a = Some (e\<lparr>pLeft := p1\<rparr>)"
    and "deep_tree m xs (Suc d) (m2(a \<mapsto> e\<lparr>pLeft := p1, pRight := p2\<rparr>)) a rest (Node t1 a t2) zs"
proof -
  have xs: "xs = inorder t1 @ a # inorder t2 @ zs" and ys: "ys = inorder t2 @ zs" using l r by (auto simp: deep_tree_def)
  then have n: "a \<notin> set_tree t1" "a \<notin> set_tree t2" "a \<notin> set zs" "set_tree t1 \<inter> set_tree t2 = {}" "set_tree t2 \<inter> set zs = {}"
    using d by auto
  have c2: "changes (set_tree t2) (m1(a \<mapsto> e\<lparr>pLeft := p1\<rparr>)) m2" and c1: "changes (set_tree t1) m m1"
    using l r by (auto simp: deep_tree_def)
  show a2: "m2 a = Some (e\<lparr>pLeft := p1\<rparr>)" using changes_other [OF c2 n(2)] by simp
  let ?m = "m2(a \<mapsto> e\<lparr>pLeft := p1, pRight := p2\<rparr>)"
  have c: "changes (insert a (set_tree t2)) m1 ?m"
    by (rule changes_trans [OF changes_trans [OF changes_upd [of m1 a, OF e _ singletonI] c2 subset_refl] changes_upd [of m2 a, OF a2 _ singletonI]]) auto
  have "rs_tree ?m p1 t1" using rs_tree_changes [OF c, of t1 p1] n l by (auto simp: deep_tree_def)
  moreover have "rs_tree ?m p2 t2" using r n by (simp add: deep_tree_def)
  moreover have "rs_list ?m rest zs" using r n by (simp add: deep_tree_def)
  moreover have "a \<noteq> 0" using l by (simp add: deep_tree_def)
  moreover have "changes (set_tree (Node t1 a t2)) m ?m" by (rule changes_trans [OF c1 c]) auto
  moreover have "size (Node t1 a t2) = 2 ^ Suc d - 1" if "zs \<noteq> []"
  proof -
    have "size t1 = 2 ^ d - 1" "size t2 = 2 ^ d - 1" using l r that by (simp_all add: deep_tree_def)
    moreover have "1 \<le> (2::nat) ^ d" by simp
    ultimately show ?thesis unfolding tree.size(4) power_Suc by arith
  qed
  ultimately show "deep_tree m xs (Suc d) ?m a rest (Node t1 a t2) zs"
    using l r xs by (simp add: deep_tree_def)
qed

lemma deep_spec:
  "rs_list m p xs \<Longrightarrow> distinct xs \<Longrightarrow> 0 < d \<Longrightarrow>
    \<exists>m' q rest t ys. rowSetNDeepTree m p d = Some (m', q, rest) \<and> deep_tree m xs d m' q rest t ys"
proof (induction d arbitrary: m p xs)
  case (Suc d)
  show ?case
  proof (cases xs)
    case Nil
    then show ?thesis using Suc.prems(1)
      by (intro exI [of _ m] exI [of _ 0] exI [of _ Leaf] exI [of _ "[]"]) (simp add: deep_tree_def rowSetNDeepTree.simps)
  next
    case (Cons x xs')
    then obtain ex where x: "p = x" "x \<noteq> 0" "m x = Some ex" "rs_list m (pRight ex) xs'" "x \<notin> set xs'" using Suc.prems by auto
    show ?thesis
    proof (cases "d = 0")
      case True
      let ?m = "m(x \<mapsto> ex\<lparr>pLeft := 0, pRight := 0\<rparr>)"
      have "rowSetNDeepTree m p (Suc d) = Some (?m, x, pRight ex)"
        using x True by (simp add: rowSetNDeepTree.simps rs_assign_eq)
      moreover have "deep_tree m xs (Suc d) ?m x (pRight ex) (Node Leaf x Leaf) xs'"
        using x Cons True by (simp add: deep_tree_def changes_upd)
      ultimately show ?thesis by blast
    next
      case False
      then obtain m1 p1 a t1 ys1 where l: "rowSetNDeepTree m p d = Some (m1, p1, a)" "deep_tree m xs d m1 p1 a t1 ys1"
        using Suc.IH [OF Suc.prems(1,2)] by auto
      show ?thesis
      proof (cases ys1)
        case Nil
        then have "a = 0" using l(2) by (simp add: deep_tree_def)
        then have "rowSetNDeepTree m p (Suc d) = Some (m1, p1, 0)"
          using l(1) x(1,2) False by (subst rowSetNDeepTree.simps) simp
        moreover have "deep_tree m xs (Suc d) m1 p1 0 t1 []" using l(2) Nil \<open>a = 0\<close> by (simp add: deep_tree_def)
        ultimately show ?thesis by blast
      next
        case (Cons a' ys)
        then obtain e where a: "a' = a" "a \<noteq> 0" "m1 a = Some e" "rs_list m1 (pRight e) ys" "distinct (a # ys)"
          using l(2) Suc.prems(2) by (auto simp: deep_tree_def)
        let ?m = "m1(a \<mapsto> e\<lparr>pLeft := p1\<rparr>)"
        have "rs_list ?m (pRight e) ys" "distinct ys" using a by simp_all
        then obtain m2 p2 rest t2 zs where r: "rowSetNDeepTree ?m (pRight e) d = Some (m2, p2, rest)" "deep_tree ?m ys d m2 p2 rest t2 zs"
          using Suc.IH [of ?m "pRight e" ys] False by blast
        note n = deep_tree_node [OF l(2) [unfolded Cons a(1)] a(3) r(2) Suc.prems(2)]
        have "rowSetNDeepTree m p (Suc d) = Some (m2(a \<mapsto> e\<lparr>pLeft := p1, pRight := p2\<rparr>), a, rest)"
          using l(1) x(1,2) a(2,3) r(1) n(1) False by (subst rowSetNDeepTree.simps) (simp add: rs_assign_eq)
        then show ?thesis using n(2) by blast
      qed
    qed
  qed
qed simp

text \<open>Trees whose height is at most one more than the logarithm of their size.\<close>

definition balanced :: "nat tree \<Rightarrow> bool" where
  "balanced t \<longleftrightarrow> t = Leaf \<or> 2 ^ (height t - 1) \<le> size t"

lemma list_tree_loop_spec:
  assumes "rs_tree m p t" "rs_list m q xs" "distinct (inorder t @ xs)" "0 < d" "height t \<le> d" "2 ^ (d - 1) \<le> size t"
    and "xs \<noteq> [] \<Longrightarrow> size t = 2 ^ d - 1"
  shows "\<exists>m' p' t'. list_tree_loop m p q d = Some (m', p') \<and> rs_tree m' p' t' \<and> inorder t' = inorder t @ xs \<and> balanced t' \<and>
    changes (set_tree t \<union> set xs) m m'"
  using assms
proof (induction "length xs" arbitrary: m p t q xs d rule: less_induct)
  case less
  show ?case
  proof (cases xs)
    case Nil
    have "(2::nat) ^ (height t - 1) \<le> 2 ^ (d - 1)" using less.prems(5) by (intro power_increasing) auto
    then have "balanced t" using less.prems(6) unfolding balanced_def by (metis le_trans)
    then show ?thesis using Nil less.prems(1,2)
      by (intro exI [of _ m] exI [of _ p] exI [of _ t]) (simp add: list_tree_loop.simps)
  next
    case (Cons x xs')
    then obtain e where x: "q = x" "x \<noteq> 0" "m x = Some e" "rs_list m (pRight e) xs'" using less.prems(2) by auto
    have d: "x \<notin> set_tree t" "x \<notin> set xs'" "set_tree t \<inter> set xs' = {}" "distinct xs'" using less.prems(3) Cons by auto
    let ?m = "m(x \<mapsto> e\<lparr>pLeft := p\<rparr>)"
    have "rs_list ?m (pRight e) xs'" using x(4) d(2) by simp
    from deep_spec [OF this d(4) less.prems(4)] obtain m1 p1 rest t1 ys where
      r: "rowSetNDeepTree ?m (pRight e) d = Some (m1, p1, rest)" "deep_tree ?m xs' d m1 p1 rest t1 ys" by blast
    have "deep_tree m (inorder t @ xs) d m p x t (x # xs')"
      using less.prems(1,2,5,7) Cons x(1) by (simp add: deep_tree_def)
    note n = deep_tree_node [OF this x(3) r(2) less.prems(3)]
    let ?m2 = "m1(x \<mapsto> e\<lparr>pLeft := p, pRight := p1\<rparr>)"
    have t: "rs_tree ?m2 x (Node t x t1)" "rs_list ?m2 rest ys" "inorder t @ xs = inorder (Node t x t1) @ ys"
        "changes (set_tree (Node t x t1)) m ?m2" "height (Node t x t1) \<le> Suc d" "ys \<noteq> [] \<Longrightarrow> size (Node t x t1) = 2 ^ Suc d - 1"
      using n(2) by (auto simp: deep_tree_def)
    have xs': "xs' = inorder t1 @ ys" using r(2) by (simp add: deep_tree_def)
    have s: "2 ^ (Suc d - 1) \<le> size (Node t x t1)" using less.prems(7) Cons by simp
    have "\<exists>m' p' t'. list_tree_loop ?m2 x rest (Suc d) = Some (m', p') \<and> rs_tree m' p' t' \<and> inorder t' = inorder (Node t x t1) @ ys \<and>
        balanced t' \<and> changes (set_tree (Node t x t1) \<union> set ys) ?m2 m'"
      by (rule less.hyps [OF _ t(1,2) _ _ t(5) s t(6)]) (use Cons xs' t(3) less.prems(3) in auto)
    then obtain m' p' t' where i: "list_tree_loop ?m2 x rest (Suc d) = Some (m', p')" "rs_tree m' p' t'"
        "inorder t' = inorder (Node t x t1) @ ys" "balanced t'" "changes (set_tree (Node t x t1) \<union> set ys) ?m2 m'" by blast
    have "list_tree_loop m p q d = Some (m', p')"
      unfolding x(1) using x(2,3) r(1) n(1) i(1) by (subst list_tree_loop.simps) (simp add: rs_assign_eq)
    moreover have "changes (set_tree t \<union> set xs) m m'"
      by (rule changes_trans [OF t(4) i(5)]) (use Cons xs' in auto)
    ultimately show ?thesis using i(2,3,4) t(3) by auto
  qed
qed

lemma list_to_tree_spec:
  assumes "rs_list m p xs" "xs \<noteq> []" "distinct xs"
  shows "\<exists>m' q t. rowSetListToTree m p = Some (m', q) \<and> rs_tree m' q t \<and> inorder t = xs \<and> balanced t \<and> changes (set xs) m m'"
proof -
  obtain x xs' e where x: "xs = x # xs'" "p = x" "x \<noteq> 0" "m x = Some e" "rs_list m (pRight e) xs'"
    using assms by (cases xs) auto
  let ?m = "m(x \<mapsto> e\<lparr>pLeft := 0, pRight := 0\<rparr>)"
  have "rs_tree ?m x (Node Leaf x Leaf)" "rs_list ?m (pRight e) xs'" using x assms(3) by auto
  from list_tree_loop_spec [OF this, of 1] obtain m' q t where
    i: "list_tree_loop ?m x (pRight e) 1 = Some (m', q)" "rs_tree m' q t" "inorder t = xs" "balanced t" "changes (set xs) ?m m'"
    using x(1) assms(3) by auto
  have "changes (set xs) m m'" by (rule changes_trans [OF changes_upd [of m x, OF x(4) _ singletonI] i(5)]) (use x(1) in auto)
  then show ?thesis using i x(2,4) by (auto simp: rowSetListToTree_def rs_assign_eq)
qed

section \<open>Searching\<close>

lemma tree_search_spec:
  "rs_tree m p t \<Longrightarrow> strict (rkey m) (inorder t) \<Longrightarrow> tree_search m p x = Some (x \<in> rkey m ` set_tree t)"
proof (induction t arbitrary: p)
  case Leaf
  then show ?case by (simp add: tree_search.simps)
next
  case (Node l a r)
  then obtain e where e: "p = a" "a \<noteq> 0" "m a = Some e" "rs_tree m (pLeft e) l" "rs_tree m (pRight e) r" by auto
  have k: "rowid_v e = rkey m a" using e(3) by (simp add: rkey_def)
  have s: "strict (rkey m) (inorder l)" "strict (rkey m) (inorder r)" "\<forall>y \<in> set_tree l. rkey m y < rkey m a"
      "\<forall>y \<in> set_tree r. rkey m a < rkey m y"
    using Node.prems(2) by (auto simp: sorted_wrt_append)
  have "rkey m a < x \<Longrightarrow> x \<notin> rkey m ` set_tree l" "x < rkey m a \<Longrightarrow> x \<notin> rkey m ` set_tree r" using s(3,4) by force+
  then show ?case
    using Node.IH(1) [OF e(4) s(1)] Node.IH(2) [OF e(5) s(2)] e(1-3) k by (subst tree_search.simps) auto
qed

section \<open>The forest\<close>

fun rs_forest :: "entries \<Rightarrow> nat \<Rightarrow> (nat \<times> nat tree) list \<Rightarrow> bool" where
  "rs_forest m p [] \<longleftrightarrow> p = 0"
| "rs_forest m p ((a, t) # ts) \<longleftrightarrow>
     p = a \<and> a \<noteq> 0 \<and> (\<exists>e. m a = Some e \<and> rs_tree m (pLeft e) t \<and> rs_forest m (pRight e) ts)"

definition forest_addrs :: "(nat \<times> nat tree) list \<Rightarrow> nat list" where
  "forest_addrs ts = concat (map (\<lambda>(a, t). a # inorder t) ts)"

definition forest_keys :: "(nat \<Rightarrow> int) \<Rightarrow> (nat \<times> nat tree) list \<Rightarrow> int set" where
  "forest_keys k ts = (\<Union>(a, t) \<in> set ts. k ` set_tree t)"

definition forest_ok :: "(nat \<Rightarrow> int) \<Rightarrow> (nat \<times> nat tree) list \<Rightarrow> bool" where
  "forest_ok k ts \<longleftrightarrow> (\<forall>(a, t) \<in> set ts. strict k (inorder t) \<and> balanced t)"

lemma forest_simps [simp]:
  "forest_addrs [] = []" "forest_addrs ((a, t) # ts) = a # inorder t @ forest_addrs ts"
  "forest_addrs (ts @ us) = forest_addrs ts @ forest_addrs us"
  "forest_keys k [] = {}" "forest_keys k ((a, t) # ts) = k ` set_tree t \<union> forest_keys k ts"
  "forest_keys k (ts @ us) = forest_keys k ts \<union> forest_keys k us"
  "forest_ok k []" "forest_ok k ((a, t) # ts) \<longleftrightarrow> strict k (inorder t) \<and> balanced t \<and> forest_ok k ts"
  "forest_ok k (ts @ us) \<longleftrightarrow> forest_ok k ts \<and> forest_ok k us"
  by (auto simp: forest_addrs_def forest_keys_def forest_ok_def)

lemma rs_forest_frame: "(\<And>x. x \<in> set (forest_addrs ts) \<Longrightarrow> m' x = m x) \<Longrightarrow> rs_forest m' p ts = rs_forest m p ts"
proof (induction m p ts rule: rs_forest.induct)
  case (2 m p a t ts)
  then show ?case using rs_tree_frame [of t m' m] by auto
qed simp

lemma rs_forest_changes: "changes S m m' \<Longrightarrow> S \<inter> set (forest_addrs ts) = {} \<Longrightarrow> rs_forest m' p ts = rs_forest m p ts"
  by (rule rs_forest_frame) (auto simp: changes_def)

lemma rs_forest_live: "rs_forest m p ts \<Longrightarrow> x \<in> set (forest_addrs ts) \<Longrightarrow> x \<noteq> 0 \<and> (\<exists>e. m x = Some e)"
proof (induction m p ts rule: rs_forest.induct)
  case (2 m p a t ts)
  then show ?case using rs_tree_live [of m _ t x] by auto
qed simp

lemma forest_keys_cong: "(\<And>x. x \<in> set (forest_addrs ts) \<Longrightarrow> k x = k' x) \<Longrightarrow> forest_keys k ts = forest_keys k' ts"
proof (induction ts)
  case (Cons a ts)
  then show ?case by (cases a) (auto intro!: image_cong)
qed simp

lemma strict_cong: "(\<And>x. x \<in> set xs \<Longrightarrow> k x = k' x) \<Longrightarrow> strict k xs = strict k' xs"
  by (metis map_cong)

lemma forest_ok_cong: "(\<And>x. x \<in> set (forest_addrs ts) \<Longrightarrow> k x = k' x) \<Longrightarrow> forest_ok k ts = forest_ok k' ts"
proof (induction ts)
  case (Cons a ts)
  then show ?case using strict_cong [of "inorder (snd a)" k k'] by (cases a) auto
qed simp

lemma forest_search_spec:
  "rs_forest m p ts \<Longrightarrow> forest_ok (rkey m) ts \<Longrightarrow> forest_search m p x = Some (x \<in> forest_keys (rkey m) ts)"
proof (induction m p ts rule: rs_forest.induct)
  case (1 m p)
  then show ?case by (simp add: forest_search.simps)
next
  case (2 m p a t ts)
  then obtain e where e: "p = a" "a \<noteq> 0" "m a = Some e" "rs_tree m (pLeft e) t" "rs_forest m (pRight e) ts" by auto
  have "tree_search m (pLeft e) x = Some (x \<in> rkey m ` set_tree t)" using tree_search_spec [OF e(4)] 2(3) by simp
  then show ?case using 2(1) [OF e(5)] 2(3) e(1-3) by (subst forest_search.simps) auto
qed

text \<open>What \<open>forest_put\<close> leaves: the list became one of the trees, or all trees are empty and their entries
  joined the list.\<close>

definition put_done :: "entries \<Rightarrow> (nat \<Rightarrow> int) \<Rightarrow> nat \<Rightarrow> (nat \<times> nat tree) list \<Rightarrow> nat list \<Rightarrow> bool" where
  "put_done m' k p ts xs \<longleftrightarrow> (\<exists>ts'. rs_forest m' p ts' \<and> distinct (forest_addrs ts') \<and> forest_ok k ts' \<and>
     set (forest_addrs ts') \<subseteq> set (forest_addrs ts) \<union> set xs \<and> forest_keys k ts' = forest_keys k ts \<union> k ` set xs)"

definition put_over :: "entries \<Rightarrow> (nat \<Rightarrow> int) \<Rightarrow> nat \<Rightarrow> (nat \<times> nat tree) list \<Rightarrow> nat list \<Rightarrow> nat \<Rightarrow> bool" where
  "put_over m' k p ts xs q \<longleftrightarrow> (\<exists>ys. rs_forest m' p (map (\<lambda>(a, t). (a, Leaf)) ts) \<and> rs_list m' q ys \<and> ys \<noteq> [] \<and> strict k ys \<and>
     distinct (map fst ts @ ys) \<and> set ys \<subseteq> set (forest_addrs ts) \<union> set xs \<and> k ` set ys = forest_keys k ts \<union> k ` set xs)"

definition last_tree :: "nat option \<Rightarrow> (nat \<times> nat tree) list \<Rightarrow> nat option" where
  "last_tree prev ts = (if ts = [] then prev else Some (fst (last ts)))"

text \<open>An emptied tree in front of the rest.\<close>

lemma put_done_Cons:
  assumes "put_done m' k p' ts zs" "m' a = Some e" "pRight e = p'" "pLeft e = 0" "a \<noteq> 0"
    and "a \<notin> set (forest_addrs ts) \<union> set zs" "set zs \<subseteq> set_tree t \<union> set xs" "k ` set zs = k ` set_tree t \<union> k ` set xs"
  shows "put_done m' k a ((a, t) # ts) xs"
proof -
  obtain ts' where *: "rs_forest m' p' ts'" "distinct (forest_addrs ts')" "forest_ok k ts'"
      "set (forest_addrs ts') \<subseteq> set (forest_addrs ts) \<union> set zs" "forest_keys k ts' = forest_keys k ts \<union> k ` set zs"
    using assms(1) unfolding put_done_def by blast
  then show ?thesis
    unfolding put_done_def using assms(2-8) by (intro exI [of _ "(a, Leaf) # ts'"]) (auto simp: balanced_def)
qed

lemma put_over_Cons:
  assumes "put_over m' k p' ts zs q" "m' a = Some e" "pRight e = p'" "pLeft e = 0" "a \<noteq> 0"
    and "a \<notin> set (forest_addrs ts) \<union> set zs" "set zs \<subseteq> set_tree t \<union> set xs" "k ` set zs = k ` set_tree t \<union> k ` set xs"
  shows "put_over m' k a ((a, t) # ts) xs q"
proof -
  obtain ys where *: "rs_forest m' p' (map (\<lambda>(a, t). (a, Leaf)) ts)" "rs_list m' q ys" "ys \<noteq> []" "strict k ys"
      "distinct (map fst ts @ ys)" "set ys \<subseteq> set (forest_addrs ts) \<union> set zs" "k ` set ys = forest_keys k ts \<union> k ` set zs"
    using assms(1) unfolding put_over_def by blast
  have "fst ` set ts \<subseteq> set (forest_addrs ts)" by (auto simp: forest_addrs_def)
  then have "a \<notin> set (map fst ts)" using assms(6) by auto
  then show ?thesis unfolding put_over_def using * assms(2-8) by (intro exI [of _ ys]) auto
qed

lemma put_here:
  assumes "rs_forest m (pRight e) ts" "m a = Some e" "a \<noteq> 0" "pLeft e = 0" "rs_list m q xs" "xs \<noteq> []"
    and "distinct (a # forest_addrs ts @ xs)" "forest_ok (rkey m) ts" "strict (rkey m) xs"
  shows "\<exists>m'. forest_put m prev a q = Some (m', Some a, a, q) \<and> changes (insert a (set xs)) m m' \<and>
    put_done m' (rkey m) a ((a, Leaf) # ts) xs"
proof -
  obtain m1 r u where u: "rowSetListToTree m q = Some (m1, r)" "rs_tree m1 r u" "inorder u = xs" "balanced u" "changes (set xs) m m1"
    using list_to_tree_spec [OF assms(5,6)] assms(7) by auto
  have su: "set_tree u = set xs" using u(3) by (metis set_inorder)
  have a1: "m1 a = Some e" using changes_other [OF u(5), of a] assms(2,7) by simp
  let ?m = "m1(a \<mapsto> e\<lparr>pLeft := r\<rparr>)"
  have c: "changes (insert a (set xs)) m ?m"
    by (rule changes_trans [OF u(5) changes_upd [of m1 a, OF a1 _ singletonI]]) auto
  have "forest_put m prev a q = Some (?m, Some a, a, q)"
    using assms(2-4) u(1) a1 by (subst forest_put.simps) (simp add: rs_assign_eq)
  moreover have "rs_forest ?m a ((a, u) # ts)"
    using rs_forest_changes [OF c, of ts] u(2) assms(1,3,7) su by auto
  then have "put_done ?m (rkey m) a ((a, Leaf) # ts) xs"
    unfolding put_done_def using u(3,4) su assms(7-9) by (intro exI [of _ "(a, u) # ts"]) auto
  ultimately show ?thesis using c by blast
qed

lemma forest_put_spec:
  assumes "rs_forest m p ts" "rs_list m q xs" "xs \<noteq> []" "distinct (forest_addrs ts @ xs)" "forest_ok (rkey m) ts" "strict (rkey m) xs"
  shows "\<exists>m' prev' pT q'. forest_put m prev p q = Some (m', prev', pT, q') \<and> changes (set (forest_addrs ts) \<union> set xs) m m' \<and>
    (pT \<noteq> 0 \<and> put_done m' (rkey m) p ts xs \<or> pT = 0 \<and> prev' = last_tree prev ts \<and> put_over m' (rkey m) p ts xs q')"
  using assms
proof (induction ts arbitrary: m p q xs prev)
  case Nil
  then show ?case by (subst forest_put.simps) (auto simp: put_over_def last_tree_def)
next
  case (Cons at ts)
  obtain a t where at: "at = (a, t)" by (cases at)
  let ?k = "rkey m"
  obtain e where e: "p = a" "a \<noteq> 0" "m a = Some e" "rs_tree m (pLeft e) t" "rs_forest m (pRight e) ts" using Cons.prems(1) at by auto
  have d: "a \<notin> set_tree t" "a \<notin> set (forest_addrs ts)" "a \<notin> set xs" "set_tree t \<inter> set (forest_addrs ts) = {}" "set_tree t \<inter> set xs = {}"
      "set (forest_addrs ts) \<inter> set xs = {}" "distinct (inorder t)" "distinct (forest_addrs ts)" "distinct xs"
    using Cons.prems(4) at by auto
  have o: "strict ?k (inorder t)" "forest_ok ?k ts" using Cons.prems(5) at by auto
  show ?case
  proof (cases "t = Leaf")
    case True
    have l: "pLeft e = 0" using e(4) True by simp
    have "distinct (a # forest_addrs ts @ xs)" using d by auto
    from put_here [OF e(5,3,2) l Cons.prems(2,3) this o(2) Cons.prems(6), of prev] obtain m' where
      m': "forest_put m prev a q = Some (m', Some a, a, q)" "changes (insert a (set xs)) m m'" "put_done m' ?k a (at # ts) xs"
      unfolding at True by blast
    then show ?thesis unfolding e(1) using e(2) changes_mono [OF m'(2), of "set (forest_addrs (at # ts)) \<union> set xs"] at by auto
  next
    case False
    obtain m1 f where f: "rowSetTreeToList m (pLeft e) = Some (m1, f, last (inorder t))" "rs_list m1 f (inorder t)" "changes (set_tree t) m m1"
      using tree_to_list_spec [OF e(4) False d(7)] unfolding flattened_def by blast
    have a1: "m1 a = Some e" using changes_other [OF f(3) d(1)] e(3) by simp
    define m2 where "m2 = m1(a \<mapsto> e\<lparr>pLeft := 0\<rparr>)"
    have c2: "changes (insert a (set_tree t)) m m2"
      unfolding m2_def by (rule changes_trans [OF f(3) changes_upd [of m1 a, OF a1 _ singletonI]]) auto
    have l2: "rs_list m2 f (inorder t)" "rs_list m2 q xs"
      using f(2) d(1) rs_list_changes [OF c2, of xs] Cons.prems(2) d(3,5) by (auto simp: m2_def)
    let ?zs = "amerge ?k (inorder t) xs"
    obtain m3 z where z: "rowSetEntryMerge m2 f q = Some (m3, z)" "changes (set_tree t \<union> set xs) m2 m3" "rs_list m3 z ?zs"
      using merge_spec [OF l2 inorder_nonempty [OF False] Cons.prems(3)] d changes_rkey [OF c2] by auto
    have zs: "set ?zs \<subseteq> set_tree t \<union> set xs" "distinct ?zs" "?zs \<noteq> []" "strict ?k ?zs" "?k ` set ?zs = ?k ` set_tree t \<union> ?k ` set xs"
      using amerge_set [of ?k "inorder t" xs] amerge_distinct [of "inorder t" xs ?k] d amerge_nonempty [of "inorder t" xs ?k]
        Cons.prems(3) amerge_strict [OF o(1) Cons.prems(6)] amerge_keys [of ?k "inorder t" xs] by auto
    have c3: "changes (insert a (set_tree t \<union> set xs)) m m3"
      by (rule changes_trans [OF c2 z(2)]) auto
    have a3: "m3 a = Some (e\<lparr>pLeft := 0\<rparr>)" using changes_other [OF z(2), of a] d(1,3) by (simp add: m2_def)
    have F3: "rs_forest m3 (pRight e) ts" using rs_forest_changes [OF c3, of ts] e(5) d by auto
    have k3: "rkey m3 = ?k" by (rule changes_rkey [OF c3])
    have "distinct (forest_addrs ts @ ?zs)" using zs(1,2) d by auto
    then obtain m' prev' pT q' where i: "forest_put m3 (Some a) (pRight e) z = Some (m', prev', pT, q')"
        "changes (set (forest_addrs ts) \<union> set ?zs) m3 m'"
        "pT \<noteq> 0 \<and> put_done m' ?k (pRight e) ts ?zs \<or> pT = 0 \<and> prev' = last_tree (Some a) ts \<and> put_over m' ?k (pRight e) ts ?zs q'"
      using Cons.IH [OF F3 z(3) zs(3), of "Some a"] o(2) zs(4) unfolding k3 by blast
    have "forest_put m prev p q = Some (m', prev', pT, q')"
      unfolding e(1) using e(2,3) rs_tree_zero [OF e(4)] False f(1) a1 z(1) a3 i(1)
      by (subst forest_put.simps) (simp add: rs_assign_eq m2_def [symmetric])
    moreover have "changes (set (forest_addrs (at # ts)) \<union> set xs) m m'"
      by (rule changes_trans [OF c3 i(2)]) (use zs(1) at in auto)
    moreover have a': "m' a = Some (e\<lparr>pLeft := 0\<rparr>)" using changes_other [OF i(2), of a] a3 d zs(1) by auto
    have n: "a \<notin> set (forest_addrs ts) \<union> set ?zs" using d zs(1) by auto
    have "put_done m' ?k p (at # ts) xs" if "put_done m' ?k (pRight e) ts ?zs"
      unfolding at e(1) by (rule put_done_Cons [OF that a' _ _ e(2) n zs(1,5)]) simp_all
    moreover have "put_over m' ?k p (at # ts) xs q'" if "put_over m' ?k (pRight e) ts ?zs q'"
      unfolding at e(1) by (rule put_over_Cons [OF that a' _ _ e(2) n zs(1,5)]) simp_all
    moreover have "last_tree (Some a) ts = last_tree prev (at # ts)" by (simp add: last_tree_def at)
    ultimately show ?thesis using i(3) by auto
  qed
qed

section \<open>The invariant\<close>

lemma flag_sorted: "f AND ROWSET_SORTED = 0 \<longleftrightarrow> \<not> bit (f :: u16) 0"
  using and_exp_eq_0_iff_not_bit [of f 0] by (simp add: ROWSET_SORTED_def)

lemma flag_next: "f AND ROWSET_NEXT = 0 \<longleftrightarrow> \<not> bit (f :: u16) 1"
  using and_exp_eq_0_iff_not_bit [of f 1] by (simp add: ROWSET_NEXT_def)

lemma flag_bits [simp]:
  "bit ROWSET_SORTED 0" "\<not> bit ROWSET_SORTED (Suc 0)" "\<not> bit ROWSET_NEXT 0" "bit ROWSET_NEXT (Suc 0)"
  by code_simp+

lemmas flag_simps = flag_sorted flag_next bit_or_iff bit_and_iff bit_not_iff

definition chunk_area :: "nat \<Rightarrow> nat set" where
  "chunk_area c = set (entry_addrs (c + 8) ROWSET_ENTRY_PER_CHUNK)"

definition fresh_addrs :: "RowSet \<Rightarrow> nat list" where
  "fresh_addrs r = entry_addrs (pFresh r) (nFresh r)"

text \<open>The entries: the trees of the forest, the list and the pool are apart from each other, the trees are
  balanced search trees, and a list that is marked as sorted is.\<close>

definition rs_ok :: "RowSet \<Rightarrow> (nat \<times> nat tree) list \<Rightarrow> nat list \<Rightarrow> bool" where
  "rs_ok r ts es \<longleftrightarrow> entry_store r 0 = None \<and> rs_forest (entry_store r) (pForest r) ts \<and> rs_list (entry_store r) (pEntry r) es \<and>
     set (fresh_addrs r) \<subseteq> dom (entry_store r) \<and> distinct (forest_addrs ts @ es @ fresh_addrs r) \<and>
     forest_ok (rkey (entry_store r)) ts \<and> (bit (rsFlags r) 0 \<longrightarrow> strict (rkey (entry_store r)) es)"

text \<open>While rowids are collected, \<open>pLast\<close> is the end of the list.\<close>

definition collecting :: "RowSet \<Rightarrow> nat list \<Rightarrow> bool" where
  "collecting r es \<longleftrightarrow> \<not> bit (rsFlags r) 1 \<and> pLast r = (if es = [] then 0 else last es)"

fun chunk_list :: "(nat \<rightharpoonup> nat) \<Rightarrow> nat \<Rightarrow> nat list \<Rightarrow> bool" where
  "chunk_list cm p [] \<longleftrightarrow> p = 0"
| "chunk_list cm p (c # cs) \<longleftrightarrow> p = c \<and> c \<noteq> 0 \<and> (\<exists>n. cm c = Some n \<and> chunk_list cm n cs)"

text \<open>The memory: every chunk is on the list of chunks, and every entry belongs to one of them or to the object; \<open>U\<close> covers all that was ever handed out.\<close>

definition mem_ok :: "RowSet \<Rightarrow> nat set \<Rightarrow> bool" where
  "mem_ok r U \<longleftrightarrow> (\<exists>cs. chunk_list (chunk_store r) (pChunk r) cs \<and> distinct cs \<and> dom (chunk_store r) = set cs) \<and>
     dom (entry_store r) \<subseteq> set (own_entries r) \<union> (\<Union>c \<in> dom (chunk_store r). chunk_area c) \<and>
     set (own_entries r) \<union> (\<Union>c \<in> dom (chunk_store r). chunk_area c) \<subseteq> U"

definition new_ok :: "new_chunk \<Rightarrow> nat set \<Rightarrow> bool" where
  "new_ok pNew U \<longleftrightarrow> fst pNew \<noteq> 0 \<and> chunk_area (fst pNew) \<inter> U = {}"

lemma mem_ok_mono: "mem_ok r U \<Longrightarrow> mem_ok r (U \<union> V)"
  unfolding mem_ok_def by blast

lemma mem_ok_dom: "mem_ok r U \<Longrightarrow> dom (entry_store r) \<subseteq> U"
  unfolding mem_ok_def by blast

lemma entry_addrs_Suc: "entry_addrs a (Suc n) = a # entry_addrs (a + 24) n"
  unfolding entry_addrs_def by (subst upt_conv_Cons) (simp_all add: map_Suc_upt [symmetric] comp_def del: upt_Suc)

lemma entry_addrs_0 [simp]: "entry_addrs a 0 = []"
  by (simp add: entry_addrs_def)

lemma entry_addrs_distinct: "distinct (entry_addrs a n)"
  by (auto simp: entry_addrs_def distinct_map inj_on_def)

lemma entry_addrs_ge: "x \<in> set (entry_addrs a n) \<Longrightarrow> a \<le> x"
  by (auto simp: entry_addrs_def)

lemma chunk_area_self: "c + 8 \<in> chunk_area c"
  by (simp add: chunk_area_def entry_addrs_def ROWSET_ENTRY_PER_CHUNK_def image_iff)

lemma chunk_list_frame: "(\<And>c. c \<in> set cs \<Longrightarrow> cm' c = cm c) \<Longrightarrow> chunk_list cm' p cs = chunk_list cm p cs"
  by (induction cs arbitrary: p) auto

lemma chunk_list_upd [simp]: "c \<notin> set cs \<Longrightarrow> chunk_list (cm(c := v)) p cs = chunk_list cm p cs"
  by (rule chunk_list_frame) auto

lemma rs_ok_live:
  assumes "rs_ok r ts es"
  shows "set (forest_addrs ts) \<union> set es \<union> set (fresh_addrs r) \<subseteq> dom (entry_store r)" "0 \<notin> dom (entry_store r)"
  using assms rs_forest_live [of "entry_store r" "pForest r" ts] rs_list_live [of "entry_store r" "pEntry r" es]
  unfolding rs_ok_def by auto

text \<open>The store may change outside of the live entries.\<close>

lemma rs_ok_frame:
  assumes "rs_ok r ts es" "\<And>x. x \<in> set (forest_addrs ts) \<union> set es \<Longrightarrow> entry_store r' x = entry_store r x"
    and "pForest r' = pForest r" "pEntry r' = pEntry r" "rsFlags r' = rsFlags r" "entry_store r' 0 = None"
    and "set (fresh_addrs r') \<subseteq> dom (entry_store r')" "distinct (fresh_addrs r')"
    and "set (fresh_addrs r') \<inter> (set (forest_addrs ts) \<union> set es) = {}"
  shows "rs_ok r' ts es"
proof -
  have k: "rkey (entry_store r') x = rkey (entry_store r) x" if "x \<in> set (forest_addrs ts) \<union> set es" for x
    using assms(2) [OF that] by (simp add: rkey_def)
  have "rs_forest (entry_store r') (pForest r) ts = rs_forest (entry_store r) (pForest r) ts"
    "rs_list (entry_store r') (pEntry r) es = rs_list (entry_store r) (pEntry r) es"
    using assms(2) by (auto intro!: rs_forest_frame rs_list_frame)
  moreover have "forest_ok (rkey (entry_store r')) ts = forest_ok (rkey (entry_store r)) ts"
    "strict (rkey (entry_store r')) es = strict (rkey (entry_store r)) es"
    using k by (auto intro!: forest_ok_cong strict_cong)
  ultimately show ?thesis using assms(1,3-9) unfolding rs_ok_def by auto
qed

section \<open>Allocating\<close>

definition refill :: "new_chunk \<Rightarrow> RowSet \<Rightarrow> RowSet" where
  "refill pNew p =
     p\<lparr>chunk_store := (chunk_store p)(fst pNew \<mapsto> pChunk p),
       pChunk := fst pNew, pFresh := fst pNew + 8, nFresh := ROWSET_ENTRY_PER_CHUNK,
       entry_store := entry_store p ++ raw_entries (entry_addrs (fst pNew + 8) ROWSET_ENTRY_PER_CHUNK) (snd pNew)\<rparr>"

definition take_fresh :: "RowSet \<Rightarrow> RowSet" where
  "take_fresh p = p\<lparr>nFresh := nFresh p - 1, pFresh := pFresh p + 24\<rparr>"

lemma alloc_eq:
  "rowSetEntryAlloc pNew p =
     (if nFresh p = 0 \<and> fst pNew = 0 then (0, p)
      else let p = (if nFresh p = 0 then refill pNew p else p) in (pFresh p, take_fresh p))"
  by (simp add: rowSetEntryAlloc_def refill_def take_fresh_def)

lemma raw_entries_dom: "dom (raw_entries as j) = set as"
  by (auto simp: raw_entries_def split: if_splits)

lemma refill_other: "x \<notin> chunk_area (fst pNew) \<Longrightarrow> entry_store (refill pNew r) x = entry_store r x"
  by (simp add: refill_def map_add_def raw_entries_def chunk_area_def)

lemma refill_dom: "dom (entry_store (refill pNew r)) = dom (entry_store r) \<union> chunk_area (fst pNew)"
  by (auto simp: refill_def raw_entries_dom chunk_area_def)

lemma outside_chunk:
  assumes "rs_ok r ts es" "mem_ok r U" "new_ok pNew U" "x \<in> set (forest_addrs ts) \<union> set es"
  shows "x \<notin> chunk_area (fst pNew)"
proof -
  have "x \<in> dom (entry_store r)" using rs_ok_live(1) [OF assms(1)] assms(4) by blast
  then show ?thesis using mem_ok_dom [OF assms(2)] assms(3) unfolding new_ok_def by blast
qed

lemma refill_ok:
  assumes "rs_ok r ts es" "mem_ok r U" "new_ok pNew U"
  shows "rs_ok (refill pNew r) ts es" "mem_ok (refill pNew r) (U \<union> chunk_area (fst pNew))"
proof -
  have f: "set (fresh_addrs (refill pNew r)) = chunk_area (fst pNew)" by (simp add: fresh_addrs_def refill_def chunk_area_def)
  have z: "0 \<notin> chunk_area (fst pNew)" using entry_addrs_ge unfolding chunk_area_def by fastforce
  show "rs_ok (refill pNew r) ts es"
  proof (rule rs_ok_frame [OF assms(1)])
    show "entry_store (refill pNew r) x = entry_store r x" if "x \<in> set (forest_addrs ts) \<union> set es" for x
      using outside_chunk [OF assms that] by (rule refill_other)
    show "entry_store (refill pNew r) 0 = None" using refill_other [OF z] assms(1) by (simp add: rs_ok_def)
    show "set (fresh_addrs (refill pNew r)) \<inter> (set (forest_addrs ts) \<union> set es) = {}"
      using outside_chunk [OF assms] unfolding f by blast
  qed (simp_all add: f refill_dom, simp_all add: refill_def fresh_addrs_def entry_addrs_distinct)
  obtain cs where cs: "chunk_list (chunk_store r) (pChunk r) cs" "distinct cs" "dom (chunk_store r) = set cs"
    using assms(2) by (auto simp: mem_ok_def)
  have n: "fst pNew \<notin> set cs"
  proof
    assume "fst pNew \<in> set cs"
    then have "chunk_area (fst pNew) \<subseteq> U" using assms(2) cs(3) by (auto simp: mem_ok_def)
    then show False using assms(3) chunk_area_self [of "fst pNew"] by (auto simp: new_ok_def)
  qed
  then have "chunk_list (chunk_store (refill pNew r)) (pChunk (refill pNew r)) (fst pNew # cs)"
    using cs(1) assms(3) by (simp add: refill_def new_ok_def)
  moreover have "dom (chunk_store (refill pNew r)) = set (fst pNew # cs)" using cs(3) by (auto simp: refill_def)
  moreover have "own_entries (refill pNew r) = own_entries r" by (simp add: refill_def)
  moreover have "dom (entry_store r) \<subseteq> set (own_entries r) \<union> (\<Union>c \<in> set cs. chunk_area c)"
      "set (own_entries r) \<union> (\<Union>c \<in> set cs. chunk_area c) \<subseteq> U"
    using assms(2) cs(3) by (simp_all add: mem_ok_def)
  ultimately show "mem_ok (refill pNew r) (U \<union> chunk_area (fst pNew))"
    using cs(2) n unfolding mem_ok_def refill_dom by (intro conjI exI [of _ "fst pNew # cs"]) auto
qed

lemma take_ok:
  assumes "rs_ok r ts es" "0 < nFresh r"
  shows "rs_ok (take_fresh r) ts es" "pFresh r \<noteq> 0" "entry_store r (pFresh r) \<noteq> None"
    and "pFresh r \<notin> set (forest_addrs ts) \<union> set es \<union> set (fresh_addrs (take_fresh r))"
proof -
  have f: "fresh_addrs r = pFresh r # fresh_addrs (take_fresh r)"
    using assms(2) entry_addrs_Suc [of "pFresh r" "nFresh r - 1"] by (simp add: fresh_addrs_def take_fresh_def)
  show "rs_ok (take_fresh r) ts es"
    using assms(1) unfolding rs_ok_def f by (simp add: take_fresh_def)
  show "entry_store r (pFresh r) \<noteq> None" using assms(1) unfolding rs_ok_def f by auto
  with assms(1) show "pFresh r \<noteq> 0" by (auto simp: rs_ok_def intro: ccontr)
  show "pFresh r \<notin> set (forest_addrs ts) \<union> set es \<union> set (fresh_addrs (take_fresh r))"
    using assms(1) unfolding rs_ok_def f by auto
qed

definition allocated :: "RowSet \<Rightarrow> (nat \<times> nat tree) list \<Rightarrow> nat list \<Rightarrow> nat \<Rightarrow> RowSet \<Rightarrow> bool" where
  "allocated r ts es a r' \<longleftrightarrow> rs_ok r' ts es \<and> a \<noteq> 0 \<and> entry_store r' a \<noteq> None \<and>
     a \<notin> set (forest_addrs ts) \<union> set es \<union> set (fresh_addrs r') \<and>
     (\<forall>x \<in> set (forest_addrs ts) \<union> set es. entry_store r' x = entry_store r x) \<and>
     pForest r' = pForest r \<and> pEntry r' = pEntry r \<and> pLast r' = pLast r \<and> rsFlags r' = rsFlags r \<and> iBatch r' = iBatch r"

lemma alloc_spec:
  assumes "rs_ok r ts es" "mem_ok r U" "0 < nFresh r \<or> new_ok pNew U"
  shows "\<exists>a r'. rowSetEntryAlloc pNew r = (a, r') \<and> allocated r ts es a r' \<and> mem_ok r' (U \<union> chunk_area (fst pNew))"
proof -
  define r1 where "r1 = (if nFresh r = 0 then refill pNew r else r)"
  have "mem_ok r (U \<union> chunk_area (fst pNew))" by (rule mem_ok_mono [OF assms(2)])
  then have r1: "rs_ok r1 ts es" "mem_ok r1 (U \<union> chunk_area (fst pNew))" using assms refill_ok [OF assms(1,2), of pNew] by (auto simp: r1_def)
  have "0 < nFresh r1" by (simp add: r1_def refill_def ROWSET_ENTRY_PER_CHUNK_def)
  note t = take_ok [OF r1(1) this]
  have "rowSetEntryAlloc pNew r = (pFresh r1, take_fresh r1)" using assms(3) by (auto simp: alloc_eq r1_def Let_def new_ok_def)
  moreover have "entry_store r1 x = entry_store r x" if "x \<in> set (forest_addrs ts) \<union> set es" for x
    using outside_chunk [OF assms(1,2) _ that, of pNew] assms(3) by (auto simp: r1_def refill_other)
  moreover have "pForest r1 = pForest r" "pEntry r1 = pEntry r" "pLast r1 = pLast r" "rsFlags r1 = rsFlags r" "iBatch r1 = iBatch r"
    by (simp_all add: r1_def refill_def)
  moreover have "mem_ok (take_fresh r1) (U \<union> chunk_area (fst pNew))" using r1(2) by (simp add: mem_ok_def take_fresh_def)
  ultimately show ?thesis using t by (simp add: allocated_def) (simp add: take_fresh_def)
qed

section \<open>Creating and inserting\<close>

definition pool_size :: "nat \<Rightarrow> nat" where
  "pool_size N = unat (of_nat ((N - 56) div 24) :: u16)"

lemma init_spec:
  assumes "fst mem \<noteq> 0"
  shows "\<exists>r. sqlite3RowSetInit mem N = Some r \<and> rs_ok r [] [] \<and> collecting r [] \<and>
    mem_ok r (set (entry_addrs (fst mem + 56) (pool_size N))) \<and> iBatch r = 0"
proof -
  have "0 \<notin> set (entry_addrs (fst mem + 56) n)" for n using entry_addrs_ge by fastforce
  then show ?thesis
    using assms raw_entries_dom [of "entry_addrs (fst mem + 56) (pool_size N)" "snd mem"]
    by (simp add: sqlite3RowSetInit_def rs_ok_def collecting_def mem_ok_def Let_def pool_size_def [symmetric] fresh_addrs_def
        entry_addrs_distinct raw_entries_def)
qed

lemma mem_ok_store:
  "mem_ok r U \<Longrightarrow> dom (entry_store r') = dom (entry_store r) \<Longrightarrow> chunk_store r' = chunk_store r \<Longrightarrow> pChunk r' = pChunk r \<Longrightarrow>
    own_entries r' = own_entries r \<Longrightarrow> mem_ok r' U"
  unfolding mem_ok_def by simp

text \<open>The list with the new entry at its end; \<open>m1\<close> is the store with that entry, \<open>m2\<close> the one in which the list is linked.\<close>

lemma append_ok:
  assumes r: "rs_ok r ts es" "entry_store r a = Some e" "a \<noteq> 0" "a \<notin> set (forest_addrs ts) \<union> set es \<union> set (fresh_addrs r)"
    and m1: "m1 = (entry_store r)(a \<mapsto> e\<lparr>rowid_v := x, pRight := 0\<rparr>)"
    and m2: "changes (set es) m1 m2" "rs_list m2 (pEntry r') (es @ [a])"
    and r': "entry_store r' = m2" "pForest r' = pForest r" "fresh_addrs r' = fresh_addrs r"
      "rsFlags r' = (if es \<noteq> [] \<and> x \<le> rkey (entry_store r) (last es) then rsFlags r AND NOT ROWSET_SORTED else rsFlags r)"
  shows "rs_ok r' ts (es @ [a])"
    and "map (rkey m2) (es @ [a]) = map (rkey (entry_store r)) es @ [x]"
    and "forest_keys (rkey m2) ts = forest_keys (rkey (entry_store r)) ts"
proof -
  let ?k = "rkey (entry_store r)"
  have k: "rkey m2 = rkey m1" by (rule changes_rkey [OF m2(1)])
  have k1: "rkey m2 a = x" by (simp add: k m1 rkey_def)
  have k2: "rkey m2 y = ?k y" if "y \<noteq> a" for y using that by (simp add: k m1 rkey_def)
  have n: "a \<notin> set (forest_addrs ts)" "a \<notin> set es" "distinct (forest_addrs ts @ es @ fresh_addrs r)" using r(1,4) by (auto simp: rs_ok_def)
  have live: "dom m2 = dom (entry_store r)" using changes_dom [OF m2(1)] r(2) by (auto simp: m1)
  have "rs_forest m2 (pForest r) ts = rs_forest (entry_store r) (pForest r) ts"
  proof (rule rs_forest_frame)
    fix y assume y: "y \<in> set (forest_addrs ts)"
    then have "y \<notin> set es" "y \<noteq> a" using n by auto
    then show "m2 y = entry_store r y" using changes_other [OF m2(1)] by (simp add: m1)
  qed
  moreover have "forest_ok (rkey m2) ts = forest_ok ?k ts" using n(1) by (intro forest_ok_cong k2) auto
  moreover have me: "map (rkey m2) es = map ?k es" using n(2) by (intro map_cong refl k2) auto
  then show ks: "map (rkey m2) (es @ [a]) = map ?k es @ [x]"
    using k1 by simp
  have "strict (rkey m2) (es @ [a])" if b: "bit (rsFlags r') 0"
  proof -
    have f: "es = [] \<or> \<not> x \<le> ?k (last es)" "bit (rsFlags r) 0" using b r'(4) by (auto simp: flag_simps split: if_splits)
    then have s: "strict ?k es" using r(1) by (simp add: rs_ok_def)
    have "\<forall>y \<in> set (map ?k es). y < x"
    proof (cases "es = []")
      case False
      then have "strict ?k (butlast es @ [last es])" using s by simp
      then have "\<forall>y \<in> set (butlast es). ?k y < ?k (last es)" by (simp add: sorted_wrt_append)
      moreover have "set es = insert (last es) (set (butlast es))" using False by (metis append_butlast_last_id list.simps(15) rotate1.simps(2) set_rotate1)
      ultimately show ?thesis using f(1) False by fastforce
    qed simp
    then show ?thesis unfolding ks using s by (simp add: sorted_wrt_append)
  qed
  moreover have "distinct (forest_addrs ts @ (es @ [a]) @ fresh_addrs r)" using n r(4) by auto
  moreover have "m2 0 = None" "set (fresh_addrs r) \<subseteq> dom m2" using live r(1) by (auto simp: rs_ok_def)
  ultimately show "rs_ok r' ts (es @ [a])" using r(1) m2(2) r' unfolding rs_ok_def by auto
  show "forest_keys (rkey m2) ts = forest_keys ?k ts" using n(1) by (intro forest_keys_cong k2) auto
qed

text \<open>Linking the new entry: what \<open>sqlite3RowSetInsert\<close> does after \<open>rowSetEntryAlloc\<close>.\<close>

definition linked_at :: "RowSet \<Rightarrow> nat list \<Rightarrow> nat \<Rightarrow> int \<Rightarrow> entries \<Rightarrow> RowSet \<Rightarrow> bool" where
  "linked_at r1 es a x m1 r' \<longleftrightarrow> changes (set es) m1 (entry_store r') \<and> rs_list (entry_store r') (pEntry r') (es @ [a]) \<and>
     pForest r' = pForest r1 \<and> fresh_addrs r' = fresh_addrs r1 \<and>
     rsFlags r' = (if es \<noteq> [] \<and> x \<le> rkey (entry_store r1) (last es) then rsFlags r1 AND NOT ROWSET_SORTED else rsFlags r1) \<and>
     pLast r' = a \<and> iBatch r' = iBatch r1 \<and> chunk_store r' = chunk_store r1 \<and> pChunk r' = pChunk r1 \<and>
     own_entries r' = own_entries r1"

lemma insert_link:
  assumes al: "rowSetEntryAlloc pNew r = (a, r1)" and r1: "rs_list (entry_store r1) (pEntry r1) es" "distinct es" "a \<noteq> 0" "a \<notin> set es"
      "pLast r1 = (if es = [] then 0 else last es)" and e: "entry_store r1 a = Some e"
    and m1_def: "m1 = (entry_store r1)(a \<mapsto> e\<lparr>rowid_v := x, pRight := 0\<rparr>)"
  shows "\<exists>r'. sqlite3RowSetInsert pNew r x = Some r' \<and> linked_at r1 es a x m1 r'"
proof -
  have l1: "rs_list m1 (pEntry r1) es" using r1(1,4) by (simp add: m1_def)
  show ?thesis
  proof (cases "es = []")
    case True
    let ?r = "r1\<lparr>pEntry := a, entry_store := m1, pLast := a\<rparr>"
    have "sqlite3RowSetInsert pNew r x = Some ?r"
      using True r1(3,5) e by (simp add: sqlite3RowSetInsert_def al rs_assign_eq m1_def)
    moreover have "rs_list m1 a [a]" using r1(3) by (simp add: m1_def)
    ultimately show ?thesis using True by (intro exI [of _ ?r]) (simp add: linked_at_def fresh_addrs_def)
  next
    case False
    define z where "z = last es"
    have z: "z \<in> set es" "z \<noteq> 0" "pLast r1 = z" "z \<noteq> a"
      using False r1(4,5) rs_list_live [OF l1] by (auto simp: z_def)
    then obtain ez where ez: "m1 z = Some ez" using rs_list_live [OF l1] by blast
    have kz: "rowid_v ez = rkey (entry_store r1) z" using ez z(4) by (simp add: m1_def rkey_def)
    define m2 where "m2 = m1(z \<mapsto> ez\<lparr>pRight := a\<rparr>)"
    let ?r = "r1\<lparr>rsFlags := (if x \<le> rowid_v ez then rsFlags r1 AND NOT ROWSET_SORTED else rsFlags r1),
        entry_store := m2, pLast := a\<rparr>"
    have "sqlite3RowSetInsert pNew r x = Some ?r"
      using r1(3) z(2,3) e ez by (simp add: sqlite3RowSetInsert_def al rs_assign_eq m1_def [symmetric] m2_def)
    moreover have "changes (set es) m1 m2" using ez z(1) unfolding m2_def by (intro changes_upd) auto
    moreover have "rs_seg m2 (pEntry r1) es a"
      using rs_seg_relink [OF l1 False r1(2), of ez a] ez unfolding z_def [symmetric] by (simp add: m2_def)
    moreover have "rs_list m2 a [a]" using r1(3) z(4) by (simp add: m2_def m1_def)
    ultimately show ?thesis using False kz by (intro exI [of _ ?r]) (auto simp: linked_at_def fresh_addrs_def rs_list_append z_def)
  qed
qed

lemma insert_spec:
  assumes "rs_ok r ts es" "collecting r es" "mem_ok r U" "0 < nFresh r \<or> new_ok pNew U"
  shows "\<exists>r' a. sqlite3RowSetInsert pNew r x = Some r' \<and> rs_ok r' ts (es @ [a]) \<and> collecting r' (es @ [a]) \<and>
    mem_ok r' (U \<union> chunk_area (fst pNew)) \<and> iBatch r' = iBatch r \<and>
    map (rkey (entry_store r')) (es @ [a]) = map (rkey (entry_store r)) es @ [x] \<and>
    forest_keys (rkey (entry_store r')) ts = forest_keys (rkey (entry_store r)) ts"
proof -
  obtain a r1 where al: "rowSetEntryAlloc pNew r = (a, r1)" "allocated r ts es a r1" "mem_ok r1 (U \<union> chunk_area (fst pNew))"
    using alloc_spec [OF assms(1,3,4)] by blast
  have r1: "rs_ok r1 ts es" "a \<noteq> 0" "a \<notin> set (forest_addrs ts) \<union> set es \<union> set (fresh_addrs r1)"
      "\<And>y. y \<in> set (forest_addrs ts) \<union> set es \<Longrightarrow> entry_store r1 y = entry_store r y"
      "pLast r1 = pLast r" "rsFlags r1 = rsFlags r" "iBatch r1 = iBatch r"
    using al(2) by (auto simp: allocated_def)
  obtain e where e: "entry_store r1 a = Some e" using al(2) by (auto simp: allocated_def)
  have kk: "map (rkey (entry_store r1)) es = map (rkey (entry_store r)) es"
      "forest_keys (rkey (entry_store r1)) ts = forest_keys (rkey (entry_store r)) ts"
    using r1(4) by (auto simp: rkey_def intro!: forest_keys_cong)
  define m1 where "m1 = (entry_store r1)(a \<mapsto> e\<lparr>rowid_v := x, pRight := 0\<rparr>)"
  obtain r' where r': "sqlite3RowSetInsert pNew r x = Some r'" "linked_at r1 es a x m1 r'"
    using insert_link [OF al(1) _ _ r1(2) _ _ e m1_def, of es] r1(1,3,5) assms(2) by (auto simp: rs_ok_def collecting_def)
  have c: "changes (set es) m1 (entry_store r')" "rs_list (entry_store r') (pEntry r') (es @ [a])" "pForest r' = pForest r1"
      "fresh_addrs r' = fresh_addrs r1" "iBatch r' = iBatch r1"
      "rsFlags r' = (if es \<noteq> [] \<and> x \<le> rkey (entry_store r1) (last es) then rsFlags r1 AND NOT ROWSET_SORTED else rsFlags r1)"
    using r'(2) by (auto simp: linked_at_def)
  note ap = append_ok [OF r1(1) e r1(2,3) m1_def c(1,2) refl c(3,4,6)]
  have "dom (entry_store r') = dom (entry_store r1)" using changes_dom [OF c(1)] e by (auto simp: m1_def)
  then have "mem_ok r' (U \<union> chunk_area (fst pNew))" by (rule mem_ok_store [OF al(3)]) (use r'(2) in \<open>simp_all add: linked_at_def\<close>)
  moreover have "collecting r' (es @ [a])"
    using assms(2) r'(2) r1(6) by (simp add: collecting_def linked_at_def flag_simps)
  ultimately show ?thesis using ap kk r'(1) c(5) r1(7) by auto
qed

lemma insert_oom: "nFresh r = 0 \<Longrightarrow> fst pNew = 0 \<Longrightarrow> sqlite3RowSetInsert pNew r x = Some r"
  by (simp add: sqlite3RowSetInsert_def rowSetEntryAlloc_def)

section \<open>Clearing\<close>

lemma free_chunks_spec:
  "chunk_list cm p cs \<Longrightarrow> distinct cs \<Longrightarrow>
    free_chunks m cm p = Some (m |` (- (\<Union>c \<in> set cs. chunk_area c)), cm |` (- set cs))"
proof (induction cs arbitrary: p m cm)
  case Nil
  then show ?case by (subst free_chunks.simps) (simp add: restrict_map_def)
next
  case (Cons c cs)
  then obtain n where n: "p = c" "c \<noteq> 0" "cm c = Some n" "chunk_list cm n cs" by auto
  have cl: "chunk_list (cm(c := None)) n cs" "distinct cs" using n(4) Cons.prems(2) by simp_all
  have "free_chunks m cm p = free_chunks (m |` (- chunk_area c)) (cm(c := None)) n"
    using n(1-3) by (subst free_chunks.simps) (simp add: chunk_area_def)
  also have "\<dots> = Some (m |` (- chunk_area c) |` (- (\<Union>c \<in> set cs. chunk_area c)), cm(c := None) |` (- set cs))"
    by (rule Cons.IH [OF cl])
  also have "m |` (- chunk_area c) |` (- (\<Union>c \<in> set cs. chunk_area c)) = m |` (- (\<Union>c \<in> set (c # cs). chunk_area c))"
    by (auto simp: restrict_map_def fun_eq_iff)
  also have "cm(c := None) |` (- set cs) = cm |` (- set (c # cs))"
    by (auto simp: restrict_map_def fun_eq_iff)
  finally show ?case .
qed

lemma clear_spec:
  assumes "mem_ok r U" "entry_store r 0 = None"
  shows "\<exists>r'. sqlite3RowSetClear r = Some r' \<and> rs_ok r' [] [] \<and> collecting r' [] \<and> mem_ok r' U \<and> iBatch r' = iBatch r \<and>
    chunk_store r' = Map.empty \<and> own_entries r' = own_entries r \<and> entry_store r' = entry_store r |` (- (\<Union>c \<in> dom (chunk_store r). chunk_area c))"
proof -
  obtain cs where cs: "chunk_list (chunk_store r) (pChunk r) cs" "distinct cs" "dom (chunk_store r) = set cs"
    using assms(1) by (auto simp: mem_ok_def)
  let ?m = "entry_store r |` (- (\<Union>c \<in> set cs. chunk_area c))"
  let ?r = "r\<lparr>pChunk := 0, nFresh := 0, pEntry := 0, pLast := 0, pForest := 0,
      rsFlags := ROWSET_SORTED, entry_store := ?m, chunk_store := Map.empty\<rparr>"
  have "chunk_store r |` (- set cs) = Map.empty" using cs(3) by (auto simp: restrict_map_def fun_eq_iff dom_def)
  then have "sqlite3RowSetClear r = Some ?r"
    using free_chunks_spec [OF cs(1,2)] by (simp add: sqlite3RowSetClear_def)
  moreover have "mem_ok ?r U"
    using assms(1) cs(3) unfolding mem_ok_def by (auto intro!: exI [of _ "[]"])
  moreover have "rs_ok ?r [] []" "collecting ?r []"
    using assms(2) by (simp_all add: rs_ok_def collecting_def fresh_addrs_def restrict_map_def)
  ultimately show ?thesis using cs(3) by (intro exI [of _ ?r]) simp
qed

section \<open>Extracting\<close>

lemma maybe_sort_spec:
  assumes "rs_ok r ts es" "length es < 2 ^ 40" "m = entry_store r"
  shows "\<exists>m' q ys. (if rsFlags r AND ROWSET_SORTED = 0 then rowSetEntrySort m (pEntry r) else Some (m, pEntry r)) = Some (m', q) \<and>
    rs_list m' q ys \<and> distinct ys \<and> strict (rkey m) ys \<and> set ys \<subseteq> set es \<and> rkey m ` set ys = rkey m ` set es \<and> changes (set es) m m'"
proof (cases "bit (rsFlags r) 0")
  case True
  then show ?thesis using assms by (intro exI [of _ m] exI [of _ "pEntry r"] exI [of _ es]) (auto simp: flag_sorted rs_ok_def)
next
  case False
  have "rs_list m (pEntry r) es" "distinct es" using assms(1,3) by (auto simp: rs_ok_def)
  from sort_spec [OF this assms(2)] show ?thesis using False by (simp add: flag_sorted)
qed

lemma subset_length: "distinct xs \<Longrightarrow> set xs \<subseteq> set ys \<Longrightarrow> length xs \<le> length ys"
  by (metis List.finite_set card_length card_mono distinct_card le_trans)

lemma next_sorted:
  assumes "rs_ok r ts es" "mem_ok r U" "bit (rsFlags r) 1 \<longrightarrow> bit (rsFlags r) 0" "length es < 2 ^ 40"
  shows "\<exists>r1 ys. (if rsFlags r AND ROWSET_NEXT = 0 then
            do {
              p \<leftarrow> (if rsFlags r AND ROWSET_SORTED = 0 then
                     do { (m, e) \<leftarrow> rowSetEntrySort (entry_store r) (pEntry r); Some (r\<lparr>pEntry := e, entry_store := m\<rparr>) }
                   else Some r);
              Some (p\<lparr>rsFlags := rsFlags p OR (ROWSET_SORTED OR ROWSET_NEXT)\<rparr>)
            }
          else Some r) = Some r1 \<and> rs_ok r1 ts ys \<and> mem_ok r1 U \<and> bit (rsFlags r1) 0 \<and> length ys \<le> length es \<and> iBatch r1 = iBatch r \<and>
    rkey (entry_store r1) ` set ys = rkey (entry_store r) ` set es"
proof (cases "bit (rsFlags r) 1")
  case True
  then show ?thesis using assms by (intro exI [of _ r] exI [of _ es]) (simp add: flag_next)
next
  case False
  let ?m = "entry_store r"
  obtain m' q ys where s: "(if rsFlags r AND ROWSET_SORTED = 0 then rowSetEntrySort ?m (pEntry r) else Some (?m, pEntry r)) = Some (m', q)"
      "rs_list m' q ys" "distinct ys" "strict (rkey ?m) ys" "set ys \<subseteq> set es" "rkey ?m ` set ys = rkey ?m ` set es" "changes (set es) ?m m'"
    using maybe_sort_spec [OF assms(1,4) refl] by blast
  let ?r = "r\<lparr>pEntry := q, entry_store := m', rsFlags := rsFlags r OR (ROWSET_SORTED OR ROWSET_NEXT)\<rparr>"
  have eq: "(if rsFlags r AND ROWSET_SORTED = 0 then
      do { (m, e) \<leftarrow> rowSetEntrySort ?m (pEntry r); Some (r\<lparr>pEntry := e, entry_store := m\<rparr>) } else Some r) =
      Some (r\<lparr>pEntry := q, entry_store := m'\<rparr>)"
    using s(1) by (cases r) (auto split: if_splits)
  have k: "rkey m' = rkey ?m" by (rule changes_rkey [OF s(7)])
  have o: "distinct (forest_addrs ts @ es @ fresh_addrs r)" using assms(1) by (simp add: rs_ok_def)
  then have "distinct (forest_addrs ts @ ys @ fresh_addrs r)" using s(3,5) by auto
  moreover have "rs_forest m' (pForest r) ts" using rs_forest_changes [OF s(7), of ts] o assms(1) by (auto simp: rs_ok_def)
  ultimately have "rs_ok ?r ts ys"
    using assms(1) s(2,4) changes_dom [OF s(7)] changes_live [OF s(7), of 0] unfolding rs_ok_def by (simp add: fresh_addrs_def k)
  moreover have "mem_ok ?r U" using changes_dom [OF s(7)] by (intro mem_ok_store [OF assms(2)]) simp_all
  ultimately show ?thesis
    using False k s(6) subset_length [OF s(3,5)] eq by (intro exI [of _ ?r] exI [of _ ys]) (simp add: flag_simps)
qed

lemma next_spec:
  assumes "rs_ok r ts es" "mem_ok r U" "bit (rsFlags r) 1 \<longrightarrow> bit (rsFlags r) 0" "length es < 2 ^ 40"
    and S: "S = rkey (entry_store r) ` set es"
  shows "\<exists>r' ts' es'. sqlite3RowSetNext r = Some (if S = {} then None else Some (Min S), r') \<and> rs_ok r' ts' es' \<and> mem_ok r' U \<and>
    (bit (rsFlags r') 1 \<longrightarrow> bit (rsFlags r') 0) \<and> length es' \<le> length es \<and>
    rkey (entry_store r') ` set es' = S - {Min S}"
proof -
  obtain r1 ys where r1: "(if rsFlags r AND ROWSET_NEXT = 0 then
            do {
              p \<leftarrow> (if rsFlags r AND ROWSET_SORTED = 0 then
                     do { (m, e) \<leftarrow> rowSetEntrySort (entry_store r) (pEntry r); Some (r\<lparr>pEntry := e, entry_store := m\<rparr>) }
                   else Some r);
              Some (p\<lparr>rsFlags := rsFlags p OR (ROWSET_SORTED OR ROWSET_NEXT)\<rparr>)
            }
          else Some r) = Some r1" "rs_ok r1 ts ys" "mem_ok r1 U" "bit (rsFlags r1) 0" "length ys \<le> length es"
      "rkey (entry_store r1) ` set ys = S"
    using next_sorted [OF assms(1-4)] unfolding S by blast
  note eq = sqlite3RowSetNext_def [of r, unfolded r1(1) Option.bind.simps(2)]
  show ?thesis
  proof (cases ys)
    case Nil
    then have "pEntry r1 = 0" "S = {}" using r1(2,6) by (auto simp: rs_ok_def)
    then show ?thesis using Nil r1 unfolding eq by (intro exI [of _ r1] exI [of _ ts] exI [of _ "[]"]) simp
  next
    case (Cons y ys')
    let ?k = "rkey (entry_store r1)"
    obtain e where e: "pEntry r1 = y" "y \<noteq> 0" "entry_store r1 y = Some e" "rs_list (entry_store r1) (pRight e) ys'"
      using r1(2) Cons by (auto simp: rs_ok_def)
    have st: "strict ?k (y # ys')" using r1(2,4) Cons by (simp add: rs_ok_def)
    then have "Min S = ?k y" "S - {?k y} = ?k ` set ys'" "S \<noteq> {}"
      using Cons unfolding r1(6) [symmetric] by (auto intro!: Min_eqI)
    moreover have "rowid_v e = ?k y" using e(3) by (simp add: rkey_def)
    ultimately have v: "(if S = {} then None else Some (Min S)) = Some (rowid_v e)" "S - {Min S} = ?k ` set ys'" by simp_all
    let ?r = "r1\<lparr>pEntry := pRight e\<rparr>"
    show ?thesis
    proof (cases ys')
      case Nil
      have "mem_ok ?r U" "entry_store ?r 0 = None" using r1(2,3) by (auto simp: mem_ok_def rs_ok_def)
      from clear_spec [OF this] obtain r2 where "sqlite3RowSetClear ?r = Some r2" "rs_ok r2 [] []" "collecting r2 []" "mem_ok r2 U"
        by blast
      then show ?thesis
        using e Nil unfolding eq v by (intro exI [of _ r2] exI [of _ "[]"] exI [of _ "[]"]) (simp add: collecting_def)
    next
      case Cons': (Cons y' ys'')
      have "rs_ok ?r ts ys'" using r1(2) Cons e(4) st by (auto simp: rs_ok_def fresh_addrs_def)
      moreover have "mem_ok ?r U" using r1(3) by (simp add: mem_ok_def)
      moreover have "pRight e \<noteq> 0" using e(4) Cons' by auto
      ultimately show ?thesis
        using e(1-3) Cons r1(4,5) unfolding eq v by (intro exI [of _ ?r] exI [of _ ts] exI [of _ ys']) simp
    qed
  qed
qed

section \<open>Testing\<close>

lemma alloc_pEntry:
  "rowSetEntryAlloc pNew r = (a, r') \<Longrightarrow> rowSetEntryAlloc pNew (r\<lparr>pEntry := q\<rparr>) = (a, r'\<lparr>pEntry := q\<rparr>)"
  by (auto simp: rowSetEntryAlloc_def Let_def split: if_splits)

text \<open>The forest after the list went through it: it took the list, or its trees are empty and all entries are in
  the list.\<close>

definition batch_done :: "RowSet \<Rightarrow> int set \<Rightarrow> bool" where
  "batch_done r' S \<longleftrightarrow> (\<exists>ts'. rs_ok (r'\<lparr>pEntry := 0\<rparr>) ts' [] \<and> forest_keys (rkey (entry_store r')) ts' = S)"

definition batch_over :: "RowSet \<Rightarrow> int set \<Rightarrow> nat \<Rightarrow> nat option \<Rightarrow> bool" where
  "batch_over r' S q prev \<longleftrightarrow> (\<exists>ts ys. rs_ok (r'\<lparr>pEntry := q\<rparr>) ts ys \<and> ys \<noteq> [] \<and> strict (rkey (entry_store r')) ys \<and>
     (\<forall>(a, t) \<in> set ts. t = Leaf) \<and> prev = last_tree None ts \<and> rkey (entry_store r') ` set ys = S)"

lemma batch_doneI:
  assumes "put_done m' (rkey m') (pForest r) ts ys" "set (fresh_addrs r) \<subseteq> dom m" "distinct (forest_addrs ts @ es @ fresh_addrs r)"
    and "set ys \<subseteq> set es" "dom m' = dom m" "m' 0 = None" "S = forest_keys (rkey m') ts \<union> rkey m' ` set ys"
  shows "batch_done (r\<lparr>entry_store := m'\<rparr>) S"
proof -
  obtain ts' where t: "rs_forest m' (pForest r) ts'" "distinct (forest_addrs ts')" "forest_ok (rkey m') ts'"
      "set (forest_addrs ts') \<subseteq> set (forest_addrs ts) \<union> set ys" "forest_keys (rkey m') ts' = S"
    using assms(1) unfolding put_done_def assms(7) by blast
  have "distinct (forest_addrs ts' @ [] @ fresh_addrs r)" using t(2,4) assms(3,4) by auto
  then have "rs_ok (r\<lparr>entry_store := m', pEntry := 0\<rparr>) ts' []"
    using t(1,3) assms(2,5,6) by (simp add: rs_ok_def fresh_addrs_def)
  then show ?thesis unfolding batch_done_def using t(5) by auto
qed

lemma batch_overI:
  assumes "put_over m' (rkey m') (pForest r) ts ys q" "set (fresh_addrs r) \<subseteq> dom m" "distinct (forest_addrs ts @ es @ fresh_addrs r)"
    and "set ys \<subseteq> set es" "dom m' = dom m" "m' 0 = None" "S = forest_keys (rkey m') ts \<union> rkey m' ` set ys"
  shows "batch_over (r\<lparr>entry_store := m'\<rparr>) S q (last_tree None ts)"
proof -
  let ?ts = "map (\<lambda>(a, t). (a, Leaf)) ts :: (nat \<times> nat tree) list"
  obtain zs where t: "rs_forest m' (pForest r) ?ts" "rs_list m' q zs" "zs \<noteq> []" "strict (rkey m') zs" "distinct (map fst ts @ zs)"
      "set zs \<subseteq> set (forest_addrs ts) \<union> set ys" "rkey m' ` set zs = S"
    using assms(1) unfolding put_over_def assms(7) by blast
  have fa: "forest_addrs ?ts = map fst ts" by (induction ts) auto
  have "set (map fst ts) \<subseteq> set (forest_addrs ts)" by (auto simp: forest_addrs_def)
  moreover have "set zs \<inter> set (fresh_addrs r) = {}" using t(6) assms(3,4) unfolding distinct_append set_append by blast
  ultimately have "distinct (forest_addrs ?ts @ zs @ fresh_addrs r)" using t(5) assms(3) unfolding fa by auto
  moreover have "forest_ok (rkey m') ?ts" by (auto simp: forest_ok_def balanced_def)
  ultimately have "rs_ok (r\<lparr>entry_store := m', pEntry := q\<rparr>) ?ts zs"
    using t(1,2,4) assms(2,5,6) by (simp add: rs_ok_def fresh_addrs_def)
  moreover have "last_tree None ts = last_tree None ?ts" by (auto simp: last_tree_def last_map split_beta)
  ultimately show ?thesis
    unfolding batch_over_def using t(3,4,7) by (intro exI [of _ ?ts] exI [of _ zs]) auto
qed

lemma new_batch_prep:
  assumes "rs_ok r ts es" "length es < 2 ^ 40" "es \<noteq> []" "S = forest_keys (rkey (entry_store r)) ts \<union> rkey (entry_store r) ` set es"
  shows "\<exists>m' prev pT q. do {
      (m, p) \<leftarrow> (if rsFlags r AND ROWSET_SORTED = 0 then rowSetEntrySort (entry_store r) (pEntry r) else Some (entry_store r, pEntry r));
      forest_put m None (pForest r) p } = Some (m', prev, pT, q) \<and> dom m' = dom (entry_store r) \<and>
    (pT \<noteq> 0 \<and> batch_done (r\<lparr>entry_store := m'\<rparr>) S \<or> pT = 0 \<and> batch_over (r\<lparr>entry_store := m'\<rparr>) S q prev)"
proof -
  define m where "m = entry_store r"
  let ?k = "rkey m"
  obtain m1 p ys where s: "(if rsFlags r AND ROWSET_SORTED = 0 then rowSetEntrySort m (pEntry r) else Some (m, pEntry r)) = Some (m1, p)"
      "rs_list m1 p ys" "distinct ys" "strict ?k ys" "set ys \<subseteq> set es" "?k ` set ys = ?k ` set es" "changes (set es) m m1"
    using maybe_sort_spec [OF assms(1,2) m_def] by blast
  have o: "m 0 = None" "rs_forest m (pForest r) ts" "set (fresh_addrs r) \<subseteq> dom m" "distinct (forest_addrs ts @ es @ fresh_addrs r)" "forest_ok ?k ts"
    using assms(1) by (auto simp: rs_ok_def m_def)
  have k1: "rkey m1 = ?k" by (rule changes_rkey [OF s(7)])
  have "rs_forest m1 (pForest r) ts" using rs_forest_changes [OF s(7), of ts] o(2,4) by auto
  moreover have "ys \<noteq> []" using s(6) assms(3) by auto
  moreover have "distinct (forest_addrs ts @ ys)" using o(4) s(3,5) by auto
  ultimately obtain m' prev pT q where f: "forest_put m1 None (pForest r) p = Some (m', prev, pT, q)"
      "changes (set (forest_addrs ts) \<union> set ys) m1 m'"
      "pT \<noteq> 0 \<and> put_done m' ?k (pForest r) ts ys \<or> pT = 0 \<and> prev = last_tree None ts \<and> put_over m' ?k (pForest r) ts ys q"
    using forest_put_spec [of m1 "pForest r" ts p ys None] s(2,4) o(5) unfolding k1 by blast
  have d: "dom m' = dom m" using changes_dom [OF f(2)] changes_dom [OF s(7)] by simp
  have k': "rkey m' = ?k" using changes_rkey [OF f(2)] k1 by simp
  have S: "S = forest_keys ?k ts \<union> ?k ` set ys" using assms(4) s(6) by (simp add: m_def)
  have z: "m' 0 = None" using d o(1) by (metis domIff)
  have "batch_done (r\<lparr>entry_store := m'\<rparr>) S" if "put_done m' ?k (pForest r) ts ys"
    by (rule batch_doneI [OF _ o(3,4) s(5) d z]) (use that S in \<open>simp_all add: k'\<close>)
  moreover have "batch_over (r\<lparr>entry_store := m'\<rparr>) S q (last_tree None ts)" if "put_over m' ?k (pForest r) ts ys q"
    by (rule batch_overI [OF _ o(3,4) s(5) d z]) (use that S in \<open>simp_all add: k'\<close>)
  ultimately show ?thesis using s(1) f(1,3) d by (auto simp: m_def)
qed

lemma forest_addrs_mem: "b \<in> set ts \<Longrightarrow> fst b \<in> set (forest_addrs ts)"
  by (cases b) (auto simp: forest_addrs_def)

lemma rs_forest_snoc:
  assumes "rs_forest m p ts" "ts \<noteq> []" "distinct (forest_addrs ts)" "m (fst (last ts)) = Some e"
    and "\<And>x. x \<in> set (forest_addrs ts) \<Longrightarrow> x \<noteq> fst (last ts) \<Longrightarrow> m' x = m x"
    and "m' (fst (last ts)) = Some (e\<lparr>pRight := a\<rparr>)" "rs_forest m' a us"
  shows "rs_forest m' p (ts @ us)"
  using assms
proof (induction m p ts rule: rs_forest.induct)
  case (2 m p b t ts)
  obtain eb where b: "p = b" "b \<noteq> 0" "m b = Some eb" "rs_tree m (pLeft eb) t" "rs_forest m (pRight eb) ts" using 2(2) by auto
  have n: "fst (last ts) \<in> set (forest_addrs ts)" if "ts \<noteq> []" using forest_addrs_mem [OF last_in_set [OF that]] .
  have tr: "rs_tree m' (pLeft eb) t"
  proof (subst rs_tree_frame)
    show "rs_tree m (pLeft eb) t" by (rule b(4))
    show "m' x = m x" if "x \<in> set_tree t" for x
      using that 2(4) 2(6) [of x] n by (cases "ts = []") auto
  qed
  show ?case
  proof (cases "ts = []")
    case True
    then show ?thesis using b tr 2(5,7,8) by auto
  next
    case False
    then have nb: "fst (last ts) \<noteq> b" using n 2(4) by auto
    then have "m' b = Some eb" using 2(6) [of b] b(3) False by auto
    moreover have "rs_forest m' (pRight eb) (ts @ us)"
      by (rule 2(1) [OF b(5) False]) (use 2(4-8) False in auto)
    ultimately show ?thesis using b tr by simp
  qed
qed simp

lemma rs_forest_last: "rs_forest m p ts \<Longrightarrow> ts \<noteq> [] \<Longrightarrow> \<exists>e. m (fst (last ts)) = Some e \<and> pRight e = 0"
proof (induction m p ts rule: rs_forest.induct)
  case (2 m p a t ts)
  then show ?case by (cases "ts = []") auto
qed simp

lemma leaves_ok: "\<forall>(a, t) \<in> set ts. t = Leaf \<Longrightarrow> forest_ok k ts \<and> forest_keys k ts = {}"
  by (auto simp: forest_ok_def forest_keys_def balanced_def)

lemma set_prev_spec:
  assumes "rs_forest (entry_store r) (pForest r) ts" "ts = [] \<or> a \<noteq> fst (last ts)" "prev = last_tree None ts"
  shows "\<exists>r'. set_prev r prev a = Some r' \<and> (\<forall>x. ts = [] \<or> x \<noteq> fst (last ts) \<longrightarrow> entry_store r' x = entry_store r x) \<and>
    (if ts = [] then pForest r' = a
     else pForest r' = pForest r \<and>
       (\<exists>e. entry_store r (fst (last ts)) = Some e \<and> entry_store r' (fst (last ts)) = Some (e\<lparr>pRight := a\<rparr>))) \<and>
    dom (entry_store r') = dom (entry_store r) \<and> fresh_addrs r' = fresh_addrs r \<and> rsFlags r' = rsFlags r \<and> iBatch r' = iBatch r \<and>
    chunk_store r' = chunk_store r \<and> pChunk r' = pChunk r \<and> own_entries r' = own_entries r"
proof (cases "ts = []")
  case True
  then show ?thesis using assms(3) by (simp add: set_prev_def last_tree_def fresh_addrs_def)
next
  case False
  then obtain e where "entry_store r (fst (last ts)) = Some e" using rs_forest_last [OF assms(1)] by blast
  then show ?thesis using False assms(3) by (auto simp: set_prev_def last_tree_def rs_assign_eq fresh_addrs_def)
qed

lemma grow_ok:
  assumes r: "rs_ok (r\<lparr>pEntry := q\<rparr>) ts ys" "ys \<noteq> []" "strict (rkey (entry_store r)) ys" "\<forall>(a, t) \<in> set ts. t = Leaf"
    and a: "a \<noteq> 0" "entry_store r a = Some e0" "a \<notin> set (forest_addrs ts) \<union> set ys \<union> set (fresh_addrs r)"
  shows "\<exists>r' ts'. forest_grow q (last_tree None ts) a r = Some r' \<and> rs_ok (r'\<lparr>pEntry := 0\<rparr>) ts' [] \<and>
    forest_keys (rkey (entry_store r')) ts' = rkey (entry_store r) ` set ys \<and> dom (entry_store r') = dom (entry_store r) \<and>
    rsFlags r' = rsFlags r \<and> iBatch r' = iBatch r \<and> chunk_store r' = chunk_store r \<and> pChunk r' = pChunk r \<and>
    own_entries r' = own_entries r"
proof -
  define m where "m = entry_store r"
  let ?t = "fst (last ts)"
  have o: "m 0 = None" "rs_forest m (pForest r) ts" "rs_list m q ys" "set (fresh_addrs r) \<subseteq> dom m"
      "distinct (forest_addrs ts @ ys @ fresh_addrs r)"
    using r(1) by (auto simp: rs_ok_def m_def fresh_addrs_def)
  have t: "?t \<in> set (forest_addrs ts)" if "ts \<noteq> []" using forest_addrs_mem [OF last_in_set [OF that]] .
  then have at: "ts = [] \<or> a \<noteq> ?t" using a(3) by auto
  from set_prev_spec [OF o(2) [unfolded m_def] at refl] obtain r4 where
    r4: "set_prev r (last_tree None ts) a = Some r4" "\<forall>x. ts = [] \<or> x \<noteq> ?t \<longrightarrow> entry_store r4 x = m x"
      "if ts = [] then pForest r4 = a
       else pForest r4 = pForest r \<and> (\<exists>e. m ?t = Some e \<and> entry_store r4 ?t = Some (e\<lparr>pRight := a\<rparr>))"
      "dom (entry_store r4) = dom m" "fresh_addrs r4 = fresh_addrs r" "rsFlags r4 = rsFlags r" "iBatch r4 = iBatch r"
      "chunk_store r4 = chunk_store r" "pChunk r4 = pChunk r" "own_entries r4 = own_entries r"
    unfolding m_def by blast
  have a4: "entry_store r4 a = Some e0" using r4(2) a(2) at unfolding m_def by metis
  define m5 where "m5 = (entry_store r4)(a \<mapsto> e0\<lparr>rowid_v := 0, pRight := 0\<rparr>)"
  have y5: "m5 x = m x" if "x \<in> set ys" for x
  proof -
    have "ts = [] \<or> x \<noteq> ?t" using t o(5) that by (cases "ts = []") auto
    then have "entry_store r4 x = m x" using r4(2) by metis
    moreover have "x \<noteq> a" using that a(3) by blast
    ultimately show ?thesis by (simp add: m5_def)
  qed
  have "rs_list m5 q ys" using o(3) y5 by (subst rs_list_frame [of ys m5 m]) auto
  moreover have "distinct ys" using o(5) by simp
  ultimately obtain m6 root u where u: "rowSetListToTree m5 q = Some (m6, root)" "rs_tree m6 root u" "inorder u = ys" "balanced u"
      "changes (set ys) m5 m6"
    using list_to_tree_spec [OF _ r(2)] by blast
  have su: "set_tree u = set ys" using u(3) by (metis set_inorder)
  have a6: "m6 a = Some (e0\<lparr>rowid_v := 0, pRight := 0\<rparr>)" using changes_other [OF u(5), of a] a(3) by (simp add: m5_def)
  define m7 where "m7 = m6(a \<mapsto> e0\<lparr>rowid_v := 0, pRight := 0, pLeft := root\<rparr>)"
  define r' where "r' = r4\<lparr>entry_store := m7\<rparr>"
  have p: "forest_grow q (last_tree None ts) a r = Some r'"
    using r4(1) a(1) a4 u(1) a6 by (simp add: forest_grow_def rs_assign_eq m5_def [symmetric] m7_def r'_def)
  have out: "m7 x = entry_store r4 x" if "x \<notin> set ys" "x \<noteq> a" for x
    using changes_other [OF u(5) that(1)] that(2) by (simp add: m7_def m5_def)
  have k: "rkey m7 x = rkey m x" if "x \<in> set ys" for x
    using that y5 changes_rkey [OF u(5)] a(3) by (auto simp: m7_def rkey_def fun_eq_iff)
  have "rs_forest m7 a [(a, u)]" using a(1,3) u(2) su by (simp add: m7_def)
  moreover have "rs_forest m7 (pForest r4) (ts @ [(a, u)])" if tl: "ts \<noteq> []" "rs_forest m7 a [(a, u)]"
  proof -
    obtain et where et: "m ?t = Some et" "entry_store r4 ?t = Some (et\<lparr>pRight := a\<rparr>)" "pForest r4 = pForest r" using r4(3) tl(1) by auto
    have n: "x \<notin> set ys" "x \<noteq> a" if "x \<in> set (forest_addrs ts)" for x using that o(5) a(3) by auto
    show ?thesis unfolding et(3)
      by (rule rs_forest_snoc [OF o(2) tl(1) _ et(1) _ _ tl(2)])
        (use o(5) et(2) out n t tl(1) r4(2) in auto)
  qed
  ultimately have f: "rs_forest m7 (pForest r4) (ts @ [(a, u)])" using r4(3) by (cases "ts = []") auto
  have d: "dom m7 = dom m" using changes_dom [OF u(5)] r4(4) a4 a6 by (auto simp: m7_def m5_def)
  have "forest_ok (rkey m7) (ts @ [(a, u)])"
    using leaves_ok [OF r(4)] u(3,4) strict_cong [of ys "rkey m7" "rkey m"] k r(3) by (auto simp: m_def)
  moreover have "distinct (forest_addrs (ts @ [(a, u)]) @ [] @ fresh_addrs r)" using o(5) a(3) u(3) by auto
  moreover have "m7 0 = None" using d o(1) by (metis domIff)
  ultimately have "rs_ok (r'\<lparr>pEntry := 0\<rparr>) (ts @ [(a, u)]) []"
    using f o(4) d r4(5) by (simp add: rs_ok_def r'_def fresh_addrs_def)
  moreover have "forest_keys (rkey m7) (ts @ [(a, u)]) = rkey m ` set ys" using leaves_ok [OF r(4), of "rkey m7"] su k by auto
  ultimately show ?thesis using p d r4 by (intro exI [of _ r'] exI [of _ "ts @ [(a, u)]"]) (simp add: r'_def m_def)
qed

text \<open>Without memory for the new tree its entries are lost.\<close>

lemma grow_null:
  assumes "rs_ok (r\<lparr>pEntry := q\<rparr>) ts ys"
  shows "forest_grow p (last_tree None ts) 0 r = Some r"
proof -
  have f: "rs_forest (entry_store r) (pForest r) ts" using assms by (simp add: rs_ok_def)
  show ?thesis
  proof (cases "ts = []")
    case True
    then show ?thesis using f by (cases r) (simp add: forest_grow_def set_prev_def last_tree_def)
  next
    case False
    then obtain e where e: "entry_store r (fst (last ts)) = Some e" "pRight e = 0" using rs_forest_last [OF f] by blast
    then have "e\<lparr>pRight := 0\<rparr> = e" by (cases e) simp
    then have "(entry_store r)(fst (last ts) \<mapsto> e\<lparr>pRight := 0\<rparr>) = entry_store r" using e(1) by (simp add: fun_upd_idem)
    then show ?thesis using False e(1) by (cases r) (simp add: forest_grow_def set_prev_def last_tree_def rs_assign_eq)
  qed
qed

lemma new_batch_eq:
  "rs_new_batch pNew r =
     (if pEntry r = 0 then Some r
      else
        do {
          (m, prev, pT, p) \<leftarrow>
            do {
              (m, p) \<leftarrow> (if rsFlags r AND ROWSET_SORTED = 0 then rowSetEntrySort (entry_store r) (pEntry r)
                         else Some (entry_store r, pEntry r));
              forest_put m None (pForest r) p
            };
          r \<leftarrow> (if pT = 0 then case rowSetEntryAlloc pNew (r\<lparr>entry_store := m\<rparr>) of (a, r) \<Rightarrow> forest_grow p prev a r
               else Some (r\<lparr>entry_store := m\<rparr>));
          Some (r\<lparr>pEntry := 0, pLast := 0, rsFlags := rsFlags r OR ROWSET_SORTED\<rparr>)
        })"
  by (simp add: rs_new_batch_def Option.bind_assoc case_prod_unfold cong: if_cong)

lemma batch_grow:
  assumes "batch_over r S q prev" "mem_ok r U" "0 < nFresh r \<or> new_ok pNew U"
  shows "\<exists>r' ts'. (case rowSetEntryAlloc pNew r of (a, r) \<Rightarrow> forest_grow q prev a r) = Some r' \<and> rs_ok (r'\<lparr>pEntry := 0\<rparr>) ts' [] \<and>
    forest_keys (rkey (entry_store r')) ts' = S \<and> rsFlags r' = rsFlags r \<and> mem_ok r' (U \<union> chunk_area (fst pNew))"
proof -
  obtain us ys where o: "rs_ok (r\<lparr>pEntry := q\<rparr>) us ys" "ys \<noteq> []" "strict (rkey (entry_store r)) ys" "\<forall>(a, t) \<in> set us. t = Leaf"
      "prev = last_tree None us" "rkey (entry_store r) ` set ys = S" using assms(1) by (auto simp: batch_over_def)
  obtain a r1 where al: "rowSetEntryAlloc pNew r = (a, r1)" by (cases "rowSetEntryAlloc pNew r")
  have "mem_ok (r\<lparr>pEntry := q\<rparr>) U" "0 < nFresh (r\<lparr>pEntry := q\<rparr>) \<or> new_ok pNew U" using assms(2,3) by (simp_all add: mem_ok_def)
  then have al': "allocated (r\<lparr>pEntry := q\<rparr>) us ys a (r1\<lparr>pEntry := q\<rparr>)" "mem_ok (r1\<lparr>pEntry := q\<rparr>) (U \<union> chunk_area (fst pNew))"
    using alloc_spec [OF o(1), of U pNew] alloc_pEntry [OF al, of q] by auto
  then have a: "rs_ok (r1\<lparr>pEntry := q\<rparr>) us ys" "a \<noteq> 0" "a \<notin> set (forest_addrs us) \<union> set ys \<union> set (fresh_addrs r1)"
      "\<forall>x \<in> set ys. entry_store r1 x = entry_store r x" "rsFlags r1 = rsFlags r"
    by (auto simp: allocated_def fresh_addrs_def)
  obtain e0 where e0: "entry_store r1 a = Some e0" using al'(1) by (auto simp: allocated_def)
  have k: "rkey (entry_store r1) x = rkey (entry_store r) x" if "x \<in> set ys" for x using that a(4) by (simp add: rkey_def)
  have "strict (rkey (entry_store r1)) ys" using o(3) strict_cong [of ys "rkey (entry_store r1)" "rkey (entry_store r)"] k by blast
  from grow_ok [OF a(1) o(2) this o(4) a(2) e0 a(3)] obtain r2 ts' where
    p: "forest_grow q prev a r1 = Some r2" "rs_ok (r2\<lparr>pEntry := 0\<rparr>) ts' []" "dom (entry_store r2) = dom (entry_store r1)"
      "forest_keys (rkey (entry_store r2)) ts' = rkey (entry_store r1) ` set ys" "rsFlags r2 = rsFlags r1"
      "chunk_store r2 = chunk_store r1" "pChunk r2 = pChunk r1" "own_entries r2 = own_entries r1"
    unfolding o(5) by blast
  have "mem_ok r2 (U \<union> chunk_area (fst pNew))" using p(3,6-8) by (intro mem_ok_store [OF al'(2)]) simp_all
  moreover have "rkey (entry_store r1) ` set ys = S" unfolding o(6) [symmetric] using k by (intro image_cong) auto
  ultimately show ?thesis using al p a(5) by auto
qed

lemma batch_lost:
  assumes "batch_over r S q prev" "nFresh r = 0" "fst pNew = 0"
  shows "(case rowSetEntryAlloc pNew r of (a, r) \<Rightarrow> forest_grow q prev a r) = Some r \<and>
    (\<exists>ts'. rs_ok (r\<lparr>pEntry := 0\<rparr>) ts' [] \<and> forest_keys (rkey (entry_store r)) ts' = {})"
proof -
  obtain us ys where o: "rs_ok (r\<lparr>pEntry := q\<rparr>) us ys" "\<forall>(a, t) \<in> set us. t = Leaf" "prev = last_tree None us"
    using assms(1) by (auto simp: batch_over_def)
  have "rs_ok (r\<lparr>pEntry := 0\<rparr>) us []" using o(1) by (auto simp: rs_ok_def fresh_addrs_def)
  then show ?thesis
    using grow_null [OF o(1), of q] leaves_ok [OF o(2), of "rkey (entry_store r)"] o(3) assms(2,3) by (auto simp: rowSetEntryAlloc_def)
qed

text \<open>What a new batch leaves: all rowids are in the forest, or none if the memory for a tree was missing.\<close>

definition new_batch_keys :: "RowSet \<Rightarrow> new_chunk \<Rightarrow> int set \<Rightarrow> int set \<Rightarrow> bool" where
  "new_batch_keys r pNew S S' \<longleftrightarrow> S' = S \<or> S' = {} \<and> nFresh r = 0 \<and> fst pNew = 0"

lemma new_batch_spec:
  assumes "rs_ok r ts es" "collecting r es" "mem_ok r U" "fst pNew = 0 \<or> new_ok pNew U" "length es < 2 ^ 40"
    and "S = forest_keys (rkey (entry_store r)) ts \<union> rkey (entry_store r) ` set es"
  shows "\<exists>r' ts' S'. rs_new_batch pNew r = Some r' \<and> rs_ok r' ts' [] \<and> collecting r' [] \<and> mem_ok r' (U \<union> chunk_area (fst pNew)) \<and>
    forest_keys (rkey (entry_store r')) ts' = S' \<and> new_batch_keys r pNew S S'"
proof (cases "es = []")
  case True
  then have "pEntry r = 0" using assms(1) by (simp add: rs_ok_def)
  moreover have "mem_ok r (U \<union> chunk_area (fst pNew))" by (rule mem_ok_mono [OF assms(3)])
  ultimately show ?thesis using True assms(1,2,6) by (auto simp: new_batch_eq new_batch_keys_def)
next
  case False
  then have p0: "pEntry r \<noteq> 0" using assms(1) rs_list_zero by (auto simp: rs_ok_def)
  obtain m' prev pT q where f: "do {
      (m, p) \<leftarrow> (if rsFlags r AND ROWSET_SORTED = 0 then rowSetEntrySort (entry_store r) (pEntry r) else Some (entry_store r, pEntry r));
      forest_put m None (pForest r) p } = Some (m', prev, pT, q)" "dom m' = dom (entry_store r)"
      "pT \<noteq> 0 \<and> batch_done (r\<lparr>entry_store := m'\<rparr>) S \<or> pT = 0 \<and> batch_over (r\<lparr>entry_store := m'\<rparr>) S q prev"
    using new_batch_prep [OF assms(1,5) False assms(6)] by blast
  let ?r = "r\<lparr>entry_store := m'\<rparr>"
  have mo: "mem_ok ?r U" using f(2) by (intro mem_ok_store [OF assms(3)]) simp_all
  then have mo': "mem_ok ?r (U \<union> chunk_area (fst pNew))" by (rule mem_ok_mono)
  obtain r2 ts' S' where r2: "(if pT = 0 then case rowSetEntryAlloc pNew ?r of (a, r) \<Rightarrow> forest_grow q prev a r else Some ?r) = Some r2"
      "rs_ok (r2\<lparr>pEntry := 0\<rparr>) ts' []" "forest_keys (rkey (entry_store r2)) ts' = S'" "rsFlags r2 = rsFlags r"
      "mem_ok r2 (U \<union> chunk_area (fst pNew))" "new_batch_keys r pNew S S'"
  proof -
    consider (kept) "pT \<noteq> 0" "batch_done ?r S" | (grow) "pT = 0" "batch_over ?r S q prev" "0 < nFresh ?r \<or> new_ok pNew U"
      | (lost) "pT = 0" "batch_over ?r S q prev" "nFresh ?r = 0" "fst pNew = 0"
      using f(3) assms(4) by fastforce
    then show ?thesis
    proof cases
      case kept
      then obtain ts' where "rs_ok (?r\<lparr>pEntry := 0\<rparr>) ts' []" "forest_keys (rkey (entry_store ?r)) ts' = S" by (auto simp: batch_done_def)
      then show ?thesis using that [of ?r ts' S] mo' kept(1) by (simp add: new_batch_keys_def)
    next
      case grow
      then show ?thesis using that [of _ _ S] batch_grow [OF grow(2) mo grow(3)] by (auto simp: new_batch_keys_def)
    next
      case lost
      then show ?thesis using that [of ?r _ "{}"] batch_lost [OF lost(2-4)] mo' by (auto simp: new_batch_keys_def)
    qed
  qed
  let ?r' = "r2\<lparr>pEntry := 0, pLast := 0, rsFlags := rsFlags r2 OR ROWSET_SORTED\<rparr>"
  have "rs_new_batch pNew r = Some ?r'" unfolding new_batch_eq f(1) using p0 r2(1) by simp
  moreover have "rs_ok ?r' ts' []" using r2(2) by (simp add: rs_ok_def fresh_addrs_def)
  moreover have "collecting ?r' []" using assms(2) r2(4) by (simp add: collecting_def flag_simps)
  moreover have "mem_ok ?r' (U \<union> chunk_area (fst pNew))" using r2(5) by (simp add: mem_ok_def)
  ultimately show ?thesis using r2(3,6) by (intro exI [of _ ?r'] exI [of _ ts'] exI [of _ S']) simp
qed

section \<open>What a row set stands for\<close>

text \<open>\<open>F\<close> are the rowids that tests see, \<open>P\<close> those of the current batch in the order of their insertion.\<close>

definition rs_abs :: "RowSet \<Rightarrow> nat set \<Rightarrow> int set \<Rightarrow> int list \<Rightarrow> int \<Rightarrow> bool" where
  "rs_abs r U F P b \<longleftrightarrow> (\<exists>ts es. rs_ok r ts es \<and> collecting r es \<and> mem_ok r U \<and> F = forest_keys (rkey (entry_store r)) ts \<and>
     P = map (rkey (entry_store r)) es \<and> b = iBatch r)"

definition next_batch :: "int \<Rightarrow> int \<Rightarrow> int set \<Rightarrow> int list \<Rightarrow> int set \<times> int list" where
  "next_batch b b' F P = (if b' = b then (F, P) else (F \<union> set P, []))"

lemma init_abs:
  assumes "fst mem \<noteq> 0"
  shows "\<exists>r. sqlite3RowSetInit mem N = Some r \<and> rs_abs r (set (entry_addrs (fst mem + 56) (pool_size N))) {} [] 0"
proof -
  obtain r where r: "sqlite3RowSetInit mem N = Some r" "rs_ok r [] []" "collecting r []"
      "mem_ok r (set (entry_addrs (fst mem + 56) (pool_size N)))" "iBatch r = 0"
    using init_spec [OF assms] by blast
  then show ?thesis unfolding rs_abs_def by (intro exI [of _ r] conjI exI [of _ "[]"]) simp_all
qed

lemma insert_abs:
  assumes "rs_abs r U F P b" "0 < nFresh r \<or> new_ok c U"
  shows "\<exists>r'. sqlite3RowSetInsert c r x = Some r' \<and> rs_abs r' (U \<union> chunk_area (fst c)) F (P @ [x]) b"
proof -
  obtain ts es where r: "rs_ok r ts es" "collecting r es" "mem_ok r U" "F = forest_keys (rkey (entry_store r)) ts"
      "P = map (rkey (entry_store r)) es" "b = iBatch r"
    using assms(1) by (auto simp: rs_abs_def)
  from insert_spec [OF r(1-3) assms(2), of x] obtain r' a where r': "sqlite3RowSetInsert c r x = Some r'" "rs_ok r' ts (es @ [a])"
      "collecting r' (es @ [a])" "mem_ok r' (U \<union> chunk_area (fst c))" "iBatch r' = iBatch r"
      "map (rkey (entry_store r')) (es @ [a]) = P @ [x]" "forest_keys (rkey (entry_store r')) ts = F"
    unfolding r(4,5) by blast
  then show ?thesis unfolding rs_abs_def using r(6) by (intro exI [of _ r'] conjI exI [of _ ts] exI [of _ "es @ [a]"]) simp_all
qed

lemma test_abs:
  assumes "rs_abs r U F P b" "fst c = 0 \<or> new_ok c U" "length P < 2 ^ 40"
  shows "\<exists>r' F'. sqlite3RowSetTest c r b' x = Some (x \<in> F', r') \<and> rs_abs r' (U \<union> chunk_area (fst c)) F' (snd (next_batch b b' F P)) b' \<and>
    new_batch_keys r c (fst (next_batch b b' F P)) F'"
proof -
  obtain ts es where r: "rs_ok r ts es" "collecting r es" "mem_ok r U" "F = forest_keys (rkey (entry_store r)) ts"
      "P = map (rkey (entry_store r)) es" "b = iBatch r"
    using assms(1) by (auto simp: rs_abs_def)
  show ?thesis
  proof (cases "b' = b")
    case True
    have "mem_ok r (U \<union> chunk_area (fst c))" by (rule mem_ok_mono [OF r(3)])
    then have "rs_abs r (U \<union> chunk_area (fst c)) F P b" unfolding rs_abs_def using r by blast
    moreover have "forest_search (entry_store r) (pForest r) x = Some (x \<in> F)"
      using forest_search_spec [of "entry_store r" "pForest r" ts x] r(1,4) by (simp add: rs_ok_def)
    ultimately show ?thesis using True r(6)
      by (intro exI [of _ r] exI [of _ F]) (simp add: sqlite3RowSetTest_def next_batch_def new_batch_keys_def)
  next
    case False
    have "length es < 2 ^ 40" using assms(3) r(5) by simp
    from new_batch_spec [OF r(1-3) assms(2) this refl] obtain r1 ts' F' where r1: "rs_new_batch c r = Some r1" "rs_ok r1 ts' []"
        "collecting r1 []" "mem_ok r1 (U \<union> chunk_area (fst c))" "forest_keys (rkey (entry_store r1)) ts' = F'"
        "new_batch_keys r c (F \<union> set P) F'"
      unfolding r(4,5) by auto
    let ?r = "r1\<lparr>iBatch := b'\<rparr>"
    have "forest_search (entry_store r1) (pForest r1) x = Some (x \<in> F')"
      using forest_search_spec [of "entry_store r1" "pForest r1" ts' x] r1(2,5) by (simp add: rs_ok_def)
    then have "sqlite3RowSetTest c r b' x = Some (x \<in> F', ?r)" using False r1(1) r(6) by (simp add: sqlite3RowSetTest_def)
    moreover have "rs_ok ?r ts' []" "collecting ?r []" "mem_ok ?r (U \<union> chunk_area (fst c))"
      using r1(2-4) by (simp_all add: rs_ok_def collecting_def mem_ok_def fresh_addrs_def)
    then have "rs_abs ?r (U \<union> chunk_area (fst c)) F' [] b'"
      unfolding rs_abs_def using r1(5) by (intro exI [of _ ts'] exI [of _ "[]"]) simp
    ultimately show ?thesis using r1(6) False by (intro exI [of _ ?r] exI [of _ F']) (simp add: next_batch_def)
  qed
qed

section \<open>The interface\<close>

datatype rs_op = RsInsert int | RsTest int int

fun run_ops :: "('c \<Rightarrow> 's \<Rightarrow> int \<Rightarrow> 's option) \<Rightarrow> ('c \<Rightarrow> 's \<Rightarrow> int \<Rightarrow> int \<Rightarrow> (bool \<times> 's) option) \<Rightarrow>
    's \<Rightarrow> ('c \<times> rs_op) list \<Rightarrow> (bool list \<times> 's) option" where
  "run_ops ins tst s [] = Some ([], s)"
| "run_ops ins tst s ((c, RsInsert x) # ops) = do { s \<leftarrow> ins c s x; run_ops ins tst s ops }"
| "run_ops ins tst s ((c, RsTest b x) # ops) =
     do { (r, s) \<leftarrow> tst c s b x; (rs, s) \<leftarrow> run_ops ins tst s ops; Some (r # rs, s) }"

text \<open>The same operations on sets: a test with a new batch number first makes the pending rowids visible.\<close>

fun spec_ops :: "int set \<Rightarrow> int list \<Rightarrow> int \<Rightarrow> ('c \<times> rs_op) list \<Rightarrow> bool list" where
  "spec_ops F P b [] = []"
| "spec_ops F P b ((c, RsInsert x) # ops) = spec_ops F (P @ [x]) b ops"
| "spec_ops F P b ((c, RsTest b' x) # ops) =
     (case next_batch b b' F P of (F, P) \<Rightarrow> (x \<in> F) # spec_ops F P b' ops)"

text \<open>The allocator hands out memory that it has not handed out before.\<close>

fun valid_allocs :: "('c \<Rightarrow> nat set) \<Rightarrow> ('c \<Rightarrow> nat set \<Rightarrow> bool) \<Rightarrow> nat set \<Rightarrow> 'c list \<Rightarrow> bool" where
  "valid_allocs area valid U [] \<longleftrightarrow> True"
| "valid_allocs area valid U (c # cs) \<longleftrightarrow> valid c U \<and> valid_allocs area valid (U \<union> area c) cs"

locale batch_set =
  fixes rep :: "'s \<Rightarrow> nat set \<Rightarrow> int set \<Rightarrow> int list \<Rightarrow> int \<Rightarrow> bool"
    and area :: "'c \<Rightarrow> nat set" and valid :: "'c \<Rightarrow> nat set \<Rightarrow> bool"
    and ins :: "'c \<Rightarrow> 's \<Rightarrow> int \<Rightarrow> 's option" and tst :: "'c \<Rightarrow> 's \<Rightarrow> int \<Rightarrow> int \<Rightarrow> (bool \<times> 's) option"
  assumes ins_rep: "rep s U F P b \<Longrightarrow> valid c U \<Longrightarrow> \<exists>s'. ins c s x = Some s' \<and> rep s' (U \<union> area c) F (P @ [x]) b"
    and tst_rep: "rep s U F P b \<Longrightarrow> valid c U \<Longrightarrow> length P < 2 ^ 40 \<Longrightarrow> next_batch b b' F P = (F', P') \<Longrightarrow>
      \<exists>s'. tst c s b' x = Some (x \<in> F', s') \<and> rep s' (U \<union> area c) F' P' b'"
begin

lemma run_spec:
  assumes "rep s U F P b" "valid_allocs area valid U (map fst ops)" "length P + length ops < 2 ^ 40"
  shows "\<exists>s'. run_ops ins tst s ops = Some (spec_ops F P b ops, s')"
  using assms
proof (induction F P b ops arbitrary: s U rule: spec_ops.induct)
  case (2 F P b c x ops)
  obtain s' where s': "ins c s x = Some s'" "rep s' (U \<union> area c) F (P @ [x]) b" using ins_rep [OF 2(2)] 2(3) by auto
  then show ?case using 2(1) [OF s'(2)] 2(3,4) by auto
next
  case (3 F P b c b' x ops)
  obtain F' P' where n: "next_batch b b' F P = (F', P')" by fastforce
  have len: "length P' \<le> length P" using n by (auto simp: next_batch_def split: if_splits)
  obtain s' where s': "tst c s b' x = Some (x \<in> F', s')" "rep s' (U \<union> area c) F' P' b'"
    using tst_rep [OF 3(2) _ _ n] 3(3,4) by auto
  then show ?case using 3(1) [OF n [symmetric] s'(2)] 3(3,4) n len by auto
qed simp

lemma insert_all:
  assumes "rep s U F P b" "valid_allocs area valid U (map fst cxs)"
  shows "\<exists>s' U'. run_ops ins tst s (map (\<lambda>(c, x). (c, RsInsert x)) cxs) = Some ([], s') \<and> rep s' U' F (P @ map snd cxs) b"
  using assms
proof (induction cxs arbitrary: s U P)
  case (Cons cx cxs)
  obtain c x where cx: "cx = (c, x)" by (cases cx)
  obtain s' where s': "ins c s x = Some s'" "rep s' (U \<union> area c) F (P @ [x]) b" using ins_rep [OF Cons.prems(1)] Cons.prems(2) cx by auto
  then show ?case using Cons.IH [OF s'(2)] Cons.prems(2) cx by auto
qed auto

end

interpretation rowset: batch_set rs_abs "\<lambda>c. chunk_area (fst c)" new_ok sqlite3RowSetInsert sqlite3RowSetTest
proof
  fix r U F P b x and c :: new_chunk
  assume "rs_abs r U F P b" "new_ok c U"
  then show "\<exists>r'. sqlite3RowSetInsert c r x = Some r' \<and> rs_abs r' (U \<union> chunk_area (fst c)) F (P @ [x]) b"
    by (intro insert_abs) auto
next
  fix r U F P b b' F' P' x and c :: new_chunk
  assume a: "rs_abs r U F P b" "new_ok c U" "length P < 2 ^ 40" "next_batch b b' F P = (F', P')"
  then have "fst c \<noteq> 0" by (simp add: new_ok_def)
  then show "\<exists>r'. sqlite3RowSetTest c r b' x = Some (x \<in> F', r') \<and> rs_abs r' (U \<union> chunk_area (fst c)) F' P' b'"
    using test_abs [OF a(1) disjI2 [OF a(2)] a(3), of b' x] a(4) by (auto simp: new_batch_keys_def)
qed

section \<open>Draining\<close>

text \<open>Reading the set until it is empty.\<close>

fun rs_drain :: "nat \<Rightarrow> RowSet \<Rightarrow> int list option" where
  "rs_drain 0 r = None"
| "rs_drain (Suc n) r =
     do {
       (v, r) \<leftarrow> sqlite3RowSetNext r;
       case v of None \<Rightarrow> Some [] | Some x \<Rightarrow> do { xs \<leftarrow> rs_drain n r; Some (x # xs) }
     }"

lemma drain_spec:
  assumes "rs_ok r ts es" "mem_ok r U" "bit (rsFlags r) 1 \<longrightarrow> bit (rsFlags r) 0" "length es < 2 ^ 40"
    and "card (rkey (entry_store r) ` set es) < n"
  shows "rs_drain n r = Some (sorted_list_of_set (rkey (entry_store r) ` set es))"
  using assms
proof (induction n arbitrary: r ts es)
  case (Suc n)
  let ?S = "rkey (entry_store r) ` set es"
  obtain r' ts' es' where r': "sqlite3RowSetNext r = Some (if ?S = {} then None else Some (Min ?S), r')" "rs_ok r' ts' es'" "mem_ok r' U"
      "bit (rsFlags r') 1 \<longrightarrow> bit (rsFlags r') 0" "length es' \<le> length es" "rkey (entry_store r') ` set es' = ?S - {Min ?S}"
    using next_spec [OF Suc.prems(1-4) refl] by blast
  show ?case
  proof (cases "es = []")
    case True
    then show ?thesis using r'(1) by simp
  next
    case False
    then have ne: "?S \<noteq> {}" by simp
    have "Min ?S \<in> ?S" using ne by (intro Min_in) auto
    then have "card (?S - {Min ?S}) < n" using Suc.prems(5) card_Suc_Diff1 [of ?S "Min ?S"] by simp
    then have "rs_drain n r' = Some (sorted_list_of_set (?S - {Min ?S}))"
      using Suc.IH [OF r'(2-4)] r'(5,6) Suc.prems(4) by simp
    then show ?thesis using r'(1) ne sorted_list_of_set_nonempty [OF _ ne] by simp
  qed
qed simp

section \<open>Properties\<close>

text \<open>
  C5: the contract of the row set.  Run any sequence of insertions and tests on a new set: every access is
  to a live entry, every loop ends, and each test returns exactly whether its rowid was inserted before
  the last change of the batch number.  The answers of the allocator are any chunks that do not overlap
  what it handed out before, with any contents.
\<close>

theorem rowset_refines_batches:
  assumes "fst mem \<noteq> 0" "length ops < 2 ^ 40"
    and "valid_allocs (\<lambda>c. chunk_area (fst c)) new_ok (set (entry_addrs (fst mem + 56) (pool_size N))) (map fst ops)"
  shows "\<exists>r0 r. sqlite3RowSetInit mem N = Some r0 \<and>
    run_ops sqlite3RowSetInsert sqlite3RowSetTest r0 ops = Some (spec_ops {} [] 0 ops, r)"
  using init_abs [OF assms(1), of N] rowset.run_spec assms(2,3) by fastforce

lemma chunk_area_range: "x \<in> chunk_area c \<Longrightarrow> c + 8 \<le> x \<and> x < c + 1016"
  by (auto simp: chunk_area_def entry_addrs_def ROWSET_ENTRY_PER_CHUNK_def)

fun ascending :: "nat \<Rightarrow> new_chunk list \<Rightarrow> bool" where
  "ascending b [] \<longleftrightarrow> True"
| "ascending b (c # cs) \<longleftrightarrow> fst c \<noteq> 0 \<and> b \<le> fst c + 8 \<and> ascending (fst c + 1016) cs"

lemma ascending_valid: "ascending b cs \<Longrightarrow> \<forall>u \<in> U. u < b \<Longrightarrow> valid_allocs (\<lambda>c. chunk_area (fst c)) new_ok U cs"
proof (induction b cs arbitrary: U rule: ascending.induct)
  case (2 b c cs)
  have "chunk_area (fst c) \<inter> U = {}" using 2(2,3) chunk_area_range [of _ "fst c"] by fastforce
  moreover have "\<forall>u \<in> U \<union> chunk_area (fst c). u < fst c + 1016" using 2(2,3) chunk_area_range [of _ "fst c"] by fastforce
  ultimately show ?case using 2(1) [of "U \<union> chunk_area (fst c)"] 2(2) by (simp add: new_ok_def)
qed simp

lemma pool_128: "entry_addrs 57 (pool_size 128) = [57, 81, 105]"
  by (simp add: entry_addrs_def pool_size_def upt_rec)

definition old_bytes :: "nat \<Rightarrow> RowSetEntry" where
  "old_bytes a = \<lparr>rowid_v = 7, pRight = 3, pLeft = 9\<rparr>"

theorem rowset_refines_batches_witness:
  "\<exists>r0 r. sqlite3RowSetInit (1, old_bytes) 128 = Some r0 \<and>
    run_ops sqlite3RowSetInsert sqlite3RowSetTest r0
      [((2000, old_bytes), RsInsert 5), ((4000, old_bytes), RsTest 1 5), ((6000, old_bytes), RsInsert 7), ((8000, old_bytes), RsTest 1 7), ((10000, old_bytes), RsTest 2 7)] =
    Some ([True, False, True], r)"
proof -
  let ?ops = "[((2000, old_bytes), RsInsert 5), ((4000, old_bytes), RsTest 1 5), ((6000, old_bytes), RsInsert 7), ((8000, old_bytes), RsTest 1 7), ((10000, old_bytes), RsTest 2 7)]"
  have "valid_allocs (\<lambda>c. chunk_area (fst c)) new_ok (set (entry_addrs (1 + 56) (pool_size 128))) (map fst ?ops)"
    by (rule ascending_valid [of 106]) (simp_all add: pool_128)
  moreover have "spec_ops {} [] 0 ?ops = [True, False, True]" by (simp add: next_batch_def)
  ultimately show ?thesis
    using rowset_refines_batches [of "(1, old_bytes)" ?ops 128] by simp
qed

text \<open>
  C17: reading a set.  After any insertions into a new set, calling \<open>sqlite3RowSetNext\<close> until it finds the set
  empty yields the inserted rowids in ascending order, each once, whether or not they had to be sorted.
\<close>

theorem rowset_drains_sorted:
  assumes "fst mem \<noteq> 0" "length cxs < 2 ^ 40"
    and "valid_allocs (\<lambda>c. chunk_area (fst c)) new_ok (set (entry_addrs (fst mem + 56) (pool_size N))) (map fst cxs)"
  shows "\<exists>r0 r. sqlite3RowSetInit mem N = Some r0 \<and>
    run_ops sqlite3RowSetInsert sqlite3RowSetTest r0 (map (\<lambda>(c, x). (c, RsInsert x)) cxs) = Some ([], r) \<and>
    rs_drain (Suc (length cxs)) r = Some (sorted_list_of_set (snd ` set cxs))"
proof -
  obtain r0 where r0: "sqlite3RowSetInit mem N = Some r0" "rs_abs r0 (set (entry_addrs (fst mem + 56) (pool_size N))) {} [] 0"
    using init_abs [OF assms(1)] by blast
  obtain r U where r: "run_ops sqlite3RowSetInsert sqlite3RowSetTest r0 (map (\<lambda>(c, x). (c, RsInsert x)) cxs) = Some ([], r)"
      "rs_abs r U {} (map snd cxs) 0"
    using rowset.insert_all [OF r0(2) assms(3)] by auto
  then obtain ts es where a: "rs_ok r ts es" "collecting r es" "mem_ok r U" "map snd cxs = map (rkey (entry_store r)) es"
    by (auto simp: rs_abs_def)
  have "length es = length cxs" using arg_cong [OF a(4), of length] by simp
  moreover have k: "rkey (entry_store r) ` set es = snd ` set cxs" using arg_cong [OF a(4), of set] by simp
  moreover have "card (snd ` set cxs) < Suc (length cxs)"
    using card_image_le [of "set cxs" snd] card_length [of cxs] by simp
  ultimately have "rs_drain (Suc (length cxs)) r = Some (sorted_list_of_set (snd ` set cxs))"
    using drain_spec [OF a(1,3), of "Suc (length cxs)"] a(2) assms(2) by (simp add: collecting_def)
  then show ?thesis using r0(1) r(1) by blast
qed

theorem rowset_drains_sorted_witness:
  "\<exists>r0 r. sqlite3RowSetInit (1, old_bytes) 128 = Some r0 \<and>
    run_ops sqlite3RowSetInsert sqlite3RowSetTest r0 [((2000, old_bytes), RsInsert 5), ((4000, old_bytes), RsInsert 2), ((6000, old_bytes), RsInsert 5)] = Some ([], r) \<and>
    rs_drain (Suc (Suc (Suc (Suc 0)))) r = Some [2, 5]"
proof -
  let ?cxs = "[((2000, old_bytes), 5), ((4000, old_bytes), 2), ((6000, old_bytes), 5)] :: (new_chunk \<times> int) list"
  have "valid_allocs (\<lambda>c. chunk_area (fst c)) new_ok (set (entry_addrs (1 + 56) (pool_size 128))) (map fst ?cxs)"
    by (rule ascending_valid [of 106]) (simp_all add: pool_128)
  moreover have "sorted_list_of_set (set [5, 2, 5 :: int]) = [2, 5]" unfolding sorted_list_of_set_sort_remdups by simp
  then have "sorted_list_of_set (snd ` set ?cxs) = [2, 5]" by simp
  ultimately show ?thesis using rowset_drains_sorted [of "(1, old_bytes)" ?cxs 128] by simp
qed

text \<open>A set with no pool of its own and one row in a chunk at address 100.\<close>

lemma filled_set:
  "\<exists>r0 r. sqlite3RowSetInit (1, old_bytes) 56 = Some r0 \<and> sqlite3RowSetInsert (100, old_bytes) r0 5 = Some r \<and>
    rs_abs r (chunk_area 100) {} [5] 0"
proof -
  have "pool_size 56 = 0" by (simp add: pool_size_def)
  then obtain r0 where r0: "sqlite3RowSetInit (1, old_bytes) 56 = Some r0" "rs_abs r0 {} {} [] 0"
    using init_abs [of "(1, old_bytes)" 56] by (auto simp: entry_addrs_def)
  moreover have "new_ok (100, old_bytes) {}" by (simp add: new_ok_def)
  ultimately show ?thesis using insert_abs [OF r0(2), of "(100, old_bytes)" 5] by auto
qed

text \<open>
  C21: \<open>sqlite3RowSetTest\<close> with or without memory.  On a set of visible rowids \<open>F\<close> and pending rowids \<open>P\<close> it returns,
  without following a dangling pointer, and keeps the invariant.  The visible rowids are afterwards those of
  the batch rule, or none at all if a new tree was needed, no entry was left in the pool and the
  allocation failed: a failure can hide rowids but never makes the test report one that was not inserted.
\<close>

theorem sqlite3RowSetTest_safe:
  assumes "rs_abs r U F P b" "fst c = 0 \<or> new_ok c U" "length P < 2 ^ 40"
  shows "\<exists>r' F'. sqlite3RowSetTest c r b' x = Some (x \<in> F', r') \<and> rs_abs r' (U \<union> chunk_area (fst c)) F' (snd (next_batch b b' F P)) b' \<and>
    (F' = fst (next_batch b b' F P) \<or> F' = {} \<and> nFresh r = 0 \<and> fst c = 0)"
  using test_abs [OF assms, of b' x] by (simp add: new_batch_keys_def)

theorem sqlite3RowSetTest_safe_witness:
  "\<exists>r0 r r'. sqlite3RowSetInit (1, old_bytes) 56 = Some r0 \<and> sqlite3RowSetInsert (100, old_bytes) r0 5 = Some r \<and>
    sqlite3RowSetTest (2000, old_bytes) r 1 5 = Some (True, r')"
proof -
  obtain r0 r where r: "sqlite3RowSetInit (1, old_bytes) 56 = Some r0" "sqlite3RowSetInsert (100, old_bytes) r0 5 = Some r"
      "rs_abs r (chunk_area 100) {} [5] 0"
    using filled_set by blast
  have "new_ok (2000, old_bytes) (chunk_area 100)" by (auto simp: new_ok_def dest!: chunk_area_range)
  with sqlite3RowSetTest_safe [OF r(3), of "(2000, old_bytes)" 1 5] show ?thesis using r(1,2) by (auto simp: next_batch_def)
qed

text \<open>
  C34: \<open>sqlite3RowSetDelete\<close> on any set that was filled by insertions and tests ends, frees every chunk exactly
  once and leaves no memory allocated.
\<close>

theorem sqlite3RowSetDelete_frees:
  assumes "rs_abs r U F P b"
  shows "sqlite3RowSetDelete r = Some (Map.empty, Map.empty)"
proof -
  have m: "mem_ok r U" "entry_store r 0 = None" using assms by (auto simp: rs_abs_def rs_ok_def)
  then obtain r' where r': "sqlite3RowSetClear r = Some r'" "chunk_store r' = Map.empty" "own_entries r' = own_entries r"
      "entry_store r' = entry_store r |` (- (\<Union>c \<in> dom (chunk_store r). chunk_area c))"
    using clear_spec by blast
  have "dom (entry_store r' |` (- set (own_entries r))) = {}" using m(1) unfolding mem_ok_def r'(4) dom_restrict by blast
  then have "entry_store r' |` (- set (own_entries r)) = Map.empty" by (simp only: dom_eq_empty_conv)
  then show ?thesis using r'(1-3) by (simp add: sqlite3RowSetDelete_def)
qed

theorem sqlite3RowSetDelete_frees_witness:
  "\<exists>r0 r. sqlite3RowSetInit (1, old_bytes) 56 = Some r0 \<and> sqlite3RowSetInsert (100, old_bytes) r0 5 = Some r \<and>
    sqlite3RowSetDelete r = Some (Map.empty, Map.empty)"
  using filled_set sqlite3RowSetDelete_frees by blast

text \<open>
  C35: \<open>rowSetListToTree\<close> turns a list into a binary tree with the same entries in the same order, and the tree
  is balanced: its height exceeds the logarithm of the number of entries by at most one, which bounds the
  steps of a search.
\<close>

theorem rowSetListToTree_balanced:
  assumes "rs_list m p xs" "xs \<noteq> []" "distinct xs"
  shows "\<exists>m' q t. rowSetListToTree m p = Some (m', q) \<and> rs_tree m' q t \<and> inorder t = xs \<and> 2 ^ (height t - 1) \<le> length xs"
proof -
  obtain m' q t where t: "rowSetListToTree m p = Some (m', q)" "rs_tree m' q t" "inorder t = xs" "balanced t"
    using list_to_tree_spec [OF assms] by blast
  moreover have "t \<noteq> Leaf" "size t = length xs" using t(3) assms(2) length_inorder [of t] by auto
  ultimately show ?thesis by (auto simp: balanced_def)
qed

theorem rowSetListToTree_balanced_witness:
  "\<exists>m' q t. rowSetListToTree [1 \<mapsto> \<lparr>rowid_v = 4, pRight = 2, pLeft = 8\<rparr>, 2 \<mapsto> \<lparr>rowid_v = 6, pRight = 0, pLeft = 8\<rparr>] 1 = Some (m', q) \<and>
    rs_tree m' q t \<and> inorder t = [1, 2] \<and> 2 ^ (height t - 1) \<le> length [1, 2 :: nat]"
  using rowSetListToTree_balanced [of "[1 \<mapsto> \<lparr>rowid_v = 4, pRight = 2, pLeft = 8\<rparr>, 2 \<mapsto> \<lparr>rowid_v = 6, pRight = 0, pLeft = 8\<rparr>]" 1 "[1, 2]"]
  by simp

end
