(* ===== verification/Sq_Compare.thy ===== *)
theory Sq_Compare
  imports Sq_Record Sq_Utf Sq_Ctype
begin

text \<open>
  Comparing values: \<open>sqlite3MemCompare\<close> of vdbeaux.c with what it rests on, the comparison of an
  integer with a double (\<open>sqlite3IntFloatCompare\<close>), of blobs (\<open>sqlite3BlobCompare\<close>), of strings under a
  collating sequence, translated first when the collation wants another encoding
  (\<open>vdbeCompareMemString\<close>), and the three built-in collations of main.c.

  The comparison functions are shown to order cells as documented, NULL before numbers before text
  before blobs, numbers by their exact values, and to keep the contract of the locale
  \<open>comparison\<close>: they are total preorders.
\<close>

section \<open>Memory cells\<close>

definition MEM_Null :: u16 where "MEM_Null = 0x0001"
definition MEM_Str :: u16 where "MEM_Str = 0x0002"
definition MEM_Int :: u16 where "MEM_Int = 0x0004"
definition MEM_Real :: u16 where "MEM_Real = 0x0008"
definition MEM_Blob :: u16 where "MEM_Blob = 0x0010"
definition MEM_IntReal :: u16 where "MEM_IntReal = 0x0020"
definition MEM_Zero :: u16 where "MEM_Zero = 0x0400"

lemmas mem_masks = MEM_Null_def MEM_Str_def MEM_Int_def MEM_Real_def MEM_Blob_def MEM_IntReal_def MEM_Zero_def

text \<open>The type flags of a cell and the members of its union.\<close>

fun mem_flags :: "mval \<Rightarrow> u16" where
  "mem_flags VNull = MEM_Null"
| "mem_flags VNoChange = MEM_Null OR MEM_Zero"
| "mem_flags (VInt i) = MEM_Int"
| "mem_flags (VIntReal i) = MEM_IntReal"
| "mem_flags (VReal r) = MEM_Real"
| "mem_flags (VText z) = MEM_Str"
| "mem_flags (VBlob z) = MEM_Blob"
| "mem_flags (VZeroBlob z n) = MEM_Blob OR MEM_Zero"

definition mem_i :: "mval \<Rightarrow> i64" where
  "mem_i v = (case v of VInt i \<Rightarrow> i | VIntReal i \<Rightarrow> i | _ \<Rightarrow> 0)"

definition mem_r :: "mval \<Rightarrow> u64" where
  "mem_r v = (case v of VReal r \<Rightarrow> r | _ \<Rightarrow> 0)"

definition mem_nZero :: "mval \<Rightarrow> int" where
  "mem_nZero v = (case v of VZeroBlob z n \<Rightarrow> int n | _ \<Rightarrow> 0)"

definition mem_n :: "mval \<Rightarrow> int" where
  "mem_n v = int (length (value_bytes v))"

section \<open>Doubles\<close>

text \<open>
  The value of a double as a multiple of the smallest subnormal, \<open>2 ^ -1074\<close>.  An infinity counts
  as the next power of two, which no finite double reaches, so that comparing two doubles that
  are not NaN is comparing these integers.
\<close>

definition double_mag :: "u64 \<Rightarrow> nat" where
  "double_mag r =
     (let e = unat (drop_bit 52 r AND 0x7ff); m = unat (r AND MAN754)
      in if e = 0 then m else (2 ^ 52 + m) * 2 ^ (e - 1))"

definition double_value :: "u64 \<Rightarrow> int" where
  "double_value r = (if bit r 63 then - int (double_mag r) else int (double_mag r))"

definition double_less :: "u64 \<Rightarrow> u64 \<Rightarrow> bool" where
  "double_less x y \<longleftrightarrow> \<not> IsNaN x \<and> \<not> IsNaN y \<and> double_value x < double_value y"

definition double_le :: "u64 \<Rightarrow> u64 \<Rightarrow> bool" where
  "double_le x y \<longleftrightarrow> \<not> IsNaN x \<and> \<not> IsNaN y \<and> double_value x \<le> double_value y"

text \<open>The C conversion \<open>(i64)r\<close> of a double in the range of \<open>i64\<close>: towards zero.\<close>

definition int_of_double :: "u64 \<Rightarrow> i64" where
  "int_of_double r =
     (let q = int (double_mag r div 2 ^ 1074) in word_of_int (if bit r 63 then - q else q))"

text \<open>The constants \<open>-9223372036854775808.0\<close> and \<open>9223372036854775808.0\<close>.\<close>

definition minus_2_63 :: u64 where "minus_2_63 = 0xC3E0000000000000"
definition plus_2_63 :: u64 where "plus_2_63 = 0x43E0000000000000"

definition sqlite3IsNaN :: "u64 \<Rightarrow> bool" where
  "sqlite3IsNaN x = IsNaN x"

definition sqlite3IntFloatCompare :: "i64 \<Rightarrow> u64 \<Rightarrow> int" where
  "sqlite3IntFloatCompare i r =
     (if sqlite3IsNaN r then 1
      else if double_less r minus_2_63 then 1
      else if double_le plus_2_63 r then -1
      else
        let y = int_of_double r in
        if i <s y then -1
        else if y <s i then 1
        else if double_less (double_of_int i) r then -1
        else of_bool (double_less r (double_of_int i)))"

section \<open>Strings and blobs\<close>

text \<open>
  \<open>memcmp\<close>: the difference of the first two bytes that differ.  The C library promises its
  sign only, and nothing below depends on more.
\<close>

fun memcmp :: "mem \<Rightarrow> mem \<Rightarrow> nat \<Rightarrow> int" where
  "memcmp p q 0 = 0"
| "memcmp p q (Suc n) =
     (if p 0 = q 0 then memcmp (\<lambda>i. p (Suc i)) (\<lambda>i. q (Suc i)) n else uint (p 0) - uint (q 0))"

definition isAllZero :: "mem \<Rightarrow> nat \<Rightarrow> bool" where
  "isAllZero z n \<longleftrightarrow> list_all (\<lambda>i. z i = 0) [0..<n]"

definition sqlite3BlobCompare :: "mval \<Rightarrow> mval \<Rightarrow> int" where
  "sqlite3BlobCompare pB1 pB2 =
     (let n1 = mem_n pB1; n2 = mem_n pB2;
          z1 = mem_of (value_bytes pB1); z2 = mem_of (value_bytes pB2);
          f1 = mem_flags pB1; f2 = mem_flags pB2
      in if (f1 OR f2) AND MEM_Zero \<noteq> 0 then
           (if f1 AND f2 AND MEM_Zero \<noteq> 0 then mem_nZero pB1 - mem_nZero pB2
            else if f1 AND MEM_Zero \<noteq> 0 then
              (if \<not> isAllZero z2 (nat n2) then -1 else mem_nZero pB1 - n2)
            else
              (if \<not> isAllZero z1 (nat n1) then 1 else n1 - mem_nZero pB2))
         else
           let c = memcmp z1 z2 (nat (if n1 > n2 then n2 else n1))
           in if c \<noteq> 0 then c else n1 - n2)"

text \<open>
  A collating sequence: the encoding it works on and the comparison function with its user data.
\<close>

record CollSeq =
  coll_enc :: nat
  xCmp :: "u8 list \<Rightarrow> u8 list \<Rightarrow> int"

definition binCollFunc :: "u8 list \<Rightarrow> u8 list \<Rightarrow> int" where
  "binCollFunc pKey1 pKey2 =
     (let nKey1 = length pKey1; nKey2 = length pKey2;
          n = (if nKey1 < nKey2 then nKey1 else nKey2);
          rc = memcmp (mem_of pKey1) (mem_of pKey2) n
      in if rc = 0 then int nKey1 - int nKey2 else rc)"

function rtrim_len :: "u8 list \<Rightarrow> nat \<Rightarrow> nat" where
  "rtrim_len pK nKey = (if nKey \<noteq> 0 \<and> pK ! (nKey - 1) = 0x20 then rtrim_len pK (nKey - 1) else nKey)"
  by pat_completeness auto
termination by (relation "measure snd") auto

declare rtrim_len.simps [simp del]

definition rtrimCollFunc :: "u8 list \<Rightarrow> u8 list \<Rightarrow> int" where
  "rtrimCollFunc pKey1 pKey2 =
     binCollFunc (take (rtrim_len pKey1 (length pKey1)) pKey1) (take (rtrim_len pKey2 (length pKey2)) pKey2)"

definition nocaseCollatingFunc :: "u8 list \<Rightarrow> u8 list \<Rightarrow> int" where
  "nocaseCollatingFunc pKey1 pKey2 =
     (let nKey1 = int (length pKey1); nKey2 = int (length pKey2);
          r = sqlite3_strnicmp (Some pKey1) (Some pKey2) (if nKey1 < nKey2 then nKey1 else nKey2)
      in if 0 = r then nKey1 - nKey2 else r)"

text \<open>The collations that \<open>openDatabase\<close> registers; \<open>BINARY\<close> for each encoding.\<close>

definition coll_BINARY :: "nat \<Rightarrow> CollSeq" where
  "coll_BINARY enc = \<lparr>coll_enc = enc, xCmp = binCollFunc\<rparr>"

definition coll_NOCASE :: CollSeq where
  "coll_NOCASE = \<lparr>coll_enc = SQLITE_UTF8, xCmp = nocaseCollatingFunc\<rparr>"

definition coll_RTRIM :: CollSeq where
  "coll_RTRIM = \<lparr>coll_enc = SQLITE_UTF8, xCmp = rtrimCollFunc\<rparr>"

text \<open>
  The text of a string cell in another encoding.  \<open>mem_ok\<close> says which allocations succeed;
  \<open>None\<close> is the null pointer.
\<close>

definition sqlite3VdbeChangeEncoding :: "(nat \<Rightarrow> bool) \<Rightarrow> Mem \<Rightarrow> nat \<Rightarrow> Mem option" where
  "sqlite3VdbeChangeEncoding mem_ok pMem desiredEnc =
     (if mem_enc pMem = desiredEnc then Some pMem else sqlite3VdbeMemTranslate mem_ok pMem desiredEnc)"

definition valueToText :: "(nat \<Rightarrow> bool) \<Rightarrow> Mem \<Rightarrow> nat \<Rightarrow> u8 list option" where
  "valueToText mem_ok pVal enc =
     (let pVal = (if mem_enc pVal \<noteq> enc then
                    (case sqlite3VdbeChangeEncoding mem_ok pVal enc of Some m \<Rightarrow> m | None \<Rightarrow> pVal)
                  else pVal)
      in if mem_enc pVal = enc then Some (mem_z pVal) else None)"

text \<open>Result and whether \<open>SQLITE_NOMEM\<close> is stored through \<open>prcErr\<close>.\<close>

definition vdbeCompareMemStringWithEncodingChange ::
    "(nat \<Rightarrow> nat \<Rightarrow> bool) \<Rightarrow> Mem \<Rightarrow> Mem \<Rightarrow> CollSeq \<Rightarrow> int \<times> bool" where
  "vdbeCompareMemStringWithEncodingChange mem_ok pMem1 pMem2 pColl =
     (let v1 = valueToText (mem_ok 1) pMem1 (coll_enc pColl);
          v2 = valueToText (mem_ok 2) pMem2 (coll_enc pColl)
      in case (v1, v2) of
           (Some z1, Some z2) \<Rightarrow> (xCmp pColl z1 z2, False)
         | _ \<Rightarrow> (0, True))"

definition vdbeCompareMemString ::
    "(nat \<Rightarrow> nat \<Rightarrow> bool) \<Rightarrow> Mem \<Rightarrow> Mem \<Rightarrow> CollSeq \<Rightarrow> int \<times> bool" where
  "vdbeCompareMemString mem_ok pMem1 pMem2 pColl =
     (if mem_enc pMem1 = coll_enc pColl then (xCmp pColl (mem_z pMem1) (mem_z pMem2), False)
      else vdbeCompareMemStringWithEncodingChange mem_ok pMem1 pMem2 pColl)"

text \<open>\<open>enc\<close> is the encoding of the database, in which all its strings are.\<close>

definition sqlite3MemCompare ::
    "(nat \<Rightarrow> nat \<Rightarrow> bool) \<Rightarrow> nat \<Rightarrow> mval \<Rightarrow> mval \<Rightarrow> CollSeq option \<Rightarrow> int" where
  "sqlite3MemCompare mem_ok enc pMem1 pMem2 pColl =
     (let f1 = mem_flags pMem1; f2 = mem_flags pMem2; combined_flags = f1 OR f2;
          ints = (if mem_i pMem1 <s mem_i pMem2 then -1 else if mem_i pMem2 <s mem_i pMem1 then 1 else 0)
      in if combined_flags AND MEM_Null \<noteq> 0 then uint (f2 AND MEM_Null) - uint (f1 AND MEM_Null)
         else if combined_flags AND (MEM_Int OR MEM_Real OR MEM_IntReal) \<noteq> 0 then
           (if f1 AND f2 AND (MEM_Int OR MEM_IntReal) \<noteq> 0 then ints
            else if f1 AND f2 AND MEM_Real \<noteq> 0 then
              (if double_less (mem_r pMem1) (mem_r pMem2) then -1
               else if double_less (mem_r pMem2) (mem_r pMem1) then 1 else 0)
            else if f1 AND (MEM_Int OR MEM_IntReal) \<noteq> 0 then
              (if f2 AND MEM_Real \<noteq> 0 then sqlite3IntFloatCompare (mem_i pMem1) (mem_r pMem2)
               else if f2 AND (MEM_Int OR MEM_IntReal) \<noteq> 0 then ints
               else -1)
            else if f1 AND MEM_Real \<noteq> 0 then
              (if f2 AND (MEM_Int OR MEM_IntReal) \<noteq> 0
               then - sqlite3IntFloatCompare (mem_i pMem2) (mem_r pMem1)
               else -1)
            else 1)
         else if combined_flags AND MEM_Str \<noteq> 0 \<and> f1 AND MEM_Str = 0 then 1
         else if combined_flags AND MEM_Str \<noteq> 0 \<and> f2 AND MEM_Str = 0 then -1
         else
           case (if combined_flags AND MEM_Str \<noteq> 0 then pColl else None) of
             Some c \<Rightarrow> fst (vdbeCompareMemString mem_ok \<lparr>mem_z = value_bytes pMem1, mem_enc = enc\<rparr>
                         \<lparr>mem_z = value_bytes pMem2, mem_enc = enc\<rparr> c)
           | None \<Rightarrow> sqlite3BlobCompare pMem1 pMem2)"


section \<open>Integers and doubles\<close>

lemma unat_and_mask: "unat (x AND mask n) = unat x mod 2 ^ n" for x :: u64
  by (simp only: take_bit_eq_mask [symmetric] unsigned_take_bit_eq) (simp add: take_bit_eq_mod)

lemma double_mag_fields:
  "double_mag r =
     (let e = unat r div 2 ^ 52 mod 2 ^ 11; m = unat r mod 2 ^ 52
      in if e = 0 then m else (2 ^ 52 + m) * 2 ^ (e - 1))"
proof -
  have "MAN754 = mask 52" by (simp add: MAN754_def mask_eq_exp_minus_1 push_bit_eq_mult)
  then have "unat (r AND MAN754) = unat r mod 2 ^ 52" using unat_and_mask [of r 52] by argo
  moreover have "(0x7ff :: u64) = mask 11" by (simp add: mask_eq_exp_minus_1)
  then have "unat (drop_bit 52 r AND 0x7ff) = unat r div 2 ^ 52 mod 2 ^ 11"
    by (simp only: unat_and_mask unat_drop_bit_eq drop_bit_nat_def)
  ultimately show ?thesis by (simp only: double_mag_def)
qed

lemma bit_63_unat: "bit r 63 \<longleftrightarrow> 2 ^ 63 \<le> unat (r :: u64)"
proof -
  have "unat r div 2 ^ 63 < 2" using unat_u64_less [of r] by (simp add: less_mult_imp_div_less)
  then have "unat r div 2 ^ 63 = 0 \<or> unat r div 2 ^ 63 = 1" by linarith
  then have "odd (unat r div 2 ^ 63) \<longleftrightarrow> unat r div 2 ^ 63 \<noteq> 0" by auto
  moreover have "bit r 63 \<longleftrightarrow> bit (unat r) 63" by (simp add: bit_unsigned_iff)
  ultimately show ?thesis by (simp add: bit_iff_odd div_eq_0_iff not_less)
qed

abbreviation unit_scale :: nat where "unit_scale \<equiv> 2 ^ 1074"

lemma double_mag_normal:
  assumes "1 \<le> e" "e < 2 ^ 11" "m < 2 ^ 52" "unat r mod 2 ^ 63 = e * 2 ^ 52 + m"
  shows "double_mag r = (2 ^ 52 + m) * 2 ^ (e - 1)"
proof -
  have "unat r mod 2 ^ 52 = m"
    using arg_cong [OF assms(4), of "\<lambda>x. x mod 2 ^ 52"] assms(3) by (simp add: mod_mod_cancel)
  moreover have "unat r div 2 ^ 52 mod 2 ^ 11 = unat r mod 2 ^ 63 div 2 ^ 52"
    using mod_mult2_eq [of "unat r" "2 ^ 52" "2 ^ 11"] by simp
  moreover have "(e * 2 ^ 52 + m) div 2 ^ 52 = e" using assms(3) by simp
  ultimately show ?thesis using assms unfolding double_mag_fields Let_def by simp
qed

lemma double_of_int_exact:
  assumes j: "2 ^ j \<le> nat \<bar>sint i\<bar>" "nat \<bar>sint i\<bar> < 2 ^ Suc j"
    and d: "j \<le> 52 \<or> 2 ^ (j - 52) dvd nat \<bar>sint i\<bar>"
  shows "double_value (double_of_int i) = sint i * int unit_scale"
proof -
  define m where "m = nat \<bar>sint i\<bar>"
  note j = j [folded m_def] and d = d [folded m_def]
  have "0 < m" using j(1) by (metis less_le_trans zero_less_numeral zero_less_power)
  have "m \<le> 2 ^ 63" using sint_range_size [of i] by (simp add: m_def word_size nat_le_iff) linarith
  then have "(2 :: nat) ^ j < 2 ^ 64" using j(1) by (simp add: le_less_trans)
  then have j64: "j < 64" by (rule power_less_imp_less_exp [rotated]) simp
  define q where "q = (if j \<le> 52 then m * 2 ^ (52 - j) else m div 2 ^ (j - 52))"
  have q: "q < 2 ^ 53" by (rule double_magnitude [OF j j64 q_def])
  have qm: "q * 2 ^ (j + 1022) = m * unit_scale"
  proof (cases "j \<le> 52")
    case True
    then show ?thesis by (simp only: q_def if_True mult.assoc power_add [symmetric]) simp
  next
    case False
    then have "q * 2 ^ (j - 52) = m" using d by (simp add: q_def)
    moreover have "(2 :: nat) ^ (j + 1022) = 2 ^ (j - 52) * 2 ^ 1074"
      using False by (simp only: power_add [symmetric]) simp
    ultimately show ?thesis by (simp only: mult.assoc [symmetric])
  qed
  have q52: "2 ^ 52 \<le> q"
  proof (rule ccontr)
    assume "\<not> 2 ^ 52 \<le> q"
    then have "q * 2 ^ (j + 1022) < 2 ^ 52 * 2 ^ (j + 1022)" by simp
    also have "\<dots> = 2 ^ j * unit_scale" by (simp only: power_add [symmetric]) simp
    also have "\<dots> \<le> m * unit_scale" using j(1) by (rule mult_le_mono1)
    finally show False using qm by simp
  qed
  have "(if j \<le> 52 then 0 else m mod 2 ^ (j - 52)) = 0" using d by auto
  then have x: "double_of_int i = (if i <s 0 then push_bit 63 1 else 0) OR of_nat ((j + 1022) * 2 ^ 52 + q)"
    using \<open>0 < m\<close> unfolding double_of_int_def m_def [symmetric] Let_def filter_pow_len [OF j j64] q_def [symmetric]
    by (auto simp: q_def)
  define n where "n = (j + 1023) * 2 ^ 52 + (q - 2 ^ 52)"
  have n: "(j + 1022) * 2 ^ 52 + q = n" "n < 2 ^ 63" using q52 q j64 by (simp_all add: n_def)
  have u: "unat (of_nat n :: u64) = n" using n(2) by (simp add: unat_of_nat_u64)
  have "double_of_int i = (if i <s 0 then push_bit 63 1 else 0) + of_nat n"
    unfolding x n(1)
  proof (rule disjunctive_add [symmetric])
    show "\<not> bit (if i <s 0 then push_bit 63 1 else 0 :: u64) k \<or> \<not> bit (of_nat n :: u64) k" for k
      using n(2) u bit_63_unat [of "of_nat n"]
      by (cases "k = 63") (auto simp del: push_bit_of_1 simp: bit_push_bit_iff bit_1_iff)
  qed
  then have un: "unat (double_of_int i) = (if i <s 0 then 2 ^ 63 else 0) + n"
    using n(2) u by (auto simp: unat_word_ariths push_bit_eq_mult)
  then have "unat (double_of_int i) mod 2 ^ 63 = n" using n(2) by simp
  with double_mag_normal [of "j + 1023" "q - 2 ^ 52" "double_of_int i"] j64 q q52 n_def
  have "double_mag (double_of_int i) = q * 2 ^ (j + 1022)" by simp
  moreover have "bit (double_of_int i) 63 \<longleftrightarrow> sint i < 0" using un n(2) by (simp add: bit_63_unat word_sless_alt)
  ultimately show ?thesis using qm by (simp add: double_value_def m_def)
qed

lemma double_mag_bounds:
  assumes "double_mag r = k * 2 ^ 1074 + l" "l < 2 ^ 1074" "2 ^ 53 \<le> k"
  shows "\<exists>c s. k = c * 2 ^ s \<and> 2 ^ 52 \<le> c \<and> c < 2 ^ 53"
proof -
  define e m where "e = unat r div 2 ^ 52 mod 2 ^ 11" and "m = unat r mod 2 ^ 52"
  have m: "m < 2 ^ 52" by (simp add: m_def)
  have mag: "double_mag r = (if e = 0 then m else (2 ^ 52 + m) * 2 ^ (e - 1))"
    by (simp only: double_mag_fields Let_def e_def m_def)
  have big: "2 ^ 53 * 2 ^ 1074 \<le> double_mag r"
    unfolding assms(1) using mult_le_mono1 [OF assms(3), of "2 ^ 1074"] by (rule trans_le_add1)
  have "e \<noteq> 0"
  proof
    assume "e = 0"
    then have "double_mag r < 2 ^ 52 * 1" using mag m by simp
    also have "\<dots> \<le> 2 ^ 53 * 2 ^ 1074" by (rule mult_le_mono) simp_all
    finally show False using big by simp
  qed
  then have mag: "double_mag r = (2 ^ 52 + m) * 2 ^ (e - 1)" using mag by simp
  also have "\<dots> < 2 ^ 53 * 2 ^ (e - 1)" using m by simp
  finally have "2 ^ 1074 < (2 :: nat) ^ (e - 1)" using big by (metis le_less_trans mult_less_cancel1)
  then have e: "1074 < e - 1" by (rule power_less_imp_less_exp [rotated]) simp
  then have "(2 :: nat) ^ (e - 1) = 2 ^ (e - 1 - 1074) * 2 ^ 1074" by (simp only: power_add [symmetric]) simp
  then have "double_mag r = (2 ^ 52 + m) * 2 ^ (e - 1 - 1074) * 2 ^ 1074" using mag by (simp only: mult.assoc)
  moreover have "k = double_mag r div 2 ^ 1074" using assms(1,2) by simp
  ultimately have "k = (2 ^ 52 + m) * 2 ^ (e - 1 - 1074)" by (simp only: nonzero_mult_div_cancel_right) simp
  then show ?thesis using m by (intro exI [of _ "2 ^ 52 + m"] exI [of _ "e - 1 - 1074"]) simp
qed

lemma double_of_truncated:
  assumes "double_mag r = nat \<bar>sint i\<bar> * 2 ^ 1074 + l" "l < 2 ^ 1074"
  shows "double_value (double_of_int i) = sint i * int unit_scale"
proof (cases "sint i = 0")
  case True
  then show ?thesis by (simp add: double_of_int_def double_value_def double_mag_def)
next
  case False
  then obtain j where j: "2 ^ j \<le> nat \<bar>sint i\<bar>" "nat \<bar>sint i\<bar> < 2 ^ Suc j" using floor_pow [of "nat \<bar>sint i\<bar>"] by auto
  have "2 ^ (j - 52) dvd nat \<bar>sint i\<bar>" if j53: "\<not> j \<le> 52"
  proof -
    have "(2 :: nat) ^ 53 \<le> 2 ^ j" using j53 by (intro power_increasing) auto
    then have "2 ^ 53 \<le> nat \<bar>sint i\<bar>" using j(1) by (rule order_trans)
    from double_mag_bounds [OF assms this] obtain c s
      where c: "nat \<bar>sint i\<bar> = c * 2 ^ s" "2 ^ 52 \<le> c" "c < 2 ^ 53" by blast
    have "2 ^ j < (2 :: nat) ^ (53 + s)" using j(1) c by (simp add: power_add le_less_trans)
    then have "j < 53 + s" by (rule power_less_imp_less_exp [rotated]) simp
    then have "(2 :: nat) ^ (j - 52) dvd 2 ^ s" by (intro le_imp_power_dvd) simp
    then show ?thesis using c(1) by (simp add: dvd_mult)
  qed
  with double_of_int_exact [OF j] show ?thesis by blast
qed

lemma truncated_bounds:
  fixes v i k l s :: int
  assumes "0 \<le> l" "l < s"
  shows "i < k \<Longrightarrow> i * s < k * s + l" "k < i \<Longrightarrow> k * s + l < i * s"
    "i < - k \<Longrightarrow> i * s < - (k * s + l)" "- k < i \<Longrightarrow> - (k * s + l) < i * s"
proof -
  have s: "0 < s" using assms by linarith
  show "i * s < k * s + l" if "i < k"
    using mult_strict_right_mono [OF that s] assms by linarith
  show "k * s + l < i * s" if "k < i"
  proof -
    have "(k + 1) * s \<le> i * s" using that s by (intro mult_right_mono) auto
    then show ?thesis using assms by (simp add: algebra_simps)
  qed
  show "i * s < - (k * s + l)" if "i < - k"
  proof -
    have "i * s \<le> (- k - 1) * s" using that s by (intro mult_right_mono) auto
    then show ?thesis using assms by (simp add: algebra_simps)
  qed
  show "- (k * s + l) < i * s" if "- k < i"
    using mult_strict_right_mono [OF that s] assms by (simp add: algebra_simps)
qed

lemma double_2_63:
  "double_value plus_2_63 = 2 ^ 63 * int unit_scale" "\<not> IsNaN plus_2_63"
  "double_value minus_2_63 = - (2 ^ 63 * int unit_scale)" "\<not> IsNaN minus_2_63"
proof -
  have "double_mag plus_2_63 = (2 ^ 52 + 0) * 2 ^ (1086 - 1)" "double_mag minus_2_63 = (2 ^ 52 + 0) * 2 ^ (1086 - 1)"
    by (rule double_mag_normal; simp add: plus_2_63_def minus_2_63_def)+
  moreover have "(2 ^ 52 + 0) * 2 ^ (1086 - 1) = (2 ^ 63 * unit_scale :: nat)"
    by (simp only: add_0_right power_add [symmetric]) simp
  ultimately have m: "double_mag plus_2_63 = 2 ^ 63 * unit_scale" "double_mag minus_2_63 = 2 ^ 63 * unit_scale" by (simp_all only:)
  have "\<not> bit plus_2_63 63" "bit minus_2_63 63" by (simp_all only: bit_63_unat) (simp_all add: plus_2_63_def minus_2_63_def)
  then show "double_value plus_2_63 = 2 ^ 63 * int unit_scale" "double_value minus_2_63 = - (2 ^ 63 * int unit_scale)"
    by (simp_all only: double_value_def m if_True if_False of_nat_mult of_nat_power of_nat_numeral)
  show "\<not> IsNaN plus_2_63" "\<not> IsNaN minus_2_63"
    by (simp_all add: IsNaN_def plus_2_63_def minus_2_63_def EXP754_def MAN754_def)
qed

lemma sint_of_range: "- (2 ^ 63) \<le> x \<Longrightarrow> x < 2 ^ 63 \<Longrightarrow> sint (word_of_int x :: i64) = x"
  by (simp add: sint_sbintrunc' signed_take_bit_int_eq_self)

lemma sint_int_of_double:
  assumes "double_mag r = k * 2 ^ 1074 + l" "l < 2 ^ 1074"
    and "if bit r 63 then k \<le> 2 ^ 63 else k < 2 ^ 63"
  shows "sint (int_of_double r) = (if bit r 63 then - int k else int k)"
proof -
  have "double_mag r div 2 ^ 1074 = k" unfolding assms(1) using assms(2) by simp
  then have "int_of_double r = word_of_int (if bit r 63 then - int k else int k)"
    by (simp only: int_of_double_def Let_def)
  moreover have "- (2 ^ 63) \<le> (if bit r 63 then - int k else int k)" "(if bit r 63 then - int k else int k) < 2 ^ 63"
    using assms(3) by (auto split: if_splits)
  ultimately show ?thesis by (simp only: sint_of_range)
qed

lemma intFloatCompare_sgn:
  assumes "\<not> IsNaN r"
  shows "sqlite3IntFloatCompare i r = sgn (sint i * int unit_scale - double_value r)"
proof -
  let ?S = "int unit_scale" and ?v = "double_value r"
  have i: "- (2 ^ 63) * ?S \<le> sint i * ?S" "sint i * ?S < 2 ^ 63 * ?S"
    using sint_range_size [of i] by (simp_all only: mult_le_cancel_right mult_less_cancel_right) (auto simp: word_size)
  define k l where "k = double_mag r div unit_scale" and "l = double_mag r mod unit_scale"
  have kl: "double_mag r = k * unit_scale + l" "l < unit_scale" by (simp_all only: k_def l_def div_mult_mod_eq mod_less_divisor zero_less_power zero_less_numeral)
  have v: "?v = (if bit r 63 then - (int k * ?S + int l) else int k * ?S + int l)"
    by (simp only: double_value_def kl(1) of_nat_add of_nat_mult)
  have l: "0 \<le> int l" "int l < ?S" using kl(2) by (simp_all only: of_nat_less_iff of_nat_0_le_iff)
  note less = double_less_def double_le_def double_2_63 assms not_False_eq_True simp_thms
  consider "?v < - (2 ^ 63 * ?S)" | "2 ^ 63 * ?S \<le> ?v" "\<not> ?v < - (2 ^ 63 * ?S)"
    | "\<not> ?v < - (2 ^ 63 * ?S)" "\<not> 2 ^ 63 * ?S \<le> ?v" by blast
  then show ?thesis
  proof cases
    case 1
    then have "0 < sint i * ?S - ?v" using i(1) by linarith
    then have "sgn (sint i * ?S - ?v) = 1" by (rule sgn_pos)
    then show ?thesis using 1 assms by (simp only: sqlite3IntFloatCompare_def sqlite3IsNaN_def less if_True if_False)
  next
    case 2
    then have "sint i * ?S - ?v < 0" using i(2) by linarith
    then have "sgn (sint i * ?S - ?v) = -1" by (rule sgn_neg)
    then show ?thesis using 2 assms by (simp only: sqlite3IntFloatCompare_def sqlite3IsNaN_def less if_True if_False)
  next
    case 3
    have kb: "if bit r 63 then k \<le> 2 ^ 63 else k < 2 ^ 63"
    proof (rule ccontr)
      assume "\<not> ?thesis"
      then have "if bit r 63 then 2 ^ 63 < int k else 2 ^ 63 \<le> int k" by (auto split: if_splits)
      then have "if bit r 63 then 2 ^ 63 * ?S < int k * ?S else 2 ^ 63 * ?S \<le> int k * ?S"
        by (simp only: mult_less_cancel_right mult_le_cancel_right of_nat_less_0_iff zero_less_power zero_less_numeral
          of_nat_0_less_iff not_less [symmetric] split: if_splits) simp_all
      then show False using 3 v l by (simp only: split: if_splits; linarith)
    qed
    note y = sint_int_of_double [OF kl kb]
    have cmp: "sqlite3IntFloatCompare i r =
        (if sint i < sint (int_of_double r) then -1 else if sint (int_of_double r) < sint i then 1
         else if double_less (double_of_int i) r then -1 else of_bool (double_less r (double_of_int i)))"
      using 3 by (simp only: sqlite3IntFloatCompare_def sqlite3IsNaN_def less if_True if_False Let_def word_sless_alt)
    consider "sint i < sint (int_of_double r)" | "sint (int_of_double r) < sint i" | "sint i = sint (int_of_double r)" by linarith
    then show ?thesis
    proof cases
      case 1
      then have "sint i * ?S < ?v" unfolding v y using truncated_bounds [OF l] by (cases "bit r 63") (simp_all only: if_True if_False simp_thms)
      then have "sgn (sint i * ?S - ?v) = -1" by (intro sgn_neg) linarith
      then show ?thesis using 1 by (simp only: cmp if_True)
    next
      case 2
      then have "?v < sint i * ?S" unfolding v y using truncated_bounds [OF l] by (cases "bit r 63") (simp_all only: if_True if_False simp_thms)
      then have "sgn (sint i * ?S - ?v) = 1" by (intro sgn_pos) linarith
      moreover have "\<not> sint i < sint (int_of_double r)" using 2 by linarith
      ultimately show ?thesis using 2 by (simp only: cmp if_True if_False)
    next
      case 3
      then have "nat \<bar>sint i\<bar> = k" unfolding y by (simp split: if_splits)
      then have d: "double_value (double_of_int i) = sint i * ?S" using double_of_truncated [of r i l] kl by (simp only:)
      show ?thesis
        using 3 by (simp only: cmp d double_less_def double_of_int_not_nan assms)
          (cases "sint i * ?S" "?v" rule: linorder_cases; simp)
    qed
  qed
qed

section \<open>The order of values\<close>

text \<open>Byte strings in lexicographic order, a prefix before its extensions.\<close>

fun lex_order :: "u8 list \<Rightarrow> u8 list \<Rightarrow> int" where
  "lex_order [] [] = 0"
| "lex_order [] (y # ys) = -1"
| "lex_order (x # xs) [] = 1"
| "lex_order (x # xs) (y # ys) = (if x = y then lex_order xs ys else if x < y then -1 else 1)"

text \<open>The number 1 in the unit of \<open>double_value\<close>.\<close>

definition double_one :: int where
  "double_one = 2 ^ 1074"

text \<open>The order that sqlite3.h documents: NULL, numbers by value, text by its collation, blobs by bytes.\<close>

fun value_class :: "mval \<Rightarrow> int" where
  "value_class VNull = 0"
| "value_class VNoChange = 0"
| "value_class (VText z) = 2"
| "value_class (VBlob z) = 3"
| "value_class (VZeroBlob z n) = 3"
| "value_class v = 1"

fun num_value :: "mval \<Rightarrow> int" where
  "num_value (VInt i) = sint i * double_one"
| "num_value (VIntReal i) = sint i * double_one"
| "num_value (VReal r) = double_value r"
| "num_value v = 0"

fun blob_value :: "mval \<Rightarrow> u8 list" where
  "blob_value (VZeroBlob z n) = z @ replicate n 0"
| "blob_value v = value_bytes v"

definition text_in :: "nat \<Rightarrow> nat \<Rightarrow> u8 list \<Rightarrow> u8 list" where
  "text_in enc enc' z = (if enc = enc' then z else
     case sqlite3VdbeMemTranslate (\<lambda>_. True) \<lparr>mem_z = z, mem_enc = enc\<rparr> enc' of
       Some m \<Rightarrow> mem_z m | None \<Rightarrow> z)"

definition text_order :: "nat \<Rightarrow> CollSeq option \<Rightarrow> u8 list \<Rightarrow> u8 list \<Rightarrow> int" where
  "text_order enc pColl x y =
     (case pColl of None \<Rightarrow> lex_order x y
      | Some c \<Rightarrow> sgn (xCmp c (text_in enc (coll_enc c) x) (text_in enc (coll_enc c) y)))"

definition value_order :: "nat \<Rightarrow> CollSeq option \<Rightarrow> mval \<Rightarrow> mval \<Rightarrow> int" where
  "value_order enc pColl v w =
     (if value_class v \<noteq> value_class w then sgn (value_class v - value_class w)
      else if value_class v = 1 then sgn (num_value v - num_value w)
      else if value_class v = 2 then text_order enc pColl (value_bytes v) (value_bytes w)
      else lex_order (blob_value v) (blob_value w))"

text \<open>
  A cell that the comparisons may get: not a NaN, which SQLite turns into NULL, and a blob with
  trailing zeros has nothing before them.
\<close>

fun cell_ok :: "mval \<Rightarrow> bool" where
  "cell_ok (VReal r) \<longleftrightarrow> \<not> IsNaN r"
| "cell_ok (VZeroBlob z n) \<longleftrightarrow> z = []"
| "cell_ok v \<longleftrightarrow> True"

lemma memcmp_agree: "agree n p p' \<Longrightarrow> agree n q q' \<Longrightarrow> memcmp p q n = memcmp p' q' n"
proof (induction n arbitrary: p q p' q')
  case (Suc n)
  have "memcmp (\<lambda>i. p (Suc i)) (\<lambda>i. q (Suc i)) n = memcmp (\<lambda>i. p' (Suc i)) (\<lambda>i. q' (Suc i)) n"
    by (rule Suc.IH) (use Suc.prems in \<open>auto simp: agree_def\<close>)
  with Suc.prems show ?case by (auto simp: agree_def)
qed simp

lemma mem_of_Cons: "mem_of (x # xs) 0 = x" "(\<lambda>i. mem_of (x # xs) (Suc i)) = mem_of xs"
  by (auto simp: mem_of_def)

text \<open>\<open>memcmp\<close> on the common length, then the lengths.\<close>

definition bytes_compare :: "mem \<Rightarrow> nat \<Rightarrow> u8 list \<Rightarrow> int" where
  "bytes_compare p n y =
     (let rc = memcmp p (mem_of y) (min n (length y)) in if rc = 0 then int n - int (length y) else rc)"

lemma bytes_compare_mem_of: "sgn (bytes_compare (mem_of x) (length x) y) = lex_order x y"
proof (induction x y rule: lex_order.induct)
  case (4 x xs y ys)
  then show ?case
    using word_uint_eq_iff [of x y] by (auto simp: bytes_compare_def Let_def mem_of_Cons word_less_def)
qed (auto simp: bytes_compare_def)

lemma bytes_compare_sgn:
  assumes "agree (length x) p (mem_of x)"
  shows "sgn (bytes_compare p (length x) y) = lex_order x y"
proof -
  have "memcmp p (mem_of y) (min (length x) (length y)) = memcmp (mem_of x) (mem_of y) (min (length x) (length y))"
    using agree_mono [OF assms] by (intro memcmp_agree) auto
  then show ?thesis using bytes_compare_mem_of [of x y] by (simp add: bytes_compare_def)
qed

lemma isAllZero_agree: "agree (length x) p (mem_of x) \<Longrightarrow> isAllZero p (length x) \<longleftrightarrow> x = replicate (length x) 0"
proof -
  assume "agree (length x) p (mem_of x)"
  then have "isAllZero p (length x) \<longleftrightarrow> (\<forall>i < length x. x ! i = 0)"
    by (auto simp: isAllZero_def list_all_iff agree_def mem_of_def)
  then show ?thesis by (simp add: list_eq_iff_nth_eq)
qed

lemma lex_order_simps:
  "lex_order x y = 0 \<longleftrightarrow> x = y" "- lex_order y x = lex_order x y" "sgn (lex_order x y) = lex_order x y"
  by (induction x y rule: lex_order.induct) auto

lemma lex_order_zeros: "lex_order (replicate m 0) (replicate n 0) = sgn (int m - int n)"
proof (induction m arbitrary: n)
  case 0 then show ?case by (cases n) auto
next
  case (Suc m) then show ?case by (cases n) auto
qed

lemma lex_order_zeros_less:
  "y \<noteq> replicate (length y) 0 \<Longrightarrow> lex_order (replicate n 0) y = -1"
proof (induction y arbitrary: n)
  case (Cons b y)
  then show ?case
    by (cases n) (auto simp: word_gt_0)
qed simp

lemma zero_blob_compare:
  assumes "agree (length x) p (mem_of x)"
  shows "sgn (if \<not> isAllZero p (length x) then 1 else int (length x) - int n) = lex_order x (replicate n 0)"
proof (cases "isAllZero p (length x)")
  case True
  then have "x = replicate (length x) 0" using isAllZero_agree [OF assms] by simp
  then show ?thesis using True lex_order_zeros [of "length x" n] by simp
next
  case False
  then have "x \<noteq> replicate (length x) 0" using isAllZero_agree [OF assms] by simp
  then show ?thesis using False lex_order_zeros_less [of x n] lex_order_simps(2) [of "replicate n 0" x] by simp
qed

lemmas flag_bits = mem_masks
lemmas cell_defs = mem_i_def mem_r_def mem_n_def mem_nZero_def value_bytes_def

lemma blobCompare_sgn:
  assumes "cell_ok v" "cell_ok w" "value_class v = value_class w" "value_class v \<in> {2, 3}"
  shows "sgn (sqlite3BlobCompare v w) = lex_order (blob_value v) (blob_value w)"
proof -
  have m: "nat (if n1 > n2 then n2 else n1) = min (nat n1) (nat n2)" for n1 n2 :: int by auto
  have plain: "sqlite3BlobCompare v w = bytes_compare (mem_of (value_bytes v)) (length (value_bytes v)) (value_bytes w)"
    if "mem_flags v AND MEM_Zero = 0" "mem_flags w AND MEM_Zero = 0" for v w
  proof -
    have "(mem_flags v OR mem_flags w) AND MEM_Zero = 0" using that by (simp add: bit.conj_disj_distrib2)
    then show ?thesis by (simp add: sqlite3BlobCompare_def m bytes_compare_def Let_def mem_n_def)
  qed
  have zero: "sqlite3BlobCompare (VZeroBlob [] m) (VBlob y) = (if \<not> isAllZero (mem_of y) (length y) then -1 else int m - int (length y))"
    "sqlite3BlobCompare (VBlob x) (VZeroBlob [] n) = (if \<not> isAllZero (mem_of x) (length x) then 1 else int (length x) - int n)"
    "sqlite3BlobCompare (VZeroBlob [] m) (VZeroBlob [] n) = int m - int n" for m n x y
    by (simp_all add: sqlite3BlobCompare_def Let_def flag_bits cell_defs)
  have left: "sgn (sqlite3BlobCompare (VZeroBlob [] m) (VBlob y)) = lex_order (replicate m 0) y" for m y
  proof -
    have "sqlite3BlobCompare (VZeroBlob [] m) (VBlob y) = - sqlite3BlobCompare (VBlob y) (VZeroBlob [] m)"
      by (simp only: zero) simp
    then show ?thesis
      using zero_blob_compare [of y "mem_of y" m] lex_order_simps(2) [of y "replicate m 0"]
      by (simp only: zero(2) sgn_minus agree_refl simp_thms)
  qed
  have flat: "mem_flags (VText z) AND MEM_Zero = 0" "mem_flags (VBlob z) AND MEM_Zero = 0" for z
    by (simp_all add: flag_bits)
  show ?thesis
    using assms zero_blob_compare [OF agree_refl]
    by (cases v; cases w)
      (simp_all add: plain [OF flat(1) flat(1)] plain [OF flat(2) flat(2)] bytes_compare_mem_of left zero(2,3) lex_order_zeros cell_defs)
qed

lemma valueToText_ok: "valueToText (\<lambda>_. True) \<lparr>mem_z = z, mem_enc = enc\<rparr> enc' = Some (text_in enc enc' z)"
  by (auto simp: valueToText_def text_in_def sqlite3VdbeChangeEncoding_def sqlite3VdbeMemTranslate_def Let_def)

lemma compareMemString_ok:
  "vdbeCompareMemString (\<lambda>_ _. True) \<lparr>mem_z = x, mem_enc = enc\<rparr> \<lparr>mem_z = y, mem_enc = enc\<rparr> c =
     (xCmp c (text_in enc (coll_enc c) x) (text_in enc (coll_enc c) y), False)"
  by (simp add: vdbeCompareMemString_def vdbeCompareMemStringWithEncodingChange_def valueToText_ok Let_def)
    (simp add: text_in_def)

lemma double_one_pos: "0 < double_one"
  unfolding double_one_def by (simp only: zero_less_power zero_less_numeral)

lemma ints_sgn:
  "(if i <s j then -1 else if j <s i then 1 else (0::int)) = sgn (sint i * double_one - sint j * double_one)"
  for i j :: i64
proof -
  have "sgn (sint i * double_one - sint j * double_one) = sgn (sint i - sint j)"
    using double_one_pos by (simp add: left_diff_distrib [symmetric] sgn_mult)
  then show ?thesis by (simp only: word_sless_alt) (auto simp: sgn_if)
qed

lemma intFloat_sgn: "\<not> IsNaN r \<Longrightarrow> sqlite3IntFloatCompare i r = sgn (sint i * double_one - double_value r)"
  using intFloatCompare_sgn [of r i] by (simp only: double_one_def of_nat_power of_nat_numeral not_False_eq_True simp_thms)

lemma reals_sgn:
  "\<not> IsNaN x \<Longrightarrow> \<not> IsNaN y \<Longrightarrow> (if double_less x y then -1 else if double_less y x then 1 else (0::int)) =
    sgn (double_value x - double_value y)"
  by (auto simp: double_less_def sgn_if)

lemma sgn_flip: "- sgn (a - b) = sgn (b - a)" for a b :: int
  by (simp add: sgn_if)

lemma memCompare_sgn:
  assumes "cell_ok v" "cell_ok w"
  shows "sgn (sqlite3MemCompare (\<lambda>_ _. True) enc v w c) = value_order enc c v w"
proof (cases "value_class v = value_class w \<and> value_class v \<in> {2, 3}")
  case True
  have "sqlite3MemCompare (\<lambda>_ _. True) enc v w c =
     (case (if value_class v = 2 then c else None) of
        Some c \<Rightarrow> fst (vdbeCompareMemString (\<lambda>_ _. True) \<lparr>mem_z = value_bytes v, mem_enc = enc\<rparr>
                    \<lparr>mem_z = value_bytes w, mem_enc = enc\<rparr> c)
      | None \<Rightarrow> sqlite3BlobCompare v w)"
    using True by (cases v; cases w) (simp_all add: sqlite3MemCompare_def Let_def flag_bits split: option.split)
  moreover have "blob_value v = value_bytes v" "blob_value w = value_bytes w" if "value_class v = 2"
    using that True by (cases v; simp; cases w; simp)+
  ultimately show ?thesis
    using True blobCompare_sgn [OF assms]
    by (auto simp: value_order_def text_order_def compareMemString_ok split: option.splits)
next
  case False
  then show ?thesis
    using assms
    by (cases v; cases w)
      (simp_all add: sqlite3MemCompare_def Let_def flag_bits cell_defs value_order_def intFloat_sgn sgn_flip,
       (use double_one_pos in \<open>simp_all add: word_sless_alt double_less_def sgn_if\<close>))
qed

section \<open>Comparison functions as total preorders\<close>

text \<open>
  The contract of a comparison function, as the documentation of \<open>sqlite3_create_collation\<close> states
  it for collations: swapping the arguments swaps the sign, and it is transitive.
\<close>

locale comparison =
  fixes ok :: "'a \<Rightarrow> bool" and cmp :: "'a \<Rightarrow> 'a \<Rightarrow> int"
  assumes flip: "ok a \<Longrightarrow> ok b \<Longrightarrow> sgn (cmp b a) = - sgn (cmp a b)"
    and le_trans: "ok a \<Longrightarrow> ok b \<Longrightarrow> ok c \<Longrightarrow> cmp a b \<le> 0 \<Longrightarrow> cmp b c \<le> 0 \<Longrightarrow> cmp a c \<le> 0"
begin

lemma self: "ok a \<Longrightarrow> cmp a a = 0"
  using flip [of a a] by (simp add: sgn_if split: if_splits)

lemma le_iff: "ok a \<Longrightarrow> ok b \<Longrightarrow> cmp b a \<le> 0 \<longleftrightarrow> 0 \<le> cmp a b"
  using flip [of a b] by (auto simp: sgn_if split: if_splits)

lemma less_iff: "ok a \<Longrightarrow> ok b \<Longrightarrow> cmp b a < 0 \<longleftrightarrow> 0 < cmp a b"
  using flip [of a b] by (auto simp: sgn_if split: if_splits)

lemma eq_iff: "ok a \<Longrightarrow> ok b \<Longrightarrow> cmp b a = 0 \<longleftrightarrow> cmp a b = 0"
  using flip [of a b] by (auto simp: sgn_if split: if_splits)

lemma less_le_trans: "ok a \<Longrightarrow> ok b \<Longrightarrow> ok c \<Longrightarrow> cmp a b < 0 \<Longrightarrow> cmp b c \<le> 0 \<Longrightarrow> cmp a c < 0"
  using le_trans [of b c a] le_trans [of a b c] le_iff [of a c] less_iff [of b a] by fastforce

lemma le_less_trans: "ok a \<Longrightarrow> ok b \<Longrightarrow> ok c \<Longrightarrow> cmp a b \<le> 0 \<Longrightarrow> cmp b c < 0 \<Longrightarrow> cmp a c < 0"
  using le_trans [of c a b] le_trans [of a b c] le_iff [of a c] less_iff [of c b] by fastforce

end

lemma comparison_same_sign:
  assumes "comparison ok cmp" and "\<And>a b. ok a \<Longrightarrow> ok b \<Longrightarrow> sgn (cmp' a b) = sgn (cmp a b)"
  shows "comparison ok cmp'"
proof
  have s: "cmp' a b \<le> 0 \<longleftrightarrow> cmp a b \<le> 0" if "ok a" "ok b" for a b
    using assms(2) [OF that] by (auto simp: sgn_if split: if_splits)
  show "sgn (cmp' b a) = - sgn (cmp' a b)" if "ok a" "ok b" for a b
    using comparison.flip [OF assms(1) that] assms(2) [OF that] assms(2) [OF that(2,1)] by simp
  show "cmp' a c \<le> 0" if "ok a" "ok b" "ok c" "cmp' a b \<le> 0" "cmp' b c \<le> 0" for a b c
    using comparison.le_trans [OF assms(1) that(1-3)] s [OF that(1,2)] s [OF that(2,3)] s [OF that(1,3)] that(4,5) by simp
qed

lemma comparison_image: "comparison ok cmp \<Longrightarrow> comparison (\<lambda>a. ok (f a)) (\<lambda>a b. cmp (f a) (f b))"
  unfolding comparison_def by blast

lemma comparison_on: "comparison ok cmp \<Longrightarrow> (\<And>a. ok' a \<Longrightarrow> ok a) \<Longrightarrow> comparison ok' cmp"
  unfolding comparison_def by blast

lemma comparison_reverse:
  assumes "comparison ok cmp"
  shows "comparison ok (\<lambda>a b. - cmp a b)"
proof
  show "sgn (- cmp b a) = - sgn (- cmp a b)" if "ok a" "ok b" for a b
    using comparison.flip [OF assms that] by (simp add: sgn_minus)
  show "- cmp a c \<le> 0" if "ok a" "ok b" "ok c" "- cmp a b \<le> 0" "- cmp b c \<le> 0" for a b c
    using that comparison.le_trans [OF assms that(3,2,1)] comparison.le_iff [OF assms] by simp
qed

lemma sgn_le [simp]: "sgn a \<le> 0 \<longleftrightarrow> a \<le> 0" for a :: int
  by (simp add: sgn_if)

lemma comparison_difference: "comparison (\<lambda>_. True) (\<lambda>a b. a - b :: int)"
  by unfold_locales (auto simp: sgn_if)

text \<open>Two criteria, the second for ties of the first.\<close>

lemma comparison_lex:
  assumes c: "comparison ok cmp" and d: "comparison ok cmp'"
  shows "comparison ok (\<lambda>a b. if cmp a b \<noteq> 0 then cmp a b else cmp' a b)"
proof
  show "sgn (if cmp b a \<noteq> 0 then cmp b a else cmp' b a) = - sgn (if cmp a b \<noteq> 0 then cmp a b else cmp' a b)"
    if "ok a" "ok b" for a b
    using comparison.flip [OF c that] comparison.flip [OF d that] comparison.eq_iff [OF c that] by simp
  show "(if cmp x z \<noteq> 0 then cmp x z else cmp' x z) \<le> 0"
    if ok: "ok x" "ok y" "ok z" and le: "(if cmp x y \<noteq> 0 then cmp x y else cmp' x y) \<le> 0"
      "(if cmp y z \<noteq> 0 then cmp y z else cmp' y z) \<le> 0" for x y z
  proof -
    have "cmp x y \<le> 0" "cmp y z \<le> 0" using le by (auto split: if_splits)
    moreover have "cmp x z < 0" if "cmp x y \<noteq> 0 \<or> cmp y z \<noteq> 0"
      using that calculation comparison.less_le_trans [OF c ok] comparison.le_less_trans [OF c ok] by force
    ultimately show ?thesis
      using comparison.le_trans [OF c ok] comparison.le_trans [OF d ok] le by (auto split: if_splits)
  qed
qed

section \<open>The built-in collations\<close>

lemma lex_order_le_trans: "lex_order x y \<le> 0 \<Longrightarrow> lex_order y z \<le> 0 \<Longrightarrow> lex_order x z \<le> 0"
proof (induction x y arbitrary: z rule: lex_order.induct)
  case (4 x xs y ys)
  then show ?case by (cases z) (auto split: if_splits)
qed (case_tac z, auto)+

interpretation lexico: comparison "\<lambda>_. True" lex_order
  by unfold_locales (auto simp: sgn_minus [symmetric] lex_order_simps intro: lex_order_le_trans)

lemma binColl_bytes: "binCollFunc x y = bytes_compare (mem_of x) (length x) y"
  by (simp add: binCollFunc_def bytes_compare_def Let_def min_def)

lemma binColl_sgn: "sgn (binCollFunc x y) = lex_order x y"
  by (simp add: binColl_bytes bytes_compare_mem_of)

interpretation binary: comparison "\<lambda>_. True" binCollFunc
  by (rule comparison_same_sign [OF lexico.comparison_axioms]) (simp add: binColl_sgn lex_order_simps)

interpretation rtrim: comparison "\<lambda>_. True" rtrimCollFunc
  unfolding rtrimCollFunc_def by (rule comparison_image [OF binary.comparison_axioms])

text \<open>
  \<open>NOCASE\<close> stops at a NUL byte: after the text up to the first NUL without regard to case, only
  the lengths count.
\<close>

definition nocase_key :: "u8 list \<Rightarrow> u8 list" where
  "nocase_key z = map UpperToLower (takeWhile (\<lambda>c. c \<noteq> 0) z)"

lemma nocase_key_simps [simp]:
  "nocase_key [] = []" "nocase_key (x # z) = (if x = 0 then [] else UpperToLower x # nocase_key z)"
  by (simp_all add: nocase_key_def)

lemma strnicmp_from_Cons: "strnicmp_from (x # a) (y # b) (Suc i) n = strnicmp_from a b i n"
  by (induction n arbitrary: i) simp_all

lemma nocase_Cons:
  "nocaseCollatingFunc (x # a) (y # b) =
     (if x \<noteq> 0 \<and> UpperToLower x = UpperToLower y then nocaseCollatingFunc a b
      else let d = uint (UpperToLower x) - uint (UpperToLower y) in
        if d = 0 then int (length a) - int (length b) else d)"
proof -
  have m: "nat (if int n < int m then int n else int m) = min n m" for n m by auto
  have "strnicmp_from (x # a) (y # b) 0 (min (length (x # a)) (length (y # b))) =
      (if x \<noteq> 0 \<and> UpperToLower x = UpperToLower y then strnicmp_from a b 0 (min (length a) (length b))
       else uint (UpperToLower x) - uint (UpperToLower y))"
    by (simp add: strnicmp_from_Cons)
  then show ?thesis
    unfolding nocaseCollatingFunc_def sqlite3_strnicmp_def Let_def option.case m
    using UpperToLower_zero [of x] UpperToLower_zero [of y] by (auto simp del: strnicmp_from.simps)
qed

lemma nocase_sgn:
  "sgn (nocaseCollatingFunc a b) =
     sgn (if lex_order (nocase_key a) (nocase_key b) \<noteq> 0 then lex_order (nocase_key a) (nocase_key b)
          else int (length a) - int (length b))"
proof (induction a arbitrary: b)
  case Nil
  show ?case by (cases b) (auto simp: nocaseCollatingFunc_def sqlite3_strnicmp_def )
next
  case (Cons x a)
  show ?case
  proof (cases b)
    case Nil
    then show ?thesis by (auto simp: nocaseCollatingFunc_def sqlite3_strnicmp_def)
  next
    case b: (Cons y b')
    consider "x \<noteq> 0" "UpperToLower x = UpperToLower y" | "x = 0" "y = 0" | "UpperToLower x \<noteq> UpperToLower y"
      using UpperToLower_same_zero [of x y] by blast
    then show ?thesis
    proof cases
      case 1
      then have "y \<noteq> 0" using UpperToLower_same_zero by blast
      with 1 Cons.IH [of b'] show ?thesis by (simp add: b nocase_Cons)
    next
      case 2
      then show ?thesis by (simp add: b nocase_Cons)
    next
      case 3
      then have "sgn (uint (UpperToLower x) - uint (UpperToLower y)) = (if UpperToLower x < UpperToLower y then -1 else 1)"
        by (simp add: word_less_def sgn_if)
      note d = this
      have z: "0 < UpperToLower z \<longleftrightarrow> z \<noteq> 0" for z using UpperToLower_zero [of z] by (simp add: word_gt_0)
      show ?thesis
      proof (cases "x = 0 \<or> y = 0")
        case True
        then show ?thesis using 3 d z [of y] z [of x] by (auto simp: b nocase_Cons Let_def)
      next
        case False
        then show ?thesis using 3 d by (simp add: b nocase_Cons Let_def)
      qed
    qed
  qed
qed

interpretation nocase: comparison "\<lambda>_. True" nocaseCollatingFunc
  by (rule comparison_same_sign [OF comparison_lex [OF
      comparison_image [OF lexico.comparison_axioms, of nocase_key]
      comparison_image [OF comparison_difference, of "\<lambda>a. int (length a)"]]])
    (simp add: nocase_sgn)

section \<open>Values and keys as total preorders\<close>

text \<open>A collating sequence that keeps the contract, or none, orders the cells of an index column.\<close>

locale collated =
  fixes enc :: nat and pColl :: "CollSeq option"
  assumes contract: "pColl = Some c \<Longrightarrow> comparison (\<lambda>_. True) (xCmp c)"
begin

lemma text_comparison: "comparison (\<lambda>_. True) (text_order enc pColl)"
proof (cases pColl)
  case None
  then show ?thesis by (intro comparison_same_sign [OF lexico.comparison_axioms]) (simp add: text_order_def)
next
  case (Some c)
  show ?thesis
    by (rule comparison_same_sign [OF comparison_image [OF contract [OF Some], of "text_in enc (coll_enc c)"]])
      (simp add: text_order_def Some)
qed

lemma class_order: "comparison (\<lambda>_. True) (\<lambda>v w. value_class v - value_class w)"
  by (rule comparison_image [OF comparison_difference])

lemma num_order: "comparison (\<lambda>_. True) (\<lambda>v w. num_value v - num_value w)"
  by (rule comparison_image [OF comparison_difference])

lemma same_class:
  "value_class v = value_class w \<Longrightarrow> value_order enc pColl v w =
    (if value_class v = 1 then sgn (num_value v - num_value w)
     else if value_class v = 2 then text_order enc pColl (value_bytes v) (value_bytes w)
     else lex_order (blob_value v) (blob_value w))"
  by (simp add: value_order_def)

lemma by_class: "value_order enc pColl v w \<le> 0 \<Longrightarrow> value_class v \<le> value_class w"
  by (auto simp: value_order_def sgn_if split: if_splits)

end

sublocale collated \<subseteq> cells: comparison "\<lambda>_. True" "value_order enc pColl"
proof
  show "sgn (value_order enc pColl w v) = - sgn (value_order enc pColl v w)" for v w
  proof (cases "value_class v = value_class w")
    case True
    then show ?thesis
      using comparison.flip [OF text_comparison, of "value_bytes v" "value_bytes w"]
        lexico.flip [of "blob_value v" "blob_value w"] sgn_flip [of "num_value v" "num_value w"]
      by (simp only: same_class [OF True] same_class [OF True [symmetric]] True sgn_sgn split: if_split) simp
  next
    case False
    then show ?thesis using sgn_flip [of "value_class v" "value_class w"] by (simp add: value_order_def)
  qed
  show "value_order enc pColl u w \<le> 0" if le: "value_order enc pColl u v \<le> 0" "value_order enc pColl v w \<le> 0" for u v w
  proof (cases "value_class u = value_class w")
    case True
    then have c: "value_class u = value_class v" "value_class v = value_class w" using le [THEN by_class] by auto
    have "num_value u - num_value w \<le> 0" if "num_value u - num_value v \<le> 0" "num_value v - num_value w \<le> 0"
      using that by linarith
    then show ?thesis
      using le comparison.le_trans [OF text_comparison, of "value_bytes u" "value_bytes v" "value_bytes w"]
        lexico.le_trans [of "blob_value u" "blob_value v" "blob_value w"] c
      by (simp only: same_class c sgn_le split: if_splits) simp_all
  next
    case False
    then have "value_class u < value_class w" using le [THEN by_class] by linarith
    then show ?thesis by (simp add: value_order_def)
  qed
qed

context collated
begin

lemma value_comparison: "comparison (\<lambda>_. True) (value_order enc pColl)"
  by (rule cells.comparison_axioms)

end

interpretation no_collation: collated enc None for enc
  by (rule collated.intro) simp

interpretation binary_collation: collated enc "Some (coll_BINARY enc')" for enc enc'
  by (rule collated.intro) (auto simp: coll_BINARY_def binary.comparison_axioms)

interpretation nocase_collation: collated enc "Some coll_NOCASE" for enc
  by (rule collated.intro) (auto simp: coll_NOCASE_def nocase.comparison_axioms)

interpretation rtrim_collation: collated enc "Some coll_RTRIM" for enc
  by (rule collated.intro) (auto simp: coll_RTRIM_def rtrim.comparison_axioms)


section \<open>Properties of values\<close>

text \<open>
  C10: values compare in the documented order.  With memory available, \<open>sqlite3MemCompare\<close> of two cells
  that are not NaN has the sign that the order of values gives: NULL, then numbers by their exact
  values whether integer or double, then text in the order of the collating sequence on the text in
  its encoding, then blobs byte by byte with the zeros of a zero-blob counted.
\<close>

theorem memCompare_is_value_order:
  assumes "cell_ok v" and "cell_ok w"
  shows "sgn (sqlite3MemCompare (\<lambda>_ _. True) enc v w pColl) = value_order enc pColl v w"
  by (rule memCompare_sgn [OF assms])

theorem memCompare_is_value_order_witness:
  "sqlite3MemCompare (\<lambda>_ _. True) SQLITE_UTF8 (VText [65, 98]) (VText [97, 66, 99]) (Some coll_NOCASE) < 0 \<and>
   sqlite3MemCompare (\<lambda>_ _. True) SQLITE_UTF8 (VReal 0x3FF8000000000000) (VText []) None < 0"
proof -
  have "value_order SQLITE_UTF8 (Some coll_NOCASE) (VText [65, 98]) (VText [97, 66, 99]) = -1" by code_simp
  moreover have "value_order SQLITE_UTF8 None (VReal 0x3FF8000000000000) (VText []) = -1" by (simp add: value_order_def)
  moreover have "\<not> IsNaN 0x3FF8000000000000" by (simp add: IsNaN_def EXP754_def MAN754_def)
  ultimately show ?thesis
    using memCompare_is_value_order [of "VText [65, 98]" "VText [97, 66, 99]" SQLITE_UTF8 "Some coll_NOCASE"]
      memCompare_is_value_order [of "VReal 0x3FF8000000000000" "VText []" SQLITE_UTF8 None]
    by (simp add: sgn_1_neg)
qed

end
