(* ===== verification/Sq_Keycmp.thy ===== *)
theory Sq_Keycmp
  imports Sq_Compare
begin

text \<open>
  Comparing index keys (vdbeaux.c): a serialized record against an unpacked key, field by field without
  unpacking the record (\<open>sqlite3VdbeRecordCompareWithSkip\<close>), the functions specialised to an integer or
  a string as first field, and the choice between them (\<open>sqlite3VdbeFindCompare\<close>).

  A comparison returns its result and the key with \<open>errCode\<close> and \<open>eqSeen\<close> updated.  The argument
  \<open>mem_ok\<close> tells for every field and cell which allocations succeed.
\<close>

section \<open>Keys\<close>

record KeyInfo =
  ki_enc :: nat
  nKeyField :: nat
  nAllField :: nat
  aSortFlags :: "u8 list"
  aColl :: "CollSeq option list"

definition KEYINFO_ORDER_DESC :: u8 where "KEYINFO_ORDER_DESC = 0x01"
definition KEYINFO_ORDER_BIGNULL :: u8 where "KEYINFO_ORDER_BIGNULL = 0x02"

definition SQLITE_NOMEM :: u8 where "SQLITE_NOMEM = 7"
definition SQLITE_CORRUPT :: u8 where "SQLITE_CORRUPT = 11"

text \<open>
  The union \<open>u\<close> caches either the integer or the text of the first cell; the comparison function
  that \<open>sqlite3VdbeFindCompare\<close> returns reads only the member it has set.
\<close>

record UnpackedRecord =
  pKeyInfo :: KeyInfo
  aMem :: "mval list"
  key_i :: i64
  key_z :: "u8 list"
  key_n :: int
  nField :: nat
  default_rc :: int
  errCode :: u8
  key_r1 :: int
  key_r2 :: int
  eqSeen :: bool

text \<open>
  What comparing one field gives: the verdict with the serial type read and whether memory ran out,
  or the discovery that the record is corrupt.
\<close>

datatype field_result = FieldCorrupt | FieldVerdict int u32 bool

definition double_at :: "mem \<Rightarrow> u64" where
  "double_at buf = push_bit 32 (ucast (FOUR_BYTE_UINT buf)) + ucast (FOUR_BYTE_UINT (\<lambda>i. buf (4 + i)))"

definition cmp_rhs_int :: "mem \<Rightarrow> mem \<Rightarrow> mval \<Rightarrow> field_result" where
  "cmp_rhs_int hdr dat pRhs =
     (let serial_type = ucast (hdr 0) :: u32 in
      FieldVerdict (if serial_type \<ge> 10 then (if serial_type = 10 then -1 else 1)
             else if serial_type = 0 then -1
             else if serial_type = 7 then - sqlite3IntFloatCompare (mem_i pRhs) (double_at dat)
             else
               let lhs = vdbeRecordDecodeInt serial_type dat; rhs = mem_i pRhs
               in if lhs <s rhs then -1 else if rhs <s lhs then 1 else 0)
        serial_type False)"

definition cmp_rhs_real :: "mem \<Rightarrow> mem \<Rightarrow> mval \<Rightarrow> field_result" where
  "cmp_rhs_real hdr dat pRhs =
     (let serial_type = ucast (hdr 0) :: u32 in
      FieldVerdict (if serial_type \<ge> 10 then (if serial_type = 10 then -1 else 1)
             else if serial_type = 0 then -1
             else if serial_type = 7 then
               (let (nan, mem1) = serialGet7 dat
                in if nan then -1
                   else if double_less (mem_r mem1) (mem_r pRhs) then -1
                   else if double_less (mem_r pRhs) (mem_r mem1) then 1
                   else 0)
             else sqlite3IntFloatCompare (mem_i (sqlite3VdbeSerialGet dat serial_type)) (mem_r pRhs))
        serial_type False)"

definition cmp_rhs_str ::
    "(nat \<Rightarrow> nat \<Rightarrow> bool) \<Rightarrow> nat \<Rightarrow> mem \<Rightarrow> mem \<Rightarrow> nat \<Rightarrow> KeyInfo \<Rightarrow> nat \<Rightarrow> mval \<Rightarrow> field_result" where
  "cmp_rhs_str mem_ok nKey1 hdr dat d1 ki i pRhs =
     (let serial_type = snd (getVarint32 hdr) in
      if serial_type < 12 then FieldVerdict (-1) serial_type False
      else if serial_type AND 1 = 0 then FieldVerdict 1 serial_type False
      else
        let n = unat ((serial_type - 12) div 2) in
        if (d1 + n) mod 2 ^ 32 > nKey1 \<or> nAllField ki \<le> i then FieldCorrupt
        else case aColl ki ! i of
          Some c \<Rightarrow>
            (let (rc, err) = vdbeCompareMemString mem_ok
                   \<lparr>mem_z = map dat [0..<n], mem_enc = ki_enc ki\<rparr>
                   \<lparr>mem_z = value_bytes pRhs, mem_enc = ki_enc ki\<rparr> c
             in FieldVerdict rc serial_type err)
        | None \<Rightarrow>
            (let nCmp = min (int n) (mem_n pRhs);
                 rc = memcmp dat (mem_of (value_bytes pRhs)) (nat nCmp)
             in FieldVerdict (if rc = 0 then int n - mem_n pRhs else rc) serial_type False))"

definition cmp_rhs_blob :: "nat \<Rightarrow> mem \<Rightarrow> mem \<Rightarrow> nat \<Rightarrow> mval \<Rightarrow> field_result" where
  "cmp_rhs_blob nKey1 hdr dat d1 pRhs =
     (let serial_type = snd (getVarint32 hdr) in
      if serial_type < 12 \<or> serial_type AND 1 \<noteq> 0 then FieldVerdict (-1) serial_type False
      else
        let nStr = unat ((serial_type - 12) div 2) in
        if (d1 + nStr) mod 2 ^ 32 > nKey1 then FieldCorrupt
        else if mem_flags pRhs AND MEM_Zero \<noteq> 0 then
          FieldVerdict (if \<not> isAllZero dat nStr then 1 else int nStr - mem_nZero pRhs) serial_type False
        else
          let nCmp = min (int nStr) (mem_n pRhs);
              rc = memcmp dat (mem_of (value_bytes pRhs)) (nat nCmp)
          in FieldVerdict (if rc = 0 then int nStr - mem_n pRhs else rc) serial_type False)"

definition cmp_rhs_null :: "mem \<Rightarrow> mem \<Rightarrow> field_result" where
  "cmp_rhs_null hdr dat =
     (let serial_type = ucast (hdr 0) :: u32 in
      FieldVerdict (if serial_type = 0 \<or> serial_type = 10 \<or> (serial_type = 7 \<and> fst (serialGet7 dat)) then 0 else 1)
        serial_type False)"

definition compare_field ::
    "(nat \<Rightarrow> nat \<Rightarrow> bool) \<Rightarrow> nat \<Rightarrow> mem \<Rightarrow> KeyInfo \<Rightarrow> nat \<Rightarrow> nat \<Rightarrow> nat \<Rightarrow> mval \<Rightarrow> field_result" where
  "compare_field mem_ok nKey1 aKey1 ki i idx1 d1 pRhs =
     (let hdr = (\<lambda>k. aKey1 (idx1 + k)); dat = (\<lambda>k. aKey1 (d1 + k)) in
      if mem_flags pRhs AND (MEM_Int OR MEM_IntReal) \<noteq> 0 then cmp_rhs_int hdr dat pRhs
      else if mem_flags pRhs AND MEM_Real \<noteq> 0 then cmp_rhs_real hdr dat pRhs
      else if mem_flags pRhs AND MEM_Str \<noteq> 0 then cmp_rhs_str mem_ok nKey1 hdr dat d1 ki i pRhs
      else if mem_flags pRhs AND MEM_Blob \<noteq> 0 then cmp_rhs_blob nKey1 hdr dat d1 pRhs
      else cmp_rhs_null hdr dat)"

definition sort_rc :: "u8 \<Rightarrow> u32 \<Rightarrow> mval \<Rightarrow> int \<Rightarrow> int" where
  "sort_rc sortFlags serial_type pRhs rc =
     (if sortFlags \<noteq> 0 \<and>
         (sortFlags AND KEYINFO_ORDER_BIGNULL = 0 \<or>
          (sortFlags AND KEYINFO_ORDER_DESC \<noteq> 0) \<noteq> (serial_type = 0 \<or> mem_flags pRhs AND MEM_Null \<noteq> 0))
      then - rc else rc)"

text \<open>
  The loop of \<open>sqlite3VdbeRecordCompareWithSkip\<close> from field \<open>i\<close> on; the list holds the cells of
  \<open>aMem\<close> from there on, and \<open>None\<close> stands for reading past its end.
\<close>

fun compare_loop ::
    "(nat \<Rightarrow> nat \<Rightarrow> nat \<Rightarrow> bool) \<Rightarrow> nat \<Rightarrow> mem \<Rightarrow> nat \<Rightarrow> nat \<Rightarrow> nat \<Rightarrow> nat \<Rightarrow> mval list \<Rightarrow>
     UnpackedRecord \<Rightarrow> (int \<times> UnpackedRecord) option" where
  "compare_loop mem_ok nKey1 aKey1 szHdr1 i idx1 d1 [] pPKey2 = None"
| "compare_loop mem_ok nKey1 aKey1 szHdr1 i idx1 d1 (pRhs # cells) pPKey2 =
     (case compare_field (mem_ok i) nKey1 aKey1 (pKeyInfo pPKey2) i idx1 d1 pRhs of
        FieldCorrupt \<Rightarrow> Some (0, pPKey2\<lparr>errCode := SQLITE_CORRUPT\<rparr>)
      | FieldVerdict rc serial_type err \<Rightarrow>
          let pPKey2 = (if err then pPKey2\<lparr>errCode := SQLITE_NOMEM\<rparr> else pPKey2) in
          if rc \<noteq> 0 then Some (sort_rc (aSortFlags (pKeyInfo pPKey2) ! i) serial_type pRhs rc, pPKey2)
          else if i + 1 = nField pPKey2 then Some (default_rc pPKey2, pPKey2\<lparr>eqSeen := True\<rparr>)
          else
            let d1 = (d1 + sqlite3VdbeSerialTypeLen serial_type) mod 2 ^ 32 in
            if d1 > nKey1 then Some (default_rc pPKey2, pPKey2\<lparr>eqSeen := True\<rparr>)
            else
              let idx1 = (idx1 + sqlite3VarintLen (ucast serial_type)) mod 2 ^ 32 in
              if idx1 \<ge> szHdr1 then Some (0, pPKey2\<lparr>errCode := SQLITE_CORRUPT\<rparr>)
              else compare_loop mem_ok nKey1 aKey1 szHdr1 (i + 1) idx1 d1 cells pPKey2)"

definition sqlite3VdbeRecordCompareWithSkip ::
    "(nat \<Rightarrow> nat \<Rightarrow> nat \<Rightarrow> bool) \<Rightarrow> nat \<Rightarrow> mem \<Rightarrow> UnpackedRecord \<Rightarrow> bool \<Rightarrow>
     (int \<times> UnpackedRecord) option" where
  "sqlite3VdbeRecordCompareWithSkip mem_ok nKey1 aKey1 pPKey2 bSkip =
     (let (idx1, szHdr1, d1, i) =
        (if bSkip then
           let s1 = ucast (aKey1 1) :: u32;
               (idx1, s1) = (if s1 < 0x80 then (2, s1)
                 else let (k, s1) = sqlite3GetVarint32 (\<lambda>j. aKey1 (1 + j)) in (1 + k, s1));
               szHdr1 = unat (aKey1 0)
           in (idx1, szHdr1, (szHdr1 + sqlite3VdbeSerialTypeLen s1) mod 2 ^ 32, 1)
         else
           let (idx1, szHdr1) = (if aKey1 0 < 0x80 then (1, unat (aKey1 0))
                 else let (k, s) = sqlite3GetVarint32 aKey1 in (k, unat s))
           in (idx1, szHdr1, szHdr1, 0))
      in if d1 > nKey1 then Some (0, pPKey2\<lparr>errCode := SQLITE_CORRUPT\<rparr>)
         else compare_loop mem_ok nKey1 aKey1 szHdr1 i idx1 d1 (drop i (aMem pPKey2)) pPKey2)"

definition sqlite3VdbeRecordCompare ::
    "(nat \<Rightarrow> nat \<Rightarrow> nat \<Rightarrow> bool) \<Rightarrow> nat \<Rightarrow> mem \<Rightarrow> UnpackedRecord \<Rightarrow> (int \<times> UnpackedRecord) option" where
  "sqlite3VdbeRecordCompare mem_ok nKey1 pKey1 pPKey2 =
     sqlite3VdbeRecordCompareWithSkip mem_ok nKey1 pKey1 pPKey2 False"

definition record_int_lhs :: "u32 \<Rightarrow> mem \<Rightarrow> i64 option" where
  "record_int_lhs serial_type aKey =
     (if serial_type = 1 then Some (scast (ONE_BYTE_INT aKey))
      else if serial_type = 2 then Some (scast (TWO_BYTE_INT aKey))
      else if serial_type = 3 then Some (scast (THREE_BYTE_INT aKey))
      else if serial_type = 4 then Some (scast (FOUR_BYTE_UINT aKey))
      else if serial_type = 5 then
        Some (ucast (FOUR_BYTE_UINT (\<lambda>i. aKey (2 + i))) + push_bit 32 1 * scast (TWO_BYTE_INT aKey))
      else if serial_type = 6 then
        Some (push_bit 32 (ucast (FOUR_BYTE_UINT aKey)) OR ucast (FOUR_BYTE_UINT (\<lambda>i. aKey (4 + i))))
      else if serial_type = 8 then Some 0
      else if serial_type = 9 then Some 1
      else None)"

definition vdbeRecordCompareInt ::
    "(nat \<Rightarrow> nat \<Rightarrow> nat \<Rightarrow> bool) \<Rightarrow> nat \<Rightarrow> mem \<Rightarrow> UnpackedRecord \<Rightarrow> (int \<times> UnpackedRecord) option" where
  "vdbeRecordCompareInt mem_ok nKey1 pKey1 pPKey2 =
     (let aKey = (\<lambda>k. pKey1 (unat (pKey1 0 AND 0x3F) + k));
          serial_type = ucast (pKey1 1)
      in case record_int_lhs serial_type aKey of
           None \<Rightarrow> sqlite3VdbeRecordCompare mem_ok nKey1 pKey1 pPKey2
         | Some lhs \<Rightarrow>
             let v = key_i pPKey2 in
             if lhs <s v then Some (key_r1 pPKey2, pPKey2)
             else if v <s lhs then Some (key_r2 pPKey2, pPKey2)
             else if nField pPKey2 > 1 then sqlite3VdbeRecordCompareWithSkip mem_ok nKey1 pKey1 pPKey2 True
             else Some (default_rc pPKey2, pPKey2\<lparr>eqSeen := True\<rparr>))"

text \<open>
  The serial type of the first field as \<open>vdbeRecordCompareString\<close> reads it: a byte with the top bit
  set is the start of a longer varint.  It is an \<open>int\<close>, so that a varint from \<open>2 ^ 31\<close> on reads as negative.
\<close>

definition string_serial_type :: "mem \<Rightarrow> int" where
  "string_serial_type aKey1 =
     (let serial_type = sint (aKey1 1) in
      if serial_type < 0 then sint (snd (sqlite3GetVarint32 (\<lambda>j. aKey1 (1 + j)))) else serial_type)"

definition vdbeRecordCompareString ::
    "(nat \<Rightarrow> nat \<Rightarrow> nat \<Rightarrow> bool) \<Rightarrow> nat \<Rightarrow> mem \<Rightarrow> UnpackedRecord \<Rightarrow> (int \<times> UnpackedRecord) option" where
  "vdbeRecordCompareString mem_ok nKey1 aKey1 pPKey2 =
     (let serial_type = string_serial_type aKey1 in
      if serial_type < 12 then Some (key_r1 pPKey2, pPKey2)
      else if even serial_type then Some (key_r2 pPKey2, pPKey2)
      else
        let szHdr = unat (aKey1 0); nStr = (serial_type - 12) div 2 in
        if int szHdr + nStr > int nKey1 then Some (0, pPKey2\<lparr>errCode := SQLITE_CORRUPT\<rparr>)
        else
          let nCmp = min (key_n pPKey2) nStr;
              res = memcmp (\<lambda>k. aKey1 (szHdr + k)) (mem_of (key_z pPKey2)) (nat nCmp)
          in if res > 0 then Some (key_r2 pPKey2, pPKey2)
             else if res < 0 then Some (key_r1 pPKey2, pPKey2)
             else
               let res = nStr - key_n pPKey2 in
               if res = 0 then
                 (if nField pPKey2 > 1 then sqlite3VdbeRecordCompareWithSkip mem_ok nKey1 aKey1 pPKey2 True
                  else Some (default_rc pPKey2, pPKey2\<lparr>eqSeen := True\<rparr>))
               else if res > 0 then Some (key_r2 pPKey2, pPKey2)
               else Some (key_r1 pPKey2, pPKey2))"

datatype RecordCompare = GeneralCompare | IntCompare | StringCompare

definition sqlite3VdbeFindCompare :: "UnpackedRecord \<Rightarrow> UnpackedRecord \<times> RecordCompare" where
  "sqlite3VdbeFindCompare p =
     (if nAllField (pKeyInfo p) \<le> 13 then
        let flags = mem_flags (aMem p ! 0);
            sort0 = aSortFlags (pKeyInfo p) ! 0
        in if sort0 AND KEYINFO_ORDER_BIGNULL \<noteq> 0 then (p, GeneralCompare)
           else
             let p = (if sort0 \<noteq> 0 then p\<lparr>key_r1 := 1, key_r2 := -1\<rparr> else p\<lparr>key_r1 := -1, key_r2 := 1\<rparr>)
             in if flags AND MEM_Int \<noteq> 0 then (p\<lparr>key_i := mem_i (aMem p ! 0)\<rparr>, IntCompare)
                else if flags AND (MEM_Real OR MEM_IntReal OR MEM_Null OR MEM_Blob) = 0 \<and>
                        aColl (pKeyInfo p) ! 0 = None
                then (p\<lparr>key_z := value_bytes (aMem p ! 0), key_n := mem_n (aMem p ! 0)\<rparr>, StringCompare)
                else (p, GeneralCompare)
      else (p, GeneralCompare))"

text \<open>Calling the function found.\<close>

definition run_compare ::
    "RecordCompare \<Rightarrow> (nat \<Rightarrow> nat \<Rightarrow> nat \<Rightarrow> bool) \<Rightarrow> nat \<Rightarrow> mem \<Rightarrow> UnpackedRecord \<Rightarrow>
     (int \<times> UnpackedRecord) option" where
  "run_compare f =
     (case f of GeneralCompare \<Rightarrow> sqlite3VdbeRecordCompare
      | IntCompare \<Rightarrow> vdbeRecordCompareInt
      | StringCompare \<Rightarrow> vdbeRecordCompareString)"

text \<open>The order of one column: descending, and NULL as the largest value, as its sort flags say.\<close>

definition sort_order :: "u8 \<Rightarrow> mval \<Rightarrow> mval \<Rightarrow> int \<Rightarrow> int" where
  "sort_order flags v w c =
     (if flags \<noteq> 0 \<and> (flags AND KEYINFO_ORDER_BIGNULL = 0 \<or>
         (flags AND KEYINFO_ORDER_DESC \<noteq> 0) \<noteq> (value_class v = 0 \<or> value_class w = 0)) then - c else c)"

definition column_order :: "KeyInfo \<Rightarrow> nat \<Rightarrow> mval \<Rightarrow> mval \<Rightarrow> int" where
  "column_order ki i v w = sort_order (aSortFlags ki ! i) v w (value_order (ki_enc ki) (aColl ki ! i) v w)"

text \<open>
  The order of keys from column \<open>i\<close> on: the first column that differs decides.  \<open>None\<close> is the verdict on a
  left key that ends before the right one without a difference.
\<close>

fun key_order :: "KeyInfo \<Rightarrow> nat \<Rightarrow> mval list \<Rightarrow> mval list \<Rightarrow> int option" where
  "key_order ki i vs [] = Some 0"
| "key_order ki i [] (w # ws) = None"
| "key_order ki i (v # vs) (w # ws) =
     (if column_order ki i v w \<noteq> 0 then Some (column_order ki i v w) else key_order ki (i + 1) vs ws)"

lemma flag_null: "mem_flags v AND MEM_Null \<noteq> 0 \<longleftrightarrow> value_class v = 0"
  by (cases v) (simp_all add: mem_masks)

lemma comparison_null_first: "comparison (\<lambda>_. True) (\<lambda>v w. of_bool (value_class v = 0) - of_bool (value_class w = 0))"
  by (rule comparison_image [OF comparison_difference])

lemma sort_order_comparison:
  assumes "collated pColl"
  shows "comparison (\<lambda>_. True) (\<lambda>v w. sort_order flags v w (value_order enc pColl v w))"
proof -
  let ?c = "value_order enc pColl" and ?n = "\<lambda>v w. of_bool (value_class v = 0) - of_bool (value_class w = 0) :: int"
  have c: "comparison (\<lambda>_. True) ?c" by (rule collated.value_comparison [OF assms])
  have null: "?c v w = - ?n v w" if "?n v w \<noteq> 0" for v w
    using that by (cases v; cases w) (simp_all add: value_order_def)
  have both: "?c v w = 0" if "value_class v = 0" "value_class w = 0" for v w
    using that by (cases v; cases w) (simp_all add: value_order_def value_bytes_def)
  consider "flags = 0" | "flags \<noteq> 0" "flags AND KEYINFO_ORDER_BIGNULL = 0"
    | "flags \<noteq> 0" "flags AND KEYINFO_ORDER_BIGNULL \<noteq> 0" "flags AND KEYINFO_ORDER_DESC = 0"
    | "flags \<noteq> 0" "flags AND KEYINFO_ORDER_BIGNULL \<noteq> 0" "flags AND KEYINFO_ORDER_DESC \<noteq> 0" by blast
  then show ?thesis
  proof cases
    case 1
    then show ?thesis using c by (simp add: sort_order_def)
  next
    case 2
    then show ?thesis using comparison_reverse [OF c] by (simp add: sort_order_def)
  next
    case 3
    show ?thesis
      by (rule comparison_same_sign [OF comparison_lex [OF comparison_null_first c]])
        (use 3 null both in \<open>auto simp: sort_order_def split: if_splits\<close>)
  next
    case 4
    show ?thesis
      by (rule comparison_same_sign [OF comparison_lex [OF comparison_reverse [OF comparison_null_first] comparison_reverse [OF c]]])
        (use 4 null both in \<open>auto simp: sort_order_def split: if_splits\<close>)
  qed
qed

definition key_cmp :: "KeyInfo \<Rightarrow> nat \<Rightarrow> mval list \<Rightarrow> mval list \<Rightarrow> int" where
  "key_cmp ki i vs ws = (case key_order ki i vs ws of Some c \<Rightarrow> c | None \<Rightarrow> 0)"

lemma key_cmp_comparison:
  assumes "\<And>j. i \<le> j \<Longrightarrow> j < i + n \<Longrightarrow> collated (aColl ki ! j)"
  shows "comparison (\<lambda>vs. length vs = n) (key_cmp ki i)"
  using assms
proof (induction n arbitrary: i)
  case 0
  then show ?case by unfold_locales (auto simp: key_cmp_def)
next
  case (Suc n)
  have h: "comparison (\<lambda>vs. length vs = Suc n) (\<lambda>vs ws. column_order ki i (hd vs) (hd ws))"
    unfolding column_order_def
    by (rule comparison_on [OF comparison_image [OF sort_order_comparison]]) (use Suc.prems in auto)
  have "comparison (\<lambda>vs. length vs = n) (key_cmp ki (i + 1))" by (rule Suc.IH) (use Suc.prems in auto)
  then have t: "comparison (\<lambda>vs. length vs = Suc n) (\<lambda>vs ws. key_cmp ki (i + 1) (tl vs) (tl ws))"
    by (rule comparison_on [OF comparison_image]) simp
  show ?case
    by (rule comparison_same_sign [OF comparison_lex [OF h t]]) (auto simp: key_cmp_def length_Suc_conv)
qed

section \<open>Comparing one field of a record\<close>

lemma mem_i_VInt [simp]: "mem_i (VInt i) = i" "mem_i (VIntReal i) = i" by (simp_all add: mem_i_def)

lemma mem_r_VReal [simp]: "mem_r (VReal r) = r" by (simp add: mem_r_def)

lemma serialGet_inv:
  shows "sqlite3VdbeSerialGet q t = VInt x \<Longrightarrow> t \<in> {1, 2, 3, 4, 5, 6, 8, 9} \<and> vdbeRecordDecodeInt t q = x"
    and "sqlite3VdbeSerialGet q t = VReal r \<Longrightarrow> t = 7 \<and> double_at q = r \<and> \<not> IsNaN r"
    and "sqlite3VdbeSerialGet q t = VText z \<Longrightarrow> 12 \<le> t \<and> t AND 1 \<noteq> 0 \<and> z = map q [0..<unat ((t - 12) div 2)]"
    and "sqlite3VdbeSerialGet q t = VBlob z \<Longrightarrow> 12 \<le> t \<and> t AND 1 = 0 \<and> z = map q [0..<unat ((t - 12) div 2)]"
proof -
  have big: "12 \<le> t" if "t \<notin> {0, 1, 2, 3, 4, 5, 6, 7, 8, 9, 10, 11}"
    using that by (simp add: word_le_nat_alt word_unat_eq_iff) presburger
  show "t \<in> {1, 2, 3, 4, 5, 6, 8, 9} \<and> vdbeRecordDecodeInt t q = x" if g: "sqlite3VdbeSerialGet q t = VInt x"
  proof -
    have "t \<in> {1, 2, 3, 4, 5, 6, 8, 9}"
      using g by (auto simp: sqlite3VdbeSerialGet_def serialGet_def Let_def split: if_splits)
    then show ?thesis using g vdbeRecordDecodeInt_agrees [of t q] by simp
  qed
  show "t = 7 \<and> double_at q = r \<and> \<not> IsNaN r" if g: "sqlite3VdbeSerialGet q t = VReal r"
    using g by (auto simp: sqlite3VdbeSerialGet_def serialGet_def double_at_def Let_def split: if_splits)
  show "12 \<le> t \<and> t AND 1 \<noteq> 0 \<and> z = map q [0..<unat ((t - 12) div 2)]" if g: "sqlite3VdbeSerialGet q t = VText z"
    using g big by (auto simp: sqlite3VdbeSerialGet_def serialGet_def Let_def split: if_splits)
  show "12 \<le> t \<and> t AND 1 = 0 \<and> z = map q [0..<unat ((t - 12) div 2)]" if g: "sqlite3VdbeSerialGet q t = VBlob z"
    using g big by (auto simp: sqlite3VdbeSerialGet_def serialGet_def Let_def split: if_splits)
qed

lemma serialGet7_double: "serialGet7 q = (if IsNaN (double_at q) then (True, VNull) else (False, VReal (double_at q)))"
  by (simp add: serialGet7_def double_at_def Let_def)

text \<open>A value that a record may hold: no NaN and no placeholder of an unchanged column.\<close>

fun key_value :: "mval \<Rightarrow> bool" where
  "key_value VNoChange \<longleftrightarrow> False"
| "key_value (VReal r) \<longleftrightarrow> \<not> IsNaN r"
| "key_value v \<longleftrightarrow> True"

text \<open>The field of \<open>v\<close> at \<open>idx\<close> in the header and at \<open>d\<close> in the data.\<close>

definition field_at :: "nat \<Rightarrow> mem \<Rightarrow> nat \<Rightarrow> nat \<Rightarrow> mval \<Rightarrow> bool" where
  "field_at fmt p idx d v \<longleftrightarrow> mval_size v \<le> 1000000000 \<and>
     agree (length (type_bytes (fst (field fmt v)))) (\<lambda>k. p (idx + k)) (mem_of (type_bytes (fst (field fmt v)))) \<and>
     agree (length (snd (field fmt v))) (\<lambda>k. p (d + k)) (mem_of (snd (field fmt v)))"

lemma field_at_reads:
  assumes "field_at fmt p idx d v"
  shows "getVarint32 (\<lambda>k. p (idx + k)) = (length (type_bytes (fst (field fmt v))), fst (field fmt v))"
    and "sqlite3VdbeSerialGet (\<lambda>k. p (d + k)) (fst (field fmt v)) = stored v"
    and "sqlite3VdbeSerialTypeLen (fst (field fmt v)) = length (snd (field fmt v))"
  using assms field_good [of v fmt] getVarint32_put [of "fst (field fmt v)" "\<lambda>k. p (idx + k)"]
  by (auto simp: field_at_def type_bytes_def)

text \<open>The first byte of the serial type is the type itself, or its type takes several bytes.\<close>

lemma first_type_byte:
  assumes "field_at fmt p idx d v"
  shows "ucast (p idx) = fst (field fmt v) \<or> 128 \<le> (ucast (p idx) :: u32) \<and> 128 \<le> fst (field fmt v)"
proof (cases "p idx < 0x80")
  case True
  then show ?thesis using field_at_reads(1) [OF assms] by (simp add: getVarint32_def)
next
  case False
  then have "128 \<le> unat (p idx)" by (simp add: word_less_nat_alt)
  moreover have "128 \<le> fst (field fmt v)"
  proof (rule ccontr)
    assume "\<not> 128 \<le> fst (field fmt v)"
    then have s: "fst (field fmt v) < 0x80" by simp
    then have "unat (fst (field fmt v)) < 128" by (simp add: word_less_nat_alt)
    then have "unat (ucast (fst (field fmt v)) :: u8) < 128" by (simp add: unsigned_ucast_eq take_bit_nat_eq_self)
    moreover have "p idx = ucast (fst (field fmt v))"
      using assms unfolding field_at_def type_bytes_small [OF s] by (auto simp: agree_def mem_of_def)
    ultimately show False using \<open>128 \<le> unat (p idx)\<close> by simp
  qed
  ultimately show ?thesis by (simp add: word_le_nat_alt unat_ucast_u8)
qed

definition field_verdict :: "u32 \<Rightarrow> int \<Rightarrow> field_result \<Rightarrow> bool" where
  "field_verdict t c r \<longleftrightarrow> (\<exists>rc t'. r = FieldVerdict rc t' False \<and> sgn rc = c \<and> (t' = t \<or> 128 \<le> t' \<and> 128 \<le> t \<and> rc \<noteq> 0))"

lemma stored_classes:
  assumes "key_value v"
  obtains "v = VNull" | x where "stored v = VInt x" | r where "stored v = VReal r" "\<not> IsNaN r"
    | z where "stored v = VText z" | z where "stored v = VBlob z"
proof (cases v)
  case (VIntReal i)
  then show ?thesis
    using double_of_int_not_nan that by (cases "(if i <s 0 then NOT i else i) \<le> 140737488355327") auto
qed (use assms that in auto)

lemma class_difference: "value_class v \<noteq> value_class w \<Longrightarrow> value_order enc c v w = sgn (value_class v - value_class w)"
  by (simp add: value_order_def)

lemma large_type: "12 \<le> t \<Longrightarrow> u = t \<or> 128 \<le> u \<and> 128 \<le> t \<Longrightarrow> 10 \<le> u \<and> u \<noteq> 10 \<and> u \<noteq> 0 \<and> u \<noteq> 7" for t u :: u32
  by (auto simp: word_le_nat_alt)

lemma small_type: "t \<in> {0, 1, 2, 3, 4, 5, 6, 7, 8, 9} \<Longrightarrow> u = t \<or> 128 \<le> u \<and> 128 \<le> t \<Longrightarrow> u = t \<and> \<not> 10 \<le> t" for t u :: u32
  by (auto simp: word_le_nat_alt)

lemma compare_int_field:
  assumes at: "field_at fmt p idx d v" and kv: "key_value v" and w: "w = VInt j \<or> w = VIntReal j"
  shows "field_verdict (fst (field fmt v)) (value_order enc c (stored v) w)
    (cmp_rhs_int (\<lambda>k. p (idx + k)) (\<lambda>k. p (d + k)) w)"
proof -
  let ?t = "fst (field fmt v)" and ?u = "ucast (p idx) :: u32"
  note u = first_type_byte [OF at] and g = field_at_reads(2) [OF at]
  have [simp]: "mem_i w = j" "value_class w = 1" "num_value w = sint j * double_one" using w by auto
  show ?thesis
  proof (rule stored_classes [OF kv])
    assume "v = VNull"
    then show ?thesis using u by (auto simp: field_verdict_def cmp_rhs_int_def Let_def class_difference)
  next
    fix x assume s: "stored v = VInt x"
    note i = serialGet_inv(1) [OF g [unfolded s]]
    then have "?u = ?t" "\<not> 10 \<le> ?t" using small_type [OF _ u] by auto
    then show ?thesis
      using i by (auto simp: field_verdict_def cmp_rhs_int_def Let_def ints_sgn s value_order_def)
  next
    fix r assume s: "stored v = VReal r" "\<not> IsNaN r"
    note i = serialGet_inv(2) [OF g [unfolded s]]
    then have "?u = ?t" using small_type [OF _ u] by auto
    then show ?thesis
      using i by (auto simp: field_verdict_def cmp_rhs_int_def Let_def intFloat_sgn s value_order_def sgn_flip sgn_minus)
  next
    fix z assume s: "stored v = VText z"
    note i = large_type [OF _ u] serialGet_inv(3) [OF g [unfolded s]]
    then show ?thesis using u by (auto simp: field_verdict_def cmp_rhs_int_def Let_def s class_difference)
  next
    fix z assume s: "stored v = VBlob z"
    note i = large_type [OF _ u] serialGet_inv(4) [OF g [unfolded s]]
    then show ?thesis using u by (auto simp: field_verdict_def cmp_rhs_int_def Let_def s class_difference)
  qed
qed

lemma compare_real_field:
  assumes at: "field_at fmt p idx d v" and kv: "key_value v" and x: "\<not> IsNaN x"
  shows "field_verdict (fst (field fmt v)) (value_order enc c (stored v) (VReal x))
    (cmp_rhs_real (\<lambda>k. p (idx + k)) (\<lambda>k. p (d + k)) (VReal x))"
proof -
  let ?t = "fst (field fmt v)" and ?u = "ucast (p idx) :: u32"
  note u = first_type_byte [OF at] and g = field_at_reads(2) [OF at]
  show ?thesis
  proof (rule stored_classes [OF kv])
    assume "v = VNull"
    then show ?thesis using u by (auto simp: field_verdict_def cmp_rhs_real_def Let_def class_difference)
  next
    fix y assume s: "stored v = VInt y"
    note i = serialGet_inv(1) [OF g [unfolded s]]
    then have "?u = ?t" "\<not> 10 \<le> ?t" "?t \<noteq> 0" "?t \<noteq> 7" using small_type [OF _ u] by auto
    then show ?thesis
      using g x by (simp add: field_verdict_def cmp_rhs_real_def Let_def intFloat_sgn s value_order_def)
  next
    fix r assume s: "stored v = VReal r" "\<not> IsNaN r"
    note i = serialGet_inv(2) [OF g [unfolded s]]
    then have "?u = ?t" using small_type [OF _ u] by auto
    then show ?thesis
      using i x reals_sgn [OF s(2) x]
      by (simp add: field_verdict_def cmp_rhs_real_def Let_def serialGet7_double s value_order_def if_distrib [of sgn] cong: if_cong)
  next
    fix z assume s: "stored v = VText z"
    note i = large_type [OF _ u] serialGet_inv(3) [OF g [unfolded s]]
    then show ?thesis using u by (auto simp: field_verdict_def cmp_rhs_real_def Let_def s class_difference)
  next
    fix z assume s: "stored v = VBlob z"
    note i = large_type [OF _ u] serialGet_inv(4) [OF g [unfolded s]]
    then show ?thesis using u by (auto simp: field_verdict_def cmp_rhs_real_def Let_def s class_difference)
  qed
qed

lemma compare_null_field:
  assumes at: "field_at fmt p idx d v" and kv: "key_value v" and w: "value_class w = 0"
  shows "field_verdict (fst (field fmt v)) (value_order enc c (stored v) w)
    (cmp_rhs_null (\<lambda>k. p (idx + k)) (\<lambda>k. p (d + k)))"
proof -
  let ?t = "fst (field fmt v)" and ?u = "ucast (p idx) :: u32"
  note u = first_type_byte [OF at] and g = field_at_reads(2) [OF at]
  have b: "blob_value w = []" using w by (cases w) (auto simp: value_bytes_def)
  show ?thesis
  proof (rule stored_classes [OF kv])
    assume "v = VNull"
    then show ?thesis using u b w by (auto simp: field_verdict_def cmp_rhs_null_def value_order_def value_bytes_def)
  next
    fix y assume s: "stored v = VInt y"
    note i = serialGet_inv(1) [OF g [unfolded s]]
    then have "?u = ?t" "?t \<noteq> 0" "?t \<noteq> 7" "?t \<noteq> 10" using small_type [OF _ u] by auto
    then show ?thesis using w by (simp add: field_verdict_def cmp_rhs_null_def s class_difference)
  next
    fix r assume s: "stored v = VReal r" "\<not> IsNaN r"
    note i = serialGet_inv(2) [OF g [unfolded s]]
    then have "?u = ?t" using small_type [OF _ u] by auto
    then show ?thesis using i w by (simp add: field_verdict_def cmp_rhs_null_def serialGet7_double s class_difference)
  next
    fix z assume s: "stored v = VText z"
    note i = large_type [OF _ u] serialGet_inv(3) [OF g [unfolded s]]
    then show ?thesis using u w by (auto simp: field_verdict_def cmp_rhs_null_def Let_def s class_difference)
  next
    fix z assume s: "stored v = VBlob z"
    note i = large_type [OF _ u] serialGet_inv(4) [OF g [unfolded s]]
    then show ?thesis using u w by (auto simp: field_verdict_def cmp_rhs_null_def Let_def s class_difference)
  qed
qed

lemma bytes_field_ok:
  assumes at: "field_at fmt p idx d v" and "stored v = VText z \<or> stored v = VBlob z"
  shows "unat ((fst (field fmt v) - 12) div 2) = length z" "length (snd (field fmt v)) = length z"
    "map (\<lambda>k. p (d + k)) [0..<length z] = z" "agree (length z) (\<lambda>k. p (d + k)) (mem_of z)"
proof -
  have "sqlite3VdbeSerialGet (\<lambda>k. p (d + k)) (fst (field fmt v)) = VText z \<or>
      sqlite3VdbeSerialGet (\<lambda>k. p (d + k)) (fst (field fmt v)) = VBlob z"
    using assms(2) field_at_reads(2) [OF at] by argo
  then have z: "z = map (\<lambda>k. p (d + k)) [0..<unat ((fst (field fmt v) - 12) div 2)]"
    using serialGet_inv(3,4) by blast
  show u: "unat ((fst (field fmt v) - 12) div 2) = length z" using arg_cong [OF z, of length] by simp
  show m: "map (\<lambda>k. p (d + k)) [0..<length z] = z" using z unfolding u by (rule sym)
  have "p (d + k) = z ! k" if "k < length z" for k using arg_cong [OF m, of "\<lambda>l. l ! k"] that by simp
  then show "agree (length z) (\<lambda>k. p (d + k)) (mem_of z)" by (simp add: agree_def mem_of_def)
  show "length (snd (field fmt v)) = length z"
    using assms(2) by (cases v) (simp_all del: field.simps(3,4) split: if_splits)
qed

lemma other_type:
  assumes at: "field_at fmt p idx d v" and kv: "key_value v" and "value_class (stored v) < 2"
  shows "fst (field fmt v) < 12"
proof (rule stored_classes [OF kv])
  fix x assume "stored v = VInt x"
  then show ?thesis using serialGet_inv(1) field_at_reads(2) [OF at] by fastforce
next
  fix r assume "stored v = VReal r"
  then show ?thesis using serialGet_inv(2) field_at_reads(2) [OF at] by fastforce
qed (use assms(3) in auto)

lemma compare_str_field:
  assumes at: "field_at fmt p idx d v" and kv: "key_value v"
    and fits: "d + length (snd (field fmt v)) \<le> nKey1" "nKey1 < 2 ^ 32" and i: "i < nAllField ki"
  shows "field_verdict (fst (field fmt v)) (value_order (ki_enc ki) (aColl ki ! i) (stored v) (VText x))
    (cmp_rhs_str (\<lambda>_ _. True) nKey1 (\<lambda>k. p (idx + k)) (\<lambda>k. p (d + k)) d ki i (VText x))"
    (is "field_verdict ?t _ ?r")
proof -
  note g = field_at_reads(2) [OF at] and h = field_at_reads(1) [OF at]
  consider "value_class (stored v) < 2" | z where "stored v = VText z" | z where "stored v = VBlob z"
    by (rule stored_classes [OF kv]) auto
  then show ?thesis
  proof cases
    case 1
    then have "?r = FieldVerdict (-1) ?t False" using other_type [OF at kv] by (simp add: cmp_rhs_str_def h)
    then show ?thesis using 1 by (simp add: field_verdict_def class_difference)
  next
    case (2 z)
    note s = 2 and b = bytes_field_ok [OF at disjI1 [OF 2]] and t = serialGet_inv(3) [OF g [unfolded 2]]
    have f: "((d + length z) mod 2 ^ 32 > nKey1 \<or> nAllField ki \<le> i) = False" using fits i b(2) by simp
    have lt: "(?t < 12) = False" "(?t AND 1 = 0) = False" using t by auto
    have m: "nat (min (int n) (int k)) = min n k" for n k by simp
    have "?r = (case aColl ki ! i of
          Some c \<Rightarrow> FieldVerdict (xCmp c (text_in (ki_enc ki) (coll_enc c) z) (text_in (ki_enc ki) (coll_enc c) x)) ?t False
        | None \<Rightarrow> FieldVerdict (bytes_compare (\<lambda>k. p (d + k)) (length z) x) ?t False)"
      unfolding cmp_rhs_str_def Let_def h snd_conv lt if_False b(1) b(3) f mem_n_def value_bytes_def mval.case
        compareMemString_ok m bytes_compare_def prod.case ..
    then show ?thesis
      using bytes_compare_sgn [OF b(4), of x]
      by (simp add: field_verdict_def s value_order_def value_bytes_def text_order_def split: option.splits)
  next
    case (3 z)
    note t = serialGet_inv(4) [OF g [unfolded 3]]
    then have "\<not> ?t < 12" by auto
    then have "?r = FieldVerdict 1 ?t False" using t by (simp add: cmp_rhs_str_def h)
    then show ?thesis using 3 by (simp add: field_verdict_def class_difference)
  qed
qed

lemma compare_blob_field:
  assumes at: "field_at fmt p idx d v" and kv: "key_value v"
    and fits: "d + length (snd (field fmt v)) \<le> nKey1" "nKey1 < 2 ^ 32"
    and w: "value_class w = 3" "cell_ok w"
  shows "field_verdict (fst (field fmt v)) (value_order enc c (stored v) w)
    (cmp_rhs_blob nKey1 (\<lambda>k. p (idx + k)) (\<lambda>k. p (d + k)) d w)"
    (is "field_verdict ?t _ ?r")
proof -
  note g = field_at_reads(2) [OF at] and h = field_at_reads(1) [OF at]
  consider "value_class (stored v) < 2" | z where "stored v = VText z" | z where "stored v = VBlob z"
    by (rule stored_classes [OF kv]) auto
  then show ?thesis
  proof cases
    case 1
    then have "?r = FieldVerdict (-1) ?t False" using other_type [OF at kv] by (simp add: cmp_rhs_blob_def h)
    then show ?thesis using 1 w by (simp add: field_verdict_def class_difference)
  next
    case (2 z)
    then have "?r = FieldVerdict (-1) ?t False" using serialGet_inv(3) [OF g [unfolded 2]] by (simp add: cmp_rhs_blob_def h)
    then show ?thesis using 2 w by (simp add: field_verdict_def class_difference)
  next
    case (3 z)
    note s = 3 and b = bytes_field_ok [OF at disjI2 [OF 3]] and t = serialGet_inv(4) [OF g [unfolded 3]]
    have f: "((d + length z) mod 2 ^ 32 > nKey1) = False" using fits b(2) by simp
    have lt: "(?t < 12 \<or> ?t AND 1 \<noteq> 0) = False" using t by auto
    have m: "nat (min (int n) (int k)) = min n k" for n k by simp
    have "?r = (if mem_flags w AND MEM_Zero \<noteq> 0 then
        FieldVerdict (if \<not> isAllZero (\<lambda>k. p (d + k)) (length z) then 1 else int (length z) - mem_nZero w) ?t False
      else FieldVerdict (bytes_compare (\<lambda>k. p (d + k)) (length z) (value_bytes w)) ?t False)"
      unfolding cmp_rhs_blob_def Let_def h snd_conv lt if_False b(1) f mem_n_def m bytes_compare_def ..
    then show ?thesis
      using w bytes_compare_sgn [OF b(4)]
      by (cases w) (simp_all add: field_verdict_def s value_order_def mem_masks value_bytes_def mem_nZero_def
        zero_blob_compare [OF b(4), symmetric])
  qed
qed

lemma compare_field_ok:
  assumes at: "field_at fmt p idx d v" and kv: "key_value v"
    and fits: "d + length (snd (field fmt v)) \<le> nKey1" "nKey1 < 2 ^ 32" and i: "i < nAllField ki" and w: "cell_ok w"
  shows "field_verdict (fst (field fmt v)) (value_order (ki_enc ki) (aColl ki ! i) (stored v) w)
    (compare_field (\<lambda>_ _. True) nKey1 p ki i idx d w)"
  using compare_int_field [OF at kv] compare_real_field [OF at kv] compare_null_field [OF at kv]
    compare_str_field [OF at kv fits i] compare_blob_field [OF at kv fits] w
  by (cases w) (simp_all add: compare_field_def mem_masks)

section \<open>Comparing a record with a key\<close>

text \<open>What a comparison function must return and store, given the order of the two keys.\<close>

definition key_verdict :: "UnpackedRecord \<Rightarrow> int option \<Rightarrow> (int \<times> UnpackedRecord) option \<Rightarrow> bool" where
  "key_verdict p k r \<longleftrightarrow>
     (case k of
        None \<Rightarrow> r = Some (0, p\<lparr>errCode := SQLITE_CORRUPT\<rparr>)
      | Some c \<Rightarrow>
          if c = 0 then r = Some (default_rc p, p\<lparr>eqSeen := True\<rparr>)
          else \<exists>rc. r = Some (rc, p) \<and> sgn rc = c)"

lemma null_type:
  assumes "field_at fmt p idx d v" "key_value v"
  shows "fst (field fmt v) = 0 \<longleftrightarrow> value_class (stored v) = 0"
proof (rule stored_classes [OF assms(2)])
  fix x assume "stored v = VInt x"
  then show ?thesis using serialGet_inv(1) field_at_reads(2) [OF assms(1)] by fastforce
next
  fix r assume "stored v = VReal r"
  then show ?thesis using serialGet_inv(2) field_at_reads(2) [OF assms(1)] by fastforce
next
  fix z assume "stored v = VText z"
  then show ?thesis using serialGet_inv(3) field_at_reads(2) [OF assms(1)] by fastforce
next
  fix z assume "stored v = VBlob z"
  then show ?thesis using serialGet_inv(4) field_at_reads(2) [OF assms(1)] by fastforce
qed simp

lemma sort_rc_sgn:
  assumes "t' = 0 \<longleftrightarrow> value_class v = 0" and "sgn rc = c"
  shows "sgn (sort_rc flags t' w rc) = sort_order flags v w c"
  using assms by (auto simp: sort_rc_def sort_order_def flag_null sgn_minus)

lemma compare_loop_step:
  assumes v: "field_verdict t c (compare_field (mem_ok i) nKey1 p ki i idx d w)"
    and t: "t = 0 \<longleftrightarrow> value_class s = 0" and ki: "pKeyInfo r = ki"
  shows "c \<noteq> 0 \<Longrightarrow> \<exists>rc. compare_loop mem_ok nKey1 p szHdr i idx d (w # cells) r = Some (rc, r) \<and>
      sgn rc = sort_order (aSortFlags ki ! i) s w c"
    and "c = 0 \<Longrightarrow> compare_loop mem_ok nKey1 p szHdr i idx d (w # cells) r =
      (if i + 1 = nField r then Some (default_rc r, r\<lparr>eqSeen := True\<rparr>)
       else
         let d = (d + sqlite3VdbeSerialTypeLen t) mod 2 ^ 32 in
         if d > nKey1 then Some (default_rc r, r\<lparr>eqSeen := True\<rparr>)
         else
           let idx = (idx + sqlite3VarintLen (ucast t)) mod 2 ^ 32 in
           if idx \<ge> szHdr then Some (0, r\<lparr>errCode := SQLITE_CORRUPT\<rparr>)
           else compare_loop mem_ok nKey1 p szHdr (i + 1) idx d cells r)"
proof -
  obtain rc t' where f: "compare_field (mem_ok i) nKey1 p ki i idx d w = FieldVerdict rc t' False"
    "sgn rc = c" "t' = t \<or> 128 \<le> t' \<and> 128 \<le> t \<and> rc \<noteq> 0" using v by (auto simp: field_verdict_def)
  have "t' = 0 \<longleftrightarrow> value_class s = 0" using f(3) t by auto
  note s = sort_rc_sgn [OF this f(2)]
  show "\<exists>rc. compare_loop mem_ok nKey1 p szHdr i idx d (w # cells) r = Some (rc, r) \<and>
      sgn rc = sort_order (aSortFlags ki ! i) s w c" if "c \<noteq> 0"
    using that f(1,2) s by (auto simp: ki)
  show "compare_loop mem_ok nKey1 p szHdr i idx d (w # cells) r =
      (if i + 1 = nField r then Some (default_rc r, r\<lparr>eqSeen := True\<rparr>)
       else
         let d = (d + sqlite3VdbeSerialTypeLen t) mod 2 ^ 32 in
         if d > nKey1 then Some (default_rc r, r\<lparr>eqSeen := True\<rparr>)
         else
           let idx = (idx + sqlite3VarintLen (ucast t)) mod 2 ^ 32 in
           if idx \<ge> szHdr then Some (0, r\<lparr>errCode := SQLITE_CORRUPT\<rparr>)
           else compare_loop mem_ok nKey1 p szHdr (i + 1) idx d cells r)" if "c = 0"
  proof -
    have "rc = 0" "t' = t" using that f(2,3) by (auto simp: sgn_0_0)
    then show ?thesis using f(1) by (simp add: ki)
  qed
qed

text \<open>The fields of \<open>vs\<close> at \<open>idx\<close> in the header, which ends with them, and at \<open>d\<close> in the data.\<close>

definition fields_at :: "nat \<Rightarrow> mem \<Rightarrow> nat \<Rightarrow> nat \<Rightarrow> nat \<Rightarrow> nat \<Rightarrow> mval list \<Rightarrow> bool" where
  "fields_at fmt p nKey szHdr idx d vs \<longleftrightarrow>
     (\<forall>v \<in> set vs. mval_size v \<le> 1000000000 \<and> key_value v) \<and>
     agree (length (field_types fmt vs)) (\<lambda>k. p (idx + k)) (mem_of (field_types fmt vs)) \<and>
     agree (length (field_data fmt vs)) (\<lambda>k. p (d + k)) (mem_of (field_data fmt vs)) \<and>
     idx + length (field_types fmt vs) = szHdr \<and> szHdr < 2 ^ 32 \<and>
     d + length (field_data fmt vs) = nKey \<and> nKey < 2 ^ 32"

lemma fields_at_Cons:
  assumes "fields_at fmt p nKey szHdr idx d (v # vs)"
  shows "field_at fmt p idx d v" "key_value v" "d + length (snd (field fmt v)) \<le> nKey" "nKey < 2 ^ 32"
    and "fields_at fmt p nKey szHdr (idx + length (type_bytes (fst (field fmt v)))) (d + length (snd (field fmt v))) vs"
    and "(idx + length (type_bytes (fst (field fmt v)))) mod 2 ^ 32 = idx + length (type_bytes (fst (field fmt v)))"
    and "(d + length (snd (field fmt v))) mod 2 ^ 32 = d + length (snd (field fmt v))"
    and "szHdr \<le> idx + length (type_bytes (fst (field fmt v))) \<longleftrightarrow> vs = []"
proof -
  let ?t = "type_bytes (fst (field fmt v))" and ?b = "snd (field fmt v)"
  have h: "agree (length ?t) (\<lambda>k. p (idx + k)) (mem_of ?t)"
    "agree (length (field_types fmt vs)) (\<lambda>k. p (idx + length ?t + k)) (mem_of (field_types fmt vs))"
    using agree_split [of ?t "length (field_types fmt vs)" "\<lambda>k. p (idx + k)" "field_types fmt vs"] assms
    by (auto simp: fields_at_def add.assoc)
  have e: "agree (length ?b) (\<lambda>k. p (d + k)) (mem_of ?b)"
    "agree (length (field_data fmt vs)) (\<lambda>k. p (d + length ?b + k)) (mem_of (field_data fmt vs))"
    using agree_split [of ?b "length (field_data fmt vs)" "\<lambda>k. p (d + k)" "field_data fmt vs"] assms
    by (auto simp: fields_at_def add.assoc)
  show "field_at fmt p idx d v" "key_value v" "d + length ?b \<le> nKey" "nKey < 2 ^ 32"
    "fields_at fmt p nKey szHdr (idx + length ?t) (d + length ?b) vs"
    "(idx + length ?t) mod 2 ^ 32 = idx + length ?t" "(d + length ?b) mod 2 ^ 32 = d + length ?b"
    using assms h e by (simp_all add: field_at_def fields_at_def)
  have "type_bytes t \<noteq> []" for t by (simp add: type_bytes_def put_nonempty)
  then have "field_types fmt vs = [] \<longleftrightarrow> vs = []" by (cases vs) auto
  then show "szHdr \<le> idx + length ?t \<longleftrightarrow> vs = []" using assms by (auto simp: fields_at_def)
qed

lemma value_order_sgn: "sgn (value_order enc c v w) = value_order enc c v w"
  by (auto simp: value_order_def text_order_def lex_order_simps split: option.split)

lemma compare_loop_ok:
  assumes "fields_at fmt p nKey szHdr idx d vs" "list_all cell_ok ws" "vs \<noteq> []" "ws \<noteq> []"
    and "nField r = i + length ws" "nField r \<le> nAllField (pKeyInfo r)"
  shows "key_verdict r (key_order (pKeyInfo r) i (map stored vs) ws)
    (compare_loop (\<lambda>_ _ _. True) nKey p szHdr i idx d (ws @ cells) r)"
  using assms
proof (induction ws arbitrary: i idx d vs)
  case (Cons w ws)
  obtain v vs' where vs: "vs = v # vs'" using Cons.prems(3) by (cases vs) auto
  let ?ki = "pKeyInfo r" and ?t = "fst (field fmt v)" and ?b = "snd (field fmt v)"
  note f = fields_at_Cons [OF Cons.prems(1) [unfolded vs]]
  have i: "i < nAllField ?ki" using Cons.prems(5,6) by simp
  let ?c = "value_order (ki_enc ?ki) (aColl ?ki ! i) (stored v) w"
  have "field_verdict ?t ?c (compare_field (\<lambda>_ _. True) nKey p ?ki i idx d w)"
    using compare_field_ok [OF f(1,2,3,4) i, of w] Cons.prems(2) by simp
  note step = compare_loop_step [where mem_ok = "\<lambda>_ _ _. True", OF this null_type [OF f(1,2)] refl, of szHdr "ws @ cells"]
  have len: "sqlite3VdbeSerialTypeLen ?t = length ?b" "sqlite3VarintLen (ucast ?t) = length (type_bytes ?t)"
    by (rule field_at_reads(3) [OF f(1)], rule varintLen_type)
  show ?case
  proof (cases "?c = 0")
    case False
    moreover have "sort_order fl v w c = 0 \<longleftrightarrow> c = 0" for fl v w c by (simp add: sort_order_def)
    ultimately show ?thesis using step(1) by (simp add: vs key_verdict_def column_order_def del: compare_loop.simps)
  next
    case True
    then have c: "column_order ?ki i (stored v) w = 0" by (simp add: column_order_def sort_order_def)
    note loop = step(2) [OF True, unfolded len Let_def f(6,7)]
    show ?thesis
    proof (cases "ws = []")
      case True
      then show ?thesis using loop c Cons.prems(5) by (simp add: vs key_verdict_def del: compare_loop.simps)
    next
      case ws: False
      then have n: "i + 1 \<noteq> nField r" using Cons.prems(5) by (cases ws) auto
      show ?thesis
      proof (cases "vs' = []")
        case True
        then show ?thesis
          using loop c n ws f(3) f(8) by (cases ws) (simp_all add: vs key_verdict_def del: compare_loop.simps)
      next
        case False
        have "key_verdict r (key_order ?ki (i + 1) (map stored vs') ws)
            (compare_loop (\<lambda>_ _ _. True) nKey p szHdr (i + 1) (idx + length (type_bytes ?t)) (d + length ?b) (ws @ cells) r)"
          by (rule Cons.IH [OF f(5)]) (use False ws Cons.prems in auto)
        then show ?thesis using loop c n f(3) f(8) False by (simp add: vs del: compare_loop.simps)
      qed
    qed
  qed
qed simp

text \<open>The parts of a record: the size of the header and where its types and its data are.\<close>

definition record_values :: "nat \<Rightarrow> mval list \<Rightarrow> bool" where
  "record_values fmt vs \<longleftrightarrow> vs \<noteq> [] \<and> length vs < 2 ^ 16 \<and> length (record_bytes fmt vs) < 2 ^ 31 \<and>
     (\<forall>v \<in> set vs. mval_size v \<le> 1000000000 \<and> key_value v)"

lemma record_layout:
  assumes "record_values fmt vs"
  obtains n k where "getVarint32 (mem_of (record_bytes fmt vs)) = (k, of_nat n)" "n < 2 ^ 31"
    "fields_at fmt (mem_of (record_bytes fmt vs)) (length (record_bytes fmt vs)) n k n vs"
    "n \<le> length (record_bytes fmt vs)" "n = k + length (field_types fmt vs)"
    "n < 128 \<Longrightarrow> k = 1 \<and> mem_of (record_bytes fmt vs) 0 = of_nat n"
    "length (field_types fmt vs) \<le> 126 \<Longrightarrow> n < 128"
proof -
  let ?H = "field_types fmt vs" and ?D = "field_data fmt vs" and ?r = "record_bytes fmt vs"
  let ?n = "mk_header_size (length ?H)"
  have "length ?H < 2 ^ 40" using field_types_length [of fmt vs] assms by (simp add: record_values_def)
  note sz = header_size [OF this]
  let ?S = "sqlite3PutVarint (of_nat ?n)"
  have r: "?r = ?S @ ?H @ ?D" by (simp add: record_bytes_def Let_def)
  have n: "?n < 2 ^ 31" "length ?S + length ?H = ?n" using sz assms by (auto simp: r record_values_def)
  have u: "ucast (of_nat ?n :: u32) = (of_nat ?n :: u64)"
    using n(1) by (auto intro!: unsigned_word_eqI [where 'a = nat] simp: unsigned_ucast_eq unsigned_of_nat take_bit_nat_eq_self)
  have "getVarint32 (mem_of ?r) = (length ?S, of_nat ?n)"
    using getVarint32_put [of "of_nat ?n" "mem_of ?r"] agree_mem_of_append [of ?S "?H @ ?D"]
    by (simp add: u r)
  moreover have "fields_at fmt (mem_of ?r) (length ?r) ?n (length ?S) ?n vs"
    using n assms by (auto simp: fields_at_def record_values_def agree_def mem_of_def r nth_append)
  moreover have "length ?S = 1 \<and> mem_of ?r 0 = of_nat ?n" if "?n < 128"
  proof -
    have "?S = [of_nat ?n]" using header_varint [of ?n] that by simp
    then show ?thesis by (simp add: r mem_of_def)
  qed
  ultimately show ?thesis
    using that [of "length ?S" ?n] n by (auto simp: r mk_header_size_def)
qed

lemma recordCompare_start:
  assumes "record_values fmt vs"
    and "getVarint32 (mem_of (record_bytes fmt vs)) = (k, of_nat n)" "n < 2 ^ 31" "n \<le> length (record_bytes fmt vs)"
  shows "sqlite3VdbeRecordCompare mem_ok (length (record_bytes fmt vs)) (mem_of (record_bytes fmt vs)) p =
    compare_loop mem_ok (length (record_bytes fmt vs)) (mem_of (record_bytes fmt vs)) n 0 k n (aMem p) p"
proof -
  have n: "unat (of_nat n :: u32) = n" using assms(3) by (simp add: unsigned_of_nat take_bit_nat_eq_self)
  let ?m = "mem_of (record_bytes fmt vs)"
  have "(if ?m 0 < 0x80 then (1, unat (?m 0)) else let (k, s) = sqlite3GetVarint32 ?m in (k, unat s)) = (k, n)"
    using assms(2) n unat_ucast_u8 [of "?m 0"] by (auto simp: getVarint32_def split: if_splits prod.splits)
  then show ?thesis
    using assms(4) by (simp add: sqlite3VdbeRecordCompare_def sqlite3VdbeRecordCompareWithSkip_def Let_def)
qed

text \<open>A key that a record may be compared with.\<close>

definition key_ok :: "UnpackedRecord \<Rightarrow> bool" where
  "key_ok p \<longleftrightarrow> 1 \<le> nField p \<and> nField p \<le> length (aMem p) \<and> nField p \<le> nAllField (pKeyInfo p) \<and>
     list_all cell_ok (take (nField p) (aMem p))"

lemma recordCompare_verdict:
  assumes "record_values fmt vs" "key_ok p"
  shows "key_verdict p (key_order (pKeyInfo p) 0 (map stored vs) (take (nField p) (aMem p)))
    (sqlite3VdbeRecordCompare (\<lambda>_ _ _. True) (length (record_bytes fmt vs)) (mem_of (record_bytes fmt vs)) p)"
proof -
  obtain n k where l: "getVarint32 (mem_of (record_bytes fmt vs)) = (k, of_nat n)" "n < 2 ^ 31"
    "fields_at fmt (mem_of (record_bytes fmt vs)) (length (record_bytes fmt vs)) n k n vs"
    "n \<le> length (record_bytes fmt vs)" using record_layout [OF assms(1)] by metis
  have "take (nField p) (aMem p) \<noteq> []" "length (take (nField p) (aMem p)) = nField p"
    using assms(2) by (auto simp: key_ok_def)
  with compare_loop_ok [OF l(3), of "take (nField p) (aMem p)" p 0 "drop (nField p) (aMem p)"]
  show ?thesis
    using assms by (simp add: recordCompare_start [OF assms(1) l(1,2,4)] record_values_def key_ok_def)
qed

lemma makeRecord_values:
  assumes "\<forall>v \<in> set vs. mval_size v \<le> 1000000000 \<and> key_value v" "vs \<noteq> []" "length vs < 2 ^ 16"
    and "szMalloc < 2 ^ 31" "lim \<le> 1000000000" "MakeRecord fmt szMalloc lim mem_ok vs = Inr (rec, nZero)"
  shows "rec @ replicate nZero 0 = record_bytes fmt vs" "length rec + nZero = length (record_bytes fmt vs)"
    "record_values fmt vs"
proof -
  have "\<forall>v \<in> set vs. mval_size v \<le> 1000000000" "length vs < 2 ^ 32" using assms(1,3) by auto
  with makeRecord_bytes [of vs fmt szMalloc lim mem_ok] assms(6)
  show r: "rec @ replicate nZero 0 = record_bytes fmt vs" by auto
  show l: "length rec + nZero = length (record_bytes fmt vs)" unfolding r [symmetric] by simp
  have "length rec + nZero \<le> szMalloc \<or> length rec + nZero \<le> lim"
    using makeRecord_bytes [of vs fmt szMalloc lim mem_ok] assms by auto
  then show "record_values fmt vs" using assms l by (auto simp: record_values_def)
qed

section \<open>The specialised comparison functions\<close>

lemma type_bytes_5: "length (type_bytes t) \<le> 5"
  using length_put_le [of 5 "ucast t"] unsigned_less [of t, where 'a = nat]
  by (simp add: type_bytes_def unat_ucast_32)

lemma field_types_5: "length (field_types fmt vs) \<le> 5 * length vs"
  using type_bytes_5 by (induction vs) (auto intro: add_le_mono simp del: field.simps)

lemma record_int_lhs_eq:
  "record_int_lhs t q = (if t \<in> {1, 2, 3, 4, 5, 6, 8, 9} then Some (vdbeRecordDecodeInt t q) else None)"
  by (auto simp: record_int_lhs_def vdbeRecordDecodeInt_def)

text \<open>
  What the specialised functions rest on: the header of a short record is one size byte followed by
  the types, and \<open>sqlite3VdbeRecordCompareWithSkip\<close> starts where the general comparison is after an
  equal first field.
\<close>

lemma skip_start:
  assumes f: "fields_at fmt p nKey n 1 n (v # vs)" and "n < 128" "p 0 = of_nat n"
  shows "sqlite3VdbeRecordCompareWithSkip mem_ok nKey p r True =
    compare_loop mem_ok nKey p n 1 (1 + length (type_bytes (fst (field fmt v)))) (n + length (snd (field fmt v)))
      (drop 1 (aMem r)) r"
proof -
  note c = fields_at_Cons [OF f]
  note g = field_at_reads [OF c(1)]
  have n: "unat (of_nat n :: u8) = n" using assms(2) by (simp add: unsigned_of_nat take_bit_nat_eq_self)
  let ?s = "(let s1 = ucast (p 1) :: u32 in if s1 < 0x80 then (2, s1)
      else let (k, s1) = sqlite3GetVarint32 (\<lambda>j. p (1 + j)) in (1 + k, s1))"
  have "ucast (p 1) < (0x80 :: u32) \<longleftrightarrow> p 1 < 0x80" by (simp add: word_less_nat_alt unat_ucast_u8)
  then have "?s = (1 + length (type_bytes (fst (field fmt v))), fst (field fmt v))"
    using g(1) by (auto simp: getVarint32_def Let_def split: if_splits)
  then show ?thesis
    using c(3,7) g(3) by (simp add: sqlite3VdbeRecordCompareWithSkip_def Let_def assms(3) n del: One_nat_def)
qed

lemma first_equal:
  assumes f: "fields_at fmt p nKey n 1 n (v # vs)" and "n < 128" "p 0 = of_nat n"
    and v: "field_verdict (fst (field fmt v)) 0 (compare_field (mem_ok 0) nKey p (pKeyInfo r) 0 1 n w)"
    and "1 \<le> nField r" "nField r \<le> Suc (length vs)" "aMem r = w # ws"
  shows "compare_loop mem_ok nKey p n 0 1 n (aMem r) r =
    (if nField r > 1 then sqlite3VdbeRecordCompareWithSkip mem_ok nKey p r True
     else Some (default_rc r, r\<lparr>eqSeen := True\<rparr>))"
proof -
  note c = fields_at_Cons [OF f]
  have len: "sqlite3VdbeSerialTypeLen (fst (field fmt v)) = length (snd (field fmt v))"
    "sqlite3VarintLen (ucast (fst (field fmt v))) = length (type_bytes (fst (field fmt v)))"
    by (rule field_at_reads(3) [OF c(1)], rule varintLen_type)
  note step = compare_loop_step(2) [where mem_ok = mem_ok and i = 0, OF v null_type [OF c(1,2)] refl refl, of n ws, unfolded len Let_def c(6,7)]
  have "vs \<noteq> []" if "1 < nField r" using that assms(6) by auto
  then show ?thesis
    using step c(3,8) skip_start [OF f assms(2,3), of mem_ok r] assms(5) unfolding assms(7)
    by (auto simp del: compare_loop.simps)
qed

lemma first_differs:
  assumes f: "fields_at fmt p nKey n 1 n (v # vs)"
    and v: "field_verdict (fst (field fmt v)) c (compare_field (mem_ok 0) nKey p (pKeyInfo r) 0 1 n w)"
    and "c \<noteq> 0" "aMem r = w # ws" "aSortFlags (pKeyInfo r) ! 0 AND KEYINFO_ORDER_BIGNULL = 0"
  shows "\<exists>rc. compare_loop mem_ok nKey p n 0 1 n (aMem r) r = Some (rc, r) \<and>
    sgn rc = (if aSortFlags (pKeyInfo r) ! 0 \<noteq> 0 then - c else c)"
proof -
  note c = fields_at_Cons [OF f]
  show ?thesis
    using compare_loop_step(1) [where mem_ok = mem_ok and i = 0, OF v null_type [OF c(1,2)] refl assms(3), of n ws]
      assms(4,5) by (simp add: sort_order_def del: compare_loop.simps if_not_P split del: if_split)
qed

text \<open>Same verdict: the same sign and the same effect on the key.\<close>

definition same_verdict :: "(int \<times> UnpackedRecord) option \<Rightarrow> (int \<times> UnpackedRecord) option \<Rightarrow> bool" where
  "same_verdict a b \<longleftrightarrow> (\<exists>rc rc' r. a = Some (rc, r) \<and> b = Some (rc', r) \<and> sgn rc = sgn rc')"

lemma same_verdict_refl: "a \<noteq> None \<Longrightarrow> same_verdict a a"
  by (auto simp: same_verdict_def)

lemma key_verdict_returns: "key_verdict p k r \<Longrightarrow> r \<noteq> None"
  by (auto simp: key_verdict_def split: option.splits if_splits)

text \<open>The results \<open>r1\<close> and \<open>r2\<close> as \<open>sqlite3VdbeFindCompare\<close> sets them.\<close>

definition sorted_results :: "UnpackedRecord \<Rightarrow> bool" where
  "sorted_results r \<longleftrightarrow> aSortFlags (pKeyInfo r) ! 0 AND KEYINFO_ORDER_BIGNULL = 0 \<and>
     (if aSortFlags (pKeyInfo r) ! 0 = 0 then key_r1 r = -1 \<and> key_r2 r = 1 else key_r1 r = 1 \<and> key_r2 r = -1)"

lemma specialised_verdict:
  assumes f: "fields_at fmt p nKey n 1 n (v # vs)" "n < 128" "p 0 = of_nat n"
    and v: "field_verdict (fst (field fmt v)) c (compare_field (mem_ok 0) nKey p (pKeyInfo r) 0 1 n w)"
    and r: "1 \<le> nField r" "nField r \<le> Suc (length vs)" "aMem r = w # ws" "sorted_results r"
    and c: "c \<in> {-1, 0, 1}"
    and ret: "compare_loop mem_ok nKey p n 0 1 n (aMem r) r \<noteq> None"
  shows "same_verdict
      (if c = -1 then Some (key_r1 r, r) else if c = 1 then Some (key_r2 r, r)
       else if nField r > 1 then sqlite3VdbeRecordCompareWithSkip mem_ok nKey p r True
       else Some (default_rc r, r\<lparr>eqSeen := True\<rparr>))
      (compare_loop mem_ok nKey p n 0 1 n (aMem r) r)"
proof (cases "c = 0")
  case True
  with first_equal [where mem_ok = mem_ok, OF f v [unfolded True] r(1-3)] ret show ?thesis
    by (simp add: same_verdict_refl del: compare_loop.simps split: if_splits)
next
  case False
  from first_differs [where mem_ok = mem_ok, OF f(1) v False r(3)] r(4) c False show ?thesis
    by (auto simp: same_verdict_def sorted_results_def split: if_splits)
qed

text \<open>A record short enough for the specialised functions.\<close>

lemma short_record:
  assumes "record_values fmt vs" "length vs \<le> 13"
  obtains n where "fields_at fmt (mem_of (record_bytes fmt vs)) (length (record_bytes fmt vs)) n 1 n vs"
    "n < 128" "mem_of (record_bytes fmt vs) 0 = of_nat n" "n = 1 + length (field_types fmt vs)"
    "sqlite3VdbeRecordCompare mem_ok (length (record_bytes fmt vs)) (mem_of (record_bytes fmt vs)) p =
     compare_loop mem_ok (length (record_bytes fmt vs)) (mem_of (record_bytes fmt vs)) n 0 1 n (aMem p) p"
proof -
  obtain n k where l: "getVarint32 (mem_of (record_bytes fmt vs)) = (k, of_nat n)" "n < 2 ^ 31"
    "fields_at fmt (mem_of (record_bytes fmt vs)) (length (record_bytes fmt vs)) n k n vs"
    "n \<le> length (record_bytes fmt vs)" "n = k + length (field_types fmt vs)"
    "n < 128 \<Longrightarrow> k = 1 \<and> mem_of (record_bytes fmt vs) 0 = of_nat n"
    "length (field_types fmt vs) \<le> 126 \<Longrightarrow> n < 128" using record_layout [OF assms(1)] by metis
  have "length (field_types fmt vs) \<le> 126" using field_types_5 [of fmt vs] assms(2) by simp
  then show ?thesis
    using that [of n] l recordCompare_start [OF assms(1) l(1,2,4), of mem_ok p] by simp
qed

lemma low_six_bits: "n < 64 \<Longrightarrow> unat (of_nat n AND 0x3F :: u8) = n"
proof -
  assume n: "n < 64"
  have "(0x3F :: u8) = mask 6" by (simp add: mask_eq_exp_minus_1)
  then have "of_nat n AND 0x3F = (take_bit 6 (of_nat n) :: u8)" by (simp only: take_bit_eq_mask)
  then show ?thesis using n by (simp add: unsigned_take_bit_eq unsigned_of_nat take_bit_nat_eq_self)
qed

lemma intCompare_fields:
  assumes f: "fields_at fmt m N n 1 n (v # vs)" "n < 128" "m 0 = of_nat n"
    and n: "n = 1 + length (field_types fmt (v # vs))" "length vs \<le> 12"
    and p: "1 \<le> nField p" "nField p \<le> Suc (length vs)" "sorted_results p"
    and j: "aMem p = VInt j # ws" "key_i p = j"
    and ret: "compare_loop mem_ok N m n 0 1 n (aMem p) p \<noteq> None"
    and u: "ucast (m 1) \<in> {1, 2, 3, 4, 5, 6, 8, 9 :: u32}"
  shows "same_verdict (vdbeRecordCompareInt mem_ok N m p) (compare_loop mem_ok N m n 0 1 n (aMem p) p)"
proof -
  let ?t = "fst (field fmt v)" and ?u = "ucast (m 1) :: u32"
  have "?u = ?t \<or> 128 \<le> ?u \<and> 128 \<le> ?t" by (rule first_type_byte [OF fields_at_Cons(1) [OF f(1)]])
  then have t: "?t = ?u" "\<not> 10 \<le> ?u" "?u < 128" "?u \<noteq> 0" "?u \<noteq> 7" using u by (auto simp: word_le_nat_alt)
  have "length (type_bytes ?t) = 1" using type_bytes_small [of ?t] t by simp
  moreover have "length (field_types fmt vs) \<le> 60" using field_types_5 [of fmt vs] n(2) by simp
  ultimately have "n < 64" using n(1) by simp
  then have n6: "unat (of_nat n AND 0x3F :: u8) = n" by (rule low_six_bits)
  define lhs where "lhs = vdbeRecordDecodeInt ?u (\<lambda>k. m (n + k))"
  define c :: int where "c = (if lhs <s j then -1 else if j <s lhs then 1 else 0)"
  have "compare_field (mem_ok 0) N m (pKeyInfo p) 0 1 n (VInt j) = FieldVerdict c ?u False"
    using t by (simp add: compare_field_def cmp_rhs_int_def mem_masks Let_def lhs_def c_def)
  then have fv: "field_verdict ?t c (compare_field (mem_ok 0) N m (pKeyInfo p) 0 1 n (VInt j))"
    by (simp add: field_verdict_def t(1) c_def)
  have "c \<in> {-1, 0, 1}" by (simp add: c_def)
  note sv = specialised_verdict [where mem_ok = mem_ok, OF f fv p(1,2) j(1) p(3) this ret]
  have lhs: "record_int_lhs ?u (\<lambda>k. m (n + k)) = Some lhs" unfolding record_int_lhs_eq lhs_def using u by (simp only: if_True)
  have "vdbeRecordCompareInt mem_ok N m p =
      (if c = -1 then Some (key_r1 p, p) else if c = 1 then Some (key_r2 p, p)
       else if nField p > 1 then sqlite3VdbeRecordCompareWithSkip mem_ok N m p True
       else Some (default_rc p, p\<lparr>eqSeen := True\<rparr>))"
    by (simp add: vdbeRecordCompareInt_def Let_def f(3) n6 lhs [simplified] j(2) c_def)
  then show ?thesis using sv by (simp only:)
qed

lemma field_type_bound:
  assumes at: "field_at fmt p idx d v" and kv: "key_value v"
  shows "unat (fst (field fmt v)) < 2 ^ 31"
proof (cases "value_class (stored v) < 2")
  case True
  then show ?thesis using other_type [OF at kv] by (simp add: word_less_nat_alt)
next
  case False
  have "mval_size v \<le> 1000000000" using at by (simp add: field_at_def)
  then show ?thesis
    using False by (cases v) (auto simp: unat_bytes_type split: if_splits)
qed

lemma sint_small: "unat x < 2 ^ (LENGTH('a) - 1) \<Longrightarrow> sint x = int (unat x)" for x :: "'a::len word"
proof -
  assume "unat x < 2 ^ (LENGTH('a) - 1)"
  then have "int (unat x) < int (2 ^ (LENGTH('a) - 1))" by (simp only: of_nat_less_iff)
  moreover have "- (2 ^ (LENGTH('a) - 1)) \<le> uint x" using uint_ge_0 [of x] by (rule order_trans [rotated]) simp
  ultimately show ?thesis by (simp add: sint_uint signed_take_bit_int_eq_self)
qed

lemma string_serial_type_eq:
  assumes "getVarint32 (\<lambda>k. m (1 + k)) = (k, t)" "unat t < 2 ^ 31"
  shows "string_serial_type m = int (unat t)"
proof (cases "m 1 < 0x80")
  case True
  then have t: "t = ucast (m 1)" using assms(1) by (auto simp: getVarint32_def)
  have "sint (m 1) = int (unat (m 1))" using True by (intro sint_small) (simp add: word_less_nat_alt)
  then show ?thesis unfolding string_serial_type_def t unat_ucast_u8 Let_def by simp
next
  case False
  then have "sint (m 1) < 0" using bit_last_iff [of "m 1"] by (simp add: u8_lt_80)
  moreover have "sqlite3GetVarint32 (\<lambda>k. m (1 + k)) = (k, t)" using False assms(1) by (simp add: getVarint32_def)
  moreover have "sint t = int (unat t)" using assms(2) by (intro sint_small) simp
  ultimately show ?thesis by (simp add: string_serial_type_def)
qed

lemma stringCompare_fields:
  assumes f: "fields_at fmt m N n 1 n (v # vs)" "n < 128" "m 0 = of_nat n"
    and p: "1 \<le> nField p" "nField p \<le> Suc (length vs)" "sorted_results p" "0 < nAllField (pKeyInfo p)"
    and x: "aMem p = VText x # ws" "key_z p = x" "key_n p = int (length x)" "aColl (pKeyInfo p) ! 0 = None"
    and ret: "compare_loop mem_ok N m n 0 1 n (aMem p) p \<noteq> None"
  shows "same_verdict (vdbeRecordCompareString mem_ok N m p) (compare_loop mem_ok N m n 0 1 n (aMem p) p)"
proof -
  let ?t = "fst (field fmt v)" and ?dat = "\<lambda>k. m (n + k)"
  note c = fields_at_Cons [OF f(1)]
  note g = field_at_reads [OF c(1)]
  have n: "unat (of_nat n :: u8) = n" using f(2) by (simp add: unsigned_of_nat take_bit_nat_eq_self)
  have s: "string_serial_type m = int (unat ?t)"
    by (rule string_serial_type_eq [OF g(1) field_type_bound [OF c(1,2)]])
  have lt: "int (unat ?t) < 12 \<longleftrightarrow> ?t < 12" by (simp add: word_less_nat_alt del: of_nat_unat)
  have ev: "even (int (unat ?t)) \<longleftrightarrow> ?t AND 1 = 0" using bit_0 [of "unat ?t"] bit_0 [of ?t] bit_unsigned_iff [of ?t 0, where 'a = nat]
    by (simp add: and_one_eq even_iff_mod_2_eq_zero [symmetric] del: of_nat_unat)
  define len where "len = unat ((?t - 12) div 2)"
  have half: "(int (unat ?t) - 12) div 2 = int len" if "\<not> ?t < 12"
    using that by (simp add: len_def unat_div unat_sub word_less_nat_alt word_le_nat_alt zdiv_int of_nat_diff)
  have fits: "n + len \<le> N" "(n + len) mod 2 ^ 32 = n + len" if "\<not> ?t < 12"
  proof -
    have "\<not> value_class (stored v) < 2" using other_type [OF c(1,2)] that by blast
    then obtain z where "stored v = VText z \<or> stored v = VBlob z" by (rule_tac stored_classes [OF c(2)]) auto
    from bytes_field_ok(1,2) [OF c(1) this] show "n + len \<le> N" "(n + len) mod 2 ^ 32 = n + len"
      using c(3,4) by (simp_all add: len_def)
  qed
  define b where "b = bytes_compare ?dat len x"
  define c' :: int where "c' = (if ?t < 12 then -1 else if ?t AND 1 = 0 then 1 else sgn b)"
  have mn: "mem_n (VText x) = int (length x)" "value_bytes (VText x) = x" "nat (min (int len) (int (length x))) = min len (length x)"
    by (simp_all add: mem_n_def value_bytes_def)
  have corrupt: "((n + len) mod 2 ^ 32 > N \<or> nAllField (pKeyInfo p) \<le> 0) = False" if "\<not> ?t < 12"
    using fits [OF that] p(4) by simp
  have "compare_field (mem_ok 0) N m (pKeyInfo p) 0 1 n (VText x) =
      cmp_rhs_str (mem_ok 0) N (\<lambda>k. m (1 + k)) ?dat n (pKeyInfo p) 0 (VText x)"
    by (simp add: compare_field_def mem_masks)
  also have "\<dots> = FieldVerdict (if ?t < 12 then -1 else if ?t AND 1 = 0 then 1 else b) ?t False"
    unfolding cmp_rhs_str_def g(1) snd_conv Let_def len_def [symmetric] x(4) option.case mn b_def bytes_compare_def
    using corrupt by (simp only: if_False if_True split: if_split) simp
  finally have fv: "field_verdict ?t c' (compare_field (mem_ok 0) N m (pKeyInfo p) 0 1 n (VText x))"
    by (simp add: field_verdict_def c'_def)
  have "c' \<in> {-1, 0, 1}" by (auto simp: c'_def sgn_if)
  note sv = specialised_verdict [where mem_ok = mem_ok, OF f fv p(1,2) x(1) p(3) this ret]
  define res where "res = memcmp ?dat (mem_of x) (min len (length x))"
  have b: "b = (if res = 0 then int len - int (length x) else res)" by (simp add: b_def bytes_compare_def res_def)
  have "vdbeRecordCompareString mem_ok N m p =
      (if ?t < 12 then Some (key_r1 p, p) else if ?t AND 1 = 0 then Some (key_r2 p, p)
       else if b < 0 then Some (key_r1 p, p) else if b > 0 then Some (key_r2 p, p)
       else if nField p > 1 then sqlite3VdbeRecordCompareWithSkip mem_ok N m p True
       else Some (default_rc p, p\<lparr>eqSeen := True\<rparr>))"
  proof (cases "?t < 12")
    case True
    then show ?thesis by (simp only: vdbeRecordCompareString_def s lt Let_def if_True)
  next
    case False
    have mm: "nat (min (int (length x)) (int len)) = min len (length x)" by simp
    show ?thesis
      using False fits [OF False]
      unfolding vdbeRecordCompareString_def s lt ev Let_def half [OF False] f(3) n x(2,3) b mm res_def [symmetric]
      by simp
  qed
  also have "\<dots> = (if c' = -1 then Some (key_r1 p, p) else if c' = 1 then Some (key_r2 p, p)
       else if nField p > 1 then sqlite3VdbeRecordCompareWithSkip mem_ok N m p True
       else Some (default_rc p, p\<lparr>eqSeen := True\<rparr>))"
  proof -
    have "sgn b = -1 \<longleftrightarrow> b < 0" "sgn b = 1 \<longleftrightarrow> b > 0" by (simp_all add: sgn_if)
    then show ?thesis by (simp add: c'_def)
  qed
  finally show ?thesis using sv by (simp only:)
qed

lemma findCompare_verdict:
  assumes vs: "record_values fmt vs" "nField p \<le> length vs" "length vs \<le> nAllField (pKeyInfo p)"
    and p: "key_ok p" and q: "sqlite3VdbeFindCompare p = (q, f)"
  shows "same_verdict
    (run_compare f (\<lambda>_ _ _. True) (length (record_bytes fmt vs)) (mem_of (record_bytes fmt vs)) q)
    (sqlite3VdbeRecordCompare (\<lambda>_ _ _. True) (length (record_bytes fmt vs)) (mem_of (record_bytes fmt vs)) q)"
proof -
  let ?m = "mem_of (record_bytes fmt vs)" and ?N = "length (record_bytes fmt vs)" and ?T = "\<lambda>_ _ _. True"
  have same: "pKeyInfo q = pKeyInfo p" "aMem q = aMem p" "nField q = nField p"
    using q by (auto simp: sqlite3VdbeFindCompare_def Let_def split: if_splits)
  then have "key_ok q" using p by (simp add: key_ok_def)
  then have ret: "sqlite3VdbeRecordCompare ?T ?N ?m q \<noteq> None"
    by (rule key_verdict_returns [OF recordCompare_verdict [OF vs(1)]])
  obtain w ws where w: "aMem p = w # ws" using p by (cases "aMem p") (auto simp: key_ok_def)
  show ?thesis
  proof (cases "f = GeneralCompare")
    case True
    then show ?thesis using same_verdict_refl [OF ret] by (simp add: run_compare_def)
  next
    case False
    then have "length vs \<le> 13" using q vs(3) by (auto simp: sqlite3VdbeFindCompare_def split: if_splits)
    then obtain n where l: "fields_at fmt ?m ?N n 1 n vs" "n < 128" "?m 0 = of_nat n" "n = 1 + length (field_types fmt vs)"
      "sqlite3VdbeRecordCompare ?T ?N ?m q = compare_loop ?T ?N ?m n 0 1 n (aMem q) q"
      using short_record [OF vs(1)] by metis
    obtain v vs' where v: "vs = v # vs'" using vs(1) by (cases vs) (auto simp: record_values_def)
    define m N where "m = ?m" and "N = ?N"
    have n: "1 \<le> nField q" "nField q \<le> Suc (length vs')" "0 < nAllField (pKeyInfo q)"
      using p vs(2) v by (auto simp: key_ok_def same)
    have sr: "sorted_results q"
      using False q by (auto simp: sqlite3VdbeFindCompare_def sorted_results_def Let_def split: if_splits)
    have f: "fields_at fmt m N n 1 n (v # vs')" "n < 128" "m 0 = of_nat n"
      "compare_loop ?T N m n 0 1 n (aMem q) q \<noteq> None" using l(1-3,5) ret v by (simp_all only: m_def N_def not_False_eq_True simp_thms)
    have goal: "same_verdict (run_compare f ?T N m q) (compare_loop ?T N m n 0 1 n (aMem q) q)"
    proof (cases f)
      case IntCompare
      then obtain j where j: "w = VInt j" "key_i q = j"
        using q w by (cases w) (auto simp: sqlite3VdbeFindCompare_def Let_def mem_masks split: if_splits)
      show ?thesis
      proof (cases "ucast (m 1) \<in> {1, 2, 3, 4, 5, 6, 8, 9 :: u32}")
        case True
        show ?thesis
          using intCompare_fields [OF f(1-3) _ _ n(1,2) sr _ j(2) f(4) True, of ws] l(4) \<open>length vs \<le> 13\<close>
          by (simp add: IntCompare run_compare_def v same w j(1) del: compare_loop.simps field_types_simps)
      next
        case False
        then have "vdbeRecordCompareInt ?T N m q = sqlite3VdbeRecordCompare ?T N m q"
          by (simp add: vdbeRecordCompareInt_def record_int_lhs_eq Let_def)
        then show ?thesis
          using l(5) same_verdict_refl [OF f(4)] by (simp only: IntCompare run_compare_def RecordCompare.case m_def N_def)
      qed
    next
      case StringCompare
      then obtain x where x: "w = VText x" "key_z q = x" "key_n q = int (length x)" "aColl (pKeyInfo q) ! 0 = None"
        using q w by (cases w) (auto simp: sqlite3VdbeFindCompare_def Let_def mem_masks mem_n_def value_bytes_def split: if_splits)
      show ?thesis
        using stringCompare_fields [OF f(1-3) n(1,2) sr n(3) _ x(2-4) f(4), of ws]
        by (simp add: StringCompare run_compare_def same w x(1) del: compare_loop.simps)
    qed (use False in simp)
    then show ?thesis using l(5) by (simp only: m_def N_def)
  qed
qed

section \<open>Index order\<close>

text \<open>
  The comparison of two index entries as the B-tree layer makes it: the bytes of the first against the
  second unpacked.
\<close>

definition index_compare :: "nat \<Rightarrow> UnpackedRecord \<Rightarrow> mval list \<Rightarrow> mval list \<Rightarrow> int" where
  "index_compare fmt p x y =
     (let X = record_bytes fmt x; Y = record_bytes fmt y;
          p = p\<lparr>aMem := sqlite3VdbeRecordUnpack (length Y) (mem_of Y) (nField p)\<rparr>
      in case sqlite3VdbeRecordCompare (\<lambda>_ _ _. True) (length X) (mem_of X) p of Some (rc, _) \<Rightarrow> rc | None \<Rightarrow> 0)"

lemma stored_cell_ok: "key_value v \<Longrightarrow> cell_ok (stored v)"
  by (erule stored_classes) auto

lemma key_order_same_length: "length vs = length ws \<Longrightarrow> key_order ki i vs ws \<noteq> None"
  by (induction vs ws arbitrary: i rule: list_induct2) auto

lemma index_compare_sgn:
  assumes "record_values fmt x" "record_values fmt y" "length x = nField p" "length y = nField p"
    and "nField p \<le> nAllField (pKeyInfo p)" "default_rc p = 0"
  shows "sgn (index_compare fmt p x y) = sgn (key_cmp (pKeyInfo p) 0 (map stored x) (map stored y))"
proof -
  let ?Y = "record_bytes fmt y"
  let ?p = "p\<lparr>aMem := map stored y\<rparr>"
  have "length ?Y < 2 ^ 32" "length y < 2 ^ 32" using assms(2) by (auto simp: record_values_def)
  with record_bytes_unpack [of y fmt "nField p"] assms(2,4)
  have u: "sqlite3VdbeRecordUnpack (length ?Y) (mem_of ?Y) (nField p) = map stored y" by (simp add: record_values_def)
  have "1 \<le> nField p" using assms(2,4) by (cases y) (auto simp: record_values_def)
  then have "key_ok ?p"
    using assms(2,4,5) stored_cell_ok by (auto simp: key_ok_def record_values_def list_all_iff)
  from recordCompare_verdict [OF assms(1) this] obtain c where
    "key_order (pKeyInfo p) 0 (map stored x) (map stored y) = Some c"
    "key_verdict ?p (Some c) (sqlite3VdbeRecordCompare (\<lambda>_ _ _. True) (length (record_bytes fmt x)) (mem_of (record_bytes fmt x)) ?p)"
    using key_order_same_length [of "map stored x" "map stored y" "pKeyInfo p" 0] assms(3,4) by auto
  then show ?thesis
    using assms(6) by (auto simp: index_compare_def Let_def u key_cmp_def key_verdict_def split: if_splits)
qed

lemma index_comparison:
  assumes "\<And>i. i < nField p \<Longrightarrow> collated (aColl (pKeyInfo p) ! i)"
    and "nField p \<le> nAllField (pKeyInfo p)" "default_rc p = 0"
  shows "comparison (\<lambda>x. record_values fmt x \<and> length x = nField p) (index_compare fmt p)"
proof (rule comparison_same_sign)
  have "comparison (\<lambda>vs. length vs = nField p) (key_cmp (pKeyInfo p) 0)" using assms(1) by (intro key_cmp_comparison) simp
  from comparison_image [OF this, of "map stored"]
  show "comparison (\<lambda>x. record_values fmt x \<and> length x = nField p)
      (\<lambda>x y. key_cmp (pKeyInfo p) 0 (map stored x) (map stored y))"
    by (rule comparison_on) simp
qed (use index_compare_sgn assms(2,3) in auto)

section \<open>Properties of keys\<close>

text \<open>
  C2: \<open>sqlite3VdbeRecordCompare\<close> compares keys in index order.  For a record made by \<open>OP_MakeRecord\<close> and a
  well-formed key, the first column where the stored value differs from the cell of the key decides,
  by the order of values under the collation, the direction and the place of NULL of that column, and
  nothing is stored.  If no column differs, \<open>default_rc\<close> is returned and \<open>eqSeen\<close> set.  If the record ends
  before the key without a difference, the record counts as corrupt: 0 is returned and
  \<open>errCode\<close> is \<open>SQLITE_CORRUPT\<close>.
\<close>

theorem recordCompare_is_key_order:
  assumes "\<forall>v \<in> set vs. mval_size v \<le> 1000000000 \<and> key_value v" and "vs \<noteq> []" and "length vs < 2 ^ 16"
    and "szMalloc < 2 ^ 31" and "lim \<le> 1000000000"
    and "MakeRecord minFmt szMalloc lim mem_ok vs = Inr (rec, nZero)"
    and "1 \<le> nField p" and "nField p \<le> length (aMem p)" and "nField p \<le> nAllField (pKeyInfo p)"
    and "list_all cell_ok (take (nField p) (aMem p))"
  shows "case key_order (pKeyInfo p) 0 (map stored vs) (take (nField p) (aMem p)) of
      None \<Rightarrow> sqlite3VdbeRecordCompare (\<lambda>_ _ _. True) (length rec + nZero) (mem_of (rec @ replicate nZero 0)) p =
        Some (0, p\<lparr>errCode := SQLITE_CORRUPT\<rparr>)
    | Some c \<Rightarrow>
        if c = 0 then
          sqlite3VdbeRecordCompare (\<lambda>_ _ _. True) (length rec + nZero) (mem_of (rec @ replicate nZero 0)) p =
            Some (default_rc p, p\<lparr>eqSeen := True\<rparr>)
        else \<exists>rc. sgn rc = c \<and>
          sqlite3VdbeRecordCompare (\<lambda>_ _ _. True) (length rec + nZero) (mem_of (rec @ replicate nZero 0)) p = Some (rc, p)"
proof -
  note r = makeRecord_values [OF assms(1-6)]
  have "key_ok p" using assms(7-10) by (simp add: key_ok_def)
  from recordCompare_verdict [OF r(3) this] show ?thesis
    unfolding r(1,2) key_verdict_def by (auto split: option.splits if_splits)
qed

text \<open>An index on a descending integer column and a column with collation \<open>NOCASE\<close>, and a key for it.\<close>

definition sample_key :: UnpackedRecord where
  "sample_key =
     \<lparr>pKeyInfo = \<lparr>ki_enc = 1, nKeyField = 2, nAllField = 2, aSortFlags = [1, 0], aColl = [None, Some coll_NOCASE]\<rparr>,
      aMem = [VInt 5, VText [65, 67]], key_i = 0, key_z = [], key_n = 0, nField = 2, default_rc = 0, errCode = 0,
      key_r1 = 0, key_r2 = 0, eqSeen = False\<rparr>"

lemma sample_record: "MakeRecord 4 0 100 (\<lambda>_. True) [VInt 5, VText [97, 98]] = Inr ([3, 1, 17, 5, 97, 98], 0)"
  by code_simp

lemma sample_facts:
  "\<forall>v \<in> set [VInt 5, VText [97, 98]]. mval_size v \<le> 1000000000 \<and> key_value v" "[VInt 5, VText [97, 98]] \<noteq> []"
  "length [VInt 5, VText [97, 98]] < 2 ^ 16" "(0 :: nat) < 2 ^ 31" "(100 :: nat) \<le> 1000000000"
  "length [3, 1, 17, 5, 97, 98 :: u8] + 0 = 6" "[3, 1, 17, 5, 97, 98 :: u8] @ replicate 0 0 = [3, 1, 17, 5, 97, 98]"
  "1 \<le> nField sample_key" "nField sample_key \<le> length (aMem sample_key)"
  "nField sample_key \<le> nAllField (pKeyInfo sample_key)" "list_all cell_ok (take (nField sample_key) (aMem sample_key))"
  "nField sample_key \<le> length [VInt 5, VText [97, 98]]" "length [VInt 5, VText [97, 98]] \<le> nAllField (pKeyInfo sample_key)"
  by (simp_all add: sample_key_def)

theorem recordCompare_is_key_order_witness:
  "\<exists>rc. sqlite3VdbeRecordCompare (\<lambda>_ _ _. True) 6 (mem_of [3, 1, 17, 5, 97, 98]) sample_key = Some (rc, sample_key) \<and> rc < 0"
proof -
  let ?vs = "[VInt 5, VText [97, 98]]"
  have k: "key_order (pKeyInfo sample_key) 0 (map stored ?vs) (take (nField sample_key) (aMem sample_key)) = Some (-1)"
    by (simp add: column_order_def value_order_def sort_order_def eval_nat_numeral sample_key_def) code_simp
  show ?thesis
    using recordCompare_is_key_order [OF sample_facts(1-5) sample_record sample_facts(8-11), unfolded k sample_facts(6,7)]
    by (auto simp: sgn_1_neg)
qed

text \<open>
  C6: the function that \<open>sqlite3VdbeFindCompare\<close> returns gives the same answer as the general comparison.
  For a record made by \<open>OP_MakeRecord\<close> with at least the fields of the key and at most the fields of the
  index, both return, leave the key in the same state, and their results have the same sign.
\<close>

theorem findCompare_agrees:
  assumes "\<forall>v \<in> set vs. mval_size v \<le> 1000000000 \<and> key_value v" and "vs \<noteq> []" and "length vs < 2 ^ 16"
    and "szMalloc < 2 ^ 31" and "lim \<le> 1000000000"
    and "MakeRecord minFmt szMalloc lim mem_ok vs = Inr (rec, nZero)"
    and "1 \<le> nField p" and "nField p \<le> length (aMem p)" and "list_all cell_ok (take (nField p) (aMem p))"
    and "nField p \<le> length vs" and "length vs \<le> nAllField (pKeyInfo p)"
    and "sqlite3VdbeFindCompare p = (q, f)"
  shows "\<exists>rc rc' q'.
    run_compare f (\<lambda>_ _ _. True) (length rec + nZero) (mem_of (rec @ replicate nZero 0)) q = Some (rc, q') \<and>
    sqlite3VdbeRecordCompare (\<lambda>_ _ _. True) (length rec + nZero) (mem_of (rec @ replicate nZero 0)) q = Some (rc', q') \<and>
    sgn rc = sgn rc'"
proof -
  note r = makeRecord_values [OF assms(1-6)]
  have "key_ok p" using assms(7-11) by (simp add: key_ok_def)
  from findCompare_verdict [OF r(3) assms(10,11) this assms(12)] show ?thesis
    unfolding r(1,2) same_verdict_def .
qed

theorem findCompare_agrees_witness:
  "\<exists>q rc rc' q'. sqlite3VdbeFindCompare sample_key = (q, IntCompare) \<and>
    run_compare IntCompare (\<lambda>_ _ _. True) 6 (mem_of [3, 1, 17, 5, 97, 98]) q = Some (rc, q') \<and>
    sqlite3VdbeRecordCompare (\<lambda>_ _ _. True) 6 (mem_of [3, 1, 17, 5, 97, 98]) q = Some (rc', q') \<and> sgn rc = sgn rc'"
proof -
  obtain q where q: "sqlite3VdbeFindCompare sample_key = (q, IntCompare)"
    by (simp add: sqlite3VdbeFindCompare_def sample_key_def mem_masks KEYINFO_ORDER_BIGNULL_def Let_def)
  show ?thesis
    using q findCompare_agrees [OF sample_facts(1-5) sample_record sample_facts(8,9,11-13) q, unfolded sample_facts(6,7)]
    by blast
qed

text \<open>
  C14: the entries of an index are totally preordered.  If the collations of the key columns keep
  their contract, comparing serialized entries with unpacked ones gives opposite signs when the entries
  are swapped and is transitive, whatever the sort flags of the columns.
\<close>

theorem index_order_total:
  assumes "\<forall>i < nField p. \<forall>c. aColl (pKeyInfo p) ! i = Some c \<longrightarrow> comparison (\<lambda>_. True) (xCmp c)"
    and "nField p \<le> nAllField (pKeyInfo p)" and "default_rc p = 0"
    and "\<forall>k \<in> {x, y, z}. record_values minFmt k \<and> length k = nField p"
  shows "sgn (index_compare minFmt p y x) = - sgn (index_compare minFmt p x y) \<and>
    (index_compare minFmt p x y \<le> 0 \<and> index_compare minFmt p y z \<le> 0 \<longrightarrow> index_compare minFmt p x z \<le> 0)"
proof -
  have "comparison (\<lambda>x. record_values minFmt x \<and> length x = nField p) (index_compare minFmt p)"
    using assms(1-3) by (intro index_comparison) (auto intro: collated.intro)
  from comparison.flip [OF this] comparison.le_trans [OF this, of x y z] show ?thesis using assms(4) by blast
qed

theorem index_order_total_witness:
  "sgn (index_compare 4 sample_key [VInt 5, VText [97]] [VInt 7, VNull]) =
     - sgn (index_compare 4 sample_key [VInt 7, VNull] [VInt 5, VText [97]]) \<and>
   index_compare 4 sample_key [VInt 7, VNull] [VInt 2, VText []] \<le> 0"
proof -
  let ?x = "[VInt 7, VNull]" and ?y = "[VInt 5, VText [97]]" and ?z = "[VInt 2, VText []]"
  have "length (record_bytes 4 ?y) = 5" "length (record_bytes 4 ?x) = 4" "length (record_bytes 4 ?z) = 4" by code_simp+
  then have r: "\<forall>k \<in> {?x, ?y, ?z}. record_values 4 k \<and> length k = nField sample_key"
    by (simp add: record_values_def sample_key_def)
  have k: "nField sample_key \<le> nAllField (pKeyInfo sample_key)" "default_rc sample_key = 0" by (simp_all add: sample_key_def)
  have less: "index_compare 4 sample_key [VInt a, v] [VInt b, w] \<le> 0"
    if "[VInt a, v] \<in> {?x, ?y, ?z}" "[VInt b, w] \<in> {?x, ?y, ?z}" "sint b < sint a" for a b v w
  proof -
    have "sgn (index_compare 4 sample_key [VInt a, v] [VInt b, w]) =
        sgn (key_cmp (pKeyInfo sample_key) 0 (map stored [VInt a, v]) (map stored [VInt b, w]))"
      using r that(1,2) by (intro index_compare_sgn k) auto
    also have "\<dots> = -1"
      using that(3) double_one_pos
      by (simp add: key_cmp_def column_order_def value_order_def sort_order_def sample_key_def sgn_mult
        KEYINFO_ORDER_BIGNULL_def flip: left_diff_distrib)
    finally show ?thesis by (simp add: sgn_1_neg)
  qed
  have "\<forall>i < nField sample_key. \<forall>c. aColl (pKeyInfo sample_key) ! i = Some c \<longrightarrow> comparison (\<lambda>_. True) (xCmp c)"
    using nocase.comparison_axioms by (auto simp: sample_key_def coll_NOCASE_def less_2_cases_iff)
  from index_order_total [OF this k r] less [of 7 VNull 5 "VText [97]"] less [of 5 "VText [97]" 2 "VText []"]
  show ?thesis by simp
qed

end
