(* ===== verification/Sq_Sorter.thy ===== *)
theory Sq_Sorter
  imports Sq_Keycmp "HOL-Library.Monad_Syntax" "HOL-Library.Multiset"
begin

text \<open>
  The sorter of ORDER BY, GROUP BY and CREATE INDEX (vdbesort.c) as long as its records are in memory: opening
  it, writing records, the merge sort of \<open>vdbeSorterSort\<close> over the array \<open>aSlot\<close> with one of three comparison
  functions, and reading the records back.  What follows the first record that goes to a file, the PMAs
  and worker threads, is not modelled.

  The locale \<open>record_sorter\<close> states what the sort relies on, a comparison that has the sign of a total
  preorder and keeps the state of its unpacked record, and shows once that the sort then returns
  a stable sorted permutation.
\<close>

section \<open>Records and the sorter\<close>

text \<open>A record of the sorter: \<open>nVal\<close> bytes, here the list itself.\<close>

record SorterRecord =
  srVal :: "u8 list"

text \<open>
  The sorter while all its records are in memory (\<open>bUsePMA\<close> is 0).  \<open>pList\<close> is the linked list of records,
  the latest first, by pointers or by offsets into the one allocation \<open>aMemory\<close>; \<open>pUnpacked\<close> is that of the
  first task.
\<close>

record VdbeSorter =
  mnPmaSize :: int
  mxPmaSize :: int
  mxKeysize :: nat
  sKeyInfo :: KeyInfo
  pUnpacked :: "UnpackedRecord option"
  pList :: "SorterRecord list"
  aMemory :: bool
  szPMA :: nat
  iMemory :: nat
  nMemory :: nat
  typeMask :: u8

text \<open>What \<open>sqlite3VdbeSorterInit\<close> reads of the connection and of the global configuration.\<close>

record SorterConfig =
  tempInMemory :: bool
  bCoreMutex :: bool
  limitWorkerThreads :: nat
  cfg_pgsz :: nat
  cfg_szPma :: u32
  cache_size :: int
  bSmallMalloc :: bool

definition SORTER_TYPE_INTEGER :: u8 where "SORTER_TYPE_INTEGER = 0x01"
definition SORTER_TYPE_TEXT :: u8 where "SORTER_TYPE_TEXT = 0x02"

definition SQLITE_OK :: u8 where "SQLITE_OK = 0"
definition SQLITE_DONE :: u8 where "SQLITE_DONE = 101"

section \<open>Unpacking\<close>

text \<open>\<open>raw\<close> is what the allocated memory holds; \<open>None\<close> if there is none.\<close>

definition sqlite3VdbeAllocUnpackedRecord :: "UnpackedRecord option \<Rightarrow> KeyInfo \<Rightarrow> UnpackedRecord option" where
  "sqlite3VdbeAllocUnpackedRecord raw ki =
     map_option (\<lambda>p. p\<lparr>pKeyInfo := ki, aMem := replicate (nKeyField ki + 1) VNull, nField := nKeyField ki + 1\<rparr>) raw"

text \<open>What \<open>sqlite3VdbeRecordUnpack\<close> does to the unpacked record it fills.\<close>

definition unpack_into :: "u8 list \<Rightarrow> UnpackedRecord \<Rightarrow> UnpackedRecord" where
  "unpack_into key p =
     (let vs = sqlite3VdbeRecordUnpack (length key) (mem_of key) (nField p)
      in p\<lparr>default_rc := 0, aMem := vs @ drop (length vs) (aMem p), nField := length vs\<rparr>)"

section \<open>Comparing\<close>

text \<open>
  The comparison functions of the sorter have the unpacked record and the flag \<open>*pbKey2Cached\<close> as state;
  \<open>mem_ok\<close> tells which allocations of the comparison of strings succeed.
\<close>

type_synonym sorter_compare =
  "UnpackedRecord \<Rightarrow> bool \<Rightarrow> u8 list \<Rightarrow> u8 list \<Rightarrow> (int \<times> UnpackedRecord \<times> bool) option"

definition vdbeSorterCompareTail :: "(nat \<Rightarrow> nat \<Rightarrow> nat \<Rightarrow> bool) \<Rightarrow> sorter_compare" where
  "vdbeSorterCompareTail mem_ok r2 bKey2Cached pKey1 pKey2 =
     (let r2 = (if bKey2Cached then r2 else unpack_into pKey2 r2)
      in map_option (\<lambda>(res, r2). (res, r2, True))
           (sqlite3VdbeRecordCompareWithSkip mem_ok (length pKey1) (mem_of pKey1) r2 True))"

definition vdbeSorterCompare :: "(nat \<Rightarrow> nat \<Rightarrow> nat \<Rightarrow> bool) \<Rightarrow> sorter_compare" where
  "vdbeSorterCompare mem_ok r2 bKey2Cached pKey1 pKey2 =
     (let r2 = (if bKey2Cached then r2 else unpack_into pKey2 r2)
      in map_option (\<lambda>(res, r2). (res, r2, True))
           (sqlite3VdbeRecordCompare mem_ok (length pKey1) (mem_of pKey1) r2))"

definition sort_descending :: "KeyInfo \<Rightarrow> int \<Rightarrow> int" where
  "sort_descending ki res = (if aSortFlags ki ! 0 \<noteq> 0 then res * -1 else res)"

definition vdbeSorterCompareText :: "(nat \<Rightarrow> nat \<Rightarrow> nat \<Rightarrow> bool) \<Rightarrow> KeyInfo \<Rightarrow> sorter_compare" where
  "vdbeSorterCompareText mem_ok ki r2 bKey2Cached pKey1 pKey2 =
     (let p1 = mem_of pKey1; p2 = mem_of pKey2;
          v1 = (\<lambda>k. p1 (unat (p1 0) + k)); v2 = (\<lambda>k. p2 (unat (p2 0) + k));
          n1 = sint (snd (getVarint32 (\<lambda>k. p1 (1 + k)))); n2 = sint (snd (getVarint32 (\<lambda>k. p2 (1 + k))));
          res = memcmp v1 v2 (nat ((min n1 n2 - 13) div 2));
          res = (if res = 0 then n1 - n2 else res)
      in if res = 0 then
           (if nKeyField ki > 1 then vdbeSorterCompareTail mem_ok r2 bKey2Cached pKey1 pKey2
            else Some (res, r2, bKey2Cached))
         else Some (sort_descending ki res, r2, bKey2Cached))"

text \<open>The loop over the bytes of two integers of the same serial type.\<close>

fun int_bytes_compare :: "mem \<Rightarrow> mem \<Rightarrow> nat \<Rightarrow> nat \<Rightarrow> int" where
  "int_bytes_compare v1 v2 i 0 = 0"
| "int_bytes_compare v1 v2 i (Suc n) =
     (if v1 i \<noteq> v2 i then
        (if (v1 0 XOR v2 0) AND 0x80 \<noteq> 0 then (if v1 0 AND 0x80 \<noteq> 0 then -1 else 1)
         else uint (v1 i) - uint (v2 i))
      else int_bytes_compare v1 v2 (i + 1) n)"

definition aLen :: "nat list" where
  "aLen = [0, 1, 2, 3, 4, 6, 8, 0, 0, 0]"

definition sorter_int_res :: "nat \<Rightarrow> nat \<Rightarrow> mem \<Rightarrow> mem \<Rightarrow> int" where
  "sorter_int_res s1 s2 v1 v2 =
     (if s1 = s2 then int_bytes_compare v1 v2 0 (aLen ! s1)
      else if s1 > 7 \<and> s2 > 7 then int s1 - int s2
      else
        let res = (if s2 > 7 then 1 else if s1 > 7 then -1 else int s1 - int s2)
        in if res > 0 then (if v1 0 AND 0x80 \<noteq> 0 then -1 else res)
           else (if v2 0 AND 0x80 \<noteq> 0 then 1 else res))"

definition vdbeSorterCompareInt :: "(nat \<Rightarrow> nat \<Rightarrow> nat \<Rightarrow> bool) \<Rightarrow> KeyInfo \<Rightarrow> sorter_compare" where
  "vdbeSorterCompareInt mem_ok ki r2 bKey2Cached pKey1 pKey2 =
     (let p1 = mem_of pKey1; p2 = mem_of pKey2;
          res = sorter_int_res (unat (p1 1)) (unat (p2 1))
            (\<lambda>k. p1 (unat (p1 0) + k)) (\<lambda>k. p2 (unat (p2 0) + k))
      in if res = 0 then
           (if nKeyField ki > 1 then vdbeSorterCompareTail mem_ok r2 bKey2Cached pKey1 pKey2
            else Some (res, r2, bKey2Cached))
         else Some (sort_descending ki res, r2, bKey2Cached))"

definition vdbeSorterGetCompare :: "(nat \<Rightarrow> nat \<Rightarrow> nat \<Rightarrow> bool) \<Rightarrow> VdbeSorter \<Rightarrow> sorter_compare" where
  "vdbeSorterGetCompare mem_ok p =
     (if typeMask p = SORTER_TYPE_INTEGER then vdbeSorterCompareInt mem_ok (sKeyInfo p)
      else if typeMask p = SORTER_TYPE_TEXT then vdbeSorterCompareText mem_ok (sKeyInfo p)
      else vdbeSorterCompare mem_ok)"

section \<open>Merging and sorting\<close>

text \<open>
  \<open>vdbeSorterMerge\<close> of two lists that are not empty.  \<open>None\<close> is a null list or a failed comparison.
\<close>

function merge_from ::
    "sorter_compare \<Rightarrow> UnpackedRecord \<Rightarrow> bool \<Rightarrow> SorterRecord list \<Rightarrow> SorterRecord list \<Rightarrow>
     (SorterRecord list \<times> UnpackedRecord) option" where
  "merge_from xCompare r bCached p1 p2 =
     (case (p1, p2) of
        (x # xs, y # ys) \<Rightarrow>
          (case xCompare r bCached (srVal x) (srVal y) of
             None \<Rightarrow> None
           | Some (res, r, bCached) \<Rightarrow>
               if res \<le> 0 then
                 (if xs = [] then Some (x # p2, r)
                  else map_option (\<lambda>(zs, r). (x # zs, r)) (merge_from xCompare r bCached xs p2))
               else
                 (if ys = [] then Some (y # p1, r)
                  else map_option (\<lambda>(zs, r). (y # zs, r)) (merge_from xCompare r False p1 ys)))
      | _ \<Rightarrow> None)"
  by pat_completeness auto
termination by (relation "measure (\<lambda>(f, r, c, p1, p2). length p1 + length p2)") auto

declare merge_from.simps [simp del]

definition vdbeSorterMerge ::
    "sorter_compare \<Rightarrow> UnpackedRecord \<Rightarrow> SorterRecord list \<Rightarrow> SorterRecord list \<Rightarrow>
     (SorterRecord list \<times> UnpackedRecord) option" where
  "vdbeSorterMerge xCompare r p1 p2 = merge_from xCompare r False p1 p2"

text \<open>
  The inner loop of \<open>vdbeSorterSort\<close> over the slots from \<open>aSlot[i]\<close> on; the array ends where the list does,
  and going past its end is \<open>None\<close>.  An empty list is a null pointer.
\<close>

fun slot_insert ::
    "sorter_compare \<Rightarrow> UnpackedRecord \<Rightarrow> SorterRecord list \<Rightarrow> SorterRecord list list \<Rightarrow>
     (SorterRecord list list \<times> UnpackedRecord) option" where
  "slot_insert xCompare r p [] = None"
| "slot_insert xCompare r p (s # aSlot) =
     (if s = [] then Some (p # aSlot, r)
      else do {
        (p, r) \<leftarrow> vdbeSorterMerge xCompare r p s;
        (aSlot, r) \<leftarrow> slot_insert xCompare r p aSlot;
        Some ([] # aSlot, r)
      })"

fun sort_records ::
    "sorter_compare \<Rightarrow> UnpackedRecord \<Rightarrow> SorterRecord list list \<Rightarrow> SorterRecord list \<Rightarrow>
     (SorterRecord list list \<times> UnpackedRecord) option" where
  "sort_records xCompare r aSlot [] = Some (aSlot, r)"
| "sort_records xCompare r aSlot (p # pNext) = do {
     (aSlot, r) \<leftarrow> slot_insert xCompare r [p] aSlot;
     sort_records xCompare r aSlot pNext
   }"

fun merge_slots ::
    "sorter_compare \<Rightarrow> UnpackedRecord \<Rightarrow> SorterRecord list \<Rightarrow> SorterRecord list list \<Rightarrow>
     (SorterRecord list \<times> UnpackedRecord) option" where
  "merge_slots xCompare r p [] = Some (p, r)"
| "merge_slots xCompare r p (s # aSlot) =
     (if s = [] then merge_slots xCompare r p aSlot
      else if p = [] then merge_slots xCompare r s aSlot
      else do {
        (p, r) \<leftarrow> vdbeSorterMerge xCompare r p s;
        merge_slots xCompare r p aSlot
      })"

text \<open>The unpacked record of the task, allocated if there is none yet; \<open>None\<close> is \<open>SQLITE_NOMEM\<close>.\<close>

definition vdbeSortAllocUnpacked :: "UnpackedRecord option \<Rightarrow> VdbeSorter \<Rightarrow> UnpackedRecord option" where
  "vdbeSortAllocUnpacked raw p =
     (case pUnpacked p of
        Some r \<Rightarrow> Some r
      | None \<Rightarrow> map_option (\<lambda>r. r\<lparr>nField := nKeyField (sKeyInfo p), errCode := 0\<rparr>)
                  (sqlite3VdbeAllocUnpackedRecord raw (sKeyInfo p)))"

definition vdbeSorterSort ::
    "(nat \<Rightarrow> nat \<Rightarrow> nat \<Rightarrow> bool) \<Rightarrow> UnpackedRecord option \<Rightarrow> VdbeSorter \<Rightarrow> (u8 \<times> VdbeSorter) option" where
  "vdbeSorterSort mem_ok raw p =
     (case vdbeSortAllocUnpacked raw p of
        None \<Rightarrow> Some (SQLITE_NOMEM, p)
      | Some r \<Rightarrow>
          let xCompare = vdbeSorterGetCompare mem_ok p in do {
            (aSlot, r) \<leftarrow> sort_records xCompare r (replicate 64 []) (pList p);
            (l, r) \<leftarrow> merge_slots xCompare r [] aSlot;
            Some (errCode r, p\<lparr>pList := l, pUnpacked := Some r\<rparr>)
          })"

section \<open>Operations of the sorter cursor\<close>

definition SQLITE_MAX_PMASZ :: int where
  "SQLITE_MAX_PMASZ = 2 ^ 29"

definition sorter_nWorker :: "SorterConfig \<Rightarrow> nat" where
  "sorter_nWorker db = (if tempInMemory db \<or> \<not> bCoreMutex db then 0 else limitWorkerThreads db)"

text \<open>The limits on memory, and the one allocation for all records unless it is not wanted.\<close>

definition sorter_memory :: "(nat \<Rightarrow> bool) \<Rightarrow> SorterConfig \<Rightarrow> VdbeSorter \<Rightarrow> u8 \<times> VdbeSorter" where
  "sorter_memory mem_ok db p =
     (if tempInMemory db then (SQLITE_OK, p)
      else
        let pgsz = cfg_pgsz db;
            p = p\<lparr>mnPmaSize := sint (cfg_szPma db * of_nat pgsz)\<rparr>;
            mxCache = (if cache_size db < 0 then cache_size db * -1024 else cache_size db * int pgsz);
            mxCache = min mxCache SQLITE_MAX_PMASZ;
            p = p\<lparr>mxPmaSize := max (mnPmaSize p) mxCache\<rparr>
        in if bSmallMalloc db then (SQLITE_OK, p)
           else (if mem_ok pgsz then SQLITE_OK else SQLITE_NOMEM, p\<lparr>nMemory := pgsz, aMemory := mem_ok pgsz\<rparr>))"

text \<open>
  \<open>zero_ok\<close> tells whether the sorter can be allocated, and \<open>dflt\<close> whether the collation of the first column
  is the default collation of the connection.
\<close>

definition sqlite3VdbeSorterInit ::
    "bool \<Rightarrow> (nat \<Rightarrow> bool) \<Rightarrow> SorterConfig \<Rightarrow> nat \<Rightarrow> KeyInfo \<Rightarrow> bool \<Rightarrow> u8 \<times> VdbeSorter option" where
  "sqlite3VdbeSorterInit zero_ok mem_ok db nKey ki dflt =
     (if \<not> zero_ok then (SQLITE_NOMEM, None)
      else
        let ki = (if nKey \<noteq> 0 \<and> sorter_nWorker db = 0 then ki\<lparr>nKeyField := nKey\<rparr> else ki);
            (rc, p) = sorter_memory mem_ok db
              \<lparr>mnPmaSize = 0, mxPmaSize = 0, mxKeysize = 0, sKeyInfo = ki, pUnpacked = None, pList = [],
               aMemory = False, szPMA = 0, iMemory = 0, nMemory = 0, typeMask = 0\<rparr>;
            p = (if nAllField ki < 13 \<and> (aColl ki ! 0 = None \<or> dflt) \<and>
                    aSortFlags ki ! 0 AND KEYINFO_ORDER_BIGNULL = 0
                 then p\<lparr>typeMask := SORTER_TYPE_INTEGER OR SORTER_TYPE_TEXT\<rparr> else p)
        in (rc, Some p))"

definition sorter_type :: "int \<Rightarrow> u8" where
  "sorter_type t =
     (if t > 0 \<and> t < 10 \<and> t \<noteq> 7 then SORTER_TYPE_INTEGER
      else if t > 10 \<and> odd t then SORTER_TYPE_TEXT else 0)"

definition SORTER_RECORD_SIZE :: nat where
  "SORTER_RECORD_SIZE = 16"

definition ROUND8 :: "nat \<Rightarrow> nat" where
  "ROUND8 x = (x + 7) div 8 * 8"

text \<open>The loop that doubles the size of the allocation; from 0 it would not end, which is \<open>None\<close>.\<close>

function grow_memory :: "nat \<Rightarrow> nat \<Rightarrow> nat option" where
  "grow_memory nMin nNew =
     (if nNew < nMin then (if nNew = 0 then None else grow_memory nMin (nNew * 2)) else Some nNew)"
  by pat_completeness auto
termination by (relation "measure (\<lambda>(nMin, nNew). nMin - nNew)") auto

declare grow_memory.simps [simp del]

text \<open>Making room for \<open>nReq\<close> bytes in \<open>aMemory\<close>.\<close>

definition sorter_reserve :: "(nat \<Rightarrow> bool) \<Rightarrow> nat \<Rightarrow> VdbeSorter \<Rightarrow> (u8 \<times> VdbeSorter) option" where
  "sorter_reserve mem_ok nReq p =
     (let nMin = iMemory p + nReq in
      if nMin > nMemory p then do {
        nNew \<leftarrow> grow_memory nMin (2 * nMemory p);
        let nNew = (if int nNew > mxPmaSize p then nat (mxPmaSize p) else nNew);
        let nNew = (if nNew < nMin then nMin else nNew);
        Some (if mem_ok nNew then (SQLITE_OK, p\<lparr>nMemory := nNew\<rparr>) else (SQLITE_NOMEM, p))
      }
      else Some (SQLITE_OK, p))"

text \<open>Whether the records must be written to a file first; \<open>heap_full\<close> is what \<open>sqlite3HeapNearlyFull\<close> returns.\<close>

definition sorter_flush :: "bool \<Rightarrow> nat \<Rightarrow> VdbeSorter \<Rightarrow> bool" where
  "sorter_flush heap_full nReq p \<longleftrightarrow> mxPmaSize p \<noteq> 0 \<and>
     (if aMemory p then iMemory p \<noteq> 0 \<and> int (iMemory p + nReq) > mxPmaSize p
      else int (szPMA p) > mxPmaSize p \<or> int (szPMA p) > mnPmaSize p \<and> heap_full)"

text \<open>\<open>None\<close>: the sorter starts to use files.\<close>

definition sqlite3VdbeSorterWrite ::
    "(nat \<Rightarrow> bool) \<Rightarrow> bool \<Rightarrow> VdbeSorter \<Rightarrow> u8 list \<Rightarrow> (u8 \<times> VdbeSorter) option" where
  "sqlite3VdbeSorterWrite mem_ok heap_full p z =
     (let t = sint (snd (getVarint32 (\<lambda>k. mem_of z (1 + k))));
          p = p\<lparr>typeMask := typeMask p AND sorter_type t\<rparr>;
          nReq = length z + SORTER_RECORD_SIZE;
          nPMA = length z + sqlite3VarintLen (of_nat (length z))
      in if sorter_flush heap_full nReq p then None
         else
           let p = p\<lparr>szPMA := szPMA p + nPMA, mxKeysize := (if nPMA > mxKeysize p then nPMA else mxKeysize p)\<rparr>
           in if aMemory p then do {
                (rc, p) \<leftarrow> sorter_reserve mem_ok nReq p;
                Some (if rc \<noteq> SQLITE_OK then (rc, p)
                      else (SQLITE_OK, p\<lparr>iMemory := iMemory p + ROUND8 nReq, pList := \<lparr>srVal = z\<rparr> # pList p\<rparr>))
              }
              else if \<not> mem_ok nReq then Some (SQLITE_NOMEM, p)
              else Some (SQLITE_OK, p\<lparr>pList := \<lparr>srVal = z\<rparr> # pList p\<rparr>))"

text \<open>Result code, end of data and the sorter.\<close>

definition sqlite3VdbeSorterRewind ::
    "(nat \<Rightarrow> nat \<Rightarrow> nat \<Rightarrow> bool) \<Rightarrow> UnpackedRecord option \<Rightarrow> VdbeSorter \<Rightarrow> (u8 \<times> bool \<times> VdbeSorter) option" where
  "sqlite3VdbeSorterRewind mem_ok raw p =
     (if pList p \<noteq> [] then map_option (\<lambda>(rc, p). (rc, False, p)) (vdbeSorterSort mem_ok raw p)
      else Some (SQLITE_OK, True, p))"

definition sqlite3VdbeSorterNext :: "VdbeSorter \<Rightarrow> (u8 \<times> VdbeSorter) option" where
  "sqlite3VdbeSorterNext p =
     (case pList p of
        [] \<Rightarrow> None
      | pFree # l \<Rightarrow> Some (if l \<noteq> [] then SQLITE_OK else SQLITE_DONE, p\<lparr>pList := l\<rparr>))"

definition vdbeSorterRowkey :: "VdbeSorter \<Rightarrow> u8 list option" where
  "vdbeSorterRowkey p = (case pList p of [] \<Rightarrow> None | x # l \<Rightarrow> Some (srVal x))"

definition sqlite3VdbeSorterRowkey :: "(nat \<Rightarrow> bool) \<Rightarrow> VdbeSorter \<Rightarrow> (u8 \<times> u8 list) option" where
  "sqlite3VdbeSorterRowkey mem_ok p =
     map_option (\<lambda>z. if mem_ok (length z) then (SQLITE_OK, z) else (SQLITE_NOMEM, [])) (vdbeSorterRowkey p)"

text \<open>
  The core of \<open>OP_SorterCompare\<close>: whether the value \<open>z\<close> agrees in \<open>nKeyCol\<close> columns with the current key.
  \<open>r\<close> is the unpacked record of the sorter, if it has been allocated.
\<close>

definition sqlite3VdbeSorterCompare ::
    "(nat \<Rightarrow> nat \<Rightarrow> nat \<Rightarrow> bool) \<Rightarrow> UnpackedRecord option \<Rightarrow> UnpackedRecord option \<Rightarrow> KeyInfo \<Rightarrow> VdbeSorter \<Rightarrow>
     u8 list \<Rightarrow> nat \<Rightarrow> (u8 \<times> int \<times> UnpackedRecord option) option" where
  "sqlite3VdbeSorterCompare mem_ok raw r ki p z nKeyCol =
     (case (case r of Some r2 \<Rightarrow> Some r2
            | None \<Rightarrow> map_option (\<lambda>r2. r2\<lparr>nField := nKeyCol\<rparr>) (sqlite3VdbeAllocUnpackedRecord raw ki)) of
        None \<Rightarrow> Some (SQLITE_NOMEM, 0, None)
      | Some r2 \<Rightarrow> do {
          key \<leftarrow> vdbeSorterRowkey p;
          let r2 = unpack_into key r2;
          if list_ex (\<lambda>i. mem_flags (aMem r2 ! i) AND MEM_Null \<noteq> 0) [0..<nKeyCol] then Some (SQLITE_OK, -1, Some r2)
          else do {
            (res, r2) \<leftarrow> sqlite3VdbeRecordCompare mem_ok (length z) (mem_of z) r2;
            Some (SQLITE_OK, res, Some r2)
          }
        })"

section \<open>Merge sort with any comparison\<close>

text \<open>Slot \<open>i\<close> is empty or holds \<open>n * 2 ^ i\<close> records.\<close>

fun sizes :: "nat \<Rightarrow> 'a list list \<Rightarrow> bool" where
  "sizes n [] \<longleftrightarrow> True"
| "sizes n (s # ss) \<longleftrightarrow> (s = [] \<or> length s = n) \<and> sizes (2 * n) ss"

text \<open>
  What the sort relies on: comparing two records always returns, keeps the invariant of the unpacked record
  and the meaning of the cache flag, and has the sign of a total preorder on records.
\<close>

locale record_sorter = comparison ok order
  for ok :: "u8 list \<Rightarrow> bool" and order :: "u8 list \<Rightarrow> u8 list \<Rightarrow> int" +
  fixes xCompare :: sorter_compare and inv :: "UnpackedRecord \<Rightarrow> bool" and holds :: "UnpackedRecord \<Rightarrow> u8 list \<Rightarrow> bool"
  assumes compare: "inv r \<Longrightarrow> ok x \<Longrightarrow> ok y \<Longrightarrow> c \<longrightarrow> holds r y \<Longrightarrow>
    \<exists>res r' c'. xCompare r c x y = Some (res, r', c') \<and> inv r' \<and> (c' \<longrightarrow> holds r' y) \<and> sgn res = sgn (order x y)"
begin

definition oks :: "SorterRecord list \<Rightarrow> bool" where
  "oks l \<longleftrightarrow> (\<forall>x \<in> set l. ok (srVal x))"

definition ordered :: "SorterRecord list \<Rightarrow> bool" where
  "ordered l \<longleftrightarrow> sorted_wrt (\<lambda>a b. order (srVal a) (srVal b) \<le> 0) l"

text \<open>The records of a list that are equal to \<open>k\<close>, in their order.\<close>

definition same :: "u8 list \<Rightarrow> SorterRecord list \<Rightarrow> SorterRecord list" where
  "same k l = filter (\<lambda>x. order k (srVal x) = 0) l"

lemma oks_simps [simp]: "oks []" "oks (x # l) \<longleftrightarrow> ok (srVal x) \<and> oks l" "oks (l @ m) \<longleftrightarrow> oks l \<and> oks m"
  by (auto simp: oks_def)

lemma same_simps [simp]: "same k [] = []" "same k (l @ m) = same k l @ same k m"
  by (simp_all add: same_def)

lemma ordered_Nil [simp]: "ordered []" "ordered [x]"
  by (simp_all add: ordered_def)

lemma ordered_Cons: "ordered (x # l) \<longleftrightarrow> (\<forall>y \<in> set l. order (srVal x) (srVal y) \<le> 0) \<and> ordered l"
  by (simp add: ordered_def)

text \<open>\<open>l\<close> is a stable merge of \<open>p1\<close> and \<open>p2\<close>.\<close>

definition stable_merge :: "SorterRecord list \<Rightarrow> SorterRecord list \<Rightarrow> SorterRecord list \<Rightarrow> bool" where
  "stable_merge p1 p2 l \<longleftrightarrow> mset l = mset p1 + mset p2 \<and> ordered l \<and> (\<forall>k. ok k \<longrightarrow> same k l = same k p1 @ same k p2)"

lemma below_all:
  assumes "ordered (x # xs)" "oks (x # xs)" "ok y" "order y (srVal x) \<le> 0"
  shows "\<forall>z \<in> set (x # xs). order y (srVal z) \<le> 0"
  using assms le_trans [of y "srVal x"] by (auto simp: ordered_Cons oks_def)

lemma strictly_below_all:
  assumes "ordered (x # xs)" "oks (x # xs)" "ok y" "order y (srVal x) < 0"
  shows "\<forall>z \<in> set (x # xs). order y (srVal z) < 0"
  using assms less_le_trans [of y "srVal x"] by (auto simp: ordered_Cons oks_def)

lemma merged_left:
  assumes "stable_merge xs (y # ys) l" "ordered (x # xs)" "ordered (y # ys)" "oks (x # xs)" "oks (y # ys)"
    "order (srVal x) (srVal y) \<le> 0"
  shows "stable_merge (x # xs) (y # ys) (x # l)"
proof -
  have "set l = set xs \<union> set (y # ys)" using assms(1) unfolding stable_merge_def by (metis set_mset_mset set_mset_union)
  then have "ordered (x # l)"
    using assms below_all [of y ys "srVal x"] by (auto simp: stable_merge_def ordered_Cons)
  then show ?thesis using assms(1) by (auto simp: stable_merge_def same_def)
qed

lemma merged_right:
  assumes "stable_merge (x # xs) ys l" "ordered (x # xs)" "ordered (y # ys)" "oks (x # xs)" "oks (y # ys)"
    "order (srVal y) (srVal x) < 0"
  shows "stable_merge (x # xs) (y # ys) (y # l)"
proof -
  have "set l = set (x # xs) \<union> set ys" using assms(1) unfolding stable_merge_def by (metis set_mset_mset set_mset_union)
  moreover have b: "\<forall>z \<in> set (x # xs). order (srVal y) (srVal z) < 0"
    using strictly_below_all [of x xs "srVal y"] assms by auto
  ultimately have "ordered (y # l)"
    using assms by (fastforce simp: stable_merge_def ordered_Cons)
  moreover have "same k (x # xs) = []" if k: "ok k" "order k (srVal y) = 0" for k
  proof -
    have "order k (srVal z) < 0" if "z \<in> set (x # xs)" for z
      using le_less_trans [of k "srVal y" "srVal z"] k that b assms(4,5) by (auto simp: oks_def)
    then show ?thesis by (force simp: same_def filter_empty_conv)
  qed
  ultimately show ?thesis using assms(1) by (auto simp: stable_merge_def same_def)
qed

lemma merged_rest:
  "ordered (x # p2) \<Longrightarrow> stable_merge [x] p2 (x # p2)"
  by (auto simp: stable_merge_def same_def)

lemma merge_from_ok:
  assumes "inv r" "oks p1" "oks p2" "p1 \<noteq> []" "p2 \<noteq> []" "c \<longrightarrow> holds r (srVal (hd p2))" "ordered p1" "ordered p2"
  shows "\<exists>l r'. merge_from xCompare r c p1 p2 = Some (l, r') \<and> inv r' \<and> stable_merge p1 p2 l"
  using assms
proof (induction "length p1 + length p2" arbitrary: r c p1 p2 rule: less_induct)
  case less
  obtain x xs y ys where p: "p1 = x # xs" "p2 = y # ys" using less.prems(4,5) by (cases p1; cases p2) auto
  have ok: "ok (srVal x)" "ok (srVal y)" using less.prems p by auto
  obtain res r' c' where c: "xCompare r c (srVal x) (srVal y) = Some (res, r', c')" "inv r'" "c' \<longrightarrow> holds r' (srVal y)"
    "sgn res = sgn (order (srVal x) (srVal y))" using compare [OF less.prems(1) ok, of c] less.prems(6) p by auto
  have sg: "res \<le> 0 \<longleftrightarrow> order (srVal x) (srVal y) \<le> 0" using c(4) by (metis sgn_le)
  show ?case
  proof (cases "res \<le> 0")
    case True
    note left = merged_left [of xs y ys _ x]
    show ?thesis
    proof (cases "xs = []")
      case True
      have "stable_merge xs (y # ys) (y # ys)" using True less.prems(8) by (simp add: stable_merge_def p)
      with True show ?thesis
        using left [of "y # ys"] less.prems c \<open>res \<le> 0\<close> sg by (simp add: merge_from.simps p)
    next
      case False
      then obtain l r'' where "merge_from xCompare r' c' xs p2 = Some (l, r'')" "inv r''" "stable_merge xs p2 l"
        using less.hyps [of xs p2 r' c'] less.prems c(2,3) by (auto simp: p ordered_Cons)
      then show ?thesis
        using left [of l] less.prems c \<open>res \<le> 0\<close> sg False by (simp add: merge_from.simps [of _ _ _ "_ # _"] p)
    qed
  next
    case False
    then have lt: "order (srVal y) (srVal x) < 0" using sg less_iff [OF ok] by simp
    note right = merged_right [of x xs ys _ y]
    show ?thesis
    proof (cases "ys = []")
      case True
      have "stable_merge (x # xs) ys (x # xs)" using True less.prems(7) by (simp add: stable_merge_def p)
      with True show ?thesis
        using right [of "x # xs"] less.prems c False lt by (simp add: merge_from.simps p)
    next
      case ys: False
      then obtain l r'' where "merge_from xCompare r' False p1 ys = Some (l, r'')" "inv r''" "stable_merge p1 ys l"
        using less.hyps [of p1 ys r' False] less.prems c(2) by (auto simp: p ordered_Cons)
      then show ?thesis
        using right [of l] less.prems c False lt ys by (simp add: merge_from.simps [of _ _ _ "_ # _"] p)
    qed
  qed
qed

lemma slot_insert_ok:
  assumes "inv r" "oks p" "length p = n" "0 < n" "ordered p" "oks (concat aSlot)" "list_all ordered aSlot"
    "sizes n aSlot" "length (concat aSlot) < n * (2 ^ length aSlot - 1)"
  shows "\<exists>ss r'. slot_insert xCompare r p aSlot = Some (ss, r') \<and> inv r' \<and> length ss = length aSlot \<and> sizes n ss \<and>
    list_all ordered ss \<and> mset (concat ss) = mset p + mset (concat aSlot) \<and>
    (\<forall>k. ok k \<longrightarrow> same k (concat ss) = same k p @ same k (concat aSlot))"
  using assms
proof (induction aSlot arbitrary: r p n)
  case (Cons s aSlot)
  show ?case
  proof (cases "s = []")
    case True
    then show ?thesis using Cons.prems by auto
  next
    case False
    then have s: "length s = n" "ordered s" "oks s" using Cons.prems by auto
    have "p \<noteq> []" using Cons.prems(3,4) by auto
    then obtain l r' where m: "vdbeSorterMerge xCompare r p s = Some (l, r')" "inv r'" "stable_merge p s l"
      using merge_from_ok [OF Cons.prems(1,2) s(3) _ False _ Cons.prems(5) s(2), of False] by (auto simp: vdbeSorterMerge_def)
    have l: "length l = 2 * n" "oks l" "ordered l"
      using m(3) s Cons.prems(2,3) mset_eq_setD [of l "p @ s"] by (auto simp: stable_merge_def oks_def dest: mset_eq_length [of l "p @ s", simplified])
    have "2 * n * (2 ^ length aSlot - 1) = n * (2 ^ length (s # aSlot) - 1) - n"
      by (simp add: diff_mult_distrib2)
    then have "length (concat aSlot) < 2 * n * (2 ^ length aSlot - 1)" using Cons.prems(9) s(1) by simp
    then obtain ss r'' where i: "slot_insert xCompare r' l aSlot = Some (ss, r'')" "inv r''" "length ss = length aSlot"
      "sizes (2 * n) ss" "list_all ordered ss" "mset (concat ss) = mset l + mset (concat aSlot)"
      "\<forall>k. ok k \<longrightarrow> same k (concat ss) = same k l @ same k (concat aSlot)"
      using Cons.IH [OF m(2) l(2,1) _ l(3), of ] Cons.prems by auto
    then show ?thesis
      using False m by (auto simp: stable_merge_def)
  qed
qed simp

lemma oks_mset: "mset l = mset m \<Longrightarrow> oks l \<longleftrightarrow> oks m"
  by (auto simp: oks_def dest: mset_eq_setD)

lemma sort_records_ok:
  assumes "inv r" "oks (concat aSlot)" "list_all ordered aSlot" "sizes 1 aSlot" "oks l"
    "length (concat aSlot) + length l \<le> 2 ^ length aSlot - 1"
  shows "\<exists>ss r'. sort_records xCompare r aSlot l = Some (ss, r') \<and> inv r' \<and> list_all ordered ss \<and>
    mset (concat ss) = mset l + mset (concat aSlot) \<and>
    (\<forall>k. ok k \<longrightarrow> same k (concat ss) = same k (rev l) @ same k (concat aSlot))"
  using assms
proof (induction l arbitrary: r aSlot)
  case (Cons x l)
  have "ok (srVal x)" using Cons.prems(5) by simp
  then obtain ss r' where i: "slot_insert xCompare r [x] aSlot = Some (ss, r')" "inv r'" "length ss = length aSlot"
    "sizes 1 ss" "list_all ordered ss" "mset (concat ss) = mset [x] + mset (concat aSlot)"
    "\<forall>k. ok k \<longrightarrow> same k (concat ss) = same k [x] @ same k (concat aSlot)"
    using slot_insert_ok [of r "[x]" 1 aSlot] Cons.prems by auto
  have "oks (concat ss)" "length (concat ss) = Suc (length (concat aSlot))"
    using i(6) Cons.prems(2,5) oks_mset [of "concat ss" "x # concat aSlot"] mset_eq_length [of "concat ss" "x # concat aSlot"]
    by auto
  with Cons.IH [OF i(2) _ i(5,4)] i(3) Cons.prems(5,6) obtain ss' r'' where
    "sort_records xCompare r' ss l = Some (ss', r'')" "inv r''" "list_all ordered ss'"
    "mset (concat ss') = mset l + mset (concat ss)"
    "\<forall>k. ok k \<longrightarrow> same k (concat ss') = same k (rev l) @ same k (concat ss)" by auto
  then show ?case using i by simp
qed auto

lemma merge_slots_ok:
  assumes "inv r" "oks p" "ordered p" "oks (concat aSlot)" "list_all ordered aSlot"
  shows "\<exists>l r'. merge_slots xCompare r p aSlot = Some (l, r') \<and> inv r' \<and> stable_merge p (concat aSlot) l"
  using assms
proof (induction aSlot arbitrary: r p)
  case Nil
  then show ?case by (simp add: stable_merge_def)
next
  case (Cons s aSlot)
  consider "s = []" | "s \<noteq> []" "p = []" | "s \<noteq> []" "p \<noteq> []" by blast
  then show ?case
  proof cases
    case 1
    then show ?thesis using Cons by simp
  next
    case 2
    then show ?thesis using Cons by (auto simp: stable_merge_def)
  next
    case 3
    then obtain l r' where m: "vdbeSorterMerge xCompare r p s = Some (l, r')" "inv r'" "stable_merge p s l"
      using merge_from_ok [of r p s False] Cons.prems by (auto simp: vdbeSorterMerge_def)
    have "oks l" using m(3) Cons.prems oks_mset [of l "p @ s"] by (simp add: stable_merge_def)
    moreover have "ordered l" using m(3) by (simp add: stable_merge_def)
    ultimately show ?thesis
      using Cons.IH [OF m(2)] m Cons.prems 3 by (fastforce simp: stable_merge_def)
  qed
qed

lemma sort_ok:
  assumes "inv r" "oks l" "length l < 2 ^ 64"
  shows "\<exists>ss r' l' r''. sort_records xCompare r (replicate 64 []) l = Some (ss, r') \<and>
    merge_slots xCompare r' [] ss = Some (l', r'') \<and> inv r'' \<and> mset l' = mset l \<and> ordered l' \<and>
    (\<forall>k. ok k \<longrightarrow> same k l' = same k (rev l))"
proof -
  have e: "concat (replicate n []) = ([] :: SorterRecord list)" "sizes m (replicate n ([] :: SorterRecord list))" for n m
    by (induction n arbitrary: m) auto
  have "list_all ordered (replicate 64 [])" by (simp add: list_all_iff)
  with sort_records_ok [of r "replicate 64 []" l] assms e obtain ss r' where
    s: "sort_records xCompare r (replicate 64 []) l = Some (ss, r')" "inv r'" "list_all ordered ss"
      "mset (concat ss) = mset l" "\<forall>k. ok k \<longrightarrow> same k (concat ss) = same k (rev l)" by auto
  with merge_slots_ok [of r' "[]" ss] oks_mset [OF s(4)] assms(2) show ?thesis
    by (auto simp: stable_merge_def)
qed

end

end
