(* ===== verification/Sq_Sorting.thy ===== *)
theory Sq_Sorting
  imports Sq_Sorter
begin

text \<open>
  The order of the sorter.  Its three comparison functions, the general one and those for integers
  and for text as first column, have the sign of the order of keys on the records that the type mask
  lets them see; each interprets the locale \<open>record_sorter\<close>.  From there, a sorter that is filled and rewound
  reads back its records in order.
\<close>

section \<open>Integers of the record format in order\<close>

text \<open>The magnitude that decides the serial type of an integer.\<close>

definition int_width :: "i64 \<Rightarrow> int" where
  "int_width i = (if sint i < 0 then - sint i - 1 else sint i)"

lemma unat_width: "int (unat (if i <s 0 then NOT i else i)) = int_width i" for i :: i64
proof -
  have "sint (NOT i) = - sint i - 1"
    using sint_range_size [of i] by (simp add: signed_not_eq not_int_def signed_take_bit_int_eq_self word_size)
  moreover have "int (unat x) = sint x" if "0 \<le> sint x" for x :: i64 using unat_of_sint [OF that] that by simp
  ultimately show ?thesis by (simp add: int_width_def word_sless_alt)
qed

lemma mk_int_type_width:
  assumes "mk_int_type fmt i b = ((t, w), d)" "t \<in> {1, 2, 3, 4, 5, 6, 8, 9}"
  shows "t = 1 \<and> d = 1 \<and> int_width i < 2 ^ 7 \<and> (fmt \<ge> 4 \<longrightarrow> sint i \<notin> {0, 1}) \<or>
    t = 2 \<and> d = 2 \<and> 2 ^ 7 \<le> int_width i \<and> int_width i < 2 ^ 15 \<or>
    t = 3 \<and> d = 3 \<and> 2 ^ 15 \<le> int_width i \<and> int_width i < 2 ^ 23 \<or>
    t = 4 \<and> d = 4 \<and> 2 ^ 23 \<le> int_width i \<and> int_width i < 2 ^ 31 \<or>
    t = 5 \<and> d = 6 \<and> 2 ^ 31 \<le> int_width i \<and> int_width i < 2 ^ 47 \<or>
    t = 6 \<and> d = 8 \<and> 2 ^ 47 \<le> int_width i \<and> int_width i < 2 ^ 63 \<or>
    fmt \<ge> 4 \<and> d = 0 \<and> (t = 8 \<and> sint i = 0 \<or> t = 9 \<and> sint i = 1)"
proof -
  let ?u = "if i <s 0 then NOT i else i"
  have le: "?u \<le> of_nat n \<longleftrightarrow> int_width i \<le> int n" if "n < 2 ^ 64" for n
    using that by (simp only: word_le_nat_alt unat_of_nat_u64 unat_width [of i, symmetric] of_nat_le_iff)
  note le = le [of 127, simplified] le [of 32767, simplified] le [of 8388607, simplified] le [of 2147483647, simplified]
    le [of 140737488355327, simplified]
  have w63: "int_width i < 2 ^ 63" using sint_range_size [of i] by (simp add: int_width_def word_size)
  have zero_one: "sint i = 0 \<Longrightarrow> i = 0" "sint i = 1 \<Longrightarrow> i = 1"
    by (rule signed_word_eqI [where 'a = int], simp)+
  have one: "i AND 1 = i \<longleftrightarrow> sint i \<in> {0, 1}"
  proof
    assume "i AND 1 = i"
    then have "i = of_bool (odd i)" by (metis and_one_eq mod2_eq_if of_bool_def)
    then have "i = 0 \<or> i = 1" by (cases "odd i") auto
    then show "sint i \<in> {0, 1}" by auto
  next
    assume "sint i \<in> {0, 1}"
    then have "i = 0 \<or> i = 1" using zero_one by blast
    then show "i AND 1 = i" by auto
  qed
  have small: "\<not> i <s 0" "sint i = 0 \<and> i = 0 \<or> sint i = 1 \<and> i = 1" if "sint i \<in> {0, 1}"
    using that zero_one by (auto simp: word_sless_alt)
  show ?thesis
    using assms w63 small unfolding mk_int_type_def Let_def le one by (auto split: if_splits)
qed

text \<open>The bytes of an integer in lexicographic order are those of its low bits read as a natural number.\<close>

lemma put_int_Suc: "put_int (Suc n) a = ucast (drop_bit (8 * n) a) # put_int n a"
  by (simp add: put_int_def u8_eq_bits bitblast bit_simps)

lemma unat_byte: "unat (ucast (drop_bit (8 * n) a) :: u8) = unat (a :: u64) div 2 ^ (8 * n) mod 256"
  by (simp add: unsigned_ucast_eq take_bit_eq_mod unat_drop_bit_eq drop_bit_nat_def)

lemma lex_put_int:
  "lex_order (put_int n a) (put_int n b) = sgn (int (unat a mod 2 ^ (8 * n)) - int (unat b mod 2 ^ (8 * n)))"
proof (induction n)
  case 0
  then show ?case by (simp add: put_int_def)
next
  case (Suc n)
  define x y where "x = unat a div 2 ^ (8 * n) mod 256" and "y = unat b div 2 ^ (8 * n) mod 256"
  define p q where "p = unat a mod 2 ^ (8 * n)" and "q = unat b mod 2 ^ (8 * n)"
  have "p < 2 ^ (8 * n)" "q < 2 ^ (8 * n)" by (simp_all add: p_def q_def)
  then have "int p < int (2 ^ (8 * n))" "int q < int (2 ^ (8 * n))" by (simp_all only: of_nat_less_iff)
  then have pq: "int p < 2 ^ (8 * n)" "int q < 2 ^ (8 * n)" by simp_all
  have m: "c mod 2 ^ (8 * Suc n) = 2 ^ (8 * n) * (c div 2 ^ (8 * n) mod 256) + c mod 2 ^ (8 * n)" for c :: nat
  proof -
    have "(2 :: nat) ^ (8 * Suc n) = 2 ^ (8 * n) * 256" by (simp add: power_add)
    then show ?thesis by (simp only: mod_mult2_eq)
  qed
  have e: "int (unat a mod 2 ^ (8 * Suc n)) = 2 ^ (8 * n) * int x + int p" "int (unat b mod 2 ^ (8 * Suc n)) = 2 ^ (8 * n) * int y + int q"
    by (simp_all only: m x_def y_def p_def q_def of_nat_add of_nat_mult of_nat_power of_nat_numeral)
  have bytes: "ucast (drop_bit (8 * n) a) = (ucast (drop_bit (8 * n) b) :: u8) \<longleftrightarrow> x = y"
    "ucast (drop_bit (8 * n) a) < (ucast (drop_bit (8 * n) b) :: u8) \<longleftrightarrow> x < y"
    by (simp_all only: word_unat_eq_iff word_less_nat_alt unat_byte x_def y_def)
  have less: "2 ^ (8 * n) * int x + int p < 2 ^ (8 * n) * int y + int q" if "x < y" "int p < 2 ^ (8 * n)" for x y p q
  proof -
    have "2 ^ (8 * n) * (int x + 1) \<le> 2 ^ (8 * n) * int y" using that(1) by (intro mult_left_mono) auto
    then show ?thesis using that(2) unfolding distrib_left mult_1_right by linarith
  qed
  show ?case
    using Suc less [of x y p q] less [of y x q p] pq
    unfolding put_int_Suc lex_order.simps bytes e p_def [symmetric] q_def [symmetric]
    by (cases x y rule: linorder_cases) (auto simp: sgn_if)
qed

text \<open>Integers that fit \<open>n\<close> bytes: the sign is the top bit, and the low bits order those of one sign.\<close>

lemma low_bits_of:
  assumes "int_width a < 2 ^ (8 * n - 1)" "0 < n" "n \<le> 8"
  shows "int (unat a mod 2 ^ (8 * n)) = (if sint a < 0 then 2 ^ (8 * n) + sint a else sint a)"
proof -
  have p: "(2 :: int) ^ (8 * n) = 2 * 2 ^ (8 * n - 1)" using assms(2) by (simp flip: power_Suc)
  have "int (unat a mod 2 ^ (8 * n)) = uint a mod 2 ^ (8 * n)" by (simp add: zmod_int)
  also have "uint a = sint a mod 2 ^ 64" by (simp add: uint_sint take_bit_eq_mod)
  also have "sint a mod 2 ^ 64 mod 2 ^ (8 * n) = sint a mod 2 ^ (8 * n)"
    using assms(3) by (intro mod_mod_cancel le_imp_power_dvd) simp
  also have "\<dots> = (if sint a < 0 then 2 ^ (8 * n) + sint a else sint a)"
  proof (cases "sint a < 0")
    case True
    then have "sint a mod 2 ^ (8 * n) = (2 ^ (8 * n) + sint a) mod 2 ^ (8 * n)" by simp
    also have "\<dots> = 2 ^ (8 * n) + sint a"
      by (rule mod_pos_pos_trivial) (use True assms(1) p in \<open>auto simp: int_width_def\<close>)
    finally show ?thesis using True by simp
  next
    case False
    then show ?thesis using assms(1) p by (simp add: int_width_def mod_pos_pos_trivial)
  qed
  finally show ?thesis .
qed

lemma top_byte:
  assumes "int_width a < 2 ^ (8 * n - 1)" "0 < n" "n \<le> 8"
  shows "put_int n a ! 0 AND 0x80 \<noteq> 0 \<longleftrightarrow> sint a < 0"
proof -
  obtain k where k: "n = Suc k" using assms(2) by (cases n) auto
  have p: "(2 :: int) ^ (8 * n) = 2 ^ (8 * n - 1) * 2" using assms(2) by (simp flip: power_Suc2)
  define u where "u = unat a mod 2 ^ (8 * n)"
  have "put_int n a ! 0 AND 0x80 \<noteq> 0 \<longleftrightarrow> bit (unat a) (7 + 8 * k)"
    by (simp add: k put_int_Suc and_single_bit_u8 bit_simps bit_unsigned_iff) (simp only: add.commute [of 7])
  also have "\<dots> \<longleftrightarrow> bit (take_bit (8 * n) (unat a)) (8 * n - 1)" by (simp add: bit_take_bit_iff k add.commute)
  also have "take_bit (8 * n) (unat a) = u" by (simp add: u_def take_bit_eq_mod)
  also have "bit u (8 * n - 1) \<longleftrightarrow> 2 ^ (8 * n - 1) \<le> u"
  proof -
    have "u < 2 ^ (8 * n - 1) * 2" using assms(2) by (simp add: u_def flip: power_Suc2)
    then have "u div 2 ^ (8 * n - 1) < 2" by (simp add: less_mult_imp_div_less mult.commute)
    then have "odd (u div 2 ^ (8 * n - 1)) \<longleftrightarrow> u div 2 ^ (8 * n - 1) \<noteq> 0" by (auto simp: less_2_cases_iff)
    then show ?thesis by (simp add: bit_iff_odd div_eq_0_iff not_less)
  qed
  also have "\<dots> \<longleftrightarrow> 2 ^ (8 * n - 1) \<le> int u"
    by (metis of_nat_le_iff of_nat_numeral of_nat_power)
  also have "\<dots> \<longleftrightarrow> sint a < 0"
    using low_bits_of [OF assms] assms(1) p unfolding u_def [symmetric] int_width_def by (auto split: if_splits)
  finally show ?thesis .
qed

text \<open>The byte loop: at the first difference the signs decide, or the bytes.\<close>

lemma int_bytes_compare_from:
  "int_bytes_compare v1 v2 i n =
     (let c = memcmp (\<lambda>k. v1 (i + k)) (\<lambda>k. v2 (i + k)) n
      in if c = 0 then 0
         else if (v1 0 XOR v2 0) AND 0x80 \<noteq> 0 then (if v1 0 AND 0x80 \<noteq> 0 then -1 else 1)
         else c)"
proof (induction n arbitrary: i)
  case (Suc n)
  have "uint (v1 i) - uint (v2 i) = 0 \<longleftrightarrow> v1 i = v2 i" using word_uint_eq_iff [of "v1 i" "v2 i"] by auto
  then show ?case using Suc [of "Suc i"] by (auto simp: Let_def)
qed simp

lemma same_type_sgn:
  assumes "int_width a < 2 ^ (8 * n - 1)" "int_width b < 2 ^ (8 * n - 1)" "0 < n" "n \<le> 8"
    and "agree n v1 (mem_of (put_int n a))" "agree n v2 (mem_of (put_int n b))"
  shows "sgn (int_bytes_compare v1 v2 0 n) = sgn (sint a - sint b)"
proof -
  let ?c = "memcmp v1 v2 n"
  have "?c = memcmp (mem_of (put_int n a)) (mem_of (put_int n b)) n" by (rule memcmp_agree [OF assms(5,6)])
  then have "sgn ?c = lex_order (put_int n a) (put_int n b)"
    using bytes_compare_mem_of [of "put_int n a" "put_int n b"] by (simp add: bytes_compare_def Let_def split: if_splits)
  then have c: "sgn ?c = sgn (int (unat a mod 2 ^ (8 * n)) - int (unat b mod 2 ^ (8 * n)))" by (simp only: lex_put_int)
  have "v1 0 = put_int n a ! 0" "v2 0 = put_int n b ! 0" using assms(3,5,6) by (auto simp: agree_def mem_of_def)
  then have s: "v1 0 AND 0x80 \<noteq> 0 \<longleftrightarrow> sint a < 0" "v2 0 AND 0x80 \<noteq> 0 \<longleftrightarrow> sint b < 0"
    using top_byte [OF assms(1,3,4)] top_byte [OF assms(2,3,4)] by simp_all
  have x: "(v1 0 XOR v2 0) AND 0x80 \<noteq> 0 \<longleftrightarrow> (sint a < 0) \<noteq> (sint b < 0)"
    using s by (simp add: and_single_bit_u8 bit_simps)
  note l = low_bits_of [OF assms(1,3,4)] low_bits_of [OF assms(2,3,4)]
  have z: "?c = 0 \<longleftrightarrow> sint a = sint b"
  proof -
    have "?c = 0 \<longleftrightarrow> int (unat a mod 2 ^ (8 * n)) = int (unat b mod 2 ^ (8 * n))" using c by (auto simp: sgn_0_0)
    moreover have "(2 :: int) ^ (8 * n) = 2 * 2 ^ (8 * n - 1)" using assms(3) by (simp flip: power_Suc)
    ultimately show ?thesis using assms(1,2) unfolding l int_width_def by (auto split: if_splits)
  qed
  show ?thesis
    unfolding int_bytes_compare_from Let_def add_0 x s z
    using c l by (auto simp: sgn_if split: if_splits)
qed

text \<open>The serial types 8 and 9 are the constants 0 and 1, the others the integers that need so many bytes.\<close>

lemma mk_int_type_const:
  assumes "mk_int_type fmt i b = ((t, w), d)" "t \<in> {8, 9}"
  shows "4 \<le> fmt \<and> unat t > 7 \<and> sint i = int (unat t) - 8"
proof -
  have "t \<in> {1, 2, 3, 4, 5, 6, 8, 9}" using assms(2) by auto
  from mk_int_type_width [OF assms(1) this] assms(2) show ?thesis by (elim disjE conjE) simp_all
qed

lemma mk_int_type_bytes:
  assumes "mk_int_type fmt i b = ((t, w), d)" "t \<in> {1, 2, 3, 4, 5, 6}"
  shows "0 < d \<and> d \<le> 8 \<and> int_width i < 2 ^ (8 * d - 1) \<and> aLen ! unat t = d \<and> unat t \<le> 7"
proof -
  have "t \<in> {1, 2, 3, 4, 5, 6, 8, 9}" using assms(2) by auto
  from mk_int_type_width [OF assms(1) this] assms(2) show ?thesis by (elim disjE conjE) (simp_all add: aLen_def)
qed

lemma mk_int_type_no_const:
  assumes "mk_int_type fmt i b = ((t, w), d)" "t \<in> {1, 2, 3, 4, 5, 6}" "4 \<le> fmt"
  shows "sint i \<notin> {0, 1}"
proof -
  have "t \<in> {1, 2, 3, 4, 5, 6, 8, 9}" using assms(2) by auto
  from mk_int_type_width [OF assms(1) this] assms(2,3) show ?thesis
    by (elim disjE conjE) (simp_all add: int_width_def split: if_splits)
qed

lemma mk_int_type_mono:
  assumes "mk_int_type fmt i b = ((t, w), d)" "t \<in> {1, 2, 3, 4, 5, 6}"
    and "mk_int_type fmt j c = ((u, x), e)" "u \<in> {1, 2, 3, 4, 5, 6}" "unat t < unat u"
  shows "int_width i < int_width j"
proof -
  have "t \<in> {1, 2, 3, 4, 5, 6, 8, 9}" "u \<in> {1, 2, 3, 4, 5, 6, 8, 9}" using assms(2,4) by auto
  from mk_int_type_width [OF assms(1) this(1)] mk_int_type_width [OF assms(3) this(2)] assms(2,4,5) show ?thesis
    by (elim disjE conjE) simp_all
qed

lemma sorter_int_res_distinct:
  "s1 < s2 \<Longrightarrow> s1 \<le> 7 \<Longrightarrow> sgn (sorter_int_res s1 s2 v1 v2) = (if s2 > 7 then (if v1 0 AND 0x80 \<noteq> 0 then -1 else 1) else if v2 0 AND 0x80 \<noteq> 0 then 1 else -1)"
  "s2 < s1 \<Longrightarrow> s2 \<le> 7 \<Longrightarrow> sgn (sorter_int_res s1 s2 v1 v2) = (if s1 > 7 then (if v2 0 AND 0x80 \<noteq> 0 then 1 else -1) else if v1 0 AND 0x80 \<noteq> 0 then -1 else 1)"
  by (simp_all add: sorter_int_res_def Let_def sgn_if)

lemma sorter_int_sgn:
  assumes a: "mk_int_type fmt a e = ((t, w), d)" "t \<in> {1, 2, 3, 4, 5, 6} \<union> {8, 9}" "agree d v1 (mem_of (put_int d a))"
    and b: "mk_int_type fmt b f = ((u, x), g)" "u \<in> {1, 2, 3, 4, 5, 6} \<union> {8, 9}" "agree g v2 (mem_of (put_int g b))"
  shows "sgn (sorter_int_res (unat t) (unat u) v1 v2) = sgn (sint a - sint b)"
proof -
  let ?N = "{1, 2, 3, 4, 5, 6} " and ?K = "{8, 9} "
  note A = mk_int_type_bytes [OF a(1)] and B = mk_int_type_bytes [OF b(1)]
  note AK = mk_int_type_const [OF a(1)] and BK = mk_int_type_const [OF b(1)]
  have top1: "v1 0 AND 0x80 \<noteq> 0 \<longleftrightarrow> sint a < 0" if "t \<in> ?N"
    using A [OF that] top_byte [of a d] a(3) by (simp add: agree_def mem_of_def)
  have top2: "v2 0 AND 0x80 \<noteq> 0 \<longleftrightarrow> sint b < 0" if "u \<in> ?N"
    using B [OF that] top_byte [of b g] b(3) by (simp add: agree_def mem_of_def)
  consider "t \<in> ?N" "u \<in> ?N" | "t \<in> ?K" "u \<in> ?K" | "t \<in> ?K" "u \<in> ?N" | "t \<in> ?N" "u \<in> ?K"
    using a(2) b(2) by blast
  then show ?thesis
  proof cases
    case 1
    consider "t = u" | "unat t < unat u" | "unat u < unat t" by (metis linorder_neqE_nat word_unat_eq_iff)
    then show ?thesis
    proof cases
      case 1: 1
      have "sgn (int_bytes_compare v1 v2 0 d) = sgn (sint a - sint b)"
        using same_type_sgn [of a d b v1 v2] A [OF \<open>t \<in> ?N\<close>] B [OF \<open>u \<in> ?N\<close>] 1 a(3) b(3) by simp
      then show ?thesis using 1 A [OF \<open>t \<in> ?N\<close>] by (simp add: sorter_int_res_def)
    next
      case 2
      have "int_width a < int_width b" by (rule mk_int_type_mono [OF a(1) 1(1) b(1) 1(2) 2])
      then show ?thesis
        using top2 [OF 1(2)] B [OF 1(2)] sorter_int_res_distinct(1) [OF 2] A [OF 1(1)] unfolding int_width_def
        by (simp add: sgn_if split: if_splits)
    next
      case 3
      have "int_width b < int_width a" by (rule mk_int_type_mono [OF b(1) 1(2) a(1) 1(1) 3])
      then show ?thesis
        using top1 [OF 1(1)] A [OF 1(1)] sorter_int_res_distinct(2) [OF 3] B [OF 1(2)] unfolding int_width_def
        by (simp add: sgn_if split: if_splits)
    qed
  next
    case 2
    show ?thesis
    proof (cases "unat t = unat u")
      case True
      then have "aLen ! unat t = 0" using 2 by (auto simp: aLen_def)
      then show ?thesis using AK [OF 2(1)] BK [OF 2(2)] True by (simp add: sorter_int_res_def)
    next
      case False
      then show ?thesis using AK [OF 2(1)] BK [OF 2(2)] by (simp add: sorter_int_res_def)
    qed
  next
    case 3
    have "sint b \<notin> {0, 1}" "sint a \<in> {0, 1}"
      using mk_int_type_no_const [OF b(1) 3(2)] AK [OF 3(1)] 3(1) by auto
    then show ?thesis
      using AK [OF 3(1)] B [OF 3(2)] top2 [OF 3(2)] sorter_int_res_distinct(2) [of "unat u" "unat t" v1 v2]
      by (auto simp: sgn_if)
  next
    case 4
    have "sint a \<notin> {0, 1}" "sint b \<in> {0, 1}"
      using mk_int_type_no_const [OF a(1) 4(1)] BK [OF 4(2)] 4(2) by auto
    then show ?thesis
      using BK [OF 4(2)] A [OF 4(1)] top1 [OF 4(1)] sorter_int_res_distinct(1) [of "unat t" "unat u" v1 v2]
      by (auto simp: sgn_if)
  qed
qed

section \<open>Records in the order of their keys\<close>

text \<open>The key of a record, as far as the sorter looks at it, and the order of records by their keys.\<close>

definition record_key :: "KeyInfo \<Rightarrow> u8 list \<Rightarrow> mval list" where
  "record_key ki z = sqlite3VdbeRecordUnpack (length z) (mem_of z) (nKeyField ki)"

definition sorter_order :: "KeyInfo \<Rightarrow> u8 list \<Rightarrow> u8 list \<Rightarrow> int" where
  "sorter_order ki x y = key_cmp ki 0 (record_key ki x) (record_key ki y)"

text \<open>A record of values that fits the key columns, the collations of which keep their contract.\<close>

definition sorter_keyinfo :: "KeyInfo \<Rightarrow> bool" where
  "sorter_keyinfo ki \<longleftrightarrow> 1 \<le> nKeyField ki \<and> nKeyField ki \<le> nAllField ki \<and> (\<forall>i < nKeyField ki. collated (aColl ki ! i))"

definition sorter_values :: "KeyInfo \<Rightarrow> nat \<Rightarrow> mval list \<Rightarrow> bool" where
  "sorter_values ki fmt vs \<longleftrightarrow> record_values fmt vs \<and> nKeyField ki \<le> length vs \<and> length vs \<le> nAllField ki"

definition sorter_ok :: "KeyInfo \<Rightarrow> nat \<Rightarrow> u8 list \<Rightarrow> bool" where
  "sorter_ok ki fmt z \<longleftrightarrow> sorter_keyinfo ki \<and> (\<exists>vs. z = record_bytes fmt vs \<and> sorter_values ki fmt vs)"

lemma unpack_loop_prefix:
  assumes "fields_at fmt p nKey szHdr idx d vs" "n \<le> length vs"
  shows "\<exists>d'. unpack_loop p nKey szHdr n idx d = (take n (map stored vs), d') \<and> d' \<le> nKey"
  using assms
proof (induction n arbitrary: idx d vs)
  case 0
  then show ?case by (auto simp: fields_at_def)
next
  case (Suc n)
  then obtain v vs' where vs: "vs = v # vs'" by (cases vs) auto
  note c = fields_at_Cons [OF Suc.prems(1) [unfolded vs]]
  note g = field_at_reads [OF c(1)]
  have "0 < length (type_bytes (fst (field fmt v)))" by (simp add: type_bytes_def put_nonempty)
  moreover have "idx + length (type_bytes (fst (field fmt v))) \<le> szHdr" using c(5) by (auto simp: fields_at_def)
  ultimately have "idx < szHdr" by linarith
  moreover have "d \<le> nKey" using c(3) by simp
  moreover obtain d' where "unpack_loop p nKey szHdr n (idx + length (type_bytes (fst (field fmt v))))
      (d + length (snd (field fmt v))) = (take n (map stored vs'), d')" "d' \<le> nKey"
    using Suc.IH [OF c(5)] Suc.prems(2) vs by auto
  ultimately show ?case unfolding vs unpack_loop.simps g prod.case Let_def c(6,7) by simp
qed

lemma unpack_prefix:
  assumes "record_values fmt vs" "1 \<le> n" "n \<le> length vs"
  shows "sqlite3VdbeRecordUnpack (length (record_bytes fmt vs)) (mem_of (record_bytes fmt vs)) n = take n (map stored vs)"
proof -
  obtain m k where l: "getVarint32 (mem_of (record_bytes fmt vs)) = (k, of_nat m)" "m < 2 ^ 31"
    "fields_at fmt (mem_of (record_bytes fmt vs)) (length (record_bytes fmt vs)) m k m vs"
    using record_layout [OF assms(1)] by metis
  have "unat (of_nat m :: u32) = m" using l(2) by (simp add: unsigned_of_nat take_bit_nat_eq_self)
  with unpack_loop_prefix [OF l(3) assms(3)] show ?thesis
    using assms(2) by (auto simp: sqlite3VdbeRecordUnpack_def l(1) max_def)
qed

lemma record_key_values:
  "sorter_keyinfo ki \<Longrightarrow> sorter_values ki fmt vs \<Longrightarrow> record_key ki (record_bytes fmt vs) = take (nKeyField ki) (map stored vs)"
  by (simp add: record_key_def unpack_prefix sorter_values_def sorter_keyinfo_def)

lemma sorter_comparison: "comparison (sorter_ok ki fmt) (sorter_order ki)"
proof (cases "sorter_keyinfo ki")
  case True
  then have "comparison (\<lambda>vs. length vs = nKeyField ki) (key_cmp ki 0)"
    by (intro key_cmp_comparison) (simp add: sorter_keyinfo_def)
  from comparison_image [OF this, of "record_key ki"] show ?thesis
    unfolding sorter_order_def
    by (rule comparison_on) (auto simp: sorter_ok_def record_key_values, simp add: sorter_values_def)
qed (unfold_locales, simp_all add: sorter_ok_def)

text \<open>The unpacked record of the sorter, and that it holds the key of a record.\<close>

definition sorter_inv :: "KeyInfo \<Rightarrow> UnpackedRecord \<Rightarrow> bool" where
  "sorter_inv ki r \<longleftrightarrow> pKeyInfo r = ki \<and> nField r = nKeyField ki \<and> errCode r = SQLITE_OK"

definition sorter_holds :: "KeyInfo \<Rightarrow> UnpackedRecord \<Rightarrow> u8 list \<Rightarrow> bool" where
  "sorter_holds ki r z \<longleftrightarrow> take (nKeyField ki) (aMem r) = record_key ki z \<and> default_rc r = 0"

lemma unpack_into_holds:
  assumes "sorter_inv ki r" "sorter_ok ki fmt z"
  shows "sorter_inv ki (unpack_into z r)" "sorter_holds ki (unpack_into z r) z"
proof -
  have "length (record_key ki z) = nKeyField ki"
    using assms(2) by (auto simp: sorter_ok_def record_key_values) (simp add: sorter_values_def)
  then show "sorter_inv ki (unpack_into z r)" "sorter_holds ki (unpack_into z r) z"
    using assms(1) by (simp_all add: sorter_inv_def sorter_holds_def unpack_into_def record_key_def Let_def)
qed

text \<open>What a comparison of the sorter has to do.\<close>

definition sorter_verdict ::
    "KeyInfo \<Rightarrow> u8 list \<Rightarrow> u8 list \<Rightarrow> (int \<times> UnpackedRecord \<times> bool) option \<Rightarrow> bool" where
  "sorter_verdict ki x y a \<longleftrightarrow>
     (\<exists>res r c. a = Some (res, r, c) \<and> sorter_inv ki r \<and> (c \<longrightarrow> sorter_holds ki r y) \<and> sgn res = sgn (sorter_order ki x y))"

lemma holds_key_ok:
  assumes "sorter_inv ki r" "sorter_ok ki fmt z" "sorter_holds ki r z"
  shows "key_ok r"
proof -
  obtain vs where vs: "sorter_keyinfo ki" "z = record_bytes fmt vs" "sorter_values ki fmt vs" using assms(2) by (auto simp: sorter_ok_def)
  have "list_all cell_ok (map stored vs)"
    using vs(3) stored_cell_ok by (auto simp: sorter_values_def record_values_def list_all_iff)
  then have "list_all cell_ok (take (nKeyField ki) (map stored vs))" unfolding list_all_iff using in_set_takeD by fast
  moreover have m: "take (nKeyField ki) (aMem r) = take (nKeyField ki) (map stored vs)"
    using assms(3) by (simp add: sorter_holds_def vs record_key_values)
  moreover have "nKeyField ki \<le> length (aMem r)"
    using vs(3) arg_cong [OF m, of length] by (simp add: sorter_values_def min_def split: if_splits)
  ultimately show ?thesis
    using assms(1) vs(1) by (simp add: key_ok_def sorter_inv_def sorter_keyinfo_def)
qed

lemma key_order_prefix: "length ws \<le> length vs \<Longrightarrow> key_order ki i vs ws = Some (key_cmp ki i (take (length ws) vs) ws)"
  by (induction vs ws arbitrary: i rule: list_induct2') (auto simp: key_cmp_def)

lemma vdbeSorterCompare_ok:
  assumes "sorter_inv ki r" "sorter_ok ki fmt x" "sorter_ok ki fmt y" "c \<longrightarrow> sorter_holds ki r y"
  shows "sorter_verdict ki x y (vdbeSorterCompare (\<lambda>_ _ _. True) r c x y)"
proof -
  define r2 where "r2 = (if c then r else unpack_into y r)"
  have r2: "sorter_inv ki r2" "sorter_holds ki r2 y" using assms unpack_into_holds [OF assms(1,3)] by (simp_all add: r2_def)
  obtain vs where vs: "sorter_keyinfo ki" "x = record_bytes fmt vs" "sorter_values ki fmt vs"
    using assms(2) by (auto simp: sorter_ok_def)
  have len: "length (record_key ki y) = nKeyField ki"
    using assms(3) by (auto simp: sorter_ok_def record_key_values) (simp add: sorter_values_def)
  have "key_order ki 0 (map stored vs) (record_key ki y) = Some (sorter_order ki x y)"
    using key_order_prefix [of "record_key ki y" "map stored vs" ki 0] vs len
    by (simp add: sorter_order_def record_key_values sorter_values_def)
  with recordCompare_verdict [of fmt vs r2] holds_key_ok [OF r2(1) assms(3) r2(2)] r2 vs(3)
  have "key_verdict r2 (Some (sorter_order ki x y)) (sqlite3VdbeRecordCompare (\<lambda>_ _ _. True) (length x) (mem_of x) r2)"
    by (simp add: sorter_values_def sorter_inv_def sorter_holds_def vs(2))
  then have "\<exists>res e. sqlite3VdbeRecordCompare (\<lambda>_ _ _. True) (length x) (mem_of x) r2 = Some (res, r2\<lparr>eqSeen := e\<rparr>) \<and>
      sgn res = sgn (sorter_order ki x y)"
  proof (cases "sorter_order ki x y = 0")
    case True
    then show ?thesis
      using \<open>key_verdict r2 _ _\<close> r2(2) by (auto simp: key_verdict_def sorter_holds_def)
  next
    case False
    then obtain res where "sqlite3VdbeRecordCompare (\<lambda>_ _ _. True) (length x) (mem_of x) r2 = Some (res, r2)"
      "sgn res = sorter_order ki x y" using \<open>key_verdict r2 _ _\<close> by (auto simp: key_verdict_def)
    moreover from this have "sgn res = sgn (sorter_order ki x y)" by (metis sgn_sgn)
    ultimately show ?thesis by (intro exI [of _ res] exI [of _ "eqSeen r2"]) simp
  qed
  then show ?thesis
    using r2 unfolding vdbeSorterCompare_def Let_def r2_def [symmetric]
    by (auto simp: sorter_verdict_def sorter_inv_def sorter_holds_def)
qed

section \<open>The specialised comparisons\<close>

text \<open>When the sorter may use them: a short header, bytewise order of the first column and NULL in its usual place.\<close>

definition specialised :: "KeyInfo \<Rightarrow> bool" where
  "specialised ki \<longleftrightarrow> nAllField ki < 13 \<and> (aColl ki ! 0 = None \<or> aColl ki ! 0 = Some (coll_BINARY (ki_enc ki))) \<and>
     aSortFlags ki ! 0 AND KEYINFO_ORDER_BIGNULL = 0"

text \<open>The first field of a record.\<close>

definition starts_with :: "KeyInfo \<Rightarrow> nat \<Rightarrow> u8 list \<Rightarrow> nat \<Rightarrow> mval \<Rightarrow> mval list \<Rightarrow> bool" where
  "starts_with ki fmt x n v vs \<longleftrightarrow> x = record_bytes fmt (v # vs) \<and> sorter_values ki fmt (v # vs) \<and>
     fields_at fmt (mem_of x) (length x) n 1 n (v # vs) \<and> n < 128 \<and> mem_of x 0 = of_nat n \<and>
     (\<forall>mem_ok r. sqlite3VdbeRecordCompare mem_ok (length x) (mem_of x) r =
        compare_loop mem_ok (length x) (mem_of x) n 0 1 n (aMem r) r)"

lemma starts_with_parts:
  assumes "starts_with ki fmt x n v vs"
  shows "x = record_bytes fmt (v # vs)" "sorter_values ki fmt (v # vs)"
    "fields_at fmt (mem_of x) (length x) n 1 n (v # vs)" "n < 128" "mem_of x 0 = of_nat n"
    "sqlite3VdbeRecordCompare mem_ok (length x) (mem_of x) r = compare_loop mem_ok (length x) (mem_of x) n 0 1 n (aMem r) r"
  using assms unfolding starts_with_def by blast+

lemma starts_with_exists:
  assumes "sorter_ok ki fmt x" "nAllField ki < 13"
  shows "\<exists>n v vs. starts_with ki fmt x n v vs"
proof -
  obtain vs where vs: "x = record_bytes fmt vs" "sorter_values ki fmt vs" using assms(1) by (auto simp: sorter_ok_def)
  have l: "record_values fmt vs" "length vs \<le> 13" using vs(2) assms(2) by (auto simp: sorter_values_def)
  obtain v vs' where v: "vs = v # vs'" using l(1) by (cases vs) (auto simp: record_values_def)
  obtain n k where n: "getVarint32 (mem_of x) = (k, of_nat n)" "n < 2 ^ 31" "fields_at fmt (mem_of x) (length x) n k n vs"
    "n \<le> length x" "n < 128 \<Longrightarrow> k = 1 \<and> mem_of x 0 = of_nat n" "length (field_types fmt vs) \<le> 126 \<Longrightarrow> n < 128"
    using record_layout [OF l(1)] unfolding vs(1) by metis
  have "length (field_types fmt vs) \<le> 126" using field_types_5 [of fmt vs] l(2) by simp
  with n have s: "n < 128" "k = 1" "mem_of x 0 = of_nat n" by auto
  have "starts_with ki fmt x n v vs'"
    using vs n s recordCompare_start [OF l(1), of k n] unfolding v starts_with_def by (auto simp del: compare_loop.simps)
  then show ?thesis by blast
qed

lemma starts_with_facts:
  assumes "starts_with ki fmt x n v vs"
  shows "field_at fmt (mem_of x) 1 n v" "key_value v" "n + length (snd (field fmt v)) \<le> length x" "length x < 2 ^ 32"
    and "unat (mem_of x 0) = n" "getVarint32 (\<lambda>k. mem_of x (1 + k)) = (length (type_bytes (fst (field fmt v))), fst (field fmt v))"
    and "sint (fst (field fmt v)) = int (unat (fst (field fmt v)))"
proof -
  note f = starts_with_parts [OF assms]
  note c = fields_at_Cons [OF f(3)]
  show "field_at fmt (mem_of x) 1 n v" "key_value v" "n + length (snd (field fmt v)) \<le> length x" "length x < 2 ^ 32"
    by (fact c(1,2,3,4))+
  show "unat (mem_of x 0) = n" unfolding f(5) using f(4) by (simp add: unsigned_of_nat take_bit_nat_eq_self)
  show "getVarint32 (\<lambda>k. mem_of x (1 + k)) = (length (type_bytes (fst (field fmt v))), fst (field fmt v))"
    by (rule field_at_reads(1) [OF c(1)])
  show "sint (fst (field fmt v)) = int (unat (fst (field fmt v)))"
    using field_type_bound [OF c(1,2)] by (intro sint_small) simp
qed

lemma first_column:
  assumes "sorter_keyinfo ki" "specialised ki" "starts_with ki fmt x n v vs" "starts_with ki fmt y m w ws"
  defines "c \<equiv> value_order (ki_enc ki) (aColl ki ! 0) (stored v) (stored w)"
  shows "c \<noteq> 0 \<Longrightarrow> sorter_order ki x y = sort_descending ki c"
    and "c = 0 \<Longrightarrow> nKeyField ki = 1 \<Longrightarrow> sorter_order ki x y = 0"
proof -
  obtain k where k: "nKeyField ki = Suc k" using assms(1) by (cases "nKeyField ki") (auto simp: sorter_keyinfo_def)
  have key: "record_key ki x = stored v # take k (map stored vs)" "record_key ki y = stored w # take k (map stored ws)"
    using record_key_values [OF assms(1) starts_with_parts(2) [OF assms(3)]] record_key_values [OF assms(1) starts_with_parts(2) [OF assms(4)]]
    unfolding starts_with_parts(1) [OF assms(3)] starts_with_parts(1) [OF assms(4)] k by simp_all
  have col: "column_order ki 0 (stored v) (stored w) = sort_descending ki c"
    using assms(2) by (simp add: column_order_def sort_order_def sort_descending_def specialised_def c_def)
  show "sorter_order ki x y = sort_descending ki c" if "c \<noteq> 0"
    using that by (simp add: sorter_order_def key key_cmp_def col) (simp add: sort_descending_def split: if_splits)
  show "sorter_order ki x y = 0" if "c = 0" "nKeyField ki = 1"
    using that k by (simp add: sorter_order_def key key_cmp_def col) (simp add: sort_descending_def)
qed

lemma compareTail_eq:
  assumes "specialised ki" "sorter_inv ki r" "sorter_ok ki fmt x" "sorter_ok ki fmt y" "c \<longrightarrow> sorter_holds ki r y"
    and x: "starts_with ki fmt x n v vs" and y: "starts_with ki fmt y m w ws"
    and eq: "value_order (ki_enc ki) (aColl ki ! 0) (stored v) (stored w) = 0" and "1 < nKeyField ki"
  shows "vdbeSorterCompareTail (\<lambda>_ _ _. True) r c x y = vdbeSorterCompare (\<lambda>_ _ _. True) r c x y"
proof -
  define r2 where "r2 = (if c then r else unpack_into y r)"
  have r2: "sorter_inv ki r2" "sorter_holds ki r2 y" using assms unpack_into_holds [OF assms(2,4)] by (simp_all add: r2_def)
  have ki: "sorter_keyinfo ki" using assms(3) by (simp add: sorter_ok_def)
  have "take (nKeyField ki) (aMem r2) = take (nKeyField ki) (map stored (w # ws))"
    using r2(2) record_key_values [OF ki starts_with_parts(2) [OF y]] starts_with_parts(1) [OF y] by (simp only: sorter_holds_def)
  then obtain ws' where ws': "aMem r2 = stored w # ws'" using assms(9) by (cases "aMem r2"; cases "nKeyField ki") auto
  note f = starts_with_facts [OF x] and g = starts_with_facts [OF y]
  note X = starts_with_parts [OF x]
  have k: "nKeyField ki \<le> Suc (length vs)" using X(2) by (simp add: sorter_values_def)
  have "field_verdict (fst (field fmt v)) 0 (compare_field ((\<lambda>_ _ _. True) 0) (length x) (mem_of x) (pKeyInfo r2) 0 1 n (stored w))"
    using compare_field_ok [OF f(1-4), of 0 ki "stored w"] stored_cell_ok [OF g(2)] r2(1) ki eq
    by (simp add: sorter_inv_def sorter_keyinfo_def)
  from first_equal [where mem_ok = "\<lambda>_ _ _. True", OF X(3-5) this _ _ ws'] r2(1) assms(9) X(6) [of "\<lambda>_ _ _. True" r2] k
  have "sqlite3VdbeRecordCompareWithSkip (\<lambda>_ _ _. True) (length x) (mem_of x) r2 True =
      sqlite3VdbeRecordCompare (\<lambda>_ _ _. True) (length x) (mem_of x) r2"
    by (simp add: sorter_inv_def del: compare_loop.simps)
  then show ?thesis by (simp only: vdbeSorterCompareTail_def vdbeSorterCompare_def Let_def r2_def [symmetric])
qed

lemma specialised_ok:
  assumes "specialised ki" "sorter_inv ki r" "sorter_ok ki fmt x" "sorter_ok ki fmt y" "c \<longrightarrow> sorter_holds ki r y"
    and x: "starts_with ki fmt x n v vs" and y: "starts_with ki fmt y m w ws"
    and s: "sgn s = value_order (ki_enc ki) (aColl ki ! 0) (stored v) (stored w)"
  shows "sorter_verdict ki x y
    (if s = 0 then (if nKeyField ki > 1 then vdbeSorterCompareTail (\<lambda>_ _ _. True) r c x y else Some (s, r, c))
     else Some (sort_descending ki s, r, c))"
proof -
  have ki: "sorter_keyinfo ki" using assms(3) by (simp add: sorter_ok_def)
  note col = first_column [OF ki assms(1) x y, folded s]
  consider "s \<noteq> 0" | "s = 0" "1 < nKeyField ki" | "s = 0" "nKeyField ki = 1"
    using ki unfolding sorter_keyinfo_def by linarith
  then show ?thesis
  proof cases
    case 1
    then have "sgn (sort_descending ki s) = sgn (sorter_order ki x y)"
      using col(1) sgn_0_0 [of s] by (simp add: sort_descending_def sgn_minus)
    then show ?thesis using 1 assms(2,5) by (simp add: sorter_verdict_def)
  next
    case 2
    then show ?thesis
      using compareTail_eq [OF assms(1-7) _ 2(2)] s vdbeSorterCompare_ok [OF assms(2-5)] by simp
  next
    case 3
    then show ?thesis using col(2) assms(2,5) by (simp add: sorter_verdict_def)
  qed
qed

text \<open>What the type of the first field tells.\<close>

definition first_type :: "u8 list \<Rightarrow> u8" where
  "first_type z = sorter_type (sint (snd (getVarint32 (\<lambda>k. mem_of z (1 + k)))))"

lemma first_type_eq: "starts_with ki fmt x n v vs \<Longrightarrow> first_type x = sorter_type (int (unat (fst (field fmt v))))"
  using starts_with_facts(6,7) unfolding first_type_def by (metis snd_conv)

lemma integer_first:
  assumes "starts_with ki fmt x n v vs" "first_type x = SORTER_TYPE_INTEGER"
  obtains i b t w d where "stored v = VInt i" "mk_int_type fmt i b = ((t, w), d)" "t \<in> {1, 2, 3, 4, 5, 6} \<union> {8, 9}"
    "unat (mem_of x 1) = unat t" "agree d (\<lambda>k. mem_of x (n + k)) (mem_of (put_int d i))"
proof -
  let ?t = "fst (field fmt v)"
  note f = starts_with_facts [OF assms(1)]
  have t: "0 < unat ?t" "unat ?t < 10" "unat ?t \<noteq> 7"
    using assms(2) unfolding first_type_eq [OF assms(1)]
    by (auto simp: sorter_type_def SORTER_TYPE_INTEGER_def SORTER_TYPE_TEXT_def simp del: of_nat_unat split: if_splits)
  have "unat ?t \<in> {1, 2, 3, 4, 5, 6, 8, 9}" using t by auto
  then have T: "?t \<in> {1, 2, 3, 4, 5, 6} \<union> {8, 9}" by (auto simp: word_unat_eq_iff)
  have b1: "unat (mem_of x 1) = unat ?t"
    using first_type_byte [OF f(1)] T by (auto simp: word_le_nat_alt word_unat_eq_iff unat_ucast_u8)
  have at: "mval_size v \<le> 1000000000" "agree (length (snd (field fmt v))) (\<lambda>k. mem_of x (n + k)) (mem_of (snd (field fmt v)))"
    using f(1) by (simp_all add: field_at_def)
  consider i where "v = VInt i" | i where "v = VIntReal i"
    using T at(1) by (cases v) (auto simp: word_unat_eq_iff unat_bytes_type)
  then show ?thesis
  proof cases
    case 1
    obtain t w d where m: "mk_int_type fmt i False = ((t, w), d)" by (metis surj_pair)
    then show ?thesis using that [of i False t w d] 1 T b1 at(2) by simp
  next
    case 2
    obtain t w d where m: "mk_int_type fmt i True = ((t, w), d)" by (metis surj_pair)
    have "t \<noteq> 7" using T m 2 by auto
    then have w: "w = VIntReal i" using m by (auto simp: mk_int_type_def Let_def split: if_splits)
    have "stored v \<noteq> VReal (double_of_int i)" using serialGet_inv(2) field_at_reads(2) [OF f(1)] T by fastforce
    then have "stored v = VInt i" by (simp add: 2 split: if_splits)
    then show ?thesis using that [of i True t w d] 2 T b1 at(2) m w by (simp split: if_splits)
  qed
qed

lemma vdbeSorterCompareInt_ok:
  assumes "specialised ki" "sorter_inv ki r" "sorter_ok ki fmt x" "sorter_ok ki fmt y" "c \<longrightarrow> sorter_holds ki r y"
    and "first_type x = SORTER_TYPE_INTEGER" "first_type y = SORTER_TYPE_INTEGER"
  shows "sorter_verdict ki x y (vdbeSorterCompareInt (\<lambda>_ _ _. True) ki r c x y)"
proof -
  have s: "nAllField ki < 13" using assms(1) by (simp add: specialised_def)
  obtain n v vs where x: "starts_with ki fmt x n v vs" using starts_with_exists [OF assms(3) s] by blast
  obtain m w ws where y: "starts_with ki fmt y m w ws" using starts_with_exists [OF assms(4) s] by blast
  obtain i b t wi d where X: "stored v = VInt i" "mk_int_type fmt i b = ((t, wi), d)" "t \<in> {1, 2, 3, 4, 5, 6} \<union> {8, 9}"
    "unat (mem_of x 1) = unat t" "agree d (\<lambda>k. mem_of x (n + k)) (mem_of (put_int d i))" using integer_first [OF x assms(6)] by metis
  obtain j b' u wj e where Y: "stored w = VInt j" "mk_int_type fmt j b' = ((u, wj), e)" "u \<in> {1, 2, 3, 4, 5, 6} \<union> {8, 9}"
    "unat (mem_of y 1) = unat u" "agree e (\<lambda>k. mem_of y (m + k)) (mem_of (put_int e j))" using integer_first [OF y assms(7)] by metis
  have "sgn (sorter_int_res (unat t) (unat u) (\<lambda>k. mem_of x (n + k)) (\<lambda>k. mem_of y (m + k))) = sgn (sint i - sint j)"
    by (rule sorter_int_sgn [OF X(2,3,5) Y(2,3,5)])
  also have "\<dots> = value_order (ki_enc ki) (aColl ki ! 0) (stored v) (stored w)"
    using double_one_pos by (simp add: X(1) Y(1) value_order_def sgn_mult flip: left_diff_distrib)
  finally show ?thesis
    using specialised_ok [OF assms(1-5) x y]
    unfolding vdbeSorterCompareInt_def Let_def starts_with_facts(5) [OF x] starts_with_facts(5) [OF y] X(4) Y(4) by blast
qed

lemma text_first:
  assumes "starts_with ki fmt x n v vs" "first_type x = SORTER_TYPE_TEXT"
  obtains z where "v = VText z" "sint (snd (getVarint32 (\<lambda>k. mem_of x (1 + k)))) = 2 * int (length z) + 13"
    "agree (length z) (\<lambda>k. mem_of x (n + k)) (mem_of z)"
proof -
  let ?t = "fst (field fmt v)"
  note f = starts_with_facts [OF assms(1)]
  have t: "10 < unat ?t" "odd (unat ?t)"
    using assms(2) unfolding first_type_eq [OF assms(1)]
    by (auto simp: sorter_type_def SORTER_TYPE_INTEGER_def SORTER_TYPE_TEXT_def simp del: of_nat_unat split: if_splits)
  have at: "mval_size v \<le> 1000000000" using f(1) by (simp add: field_at_def)
  note g = field_at_reads(2) [OF f(1)]
  obtain z where "stored v = VText z"
  proof (rule stored_classes [OF f(2)])
    fix i assume "stored v = VInt i"
    then have "?t \<in> {1, 2, 3, 4, 5, 6, 8, 9}" using serialGet_inv(1) g by metis
    then show ?thesis using t by auto
  next
    fix d assume "stored v = VReal d"
    then have "?t = 7" using serialGet_inv(2) g by metis
    then show ?thesis using t by simp
  next
    fix z assume "stored v = VBlob z"
    then have "?t AND 1 = 0" using serialGet_inv(4) g by metis
    then have "\<not> bit ?t 0" by (simp add: and_one_eq bit_0 even_iff_mod_2_eq_zero [symmetric])
    then show ?thesis using t(2) bit_unsigned_iff [of ?t 0, where 'a = nat] by (simp add: bit_0)
  qed (use t that in auto)
  then have z: "v = VText z" using t by (cases v) (auto split: if_splits)
  have "agree (length z) (\<lambda>k. mem_of x (n + k)) (mem_of z)" using f(1) z by (simp add: field_at_def)
  moreover have "unat ?t = 2 * length z + 13" using at by (simp add: z unat_bytes_type)
  ultimately show ?thesis using that z f(6,7) by (simp del: of_nat_unat)
qed

lemma vdbeSorterCompareText_ok:
  assumes "specialised ki" "sorter_inv ki r" "sorter_ok ki fmt x" "sorter_ok ki fmt y" "c \<longrightarrow> sorter_holds ki r y"
    and "first_type x = SORTER_TYPE_TEXT" "first_type y = SORTER_TYPE_TEXT"
  shows "sorter_verdict ki x y (vdbeSorterCompareText (\<lambda>_ _ _. True) ki r c x y)"
proof -
  have s: "nAllField ki < 13" using assms(1) by (simp add: specialised_def)
  obtain n v vs where x: "starts_with ki fmt x n v vs" using starts_with_exists [OF assms(3) s] by blast
  obtain m w ws where y: "starts_with ki fmt y m w ws" using starts_with_exists [OF assms(4) s] by blast
  obtain a where X: "v = VText a" "sint (snd (getVarint32 (\<lambda>k. mem_of x (1 + k)))) = 2 * int (length a) + 13"
    "agree (length a) (\<lambda>k. mem_of x (n + k)) (mem_of a)" using text_first [OF x assms(6)] by metis
  obtain b where Y: "w = VText b" "sint (snd (getVarint32 (\<lambda>k. mem_of y (1 + k)))) = 2 * int (length b) + 13"
    "agree (length b) (\<lambda>k. mem_of y (m + k)) (mem_of b)" using text_first [OF y assms(7)] by metis
  define k where "k = min (length a) (length b)"
  define res where "res = memcmp (\<lambda>k. mem_of x (n + k)) (\<lambda>k. mem_of y (m + k)) k"
  have len: "nat ((min (2 * int (length a) + 13) (2 * int (length b) + 13) - 13) div 2) = k" by (simp add: k_def min_def)
  have "res = memcmp (mem_of a) (mem_of b) k"
    unfolding res_def by (intro memcmp_agree agree_mono [OF X(3)] agree_mono [OF Y(3)]) (simp_all add: k_def)
  then have "sgn (if res = 0 then 2 * int (length a) + 13 - (2 * int (length b) + 13) else res) = lex_order a b"
    using bytes_compare_mem_of [of a b] by (simp add: bytes_compare_def Let_def k_def sgn_if split: if_splits)
  also have "\<dots> = value_order (ki_enc ki) (aColl ki ! 0) (stored v) (stored w)"
    using assms(1) by (auto simp: X(1) Y(1) value_order_def text_order_def value_bytes_def specialised_def coll_BINARY_def text_in_def binColl_sgn)
  finally show ?thesis
    using specialised_ok [OF assms(1-5) x y]
    unfolding vdbeSorterCompareText_def Let_def starts_with_facts(5) [OF x] starts_with_facts(5) [OF y] X(2) Y(2) len
      res_def [symmetric] by blast
qed

section \<open>The comparisons of the sorter keep the contract\<close>

interpretation general_sorter: record_sorter "sorter_ok ki fmt" "sorter_order ki" "vdbeSorterCompare (\<lambda>_ _ _. True)"
    "sorter_inv ki" "sorter_holds ki" for ki fmt
  by (intro record_sorter.intro sorter_comparison record_sorter_axioms.intro)
    (use vdbeSorterCompare_ok in \<open>auto simp: sorter_verdict_def\<close>)

definition sorter_ok_type :: "u8 \<Rightarrow> KeyInfo \<Rightarrow> nat \<Rightarrow> u8 list \<Rightarrow> bool" where
  "sorter_ok_type t ki fmt z \<longleftrightarrow> sorter_ok ki fmt z \<and> specialised ki \<and> first_type z = t"

lemma sorter_comparison_type: "comparison (sorter_ok_type t ki fmt) (sorter_order ki)"
  by (rule comparison_on [OF sorter_comparison [of ki fmt]]) (simp add: sorter_ok_type_def)

interpretation int_sorter: record_sorter "sorter_ok_type SORTER_TYPE_INTEGER ki fmt" "sorter_order ki"
    "vdbeSorterCompareInt (\<lambda>_ _ _. True) ki" "sorter_inv ki" "sorter_holds ki" for ki fmt
  by (intro record_sorter.intro sorter_comparison_type record_sorter_axioms.intro)
    (use vdbeSorterCompareInt_ok in \<open>auto simp: sorter_verdict_def sorter_ok_type_def\<close>)

interpretation text_sorter: record_sorter "sorter_ok_type SORTER_TYPE_TEXT ki fmt" "sorter_order ki"
    "vdbeSorterCompareText (\<lambda>_ _ _. True) ki" "sorter_inv ki" "sorter_holds ki" for ki fmt
  by (intro record_sorter.intro sorter_comparison_type record_sorter_axioms.intro)
    (use vdbeSorterCompareText_ok in \<open>auto simp: sorter_verdict_def sorter_ok_type_def\<close>)

section \<open>Using a sorter\<close>

text \<open>The records of a statement, one after the other, as \<open>OP_SorterInsert\<close> writes them.\<close>

fun sorter_writes ::
    "(nat \<Rightarrow> bool) \<Rightarrow> (nat \<Rightarrow> bool) \<Rightarrow> VdbeSorter \<Rightarrow> u8 list list \<Rightarrow> (u8 \<times> VdbeSorter) option" where
  "sorter_writes mem_ok heap_full p [] = Some (SQLITE_OK, p)"
| "sorter_writes mem_ok heap_full p (z # zs) = do {
     (rc, p) \<leftarrow> sqlite3VdbeSorterWrite mem_ok (heap_full (length zs)) p z;
     if rc = SQLITE_OK then sorter_writes mem_ok heap_full p zs else Some (rc, p)
   }"

text \<open>The keys that a loop of \<open>OP_SorterData\<close> and \<open>OP_SorterNext\<close> reads after \<open>OP_SorterSort\<close>.\<close>

function sorter_rows :: "VdbeSorter \<Rightarrow> u8 list list" where
  "sorter_rows p =
     (case (vdbeSorterRowkey p, sqlite3VdbeSorterNext p) of
        (Some z, Some (rc, p')) \<Rightarrow> z # (if rc = SQLITE_OK then sorter_rows p' else [])
      | _ \<Rightarrow> [])"
  by pat_completeness auto
termination
  by (relation "measure (\<lambda>p. length (pList p))") (auto simp: sqlite3VdbeSorterNext_def split: list.splits)

declare sorter_rows.simps [simp del]

lemma sorter_rows_eq: "sorter_rows p = map srVal (pList p)"
proof (induction p rule: sorter_rows.induct)
  case (1 p)
  show ?case
  proof (cases "pList p")
    case (Cons x l)
    then show ?thesis
      using 1 by (subst sorter_rows.simps) (simp add: vdbeSorterRowkey_def sqlite3VdbeSorterNext_def SQLITE_OK_def SQLITE_DONE_def)
  qed (subst sorter_rows.simps, simp add: vdbeSorterRowkey_def)
qed

text \<open>The memory that records take, and that the sorter has room for so many.\<close>

definition sorter_room :: "u8 list list \<Rightarrow> nat" where
  "sorter_room zs = sum_list (map (\<lambda>z. ROUND8 (length z + SORTER_RECORD_SIZE)) zs)"

definition sorter_fits :: "VdbeSorter \<Rightarrow> u8 list list \<Rightarrow> bool" where
  "sorter_fits p zs \<longleftrightarrow> (aMemory p \<longrightarrow> 0 < nMemory p) \<and>
     (mxPmaSize p = 0 \<or> int (iMemory p + sorter_room zs) \<le> mxPmaSize p \<and> mnPmaSize p \<le> mxPmaSize p \<and>
       int (szPMA p + sorter_room zs) \<le> mnPmaSize p)"

lemma grow_memory_returns: "0 < nNew \<Longrightarrow> \<exists>n. grow_memory nMin nNew = Some n"
  by (induction nMin nNew rule: grow_memory.induct) (subst grow_memory.simps, auto)

lemma sorter_reserve_ok:
  assumes "0 < nMemory p" "0 < nReq"
  shows "\<exists>n. sorter_reserve (\<lambda>_. True) nReq p = Some (SQLITE_OK, p\<lparr>nMemory := n\<rparr>) \<and> 0 < n"
proof (cases "iMemory p + nReq > nMemory p")
  case True
  obtain k where "grow_memory (iMemory p + nReq) (2 * nMemory p) = Some k" using grow_memory_returns [of "2 * nMemory p"] assms(1) by auto
  then show ?thesis using True assms(2) by (auto simp: sorter_reserve_def Let_def)
next
  case False
  then show ?thesis using assms(1) by (intro exI [of _ "nMemory p"]) (simp add: sorter_reserve_def)
qed

lemma round8_room: "x \<le> ROUND8 x" "length z + sqlite3VarintLen v \<le> ROUND8 (length z + SORTER_RECORD_SIZE)"
proof -
  show r: "x \<le> ROUND8 x" for x unfolding ROUND8_def by presburger
  have "drop_bit 70 v = 0" by (rule bit_eqI) (simp add: bit_simps)
  then have "sqlite3VarintLen v \<le> 10" using length_put_buf [of 10 v] by (simp add: varintLen_put_buf)
  then show "length z + sqlite3VarintLen v \<le> ROUND8 (length z + SORTER_RECORD_SIZE)"
    using r [of "length z + SORTER_RECORD_SIZE"] by (simp add: SORTER_RECORD_SIZE_def)
qed

lemma sorterWrite_ok:
  assumes "sorter_fits p (z # zs)"
  shows "\<exists>q. sqlite3VdbeSorterWrite (\<lambda>_. True) h p z = Some (SQLITE_OK, q) \<and> pList q = SorterRecord.make z # pList p \<and>
    sKeyInfo q = sKeyInfo p \<and> pUnpacked q = pUnpacked p \<and> typeMask q = typeMask p AND first_type z \<and> sorter_fits q zs"
proof -
  define nReq where "nReq = length z + SORTER_RECORD_SIZE"
  define p' where "p' = p\<lparr>typeMask := typeMask p AND first_type z\<rparr>"
  have room: "sorter_room (z # zs) = ROUND8 nReq + sorter_room zs" "nReq \<le> ROUND8 nReq" "0 < nReq"
    using round8_room(1) [of nReq] by (simp_all add: sorter_room_def nReq_def SORTER_RECORD_SIZE_def)
  have fl: "\<not> sorter_flush h nReq p'"
    using assms room by (auto simp: sorter_flush_def sorter_fits_def p'_def)
  define nPMA where "nPMA = length z + sqlite3VarintLen (of_nat (length z))"
  have pma: "nPMA \<le> ROUND8 nReq" unfolding nPMA_def nReq_def by (rule round8_room(2))
  define q where "q = p'\<lparr>szPMA := szPMA p' + nPMA, mxKeysize := (if nPMA > mxKeysize p' then nPMA else mxKeysize p')\<rparr>"
  have w: "sqlite3VdbeSorterWrite (\<lambda>_. True) h p z =
      (if aMemory q then do {
         (rc, p) \<leftarrow> sorter_reserve (\<lambda>_. True) nReq q;
         Some (if rc \<noteq> SQLITE_OK then (rc, p)
               else (SQLITE_OK, p\<lparr>iMemory := iMemory p + ROUND8 nReq, pList := \<lparr>srVal = z\<rparr> # pList p\<rparr>))
       }
       else Some (SQLITE_OK, q\<lparr>pList := \<lparr>srVal = z\<rparr> # pList q\<rparr>))"
    using fl unfolding sqlite3VdbeSorterWrite_def Let_def q_def p'_def nReq_def nPMA_def first_type_def by (simp only: if_False not_True_eq_False)
  have q: "aMemory q = aMemory p" "pList q = pList p" "sKeyInfo q = sKeyInfo p" "pUnpacked q = pUnpacked p"
    "typeMask q = typeMask p AND first_type z" "mxPmaSize q = mxPmaSize p" "mnPmaSize q = mnPmaSize p"
    "iMemory q = iMemory p" "szPMA q = szPMA p + nPMA" "nMemory q = nMemory p" by (simp_all add: q_def p'_def)
  show ?thesis
  proof (cases "aMemory p")
    case True
    then obtain n where "sorter_reserve (\<lambda>_. True) nReq q = Some (SQLITE_OK, q\<lparr>nMemory := n\<rparr>)" "0 < n"
      using sorter_reserve_ok [of q nReq] room(3) assms by (auto simp: sorter_fits_def q)
    then show ?thesis
      using True assms room pma by (simp add: w q sorter_fits_def SorterRecord.defs) auto
  next
    case False
    then show ?thesis
      using assms room pma by (simp add: w q sorter_fits_def SorterRecord.defs) auto
  qed
qed

lemma sorter_writes_ok:
  assumes "sorter_fits p zs"
  shows "\<exists>p'. sorter_writes (\<lambda>_. True) h p zs = Some (SQLITE_OK, p') \<and> pList p' = rev (map SorterRecord.make zs) @ pList p \<and>
    sKeyInfo p' = sKeyInfo p \<and> pUnpacked p' = pUnpacked p \<and>
    (\<forall>n. bit (typeMask p') n \<longleftrightarrow> bit (typeMask p) n \<and> (\<forall>z \<in> set zs. bit (first_type z) n))"
  using assms
proof (induction zs arbitrary: p)
  case (Cons z zs)
  obtain q where q: "sqlite3VdbeSorterWrite (\<lambda>_. True) (h (length zs)) p z = Some (SQLITE_OK, q)"
    "pList q = SorterRecord.make z # pList p" "sKeyInfo q = sKeyInfo p" "pUnpacked q = pUnpacked p"
    "typeMask q = typeMask p AND first_type z" "sorter_fits q zs" using sorterWrite_ok [OF Cons.prems] by blast
  with Cons.IH [of q] show ?case by (auto simp: bit_and_iff)
qed simp

lemma first_type_bits:
  "bit (first_type z) 0 \<longleftrightarrow> first_type z = SORTER_TYPE_INTEGER" "bit (first_type z) 1 \<longleftrightarrow> first_type z = SORTER_TYPE_TEXT"
  by (auto simp: first_type_def sorter_type_def SORTER_TYPE_INTEGER_def SORTER_TYPE_TEXT_def bit_simps)

text \<open>A sorter before it is sorted: the type mask speaks of all records.\<close>

definition sorter_state :: "nat \<Rightarrow> VdbeSorter \<Rightarrow> bool" where
  "sorter_state fmt p \<longleftrightarrow> pUnpacked p = None \<and> length (pList p) < 2 ^ 64 \<and>
     (\<forall>x \<in> set (pList p). sorter_ok (sKeyInfo p) fmt (srVal x) \<and>
       (typeMask p \<in> {SORTER_TYPE_INTEGER, SORTER_TYPE_TEXT} \<longrightarrow> sorter_ok_type (typeMask p) (sKeyInfo p) fmt (srVal x)))"

text \<open>\<open>l\<close> is the stable sort of \<open>zs\<close>.\<close>

definition stable_sort :: "KeyInfo \<Rightarrow> u8 list list \<Rightarrow> u8 list list \<Rightarrow> bool" where
  "stable_sort ki zs l \<longleftrightarrow> mset l = mset zs \<and> sorted_wrt (\<lambda>x y. sorter_order ki x y \<le> 0) l \<and>
     (\<forall>k \<in> set zs. filter (\<lambda>z. sorter_order ki k z = 0) l = filter (\<lambda>z. sorter_order ki k z = 0) zs)"

lemma stable_sortI:
  assumes "mset l' = mset l" "record_sorter.ordered (sorter_order ki) l'"
    "\<forall>k \<in> set l. record_sorter.same (sorter_order ki) (srVal k) l' = record_sorter.same (sorter_order ki) (srVal k) (rev l)"
  shows "stable_sort ki (map srVal (rev l)) (map srVal l')"
  using assms arg_cong [OF assms(1), of "image_mset srVal"]
  by (simp add: stable_sort_def general_sorter.ordered_def general_sorter.same_def sorted_wrt_map filter_map o_def)

lemma vdbeSorterSort_ok:
  assumes "sorter_state fmt p"
  shows "\<exists>p'. vdbeSorterSort (\<lambda>_ _ _. True) (Some raw) p = Some (SQLITE_OK, p') \<and>
    stable_sort (sKeyInfo p) (map srVal (rev (pList p))) (map srVal (pList p'))"
proof -
  let ?ki = "sKeyInfo p" and ?x = "vdbeSorterGetCompare (\<lambda>_ _ _. True) p" and ?l = "pList p"
  obtain r where r: "vdbeSortAllocUnpacked (Some raw) p = Some r" "sorter_inv ?ki r"
    using assms by (auto simp: vdbeSortAllocUnpacked_def sqlite3VdbeAllocUnpackedRecord_def sorter_state_def sorter_inv_def SQLITE_OK_def)
  have len: "length ?l < 2 ^ 64" using assms by (simp add: sorter_state_def)
  have "\<exists>ss r' l' r''. sort_records ?x r (replicate 64 []) ?l = Some (ss, r') \<and> merge_slots ?x r' [] ss = Some (l', r'') \<and>
    sorter_inv ?ki r'' \<and> stable_sort ?ki (map srVal (rev ?l)) (map srVal l')"
  proof -
    consider "typeMask p = SORTER_TYPE_INTEGER" | "typeMask p = SORTER_TYPE_TEXT" "typeMask p \<noteq> SORTER_TYPE_INTEGER"
      | "typeMask p \<noteq> SORTER_TYPE_INTEGER" "typeMask p \<noteq> SORTER_TYPE_TEXT" by blast
    then show ?thesis
    proof cases
      case 1
      have ok: "\<forall>x \<in> set ?l. sorter_ok_type SORTER_TYPE_INTEGER ?ki fmt (srVal x)" using assms 1 by (simp add: sorter_state_def)
      with int_sorter.sort_ok [OF r(2) _ len, of fmt] show ?thesis
        unfolding int_sorter.oks_def by (auto simp: vdbeSorterGetCompare_def 1 intro!: stable_sortI)
    next
      case 2
      have ok: "\<forall>x \<in> set ?l. sorter_ok_type SORTER_TYPE_TEXT ?ki fmt (srVal x)" using assms 2 by (simp add: sorter_state_def)
      with text_sorter.sort_ok [OF r(2) _ len, of fmt] show ?thesis
        unfolding text_sorter.oks_def using 2 by (auto simp: vdbeSorterGetCompare_def intro!: stable_sortI)
    next
      case 3
      have ok: "\<forall>x \<in> set ?l. sorter_ok ?ki fmt (srVal x)" using assms by (simp add: sorter_state_def)
      with general_sorter.sort_ok [OF r(2) _ len, of fmt] show ?thesis
        unfolding general_sorter.oks_def by (auto simp: vdbeSorterGetCompare_def 3 intro!: stable_sortI)
    qed
  qed
  then show ?thesis by (auto simp: vdbeSorterSort_def r(1) sorter_inv_def Let_def)
qed

lemma sorter_memory_frame:
  "sorter_memory mem_ok db p = (rc, q) \<Longrightarrow> sKeyInfo q = sKeyInfo p \<and> pUnpacked q = pUnpacked p \<and> pList q = pList p \<and>
    typeMask q = typeMask p \<and> iMemory q = iMemory p \<and> szPMA q = szPMA p"
  by (auto simp: sorter_memory_def Let_def split: if_splits)

lemma sorter_memory_limits:
  assumes "sorter_memory mem_ok db p = (rc, q)" "mxPmaSize p = 0" "\<not> aMemory p" "0 < cfg_pgsz db"
  shows "(aMemory q \<longrightarrow> 0 < nMemory q) \<and> (mxPmaSize q = 0 \<or> mnPmaSize q \<le> mxPmaSize q)"
  using assms by (auto simp: sorter_memory_def Let_def split: if_splits)

lemma sorterInit_state:
  assumes "sqlite3VdbeSorterInit True mem_ok db nKey ki dflt = (rc, Some p0)"
  shows "pList p0 = [] \<and> pUnpacked p0 = None \<and> iMemory p0 = 0 \<and> szPMA p0 = 0 \<and>
    nAllField (sKeyInfo p0) = nAllField ki \<and> aColl (sKeyInfo p0) = aColl ki \<and> ki_enc (sKeyInfo p0) = ki_enc ki"
    and "typeMask p0 \<noteq> 0 \<Longrightarrow> dflt \<longrightarrow> aColl ki ! 0 = Some (coll_BINARY (ki_enc ki)) \<Longrightarrow> specialised (sKeyInfo p0)"
  using assms
  by (auto simp: sqlite3VdbeSorterInit_def Let_def specialised_def split: prod.splits if_splits dest!: sorter_memory_frame)

lemma sorterInit_limits:
  assumes "sqlite3VdbeSorterInit True mem_ok db nKey ki dflt = (rc, Some p0)" "0 < cfg_pgsz db"
  shows "(aMemory p0 \<longrightarrow> 0 < nMemory p0) \<and> (mxPmaSize p0 = 0 \<or> mnPmaSize p0 \<le> mxPmaSize p0)"
  using assms
  by (auto simp: sqlite3VdbeSorterInit_def Let_def split: prod.splits if_splits dest!: sorter_memory_limits)

lemma sorter_state_writes:
  assumes "sqlite3VdbeSorterInit True mem_ok db nKey ki dflt = (rc, Some p0)" "0 < cfg_pgsz db"
    and "dflt \<longrightarrow> aColl ki ! 0 = Some (coll_BINARY (ki_enc ki))"
    and "\<forall>z \<in> set zs. sorter_ok (sKeyInfo p0) fmt z" "length zs < 2 ^ 64"
    and "mxPmaSize p0 = 0 \<or> int (sorter_room zs) \<le> mnPmaSize p0"
  shows "\<exists>p1. sorter_writes (\<lambda>_. True) h p0 zs = Some (SQLITE_OK, p1) \<and> sorter_state fmt p1 \<and> sKeyInfo p1 = sKeyInfo p0 \<and>
    map srVal (rev (pList p1)) = zs"
proof -
  note i = sorterInit_state [OF assms(1)]
  have "sorter_fits p0 zs" using i(1) sorterInit_limits [OF assms(1,2)] assms(6) by (auto simp: sorter_fits_def)
  from sorter_writes_ok [OF this, of h] obtain p1 where
    p1: "sorter_writes (\<lambda>_. True) h p0 zs = Some (SQLITE_OK, p1)" "pList p1 = rev (map SorterRecord.make zs) @ pList p0"
      "sKeyInfo p1 = sKeyInfo p0" "pUnpacked p1 = pUnpacked p0"
      "\<And>n. bit (typeMask p1) n \<longleftrightarrow> bit (typeMask p0) n \<and> (\<forall>z \<in> set zs. bit (first_type z) n)" by blast
  have "specialised (sKeyInfo p0) \<and> (\<forall>z \<in> set zs. first_type z = typeMask p1)"
    if t: "typeMask p1 \<in> {SORTER_TYPE_INTEGER, SORTER_TYPE_TEXT}"
  proof -
    have b: "typeMask p1 = SORTER_TYPE_INTEGER \<and> bit (typeMask p1) 0 \<or> typeMask p1 = SORTER_TYPE_TEXT \<and> bit (typeMask p1) 1"
      using t by (auto simp: SORTER_TYPE_INTEGER_def SORTER_TYPE_TEXT_def bit_simps)
    then have "typeMask p0 \<noteq> 0" using p1(5) by auto
    with i(2) assms(3) have "specialised (sKeyInfo p0)" by simp
    moreover have "\<forall>z \<in> set zs. first_type z = typeMask p1" using b p1(5) first_type_bits by metis
    ultimately show ?thesis by blast
  qed
  with i(1) p1 assms(4,5) show ?thesis
    by (auto simp: sorter_state_def sorter_ok_type_def SorterRecord.defs rev_map o_def)
qed

section \<open>Properties of the sorter\<close>

text \<open>
  C3: the sorter sorts.  After \<open>sqlite3VdbeSorterInit\<close>, writing the records of any rows that the sorter
  can keep in memory and \<open>sqlite3VdbeSorterRewind\<close>, all of which succeed, reading the sorter to its end gives
  exactly the records that were written, in the order of their key columns under the collations,
  directions and placement of NULL of these columns, and records with equal keys in the order in which they
  were written.  This holds whichever of the three comparison functions the sorter has chosen and whether
  or not all records share one allocation.  The collations must keep their contract, and the default
  collation of the connection is \<open>BINARY\<close>.
\<close>

theorem sorter_sorts:
  assumes "sqlite3VdbeSorterInit True mem_ok db nKey ki dflt = (SQLITE_OK, Some p0)" and "0 < cfg_pgsz db"
    and "1 \<le> nKeyField (sKeyInfo p0)" and "nKeyField (sKeyInfo p0) \<le> nAllField ki"
    and "\<forall>i < nKeyField (sKeyInfo p0). \<forall>c. aColl ki ! i = Some c \<longrightarrow> comparison (\<lambda>_. True) (xCmp c)"
    and "dflt \<longrightarrow> aColl ki ! 0 = Some (coll_BINARY (ki_enc ki))"
    and "\<forall>vs \<in> set rows. record_values fmt vs \<and> nKeyField (sKeyInfo p0) \<le> length vs \<and> length vs \<le> nAllField ki"
    and "length rows < 2 ^ 64"
    and "mxPmaSize p0 = 0 \<and> \<not> aMemory p0 \<or> int (sorter_room (map (record_bytes fmt) rows)) \<le> mnPmaSize p0"
  shows "\<exists>p1 p2.
    sorter_writes (\<lambda>_. True) heap_full p0 (map (record_bytes fmt) rows) = Some (SQLITE_OK, p1) \<and>
    sqlite3VdbeSorterRewind (\<lambda>_ _ _. True) (Some raw) p1 = Some (SQLITE_OK, rows = [], p2) \<and>
    stable_sort (sKeyInfo p0) (map (record_bytes fmt) rows) (sorter_rows p2)"
proof -
  let ?zs = "map (record_bytes fmt) rows"
  note same = sorterInit_state(1) [OF assms(1)]
  have "sorter_keyinfo (sKeyInfo p0)" using assms(3-5) same by (auto simp: sorter_keyinfo_def intro: collated.intro)
  then have "\<forall>z \<in> set ?zs. sorter_ok (sKeyInfo p0) fmt z"
    using assms(7) same by (auto simp: sorter_ok_def sorter_values_def)
  from sorter_state_writes [OF assms(1,2,6) this, of heap_full] assms(8,9) obtain p1 where
    p1: "sorter_writes (\<lambda>_. True) heap_full p0 ?zs = Some (SQLITE_OK, p1)" "sorter_state fmt p1" "sKeyInfo p1 = sKeyInfo p0"
      "map srVal (rev (pList p1)) = ?zs" by auto
  show ?thesis
  proof (cases "rows = []")
    case True
    then have "pList p1 = []" using p1(4) by simp
    then have "sqlite3VdbeSorterRewind (\<lambda>_ _ _. True) (Some raw) p1 = Some (SQLITE_OK, True, p1)" "sorter_rows p1 = []"
      by (simp_all add: sqlite3VdbeSorterRewind_def sorter_rows_eq)
    then show ?thesis using p1(1) True by (auto simp: stable_sort_def)
  next
    case False
    then have "pList p1 \<noteq> []" using p1(4) by auto
    with vdbeSorterSort_ok [OF p1(2), of raw] p1 False show ?thesis
      by (auto simp: sqlite3VdbeSorterRewind_def sorter_rows_eq)
  qed
qed

text \<open>A sorter on one descending column of two, the first rows of which tie.\<close>

definition sample_sorter_key :: KeyInfo where
  "sample_sorter_key =
     \<lparr>ki_enc = 1, nKeyField = 1, nAllField = 2, aSortFlags = [1, 0], aColl = [Some (coll_BINARY 1), None]\<rparr>"

text \<open>The default configuration, with pages of 4096 bytes and the cache of 2000 KiB.\<close>

definition sample_config :: SorterConfig where
  "sample_config = \<lparr>tempInMemory = False, bCoreMutex = True, limitWorkerThreads = 0, cfg_pgsz = 4096, cfg_szPma = 250,
     cache_size = -2000, bSmallMalloc = False\<rparr>"

theorem sorter_sorts_witness:
  "\<exists>p0 p1 p2.
    sqlite3VdbeSorterInit True (\<lambda>_. True) sample_config 0 sample_sorter_key True = (SQLITE_OK, Some p0) \<and> mxPmaSize p0 = 2048000 \<and>
    sorter_writes (\<lambda>_. True) (\<lambda>_. False) p0
      (map (record_bytes 4) [[VInt 300, VNull], [VInt 300, VText [97]], [VInt 1000, VInt 1]]) = Some (SQLITE_OK, p1) \<and>
    sqlite3VdbeSorterRewind (\<lambda>_ _ _. True) (Some sample_key) p1 = Some (SQLITE_OK, False, p2) \<and>
    stable_sort sample_sorter_key
      (map (record_bytes 4) [[VInt 300, VNull], [VInt 300, VText [97]], [VInt 1000, VInt 1]]) (sorter_rows p2)"
proof -
  let ?rows = "[[VInt 300, VNull], [VInt 300, VText [97]], [VInt 1000, VInt 1]]"
  define p0 where "p0 = the (snd (sqlite3VdbeSorterInit True (\<lambda>_. True) sample_config 0 sample_sorter_key True))"
  have ki: "sqlite3VdbeSorterInit True (\<lambda>_. True) sample_config 0 sample_sorter_key True = (SQLITE_OK, Some p0)"
    "sKeyInfo p0 = sample_sorter_key" "mnPmaSize p0 = 1024000" "mxPmaSize p0 = 2048000"
    by (simp_all add: p0_def sqlite3VdbeSorterInit_def sorter_memory_def sorter_nWorker_def sample_config_def SQLITE_MAX_PMASZ_def Let_def)
  have k: "nKeyField sample_sorter_key = 1" "nAllField sample_sorter_key = 2" "aColl sample_sorter_key ! 0 = Some (coll_BINARY 1)"
    "ki_enc sample_sorter_key = 1" by (simp_all add: sample_sorter_key_def)
  have len: "length (record_bytes 4 [VInt 300, VNull]) = 5" "length (record_bytes 4 [VInt 300, VText [97]]) = 6"
    "length (record_bytes 4 [VInt 1000, VInt 1]) = 5" by code_simp+
  then have "\<forall>vs \<in> set ?rows. record_values 4 vs \<and> nKeyField (sKeyInfo p0) \<le> length vs \<and> length vs \<le> nAllField sample_sorter_key"
    by (simp add: record_values_def ki k)
  moreover have "\<forall>i < nKeyField (sKeyInfo p0). \<forall>c. aColl sample_sorter_key ! i = Some c \<longrightarrow> comparison (\<lambda>_. True) (xCmp c)"
    using binary.comparison_axioms by (simp add: ki k coll_BINARY_def)
  moreover have "int (sorter_room (map (record_bytes 4) ?rows)) \<le> mnPmaSize p0"
    using len by (simp add: sorter_room_def ROUND8_def SORTER_RECORD_SIZE_def ki)
  ultimately have "\<exists>p1 p2.
      sorter_writes (\<lambda>_. True) (\<lambda>_. False) p0 (map (record_bytes 4) ?rows) = Some (SQLITE_OK, p1) \<and>
      sqlite3VdbeSorterRewind (\<lambda>_ _ _. True) (Some sample_key) p1 = Some (SQLITE_OK, ?rows = [], p2) \<and>
      stable_sort (sKeyInfo p0) (map (record_bytes 4) ?rows) (sorter_rows p2)"
    by (intro sorter_sorts [OF ki(1)]) (simp_all add: ki k sample_config_def)
  then show ?thesis using ki by (simp only: list.distinct simp_thms) blast
qed

lemma list_ex_prefix:
  "n \<le> length xs \<Longrightarrow> list_ex (\<lambda>i. P ((xs @ ys) ! i)) [0..<n] \<longleftrightarrow> (\<exists>x \<in> set (take n xs). P x)"
proof -
  assume n: "n \<le> length xs"
  then have "set (take n xs) = (!) xs ` {0..<n}" by (simp add: nth_image)
  with n show ?thesis by (auto simp: list_ex_iff nth_append)
qed

text \<open>Comparing a record with a key of the first \<open>n\<close> values of another.\<close>

lemma recordCompare_prefix:
  assumes vs: "record_values fmt vs" "n \<le> length vs" and ws: "record_values fmt ws" "n \<le> length ws"
    and n: "1 \<le> n" "n \<le> nAllField (pKeyInfo r)" "nField r = n"
  shows "\<exists>res r'. sqlite3VdbeRecordCompare (\<lambda>_ _ _. True) (length (record_bytes fmt vs)) (mem_of (record_bytes fmt vs))
      (unpack_into (record_bytes fmt ws) r) = Some (res, r') \<and>
    sgn res = sgn (key_cmp (pKeyInfo r) 0 (take n (map stored vs)) (take n (map stored ws)))"
proof -
  let ?r = "unpack_into (record_bytes fmt ws) r" and ?W = "take n (map stored ws)"
  have r: "aMem ?r = ?W @ drop n (aMem r)" "nField ?r = n" "pKeyInfo ?r = pKeyInfo r" "default_rc ?r = 0"
    using unpack_prefix [OF ws(1) n(1) ws(2)] ws(2) by (simp_all add: unpack_into_def Let_def n(3))
  have "list_all cell_ok (map stored ws)" using ws(1) stored_cell_ok by (auto simp: record_values_def list_all_iff)
  then have "list_all cell_ok ?W" unfolding list_all_iff using in_set_takeD by fast
  then have "key_ok ?r" using n ws(2) by (simp add: key_ok_def r)
  from recordCompare_verdict [OF vs(1) this] key_order_prefix [of ?W "map stored vs" "pKeyInfo r" 0] vs(2) ws(2)
  have "key_verdict ?r (Some (key_cmp (pKeyInfo r) 0 (take n (map stored vs)) ?W))
      (sqlite3VdbeRecordCompare (\<lambda>_ _ _. True) (length (record_bytes fmt vs)) (mem_of (record_bytes fmt vs)) ?r)"
    by (simp add: r)
  then show ?thesis unfolding key_verdict_def option.case r(4) by (auto split: if_splits) (metis sgn_sgn)
qed

text \<open>
  C15: \<open>sqlite3VdbeSorterCompare\<close> looks for a second entry with the key of the current one.  If one of the first
  \<open>nKeyCol\<close> values of the current record of the sorter is NULL, the result is negative whatever the given
  record holds, so that it does not count as equal; otherwise its sign is that of the order of the
  first \<open>nKeyCol\<close> values of the given record and of the current one.
\<close>

theorem sorterCompare_key:
  assumes "record_values fmt vs" and "nKeyCol \<le> length vs" and "record_values fmt ws" and "nKeyCol \<le> length ws"
    and "1 \<le> nKeyCol" and "nKeyCol \<le> nAllField ki" and "pList p = \<lparr>srVal = record_bytes fmt ws\<rparr> # l"
    and "\<forall>r2. r = Some r2 \<longrightarrow> pKeyInfo r2 = ki \<and> nField r2 = nKeyCol"
  shows "\<exists>res r'.
    sqlite3VdbeSorterCompare (\<lambda>_ _ _. True) (Some raw) r ki p (record_bytes fmt vs) nKeyCol = Some (SQLITE_OK, res, r') \<and>
    sgn res = (if \<exists>w \<in> set (take nKeyCol ws). value_class (stored w) = 0 then -1
      else sgn (key_cmp ki 0 (take nKeyCol (map stored vs)) (take nKeyCol (map stored ws))))"
proof -
  define r2 where "r2 = (case r of Some r2 \<Rightarrow> r2
    | None \<Rightarrow> raw\<lparr>pKeyInfo := ki, aMem := replicate (nKeyField ki + 1) VNull, nField := nKeyCol\<rparr>)"
  have r2: "pKeyInfo r2 = ki" "nField r2 = nKeyCol"
    "(case r of Some r2 \<Rightarrow> Some r2 | None \<Rightarrow> map_option (\<lambda>r2. r2\<lparr>nField := nKeyCol\<rparr>) (sqlite3VdbeAllocUnpackedRecord (Some raw) ki)) = Some r2"
    using assms(8) by (auto simp: r2_def sqlite3VdbeAllocUnpackedRecord_def split: option.splits)
  let ?r = "unpack_into (record_bytes fmt ws) r2"
  have m: "aMem ?r = take nKeyCol (map stored ws) @ drop nKeyCol (aMem r2)"
    using unpack_prefix [OF assms(3,5,4)] assms(4) by (simp add: unpack_into_def Let_def r2(2))
  have null: "list_ex (\<lambda>i. mem_flags (aMem ?r ! i) AND MEM_Null \<noteq> 0) [0..<nKeyCol] \<longleftrightarrow>
      (\<exists>w \<in> set (take nKeyCol ws). value_class (stored w) = 0)"
    unfolding m flag_null using list_ex_prefix [of nKeyCol "take nKeyCol (map stored ws)"] assms(4) by (simp add: take_map)
  obtain res r' where res: "sqlite3VdbeRecordCompare (\<lambda>_ _ _. True) (length (record_bytes fmt vs)) (mem_of (record_bytes fmt vs)) ?r = Some (res, r')"
    "sgn res = sgn (key_cmp ki 0 (take nKeyCol (map stored vs)) (take nKeyCol (map stored ws)))"
    using recordCompare_prefix [OF assms(1-5), of r2] assms(6) r2 by auto
  have key: "vdbeSorterRowkey p = Some (record_bytes fmt ws)" by (simp add: vdbeSorterRowkey_def assms(7))
  show ?thesis
    unfolding sqlite3VdbeSorterCompare_def r2(3) option.case key using res null by simp
qed

theorem sorterCompare_key_witness:
  "\<exists>res r'.
    sqlite3VdbeSorterCompare (\<lambda>_ _ _. True) (Some sample_key) None sample_sorter_key
      \<lparr>mnPmaSize = 0, mxPmaSize = 0, mxKeysize = 0, sKeyInfo = sample_sorter_key, pUnpacked = None,
       pList = [\<lparr>srVal = record_bytes 4 [VNull, VInt 1]\<rparr>], aMemory = False, szPMA = 0, iMemory = 0, nMemory = 0, typeMask = 0\<rparr>
      (record_bytes 4 [VNull, VInt 1]) 1 = Some (SQLITE_OK, res, r') \<and> res < 0"
    (is "\<exists>res r'. sqlite3VdbeSorterCompare _ _ _ _ ?p _ _ = _ \<and> _")
proof -
  have "length (record_bytes 4 [VNull, VInt 1]) = 3" by code_simp
  then have v: "record_values 4 [VNull, VInt 1]" by (simp add: record_values_def)
  have p: "pList ?p = \<lparr>srVal = record_bytes 4 [VNull, VInt 1]\<rparr> # []" by simp
  have "\<exists>w \<in> set (take 1 [VNull, VInt 1]). value_class (stored w) = 0" by simp
  then show ?thesis
    using sorterCompare_key [OF v _ v _ _ _ p, of 1 sample_sorter_key None sample_key]
    by (auto simp: sample_sorter_key_def sgn_1_neg)
qed

end
