(* ===== verification/Spec2Isabelle.thy ===== *)
theory Spec2Isabelle
  imports Sq_Varint Sq_Int Sq_Ctype Sq_Text Sq_Base64 Sq_Utf Sq_Record Sq_Parse Sq_Complete Sq_Bitvec Sq_Like Sq_Hash Sq_Rowset Sq_Sorting
begin

text \<open>
  \<^bold>\<open>A verification of the C code inside the Wine Cellar application.\<close>

  Wine Cellar is a Flutter application that keeps a wine collection in a local SQLite database.  The
  C code of the repository is the database engine (\<open>src/macos/Pods/sqlite3/sqlite-src-3520000/sqlite3.c\<close>,
  the amalgamation of SQLite 3.52) and a Base-64 codec of the realtime-database client
  (\<open>.../SocketRocket/fbase64.c\<close>).  Every query of the application runs through the code modelled here:
  its text is cut into statements and tokens, names and literals are converted, and rows become
  records of varints, integers and text in one of three encodings.

  \<^bold>\<open>Parts and theories.\<close>  The build is the one of the repository: a 64-bit little-endian target, in the
  portable branches of its conditional compilation, ASCII, \<open>SQLITE_LIKE_DOESNT_MATCH_BLOBS\<close>.

  \<^item> \<open>Sq_Prelude\<close>: the C integer types as words, memory behind a pointer, NUL-terminated strings, bit
    lemmas, the locale \<open>tokenizer\<close> of scanners that always make progress.
  \<^item> \<open>Sq_Varint\<close>: \<open>sqlite3PutVarint\<close>, \<open>putVarint64\<close>, \<open>sqlite3GetVarint\<close> and its 32-bit variant,
    \<open>sqlite3VarintLen\<close>, the big-endian 4-byte integers.  The unrolled reader equals a loop over the
    documented format, reads back what was written, and reads no byte beyond its result.
  \<^item> \<open>Sq_Int\<close>: checked 64-bit arithmetic, the 128-bit product, \<open>LogEst\<close>.  Overflow is reported exactly
    where it happens; a logarithm is the nearest integer for a number of four leading bits.
  \<^item> \<open>Sq_Ctype\<close>: the character tables and comparison of names without regard to case, which is an order of
    their lower-case bytes.
  \<^item> \<open>Sq_Text\<close>: integers to and from text (\<open>sqlite3Atoi64\<close>, \<open>sqlite3Int64ToText\<close>, \<open>sqlite3GetInt32\<close>,
    \<open>sqlite3GetUInt32\<close>), hexadecimal blobs, \<open>sqlite3Dequote\<close>.
  \<^item> \<open>Sq_Base64\<close>: \<open>f_b64_ntop\<close> and \<open>f_b64_pton\<close>: over buffers whose accesses are checked.  They are inverse to
    each other, the decoder accepts nothing but canonical encodings, and it never leaves its target.
  \<^item> \<open>Sq_Utf\<close>: UTF-8 and UTF-16 reading and writing, \<open>sqlite3VdbeMemTranslate\<close>.  Translation keeps
    characters and fits the buffer that is allocated for it, also for malformed text.
  \<^item> \<open>Sq_Record\<close>: serial types, \<open>OP_MakeRecord\<close> and \<open>sqlite3VdbeRecordUnpack\<close>.  Rows survive the record
    format, and no record overruns the space computed for it.
  \<^item> \<open>Sq_Compare\<close>: \<open>sqlite3MemCompare\<close>, the exact comparison of integers with doubles, blobs, and the
    collations BINARY, NOCASE and RTRIM.  Values compare in the documented order; the locale
    \<open>comparison\<close> states the contract of a comparison function and is interpreted on the collations, the
    locale \<open>collated\<close> extends it to cells.
  \<^item> \<open>Sq_Keycmp\<close>: index keys.  \<open>sqlite3VdbeRecordCompare\<close> on serialized records decides the lexicographic
    order of their columns with collations and sort flags, the specialised functions that
    \<open>sqlite3VdbeFindCompare\<close> picks agree with it, and the order of index entries is a total preorder.
  \<^item> \<open>Sq_Sorter\<close>, \<open>Sq_Sorting\<close>: the sorter of vdbesort.c while its records are in memory.  The locale
    \<open>record_sorter\<close> extends \<open>comparison\<close> by the state of a comparison function and holds the proof of the
    merge sort over 64 slots; it is interpreted on the general comparison and on those for integers and
    text.  A sorter that is filled and rewound reads back a stable sort of its records.
  \<^item> \<open>Sq_Keyword\<close>, \<open>Sq_Token\<close>, \<open>Sq_Parse\<close>: the perfect-hash keyword table, \<open>sqlite3GetToken\<close>, and the loop
    of \<open>sqlite3RunParser\<close>.  The table knows the 147 keywords, exactly for words of letters and underscores and
    up to bit 5 for other bytes; a token never leaves the text; the parser is fed every token once, with its type.
  \<^item> \<open>Sq_Complete\<close>: the state machine of \<open>sqlite3_complete\<close> and the statements it accepts.
  \<^item> \<open>Sq_Bitvec\<close>: the page sets of bitvec.c.  The locale \<open>index_set\<close> states what a set of numbers
    promises; its interpretation shows that bitmaps, hash tables and sub-bitvecs keep the promise.
  \<^item> \<open>Sq_Like\<close>: LIKE and GLOB.  \<open>patternCompare\<close>, with its pruned recursion over bytes, decides the
    declarative definition of matching over characters.
  \<^item> \<open>Sq_Hash\<close>: the symbol tables of hash.c over an explicit store of elements and pointers.  The locale
    \<open>name_table\<close> states what a table of names promises; its interpretation shows that the doubly linked
    list with its buckets, through insertion, removal and rehashing, is a map from names without
    regard to case, and that no operation follows a dangling pointer.
  \<^item> \<open>Sq_Rowset\<close>: the row sets of rowset.c, again over an explicit store: merge sort with 40 buckets, the
    forest of search trees, extraction in order.  The locale \<open>batch_set\<close> states the batch rule of
    insertions and tests; its interpretation shows that the pointer code keeps it, and further lemmas that
    the trees are balanced, that no entry leaks and what a failed allocation does.

  \<^bold>\<open>How the code is modelled.\<close>  Each C function is a definition with its name; loops are recursive
  functions, early returns are branches, output parameters are parts of the result, and errors are
  values.  Machine integers are words wherever they wrap; sizes and indexes that the code keeps in
  range are natural numbers, with the range as a hypothesis.  Memory failures are inputs of the model,
  and so is the generated parser behind \<open>sqlite3RunParser\<close>.

  \<^bold>\<open>Fuel and bounds.\<close>  All functions are total except where stated.  \<open>bitvec_set\<close> has the depth of calls as
  fuel: 9 is enough since \<open>3968 * 62 ^ 4 > 2 ^ 32\<close> and each level of sub-bitvecs takes two calls.  A probe
  of a bitvec hash table makes at most 124 steps before it counts as stuck, so that the operation has no
  result, and is shown never to be.  The loops of hash.c have the number of elements as fuel, which is
  shown to be enough: every sequence of operations on a fresh bitvec or hash table has a result.
  Keyword chains are walked with the 148 entries of the table as bound.  The loops of rowset.c are partial
  functions whose value is \<open>None\<close> if they do not end or leave the store; they are shown to have a value,
  for fewer than \<open>2 ^ 40\<close> pending rowids, which is what the 40 buckets of the sort have room for.  In the
  same way the 64 slots of the sorter hold fewer than \<open>2 ^ 64\<close> records, and \<open>None\<close> also stands for a sorter
  that starts to use files.

  \<^bold>\<open>Not modelled.\<close>  The Dart application, the Swift and Objective-C libraries and leveldb are not C.
  Of SQLite: the virtual machine and code generator, the LALR tables of the generated parser, pager,
  B-tree, write-ahead log and operating-system layer, the files and threads of the sorter, floating-point printing and parsing, date and
  JSON functions, full-text search, R-trees and sessions; and functions that only free memory.  Doubles
  appear only where they are stored and compared, as bit patterns with their exact values.
\<close>

section \<open>Tokens and names\<close>

text \<open>
  C31: a quoted name goes through the tokenizer and the parser's dequoting unchanged.  For a C string
  \<open>s\<close>, whose bytes are not NUL, the text made of a quote character, \<open>s\<close> with its quotes doubled and the quote character is one
  token for \<open>sqlite3GetToken\<close> if the next byte is not the quote character; its type is \<open>TK_STRING\<close> for
  the single quote and \<open>TK_ID\<close> for the others; and \<open>sqlite3Dequote\<close> of the bytes of that token is \<open>s\<close>.
\<close>

theorem quoted_name_survives:
  assumes "q \<in> {39, 34, 96}" "zat rest 0 \<noteq> q"
    and "z = q # double_quote q s @ q # rest"
  shows "snd (sqlite3GetToken z) = (if q = 39 then TK_STRING else TK_ID) \<and>
    drop (fst (sqlite3GetToken z)) z = rest \<and>
    sqlite3Dequote (take (fst (sqlite3GetToken z)) z) = Some s"
proof -
  have t: "sqlite3GetToken z = (length (double_quote q s) + 2, if q = 39 then TK_STRING else TK_ID)"
    unfolding assms(3) by (rule getToken_quoted [OF assms(1,2)])
  have "closing q = q" "sqlite3Isquote q" "zat [] 0 \<noteq> closing q"
    using assms(1) by (auto simp: closing_def isquote_iff)
  with dequote_of_quoted [of q "[]" s] have "sqlite3Dequote (q # double_quote q s @ [q]) = Some s" by simp
  with t assms(3) show ?thesis by simp
qed

theorem quoted_name_survives_witness:
  "sqlite3Dequote (take (fst (sqlite3GetToken [34, 97, 34, 34, 98, 34, 59])) [34, 97, 34, 34, 98, 34, 59]) = Some [97, 34, 98]"
  using quoted_name_survives [of 34 "[59]" "[34, 97, 34, 34, 98, 34, 59]" "[97, 34, 98]"] by simp

end
